(* ===== verification/Prelude.thy ===== *)
theory Prelude
  imports Main "HOL-Library.Word" "HOL-Library.Monad_Syntax"
begin

text \<open>
  Shared vocabulary of the development: the integer types of the modelled
  target, the fault monad, and the generic facts on options, lists and words
  the component theories rest on.

  The target is an LP64 little-endian machine: \<open>char\<close> is an 8-bit byte,
  \<open>int\<close> has 32 bits, \<open>long\<close>, \<open>size_t\<close>, pointers and \<open>time_t\<close> have 64.
  A computation that may touch memory has type \<open>'a option\<close>: \<open>None\<close> is an access the
  machine refuses (an unmapped or misaligned address) or a loop that never
  ends, so \<open>f x = Some y\<close> says that the call returns, returns \<open>y\<close>, and
  makes no such access.
\<close>

unbundle bit_operations_syntax

type_synonym u8 = "8 word"
type_synonym u16 = "16 word"
type_synonym u32 = "32 word"
type_synonym u64 = "64 word"

named_theorems mem_simps "rewriting of loads and stores"
named_theorems mem_intros "introduction rules for mapped ranges"
named_theorems cint_simps "C integer arithmetic on its mathematical meaning"

declare Option.bind_cong [fundef_cong]

lemma bind_eq_SomeE:
  assumes "Option.bind x f = Some y"
  obtains a where "x = Some a" and "f a = Some y"
  using assms by (cases x) auto

lemma bind_Some_iff: "Option.bind x f = Some y \<longleftrightarrow> (\<exists>a. x = Some a \<and> f a = Some y)"
  by (cases x) auto

lemma takeWhile_notin:
  "d \<notin> set ys \<Longrightarrow> takeWhile (\<lambda>b. b \<noteq> d) (ys @ zs) = ys @ takeWhile (\<lambda>b. b \<noteq> d) zs"
  by (induction ys) auto

lemma mod8_add: "a mod 8 = 0 \<Longrightarrow> b mod 8 = 0 \<Longrightarrow> (a + b) mod 8 = (0::nat)"
  by presburger

subsection \<open>Truncating division\<close>

text \<open>C division rounds towards zero and the remainder takes the sign of the dividend.\<close>

definition cdiv :: "int \<Rightarrow> int \<Rightarrow> int" where
  "cdiv a b = sgn a * sgn b * (\<bar>a\<bar> div \<bar>b\<bar>)"

definition cmod :: "int \<Rightarrow> int \<Rightarrow> int" where
  "cmod a b = a - cdiv a b * b"

lemma cdiv_nonneg [cint_simps]: "0 \<le> a \<Longrightarrow> 0 < b \<Longrightarrow> cdiv a b = a div b"
  by (cases "a = 0") (simp_all add: cdiv_def)

lemma cmod_nonneg [cint_simps]: "0 \<le> a \<Longrightarrow> 0 < b \<Longrightarrow> cmod a b = a mod b"
  by (simp add: cmod_def cdiv_nonneg minus_div_mult_eq_mod)

lemma cdiv_neg: "a < 0 \<Longrightarrow> 0 < b \<Longrightarrow> cdiv a b = - ((- a) div b)"
  by (simp add: cdiv_def)

lemma cmod_neg: "a < 0 \<Longrightarrow> 0 < b \<Longrightarrow> cmod a b = - ((- a) mod b)"
  by (simp add: cmod_def cdiv_neg minus_mod_eq_mult_div [symmetric] algebra_simps)

lemma cdiv_cmod: "cdiv a b * b + cmod a b = a"
  by (simp add: cmod_def)

lemma cmod_bound: "0 < b \<Longrightarrow> \<bar>cmod a b\<bar> < b"
  by (cases "a < 0") (simp_all add: cmod_neg cmod_nonneg)

end
