(* ===== verification/CMem.thy ===== *)
theory CMem
  imports Prelude
begin

text \<open>
  Byte-addressed memory. A memory maps the addresses a program may touch to
  their bytes; every other address is unmapped, and an access to it is
  \<open>None\<close>. Because nothing outside the mapped addresses can be read, a theorem that maps just the
  objects a call is given also says that the call stays inside them.
  \<open>blit\<close> is the abstract copy the block routines are compared with.
\<close>

type_synonym addr = nat
type_synonym mem = "addr \<rightharpoonup> u8"

abbreviation (input) NULL :: addr where "NULL \<equiv> 0"

subsection \<open>Byte access\<close>

definition load8 :: "mem \<Rightarrow> addr \<Rightarrow> u8 option" where
  "load8 m a = m a"

definition store8 :: "mem \<Rightarrow> addr \<Rightarrow> u8 \<Rightarrow> mem option" where
  "store8 m a b = (if m a = None then None else Some (m(a \<mapsto> b)))"

definition mapped :: "mem \<Rightarrow> addr \<Rightarrow> nat \<Rightarrow> bool" where
  "mapped m p n \<longleftrightarrow> (\<forall>a. p \<le> a \<longrightarrow> a < p + n \<longrightarrow> m a \<noteq> None)"

fun load_bytes :: "mem \<Rightarrow> addr \<Rightarrow> nat \<Rightarrow> u8 list option" where
  "load_bytes m a 0 = Some []"
| "load_bytes m a (Suc n) =
     do { b \<leftarrow> load8 m a; bs \<leftarrow> load_bytes m (Suc a) n; Some (b # bs) }"

fun store_bytes :: "mem \<Rightarrow> addr \<Rightarrow> u8 list \<Rightarrow> mem option" where
  "store_bytes m a [] = Some m"
| "store_bytes m a (b # bs) = do { m' \<leftarrow> store8 m a b; store_bytes m' (Suc a) bs }"

subsection \<open>Word access\<close>

text \<open>
  Little-endian words of \<open>n\<close> bytes. A word access needs an address that is a
  multiple of the word size, as a strict-alignment machine demands.
\<close>

definition word_of_bytes :: "u8 list \<Rightarrow> 'a::len word" where
  "word_of_bytes bs = foldr (\<lambda>b w. push_bit 8 w OR ucast b) bs 0"

definition word_to_bytes :: "nat \<Rightarrow> 'a::len word \<Rightarrow> u8 list" where
  "word_to_bytes n w = map (\<lambda>i. ucast (drop_bit (8 * i) w)) [0..<n]"

definition load64 :: "mem \<Rightarrow> addr \<Rightarrow> u64 option" where
  "load64 m a = (if a mod 8 = 0 then map_option word_of_bytes (load_bytes m a 8) else None)"

definition store64 :: "mem \<Rightarrow> addr \<Rightarrow> u64 \<Rightarrow> mem option" where
  "store64 m a w = (if a mod 8 = 0 then store_bytes m a (word_to_bytes 8 w) else None)"

definition load32 :: "mem \<Rightarrow> addr \<Rightarrow> u32 option" where
  "load32 m a = (if a mod 4 = 0 then map_option word_of_bytes (load_bytes m a 4) else None)"

definition store32 :: "mem \<Rightarrow> addr \<Rightarrow> u32 \<Rightarrow> mem option" where
  "store32 m a w = (if a mod 4 = 0 then store_bytes m a (word_to_bytes 4 w) else None)"

subsection \<open>Abstract views\<close>

fun bytes_at :: "mem \<Rightarrow> addr \<Rightarrow> u8 list \<Rightarrow> bool" where
  "bytes_at m p [] \<longleftrightarrow> True"
| "bytes_at m p (x # xs) \<longleftrightarrow> m p = Some x \<and> bytes_at m (Suc p) xs"

text \<open>A NUL-terminated string at \<open>p\<close>.\<close>

fun cstr :: "mem \<Rightarrow> addr \<Rightarrow> u8 list \<Rightarrow> bool" where
  "cstr m p [] \<longleftrightarrow> m p = Some 0"
| "cstr m p (x # xs) \<longleftrightarrow> m p = Some x \<and> x \<noteq> 0 \<and> cstr m (Suc p) xs"

definition put_bytes :: "mem \<Rightarrow> addr \<Rightarrow> u8 list \<Rightarrow> mem" where
  "put_bytes m p xs = (\<lambda>a. if p \<le> a \<and> a < p + length xs then Some (xs ! (a - p)) else m a)"

definition blit :: "mem \<Rightarrow> addr \<Rightarrow> addr \<Rightarrow> nat \<Rightarrow> mem" where
  "blit m d s n = (\<lambda>a. if d \<le> a \<and> a < d + n then m (s + a - d) else m a)"

subsection \<open>Mapped ranges\<close>

lemma mapped_0 [simp]: "mapped m p 0"
  by (simp add: mapped_def)

lemma mappedD: "mapped m p n \<Longrightarrow> p \<le> a \<Longrightarrow> a < p + n \<Longrightarrow> \<exists>b. m a = Some b"
  by (auto simp: mapped_def)

lemma mapped_sub [mem_intros]: "mapped m p n \<Longrightarrow> p \<le> q \<Longrightarrow> q + k \<le> p + n \<Longrightarrow> mapped m q k"
  by (auto simp: mapped_def)

lemma mapped_Suc: "mapped m p (Suc n) \<longleftrightarrow> m p \<noteq> None \<and> mapped m (Suc p) n"
  by (auto simp: mapped_def) (metis Suc_leI add_Suc_right le_neq_implies_less option.distinct(1))

lemma mapped_join: "mapped m p n \<Longrightarrow> mapped m (p + n) k \<Longrightarrow> mapped m p (n + k)"
  by (fastforce simp: mapped_def not_less)

lemma mapped_upd [mem_intros]: "mapped m p n \<Longrightarrow> mapped (m(a \<mapsto> b)) p n"
  by (auto simp: mapped_def)

lemma bytes_at_iff: "bytes_at m p xs \<longleftrightarrow> (\<forall>i < length xs. m (p + i) = Some (xs ! i))"
  by (induction xs arbitrary: p) (auto simp: less_Suc_eq_0_disj nth_Cons split: nat.splits)

lemma bytes_at_mapped [mem_intros]: "bytes_at m p xs \<Longrightarrow> mapped m p (length xs)"
  by (induction xs arbitrary: p) (auto simp: mapped_Suc)

lemma bytes_at_append: "bytes_at m p (xs @ ys) \<longleftrightarrow> bytes_at m p xs \<and> bytes_at m (p + length xs) ys"
  by (induction xs arbitrary: p) auto

lemma cstr_iff: "cstr m p xs \<longleftrightarrow> bytes_at m p (xs @ [0]) \<and> 0 \<notin> set xs"
  by (induction xs arbitrary: p) auto

lemma cstr_mapped [mem_intros]: "cstr m p xs \<Longrightarrow> mapped m p (Suc (length xs))"
  by (induction xs arbitrary: p) (auto simp: mapped_Suc)

lemma cstr_unique: "cstr m p xs \<Longrightarrow> cstr m p ys \<Longrightarrow> xs = ys"
proof (induction xs arbitrary: p ys)
  case Nil
  then show ?case by (cases ys) auto
next
  case (Cons x xs)
  then show ?case by (cases ys) auto
qed

lemma mapped_obtain_bytes:
  assumes "mapped m p n"
  obtains xs where "length xs = n" and "bytes_at m p xs"
proof -
  have "bytes_at m p (map (\<lambda>i. the (m (p + i))) [0..<n])"
    using assms by (auto simp: bytes_at_iff mapped_def)
  then show thesis by (intro that) simp_all
qed

subsection \<open>Loads and stores of byte runs\<close>

lemma load8_eq [mem_simps]: "load8 m a = m a"
  by (simp add: load8_def)

lemma store8_mapped [mem_simps]: "m a \<noteq> None \<Longrightarrow> store8 m a b = Some (m(a \<mapsto> b))"
  by (simp add: store8_def)

lemma load_bytes_at [mem_simps]: "bytes_at m p xs \<Longrightarrow> load_bytes m p (length xs) = Some xs"
  by (induction xs arbitrary: p) (simp_all add: load8_def)

lemma put_bytes_Nil [simp]: "put_bytes m p [] = m"
  by (auto simp: put_bytes_def fun_eq_iff)

lemma put_bytes_Cons: "put_bytes m p (x # xs) = put_bytes (m(p \<mapsto> x)) (Suc p) xs"
  by (rule ext) (auto simp: put_bytes_def nth_Cons' Suc_le_eq)

lemma store_bytes_eq [mem_simps]:
  "mapped m p (length xs) \<Longrightarrow> store_bytes m p xs = Some (put_bytes m p xs)"
proof (induction xs arbitrary: m p)
  case Nil
  show ?case by simp
next
  case (Cons x xs)
  then have "mapped (m(p \<mapsto> x)) (Suc p) (length xs)" and "m p \<noteq> None"
    by (auto simp: mapped_Suc mapped_upd)
  then show ?case using Cons.IH by (simp add: store8_def put_bytes_Cons)
qed

lemma put_bytes_apply: "put_bytes m p xs a =
    (if p \<le> a \<and> a < p + length xs then Some (xs ! (a - p)) else m a)"
  by (simp add: put_bytes_def)

lemma put_bytes_append: "put_bytes (put_bytes m p xs) (p + length xs) ys = put_bytes m p (xs @ ys)"
  by (auto simp: put_bytes_def fun_eq_iff nth_append)

lemma bytes_at_put_same: "bytes_at (put_bytes m p xs) p xs"
  by (simp add: bytes_at_iff put_bytes_def)

lemma bytes_at_put_other:
  assumes "q + length ys \<le> p \<or> p + length xs \<le> q"
  shows "bytes_at (put_bytes m p xs) q ys = bytes_at m q ys"
proof -
  have "put_bytes m p xs (q + i) = m (q + i)" if "i < length ys" for i
    using assms that by (auto simp: put_bytes_def)
  then show ?thesis by (simp add: bytes_at_iff)
qed

lemma bytes_at_upd_other:
  "q + length ys \<le> a \<or> a < q \<Longrightarrow> bytes_at (m(a \<mapsto> b)) q ys = bytes_at m q ys"
  by (induction ys arbitrary: q) auto

lemma mapped_put_bytes [mem_intros]: "mapped m q n \<Longrightarrow> mapped (put_bytes m p xs) q n"
  by (auto simp: mapped_def put_bytes_def)

lemma mapped_put_inside [mem_intros]:
  "p \<le> q \<Longrightarrow> q + n \<le> p + length xs \<Longrightarrow> mapped (put_bytes m p xs) q n"
  by (auto simp: mapped_def put_bytes_def)

lemma put_bytes_single [simp]: "put_bytes m p [x] = m(p \<mapsto> x)"
  by (simp add: put_bytes_Cons)

lemma put_bytes_blit: "bytes_at m s xs \<Longrightarrow> length xs = n \<Longrightarrow> put_bytes m d xs = blit m d s n"
proof (rule ext)
  fix a
  assume xs: "bytes_at m s xs" and n: "length xs = n"
  have "m (s + (a - d)) = Some (xs ! (a - d))" if "d \<le> a" "a < d + n"
    using xs n that by (simp only: bytes_at_iff)
  with n show "put_bytes m d xs a = blit m d s n a" by (simp add: put_bytes_def blit_def)
qed

subsection \<open>Composing copies\<close>

lemma blit_0 [simp]: "blit m d s 0 = m"
  by (auto simp: blit_def fun_eq_iff)

lemma blit_1: "m s = Some b \<Longrightarrow> m(d \<mapsto> b) = blit m d s 1"
  by (auto simp: blit_def fun_eq_iff)

text \<open>
  Copying upwards is right when the destination starts below the source or the
  ranges do not meet; copying downwards is right when it starts above.
\<close>

lemma blit_up:
  "d \<le> s \<or> s + (a + b) \<le> d \<Longrightarrow> blit (blit m d s a) (d + a) (s + a) b = blit m d s (a + b)"
  by (auto simp: blit_def fun_eq_iff)

lemma blit_down:
  "s \<le> d \<or> d + (a + b) \<le> s \<Longrightarrow> blit (blit m (d + b) (s + b) a) d s b = blit m d s (a + b)"
  by (auto simp: blit_def fun_eq_iff)

lemma mapped_blit [mem_intros]:
  "mapped m q k \<Longrightarrow> mapped m s n \<Longrightarrow> mapped (blit m d s n) q k"
  by (auto simp: mapped_def blit_def)

lemma copy8:
  "m s \<noteq> None \<Longrightarrow> m d \<noteq> None \<Longrightarrow> do { b \<leftarrow> load8 m s; store8 m d b } = Some (blit m d s 1)"
  using blit_1 [of m s _ d] by (auto simp: load8_def store8_def)

text \<open>The ranges still to copy after \<open>k\<close> of \<open>n\<close> bytes stay mapped.\<close>

lemma mapped_rest:
  assumes "mapped m d n" "mapped m s n" "k \<le> n"
  shows "mapped (blit m d s k) (d + k) (n - k)" "mapped (blit m d s k) (s + k) (n - k)"
  using assms by (auto intro!: mapped_blit intro: mapped_sub [OF assms(1)] mapped_sub [OF assms(2)])

lemma bytes_at_blit: "bytes_at m s xs \<Longrightarrow> length xs = n \<Longrightarrow> bytes_at (blit m d s n) d xs"
  by (simp add: bytes_at_iff blit_def)

lemma blit_frame: "a < d \<or> d + n \<le> a \<Longrightarrow> blit m d s n a = m a"
  by (auto simp: blit_def)

subsection \<open>Words and their bytes\<close>

lemma word_of_bytes_Nil [simp]: "word_of_bytes [] = 0"
  by (simp add: word_of_bytes_def)

lemma word_of_bytes_Cons: "word_of_bytes (b # bs) = push_bit 8 (word_of_bytes bs) OR ucast b"
  by (simp add: word_of_bytes_def)

lemma bit_word_of_bytes:
  "bit (word_of_bytes bs :: 'a::len word) i \<longleftrightarrow>
     i < LENGTH('a) \<and> i div 8 < length bs \<and> bit (bs ! (i div 8)) (i mod 8)"
proof (induction bs arbitrary: i)
  case Nil
  show ?case by simp
next
  case (Cons b bs)
  show ?case
  proof (cases "i < 8")
    case True
    then show ?thesis by (auto simp: word_of_bytes_Cons bit_simps)
  next
    case False
    then obtain j where j: "i = j + 8" by (metis add.commute le_Suc_ex linorder_not_less)
    have "(j + 8) div 8 = Suc (j div 8)" by simp
    then show ?thesis
      by (auto simp: word_of_bytes_Cons bit_simps j Cons.IH dest: bit_imp_le_length)
  qed
qed

lemma length_word_to_bytes [simp]: "length (word_to_bytes n w) = n"
  by (simp add: word_to_bytes_def)

lemma nth_word_to_bytes: "i < n \<Longrightarrow> word_to_bytes n w ! i = ucast (drop_bit (8 * i) w)"
  by (simp add: word_to_bytes_def)

lemma word_to_bytes_of_bytes:
  assumes "length bs = n" and "8 * n \<le> LENGTH('a)"
  shows "word_to_bytes n (word_of_bytes bs :: 'a::len word) = bs"
proof (rule nth_equalityI)
  show "length (word_to_bytes n (word_of_bytes bs :: 'a word)) = length bs" using assms by simp
  fix i assume "i < length (word_to_bytes n (word_of_bytes bs :: 'a word))"
  then have i: "i < n" by simp
  have "8 * i + j < LENGTH('a)" if "j < 8" for j
    using assms(2) i that by linarith
  then show "word_to_bytes n (word_of_bytes bs :: 'a word) ! i = bs ! i"
    using i assms(1) by (intro bit_word_eqI) (simp add: nth_word_to_bytes bit_simps bit_word_of_bytes)
qed

lemma word_of_to_bytes:
  assumes "LENGTH('a) = 8 * n"
  shows "word_of_bytes (word_to_bytes n w) = (w :: 'a::len word)"
proof (rule bit_word_eqI)
  fix i assume i: "i < LENGTH('a)"
  then have "i div 8 < n" using assms by auto
  then show "bit (word_of_bytes (word_to_bytes n w) :: 'a word) i = bit w i"
    using i by (simp add: bit_word_of_bytes nth_word_to_bytes bit_simps)
qed

lemma load64_at: "bytes_at m p xs \<Longrightarrow> length xs = 8 \<Longrightarrow> p mod 8 = 0 \<Longrightarrow> load64 m p = Some (word_of_bytes xs)"
  using load_bytes_at [of m p xs] by (simp add: load64_def)

lemma store64_eq: "mapped m p 8 \<Longrightarrow> p mod 8 = 0 \<Longrightarrow> store64 m p w = Some (put_bytes m p (word_to_bytes 8 w))"
  using store_bytes_eq [of m p "word_to_bytes 8 w"] by (simp add: store64_def)

lemma load32_at: "bytes_at m p xs \<Longrightarrow> length xs = 4 \<Longrightarrow> p mod 4 = 0 \<Longrightarrow> load32 m p = Some (word_of_bytes xs)"
  using load_bytes_at [of m p xs] by (simp add: load32_def)

lemma store32_eq: "mapped m p 4 \<Longrightarrow> p mod 4 = 0 \<Longrightarrow> store32 m p w = Some (put_bytes m p (word_to_bytes 4 w))"
  using store_bytes_eq [of m p "word_to_bytes 4 w"] by (simp add: store32_def)

text \<open>Moving one word is a copy of eight bytes, whatever the overlap.\<close>

lemma copy64:
  assumes "mapped m s 8" and "mapped m d 8" and "s mod 8 = 0" and "d mod 8 = 0"
  shows "do { w \<leftarrow> load64 m s; store64 m d w } = Some (blit m d s 8)"
proof -
  obtain xs where xs: "length xs = 8" "bytes_at m s xs"
    using mapped_obtain_bytes [OF assms(1)] by blast
  then show ?thesis
    using assms by (simp add: load64_at store64_eq word_to_bytes_of_bytes put_bytes_blit)
qed

end
