(* ===== verification/WordDetect.thy ===== *)
theory WordDetect
  imports CMem
begin

text \<open>
  The word-at-a-time test of \<open>libc/string/local.h\<close>: \<open>DETECT_NULL\<close> is non-zero
  exactly when one of the bytes of a word is zero, and \<open>DETECT_CHAR\<close> when one
  of them is the byte a mask repeats. The argument is by induction on the number of
  bytes: as long as no byte is zero the subtraction borrows nothing.
\<close>

definition DETECT_NULL :: "u64 \<Rightarrow> u64" where
  "DETECT_NULL x = (x - 0x0101010101010101) AND NOT x AND 0x8080808080808080"

definition DETECT_CHAR :: "u64 \<Rightarrow> u64 \<Rightarrow> u64" where
  "DETECT_CHAR x msk = DETECT_NULL (x XOR msk)"

definition UNALIGNED_X :: "addr \<Rightarrow> nat" where
  "UNALIGNED_X x = x mod 8"

definition UNALIGNED_X_Y :: "addr \<Rightarrow> addr \<Rightarrow> nat" where
  "UNALIGNED_X_Y x y = (x mod 8) OR (y mod 8)"

abbreviation (input) LITTLE_BLOCK_SIZE :: nat where "LITTLE_BLOCK_SIZE \<equiv> 8"
abbreviation (input) BIG_BLOCK_SIZE :: nat where "BIG_BLOCK_SIZE \<equiv> 32"

definition TOO_SMALL_LITTLE_BLOCK :: "nat \<Rightarrow> bool" where
  "TOO_SMALL_LITTLE_BLOCK len \<longleftrightarrow> len < LITTLE_BLOCK_SIZE"

definition TOO_SMALL_BIG_BLOCK :: "nat \<Rightarrow> bool" where
  "TOO_SMALL_BIG_BLOCK len \<longleftrightarrow> len < BIG_BLOCK_SIZE"

declare UNALIGNED_X_def [simp] TOO_SMALL_LITTLE_BLOCK_def [simp] TOO_SMALL_BIG_BLOCK_def [simp]

lemma UNALIGNED_X_Y_0 [simp]: "UNALIGNED_X_Y x y = 0 \<longleftrightarrow> x mod 8 = 0 \<and> y mod 8 = 0"
  by (simp add: UNALIGNED_X_Y_def or_eq_0_iff)

subsection \<open>The test on integers of any number of bytes\<close>

fun ones :: "nat \<Rightarrow> int" where
  "ones 0 = 0"
| "ones (Suc n) = 1 + 256 * ones n"

fun highs :: "nat \<Rightarrow> int" where
  "highs 0 = 0"
| "highs (Suc n) = 128 + 256 * highs n"

fun has_zero_byte :: "nat \<Rightarrow> int \<Rightarrow> bool" where
  "has_zero_byte 0 x \<longleftrightarrow> False"
| "has_zero_byte (Suc n) x \<longleftrightarrow> x mod 256 = 0 \<or> has_zero_byte n (x div 256)"

lemma and_split_byte:
  fixes a b c d :: int
  assumes "0 \<le> a" "a < 256" "0 \<le> b" "b < 256"
  shows "(a + 256 * c) AND (b + 256 * d) = (a AND b) + 256 * (c AND d)"
proof -
  have e: "x + 256 * y = concat_bit 8 x y" if "0 \<le> x" "x < 256" for x y :: int
    using that by (simp add: concat_bit_eq take_bit_int_eq_self push_bit_eq_mult)
  have "0 \<le> a AND b" "a AND b < 256"
    using assms by (auto intro: AND_upper1')
  then show ?thesis
    using assms by (simp add: e) (auto simp: bit_eq_iff bit_simps)
qed

lemma not_split_byte: "NOT (b + 256 * y) = (255 - b) + 256 * NOT (y::int)"
  by (simp add: not_int_def)

lemma and_128_small: "0 \<le> x \<Longrightarrow> x < 128 \<Longrightarrow> x AND 128 = (0::int)"
  using and_exp_eq_0_iff_not_bit [of x 7] by (simp add: bit_iff_odd)

lemma byte_and_128:
  fixes b :: int
  assumes "0 < b" "b < 256"
  shows "(b - 1) AND ((255 - b) AND 128) = 0"
proof (cases "b \<le> 128")
  case True
  then have "(b - 1) AND 128 = 0" using assms by (intro and_128_small) auto
  then show ?thesis by (subst and.left_commute) simp
next
  case False
  then have "(255 - b) AND 128 = 0" using assms by (intro and_128_small) auto
  then show ?thesis by simp
qed

lemma detect_iff:
  "(x - ones n) AND (NOT x AND highs n) \<noteq> 0 \<longleftrightarrow> has_zero_byte n x"
proof (induction n arbitrary: x)
  case 0
  show ?case by simp
next
  case (Suc n)
  define b y where "b = x mod 256" and "y = x div 256"
  have x: "x = b + 256 * y" and b: "0 \<le> b" "b < 256" by (simp_all add: b_def y_def)
  have nb: "NOT x AND highs (Suc n) = ((255 - b) AND 128) + 256 * (NOT y AND highs n)"
    using b by (simp only: x not_split_byte highs.simps) (simp add: and_split_byte)
  have bb: "0 \<le> (255 - b) AND 128" "(255 - b) AND 128 < 256"
    using AND_upper2' [of 128 256 "255 - b"] by simp_all
  show ?case
  proof (cases "b = 0")
    case True
    have "(x - ones (Suc n)) = 255 + 256 * (y - ones n - 1)" using True by (simp add: x)
    then have "(x - ones (Suc n)) AND (NOT x AND highs (Suc n))
        = (255 AND ((255 - b) AND 128)) + 256 * ((y - ones n - 1) AND (NOT y AND highs n))"
      using bb by (simp only: nb and_split_byte)
    also have "\<dots> = 128 + 256 * ((y - ones n - 1) AND (NOT y AND highs n))"
      using True by simp
    also have "\<dots> \<noteq> 0" by presburger
    finally show ?thesis using True by (simp add: b_def)
  next
    case False
    have "(x - ones (Suc n)) = (b - 1) + 256 * (y - ones n)" by (simp add: x)
    then have "(x - ones (Suc n)) AND (NOT x AND highs (Suc n))
        = ((b - 1) AND ((255 - b) AND 128)) + 256 * ((y - ones n) AND (NOT y AND highs n))"
      using bb b False by (simp only: nb and_split_byte)
    also have "\<dots> = 256 * ((y - ones n) AND (NOT y AND highs n))"
      using byte_and_128 [of b] b False by simp
    finally show ?thesis using False Suc.IH [of y] by (simp add: b_def y_def)
  qed
qed

subsection \<open>The test on words\<close>

lemma highs_AND_bound: "0 \<le> z AND highs 8 \<and> z AND highs 8 < 2 ^ 64"
  using AND_upper2' [of "highs 8" "2 ^ 64" z] by (simp add: eval_nat_numeral)

lemma DETECT_NULL_int: "DETECT_NULL x \<noteq> 0 \<longleftrightarrow> has_zero_byte 8 (uint x)"
proof -
  have 1: "ones 8 = 0x0101010101010101" and 2: "highs 8 = 0x8080808080808080"
    by (simp_all add: eval_nat_numeral)
  let ?z = "(uint x - ones 8) AND (NOT (uint x) AND highs 8)"
  have "DETECT_NULL x = word_of_int ?z"
    by (simp add: DETECT_NULL_def 1 2 and.assoc of_int_and_eq of_int_not_eq)
  moreover have "take_bit 64 ?z = ?z"
    using highs_AND_bound [of "(uint x - ones 8) AND NOT (uint x)"]
    by (intro take_bit_int_eq_self) (simp_all add: and.assoc)
  ultimately have "DETECT_NULL x \<noteq> 0 \<longleftrightarrow> ?z \<noteq> 0"
    using word_of_int_eq_iff [where 'a = 64, of ?z 0] by simp
  then show ?thesis by (simp only: detect_iff)
qed

lemma has_zero_byte_iff: "has_zero_byte n x \<longleftrightarrow> (\<exists>i < n. take_bit 8 (drop_bit (8 * i) x) = 0)"
proof (induction n arbitrary: x)
  case 0
  show ?case by simp
next
  case (Suc n)
  have "drop_bit (8 * Suc i) x = drop_bit (8 * i) (x div 256)" for i
    by (simp add: drop_bit_eq_div power_add zdiv_zmult2_eq)
  then show ?case
    by (simp add: Suc.IH Ex_less_Suc2 take_bit_eq_mod)
qed

theorem DETECT_NULL_iff:
  assumes "length bs = 8"
  shows "DETECT_NULL (word_of_bytes bs) \<noteq> 0 \<longleftrightarrow> 0 \<in> set bs"
proof -
  let ?w = "word_of_bytes bs :: u64"
  have "bs ! i = 0 \<longleftrightarrow> take_bit 8 (drop_bit (8 * i) (uint ?w)) = 0" if "i < 8" for i
  proof -
    have "word_to_bytes 8 ?w = bs" using assms by (intro word_to_bytes_of_bytes) simp_all
    then have "bs ! i = ucast (drop_bit (8 * i) ?w)" using that by (metis nth_word_to_bytes)
    then have "uint (bs ! i) = take_bit 8 (drop_bit (8 * i) (uint ?w))"
      using that by (simp add: unsigned_ucast_eq unsigned_drop_bit_eq take_bit_drop_bit min_def)
    then show ?thesis by (metis uint_0_iff)
  qed
  then show ?thesis
    using assms by (auto simp: DETECT_NULL_int has_zero_byte_iff in_set_conv_nth)
qed

subsection \<open>Repeated bytes\<close>

text \<open>
  The three ways the sources spread a byte over a word: \<open>memset\<close>, \<open>memchr\<close>,
  \<open>memrchr\<close>, \<open>memccpy\<close> and \<open>rawmemchr\<close> go from 16 to 32 to 64 bits and
  \<open>strchr\<close> doubles from 8 bits. (\<open>spread_loop\<close> is the \<open>for\<close> loop: it runs while the shift
  is below the width of the word.)
\<close>

function spread_loop :: "nat \<Rightarrow> u64 \<Rightarrow> u64" where
  "spread_loop i w = (if 0 < i \<and> i < 64 then spread_loop (i * 2) (push_bit i w OR w) else w)"
  by pat_completeness auto
termination
  by (relation "measure (\<lambda>(i, w). 64 - i)") auto

declare spread_loop.simps [simp del]

definition spread :: "u8 \<Rightarrow> u64" where
  "spread d =
     (let w = push_bit 8 (ucast d) OR ucast d;
          w = push_bit 16 w OR w
      in spread_loop 32 w)"

definition spread_strchr :: "u8 \<Rightarrow> u64" where
  "spread_strchr c = spread_loop 8 (ucast c)"

lemma word_of_bytes_append:
  "word_of_bytes (xs @ ys) = push_bit (8 * length xs) (word_of_bytes ys) OR word_of_bytes xs"
  by (induction xs) (simp_all add: word_of_bytes_Cons push_bit_or or.assoc add.commute)

lemma word_of_bytes_double: "k = n * 8 \<Longrightarrow> word_of_bytes (replicate (n + n) d) =
    push_bit k (word_of_bytes (replicate n d)) OR word_of_bytes (replicate n d)"
  by (simp add: replicate_add word_of_bytes_append mult.commute)

lemma word_of_bytes_replicate: "word_of_bytes (replicate 8 d) =
    (let w1 = ucast d :: u64; w2 = push_bit 8 w1 OR w1; w4 = push_bit 16 w2 OR w2
     in push_bit 32 w4 OR w4)"
proof -
  have "word_of_bytes (replicate 8 d) = push_bit 32 (word_of_bytes (replicate 4 d))
      OR (word_of_bytes (replicate 4 d) :: u64)"
    using word_of_bytes_double [of 32 4 d] by simp
  also have "word_of_bytes (replicate 4 d) = push_bit 16 (word_of_bytes (replicate 2 d))
      OR (word_of_bytes (replicate 2 d) :: u64)"
    using word_of_bytes_double [of 16 2 d] by simp
  also have "word_of_bytes (replicate 2 d) = push_bit 8 (ucast d) OR (ucast d :: u64)"
    by (simp add: numeral_2_eq_2 word_of_bytes_Cons)
  finally show ?thesis by (simp only: Let_def)
qed

lemma spread_eq: "spread d = word_of_bytes (replicate 8 d)"
  by (simp add: spread_def word_of_bytes_replicate Let_def spread_loop.simps)

lemma spread_strchr_eq: "spread_strchr d = word_of_bytes (replicate 8 d)"
  by (simp add: spread_strchr_def word_of_bytes_replicate Let_def spread_loop.simps)

lemma word_of_bytes_xor:
  assumes "length xs = length ys"
  shows "word_of_bytes xs XOR word_of_bytes ys = word_of_bytes (map2 (XOR) xs ys)"
  using assms by (intro bit_word_eqI) (auto simp: bit_word_of_bytes bit_simps)

lemma DETECT_CHAR_iff:
  assumes "length bs = 8"
  shows "DETECT_CHAR (word_of_bytes bs) (word_of_bytes (replicate 8 d)) \<noteq> 0 \<longleftrightarrow> d \<in> set bs"
proof -
  have "map2 (XOR) bs (replicate 8 d) = map (\<lambda>b. b XOR d) bs"
    using assms by (intro nth_equalityI) auto
  moreover have "b XOR d = 0 \<longleftrightarrow> b = d" for b :: u8
    by (metis xor.assoc xor.left_neutral xor_self_eq)
  ultimately show ?thesis
    using assms by (auto simp: DETECT_CHAR_def word_of_bytes_xor DETECT_NULL_iff image_iff)
qed

end
