(* ===== verification/MemCopy.thy ===== *)
theory MemCopy
  imports WordDetect
begin

text \<open>
  The block routines of \<open>libc/string\<close> that move bytes: \<open>memcpy\<close>, \<open>memmove\<close>,
  \<open>mempcpy\<close> and \<open>bcopy\<close>, each in the
  word-at-a-time form of the default build and in the byte-at-a-time form of the
  size-optimised one. Each loop of the C code is one function here, each routine composes
  its loops as the code does. The lemmas reduce every loop to \<open>blit\<close>.
\<close>

subsection \<open>Copy loops\<close>

text \<open>\<^verbatim>\<open>while (len0--) *dst++ = *src++;\<close>\<close>

fun copy_bytes :: "mem \<Rightarrow> addr \<Rightarrow> addr \<Rightarrow> nat \<Rightarrow> (mem \<times> addr \<times> addr) option" where
  "copy_bytes m dst src 0 = Some (m, dst, src)"
| "copy_bytes m dst src (Suc n) =
     do { b \<leftarrow> load8 m src; m' \<leftarrow> store8 m dst b; copy_bytes m' (dst + 1) (src + 1) n }"

text \<open>\<^verbatim>\<open>while (len0 >= LITTLE_BLOCK_SIZE) { *aligned_dst++ = *aligned_src++; len0 -= ...; }\<close>\<close>

fun copy_words :: "mem \<Rightarrow> addr \<Rightarrow> addr \<Rightarrow> nat \<Rightarrow> (mem \<times> addr \<times> addr \<times> nat) option" where
  "copy_words m dst src n =
     (if TOO_SMALL_LITTLE_BLOCK n then Some (m, dst, src, n)
      else do {
        w \<leftarrow> load64 m src; m' \<leftarrow> store64 m dst w;
        copy_words m' (dst + LITTLE_BLOCK_SIZE) (src + LITTLE_BLOCK_SIZE) (n - LITTLE_BLOCK_SIZE) })"

text \<open>The loop unrolled four times.\<close>

fun copy_blocks :: "mem \<Rightarrow> addr \<Rightarrow> addr \<Rightarrow> nat \<Rightarrow> (mem \<times> addr \<times> addr \<times> nat) option" where
  "copy_blocks m dst src n =
     (if TOO_SMALL_BIG_BLOCK n then Some (m, dst, src, n)
      else do {
        w \<leftarrow> load64 m src; m \<leftarrow> store64 m dst w;
        w \<leftarrow> load64 m (src + 8); m \<leftarrow> store64 m (dst + 8) w;
        w \<leftarrow> load64 m (src + 16); m \<leftarrow> store64 m (dst + 16) w;
        w \<leftarrow> load64 m (src + 24); m \<leftarrow> store64 m (dst + 24) w;
        copy_blocks m (dst + BIG_BLOCK_SIZE) (src + BIG_BLOCK_SIZE) (n - BIG_BLOCK_SIZE) })"

text \<open>The loop that builds each destination word from two source words.\<close>

function copy_merge ::
    "nat \<Rightarrow> mem \<Rightarrow> addr \<Rightarrow> addr \<Rightarrow> u64 \<Rightarrow> nat \<Rightarrow> (mem \<times> addr \<times> addr \<times> nat) option" where
  "copy_merge byte_shift m dst asrc left n =
     (let remain = LITTLE_BLOCK_SIZE - byte_shift;
          left_shift = byte_shift * 8;
          right_shift = remain * 8
      in if LITTLE_BLOCK_SIZE + remain \<le> n then do {
           right \<leftarrow> load64 m asrc;
           m' \<leftarrow> store64 m dst (drop_bit left_shift left OR push_bit right_shift right);
           copy_merge byte_shift m' (dst + 8) (asrc + 8) right (n - LITTLE_BLOCK_SIZE) }
         else Some (m, dst, asrc, n))"
  by pat_completeness auto
termination
  by (relation "measure (\<lambda>(b, m, d, s, l, n). n)") auto

declare copy_words.simps [simp del] copy_blocks.simps [simp del] copy_merge.simps [simp del]

text \<open>\<^verbatim>\<open>while (length--) *--dst = *--src;\<close>\<close>

fun copy_bytes_down :: "mem \<Rightarrow> addr \<Rightarrow> addr \<Rightarrow> nat \<Rightarrow> (mem \<times> addr \<times> addr) option" where
  "copy_bytes_down m dst src 0 = Some (m, dst, src)"
| "copy_bytes_down m dst src (Suc n) =
     do { b \<leftarrow> load8 m (src - 1); m' \<leftarrow> store8 m (dst - 1) b;
          copy_bytes_down m' (dst - 1) (src - 1) n }"

fun copy_words_down :: "mem \<Rightarrow> addr \<Rightarrow> addr \<Rightarrow> nat \<Rightarrow> (mem \<times> addr \<times> addr \<times> nat) option" where
  "copy_words_down m dst src n =
     (if TOO_SMALL_LITTLE_BLOCK n then Some (m, dst, src, n)
      else do {
        w \<leftarrow> load64 m (src - 8); m' \<leftarrow> store64 m (dst - 8) w;
        copy_words_down m' (dst - 8) (src - 8) (n - LITTLE_BLOCK_SIZE) })"

declare copy_words_down.simps [simp del]

subsection \<open>The routines\<close>

definition memcpy_small :: "mem \<Rightarrow> addr \<Rightarrow> addr \<Rightarrow> nat \<Rightarrow> (mem \<times> addr) option" where
  "memcpy_small m dst0 src0 len0 = do { (m, dst, src) \<leftarrow> copy_bytes m dst0 src0 len0; Some (m, dst0) }"

definition memcpy_words ::
    "mem \<Rightarrow> addr \<Rightarrow> addr \<Rightarrow> nat \<Rightarrow> (mem \<times> addr \<times> addr \<times> nat) option" where
  "memcpy_words m dst0 src0 len0 = do {
     let start = LITTLE_BLOCK_SIZE * 2 - UNALIGNED_X dst0;
     (m, dst, src) \<leftarrow> copy_bytes m dst0 src0 start;
     let len = len0 - start;
     let byte_shift = UNALIGNED_X src;
     if byte_shift = 0 then do {
       (m, dst, src, len) \<leftarrow> copy_blocks m dst src len;
       copy_words m dst src len }
     else do {
       let remain = LITTLE_BLOCK_SIZE - byte_shift;
       let asrc = src - byte_shift;
       left \<leftarrow> load64 m asrc;
       (m, dst, asrc, len) \<leftarrow> copy_merge byte_shift m dst (asrc + 8) left len;
       Some (m, dst, asrc - remain, len) } }"

definition memcpy :: "mem \<Rightarrow> addr \<Rightarrow> addr \<Rightarrow> nat \<Rightarrow> (mem \<times> addr) option" where
  "memcpy m dst0 src0 len0 = do {
     (m, dst, src, len) \<leftarrow>
       (if \<not> TOO_SMALL_BIG_BLOCK len0 then memcpy_words m dst0 src0 len0
        else Some (m, dst0, src0, len0));
     (m, dst, src) \<leftarrow> copy_bytes m dst src len;
     Some (m, dst0) }"

definition memmove_small :: "mem \<Rightarrow> addr \<Rightarrow> addr \<Rightarrow> nat \<Rightarrow> (mem \<times> addr) option" where
  "memmove_small m dst_void src_void len =
     (if src_void < dst_void \<and> dst_void < src_void + len then do {
        (m, dst, src) \<leftarrow> copy_bytes_down m (dst_void + len) (src_void + len) len;
        Some (m, dst_void) }
      else do {
        (m, dst, src) \<leftarrow> copy_bytes m dst_void src_void len;
        Some (m, dst_void) })"

definition memmove :: "mem \<Rightarrow> addr \<Rightarrow> addr \<Rightarrow> nat \<Rightarrow> (mem \<times> addr) option" where
  "memmove m dst_void src_void len =
     (if src_void < dst_void \<and> dst_void < src_void + len then do {
        let src = src_void + len;
        let dst = dst_void + len;
        (m, dst, src, len) \<leftarrow>
          (if \<not> TOO_SMALL_LITTLE_BLOCK len \<and> UNALIGNED_X_Y src dst = 0
           then copy_words_down m dst src len else Some (m, dst, src, len));
        (m, dst, src) \<leftarrow> copy_bytes_down m dst src len;
        Some (m, dst_void) }
      else do {
        (m, dst, src, len) \<leftarrow>
          (if \<not> TOO_SMALL_LITTLE_BLOCK len \<and> UNALIGNED_X_Y src_void dst_void = 0
           then do {
             (m, dst, src, len) \<leftarrow> copy_blocks m dst_void src_void len;
             copy_words m dst src len }
           else Some (m, dst_void, src_void, len));
        (m, dst, src) \<leftarrow> copy_bytes m dst src len;
        Some (m, dst_void) })"

definition mempcpy_small :: "mem \<Rightarrow> addr \<Rightarrow> addr \<Rightarrow> nat \<Rightarrow> (mem \<times> addr) option" where
  "mempcpy_small m dst0 src0 len0 = do { (m, dst, src) \<leftarrow> copy_bytes m dst0 src0 len0; Some (m, dst) }"

definition mempcpy :: "mem \<Rightarrow> addr \<Rightarrow> addr \<Rightarrow> nat \<Rightarrow> (mem \<times> addr) option" where
  "mempcpy m dst0 src0 len0 = do {
     (m, dst, src, len) \<leftarrow>
       (if \<not> TOO_SMALL_LITTLE_BLOCK len0 \<and> UNALIGNED_X_Y src0 dst0 = 0
        then do {
          (m, dst, src, len) \<leftarrow> copy_blocks m dst0 src0 len0;
          copy_words m dst src len }
        else Some (m, dst0, src0, len0));
     (m, dst, src) \<leftarrow> copy_bytes m dst src len;
     Some (m, dst) }"

definition bcopy :: "mem \<Rightarrow> addr \<Rightarrow> addr \<Rightarrow> nat \<Rightarrow> mem option" where
  "bcopy m b1 b2 len = do { (m, r) \<leftarrow> memmove m b2 b1 len; Some m }"

subsection \<open>Every copy loop is a blit\<close>

lemma copy_bytes_up:
  assumes "mapped m d n" "mapped m s n" "d \<le> s \<or> s + n \<le> d"
  shows "copy_bytes m d s n = Some (blit m d s n, d + n, s + n)"
  using assms
proof (induction n arbitrary: m d s)
  case 0
  show ?case by simp
next
  case (Suc n)
  have c: "do { b \<leftarrow> load8 m s; store8 m d b } = Some (blit m d s 1)"
    using Suc.prems by (intro copy8) (auto simp: mapped_Suc)
  have "copy_bytes (blit m d s 1) (d + 1) (s + 1) n
      = Some (blit (blit m d s 1) (d + 1) (s + 1) n, d + 1 + n, s + 1 + n)"
    using mapped_rest [OF Suc.prems(1,2), of 1] Suc.prems(3) by (intro Suc.IH) auto
  moreover have "blit (blit m d s 1) (d + 1) (s + 1) n = blit m d s (1 + n)"
    using Suc.prems(3) by (intro blit_up) auto
  ultimately show ?case using c by (auto simp: bind_Some_iff)
qed

lemma copy_bytes_down_eq:
  assumes "mapped m d n" "mapped m s n" "s \<le> d \<or> d + n \<le> s"
  shows "copy_bytes_down m (d + n) (s + n) n = Some (blit m d s n, d, s)"
  using assms
proof (induction n arbitrary: m)
  case 0
  show ?case by simp
next
  case (Suc n)
  have c: "do { b \<leftarrow> load8 m (s + n); store8 m (d + n) b } = Some (blit m (d + n) (s + n) 1)"
    using mappedD [OF Suc.prems(1), of "d + n"] mappedD [OF Suc.prems(2), of "s + n"]
    by (intro copy8) auto
  have "mapped m (s + n) 1" by (rule mapped_sub [OF Suc.prems(2)]) auto
  moreover have "mapped m d n" by (rule mapped_sub [OF Suc.prems(1)]) auto
  moreover have "mapped m s n" by (rule mapped_sub [OF Suc.prems(2)]) auto
  ultimately have "copy_bytes_down (blit m (d + n) (s + n) 1) (d + n) (s + n) n
      = Some (blit (blit m (d + n) (s + n) 1) d s n, d, s)"
    using Suc.prems(3) by (intro Suc.IH mapped_blit) auto
  moreover have "blit (blit m (d + n) (s + n) 1) d s n = blit m d s (1 + n)"
    using Suc.prems(3) by (intro blit_down) auto
  ultimately show ?case using c by (auto simp: bind_Some_iff)
qed

text \<open>A prefix copied by whatever loop, finished by the byte loop, is the whole copy.\<close>

lemma finish_bytes:
  assumes "mapped m d n" "mapped m s n" "d \<le> s \<or> s + n \<le> d" "k \<le> n"
  shows "copy_bytes (blit m d s k) (d + k) (s + k) (n - k) = Some (blit m d s n, d + n, s + n)"
proof -
  have "copy_bytes (blit m d s k) (d + k) (s + k) (n - k)
      = Some (blit (blit m d s k) (d + k) (s + k) (n - k), d + k + (n - k), s + k + (n - k))"
    using mapped_rest [OF assms(1,2,4)] assms(3,4) by (intro copy_bytes_up) auto
  moreover have "blit (blit m d s k) (d + k) (s + k) (n - k) = blit m d s (k + (n - k))"
    using assms(3,4) by (intro blit_up) auto
  ultimately show ?thesis using assms(4) by simp
qed

subsection \<open>Interface of the bulk loops\<close>

text \<open>
  What the routines rely on when they run a bulk loop before the byte loop: on aligned ranges
  it copies some prefix, a multiple of the word size, and returns where it stopped. The same
  contract holds of the word loop, of the unrolled loop and of one after the other.
\<close>

locale bulk_copier =
  fixes cp :: "mem \<Rightarrow> addr \<Rightarrow> addr \<Rightarrow> nat \<Rightarrow> (mem \<times> addr \<times> addr \<times> nat) option"
  assumes cp: "d mod 8 = 0 \<Longrightarrow> s mod 8 = 0 \<Longrightarrow> mapped m d n \<Longrightarrow> mapped m s n \<Longrightarrow> d \<le> s \<or> s + n \<le> d \<Longrightarrow>
    \<exists>k \<le> n. k mod 8 = 0 \<and> cp m d s n = Some (blit m d s k, d + k, s + k, n - k)"
begin

lemma then_bytes:
  assumes "d mod 8 = 0" "s mod 8 = 0" "mapped m d n" "mapped m s n" "d \<le> s \<or> s + n \<le> d"
  shows "cp m d s n \<bind> (\<lambda>(m, d, s, n). copy_bytes m d s n \<bind> f) = f (blit m d s n, d + n, s + n)"
proof -
  obtain k where "k \<le> n" "cp m d s n = Some (blit m d s k, d + k, s + k, n - k)"
    using cp [OF assms] by (elim exE conjE) (rule that)
  then show ?thesis using finish_bytes [OF assms(3,4,5)] by simp
qed

end

lemma bulk_copier_seq:
  assumes "bulk_copier f" and "bulk_copier g"
  shows "bulk_copier (\<lambda>m d s n. do { (m, d, s, n) \<leftarrow> f m d s n; g m d s n })"
proof
  fix d s m n
  assume a: "d mod 8 = 0" "s mod 8 = 0" "mapped m d n" "mapped m s n" "d \<le> s \<or> s + n \<le> d"
  obtain k where k: "k \<le> n" "k mod 8 = 0" "f m d s n = Some (blit m d s k, d + k, s + k, n - k)"
    using bulk_copier.cp [OF assms(1) a] by (elim exE conjE) (rule that)
  let ?m = "blit m d s k"
  have "(d + k) mod 8 = 0" "(s + k) mod 8 = 0" using a(1,2) k(2) by (simp_all add: mod8_add)
  moreover have "mapped ?m (d + k) (n - k)" "mapped ?m (s + k) (n - k)"
    using a(3,4) k(1) by (rule mapped_rest)+
  moreover have "d + k \<le> s + k \<or> s + k + (n - k) \<le> d + k" using a k(1) by auto
  ultimately have "\<exists>j \<le> n - k. j mod 8 = 0 \<and>
      g ?m (d + k) (s + k) (n - k) = Some (blit ?m (d + k) (s + k) j, d + k + j, s + k + j, n - k - j)"
    by (rule bulk_copier.cp [OF assms(2)])
  then obtain j where j: "j \<le> n - k" "j mod 8 = 0"
      "g ?m (d + k) (s + k) (n - k) = Some (blit ?m (d + k) (s + k) j, d + k + j, s + k + j, n - k - j)"
    by (elim exE conjE) (rule that)
  have "blit ?m (d + k) (s + k) j = blit m d s (k + j)"
    using a(5) j(1) k(1) by (intro blit_up) auto
  moreover have "(k + j) mod 8 = 0" using j k by (simp add: mod8_add)
  ultimately show "\<exists>k \<le> n. k mod 8 = 0 \<and> do { (m, d, s, n) \<leftarrow> f m d s n; g m d s n }
      = Some (blit m d s k, d + k, s + k, n - k)"
    using j k by (intro exI [of _ "k + j"]) (simp add: add.assoc)
qed

lemma copy_words_prefix:
  assumes "d mod 8 = 0" "s mod 8 = 0" "mapped m d n" "mapped m s n" "d \<le> s \<or> s + n \<le> d"
  shows "\<exists>k \<le> n. k mod 8 = 0 \<and> copy_words m d s n = Some (blit m d s k, d + k, s + k, n - k)"
  using assms
proof (induction n arbitrary: m d s rule: less_induct)
  case (less n)
  show ?case
  proof (cases "n < 8")
    case True
    then show ?thesis by (intro exI [of _ 0]) (simp add: copy_words.simps)
  next
    case False
    have c: "do { w \<leftarrow> load64 m s; store64 m d w } = Some (blit m d s 8)"
      using less.prems False by (intro copy64 mapped_sub [OF less.prems(3)] mapped_sub [OF less.prems(4)]) auto
    have "\<exists>k \<le> n - 8. k mod 8 = 0 \<and> copy_words (blit m d s 8) (d + 8) (s + 8) (n - 8)
        = Some (blit (blit m d s 8) (d + 8) (s + 8) k, d + 8 + k, s + 8 + k, n - 8 - k)"
      using less.prems False mapped_rest [OF less.prems(3,4), of 8]
      by (intro less.IH) auto
    then obtain k where k: "k \<le> n - 8" "k mod 8 = 0" "copy_words (blit m d s 8) (d + 8) (s + 8) (n - 8)
        = Some (blit (blit m d s 8) (d + 8) (s + 8) k, d + 8 + k, s + 8 + k, n - 8 - k)"
      by (elim exE conjE) (rule that)
    have "blit (blit m d s 8) (d + 8) (s + 8) k = blit m d s (8 + k)"
      using less.prems(5) k(1) False by (intro blit_up) auto
    then have "copy_words m d s n = Some (blit m d s (8 + k), d + (8 + k), s + (8 + k), n - (8 + k))"
      using k(3) c False by (auto simp: copy_words.simps [of m] bind_Some_iff)
    then show ?thesis using k False by (intro exI [of _ "8 + k"]) auto
  qed
qed

lemma copy_blocks_unfold:
  assumes "32 \<le> n" "d mod 8 = 0" "s mod 8 = 0" "mapped m d n" "mapped m s n" "d \<le> s \<or> s + n \<le> d"
  shows "copy_blocks m d s n = copy_blocks (blit m d s 32) (d + 32) (s + 32) (n - 32)"
proof -
  have step: "do { w \<leftarrow> load64 (blit m d s i) (s + i); store64 (blit m d s i) (d + i) w }
      = Some (blit m d s (i + 8))" if "i + 8 \<le> 32" "i mod 8 = 0" for i
  proof -
    have "do { w \<leftarrow> load64 (blit m d s i) (s + i); store64 (blit m d s i) (d + i) w }
        = Some (blit (blit m d s i) (d + i) (s + i) 8)"
    proof (intro copy64 mapped_blit)
      show "mapped m (s + i) 8" "mapped m (d + i) 8" "mapped m s i" "mapped m s i"
        using assms that by (auto simp: mapped_def)
      show "(s + i) mod 8 = 0" "(d + i) mod 8 = 0"
        using assms(2,3) that(2) by (simp_all add: mod8_add)
    qed
    then show ?thesis using blit_up [of d s i 8 m] assms that by auto
  qed
  show ?thesis
    using assms(1) step [of 0] step [of 8] step [of 16] step [of 24]
    by (subst copy_blocks.simps) (auto simp: bind_Some_iff)
qed

lemma copy_blocks_prefix:
  assumes "d mod 8 = 0" "s mod 8 = 0" "mapped m d n" "mapped m s n" "d \<le> s \<or> s + n \<le> d"
  shows "\<exists>k \<le> n. k mod 8 = 0 \<and> copy_blocks m d s n = Some (blit m d s k, d + k, s + k, n - k)"
  using assms
proof (induction n arbitrary: m d s rule: less_induct)
  case (less n)
  show ?case
  proof (cases "n < 32")
    case True
    then show ?thesis by (intro exI [of _ 0]) (simp add: copy_blocks.simps)
  next
    case False
    have "\<exists>k \<le> n - 32. k mod 8 = 0 \<and> copy_blocks (blit m d s 32) (d + 32) (s + 32) (n - 32)
        = Some (blit (blit m d s 32) (d + 32) (s + 32) k, d + 32 + k, s + 32 + k, n - 32 - k)"
      using less.prems False mapped_rest [OF less.prems(3,4), of 32]
      by (intro less.IH) (auto intro: mod8_add)
    then obtain k where k: "k \<le> n - 32" "k mod 8 = 0" "copy_blocks (blit m d s 32) (d + 32) (s + 32) (n - 32)
        = Some (blit (blit m d s 32) (d + 32) (s + 32) k, d + 32 + k, s + 32 + k, n - 32 - k)"
      by (elim exE conjE) (rule that)
    have "blit (blit m d s 32) (d + 32) (s + 32) k = blit m d s (32 + k)"
      using less.prems(5) k(1) False by (intro blit_up) auto
    then have "copy_blocks m d s n = Some (blit m d s (32 + k), d + (32 + k), s + (32 + k), n - (32 + k))"
      using k(3) copy_blocks_unfold [OF _ less.prems] False by simp
    moreover have "(32 + k) mod 8 = 0" using k(2) by (intro mod8_add) auto
    ultimately show ?thesis using k(1) False by (intro exI [of _ "32 + k"]) auto
  qed
qed

interpretation words: bulk_copier copy_words
  by unfold_locales (rule copy_words_prefix)

interpretation blocks: bulk_copier copy_blocks
  by unfold_locales (rule copy_blocks_prefix)

interpretation blocks_words: bulk_copier
  "\<lambda>m d s n. do { (m, d, s, n) \<leftarrow> copy_blocks m d s n; copy_words m d s n }"
  by (intro bulk_copier_seq blocks.bulk_copier_axioms words.bulk_copier_axioms)

lemma copy_words_down_prefix:
  assumes "(d + n) mod 8 = 0" "(s + n) mod 8 = 0" "mapped m d n" "mapped m s n" "s \<le> d \<or> d + n \<le> s"
  shows "\<exists>k \<le> n. copy_words_down m (d + n) (s + n) n
    = Some (blit m (d + (n - k)) (s + (n - k)) k, d + (n - k), s + (n - k), n - k)"
  using assms
proof (induction n arbitrary: m rule: less_induct)
  case (less n)
  show ?case
  proof (cases "n < 8")
    case True
    then show ?thesis by (intro exI [of _ 0]) (simp add: copy_words_down.simps)
  next
    case False
    let ?n = "n - 8"
    let ?m = "blit m (d + ?n) (s + ?n) 8"
    have al: "(d + ?n) mod 8 = 0" "(s + ?n) mod 8 = 0"
      using less.prems(1,2) False by (simp_all add: mod_eq_0_iff_dvd dvd_diff_nat)
    have mp: "mapped m (s + ?n) 8" "mapped m s ?n" "mapped m (d + ?n) 8" "mapped m d ?n"
      using False mapped_sub [OF less.prems(3)] mapped_sub [OF less.prems(4)] by auto
    have c: "do { w \<leftarrow> load64 m (s + ?n); store64 m (d + ?n) w } = Some ?m"
      using mp al by (intro copy64) auto
    have "\<exists>k \<le> ?n. copy_words_down ?m (d + ?n) (s + ?n) ?n
        = Some (blit ?m (d + (?n - k)) (s + (?n - k)) k, d + (?n - k), s + (?n - k), ?n - k)"
      using mp al False less.prems(5) by (intro less.IH mapped_blit) auto
    then obtain k where k: "k \<le> ?n" "copy_words_down ?m (d + ?n) (s + ?n) ?n
        = Some (blit ?m (d + (?n - k)) (s + (?n - k)) k, d + (?n - k), s + (?n - k), ?n - k)"
      by (elim exE conjE) (rule that)
    define j where "j = ?n - k"
    have j: "n = j + k + 8" using k(1) False by (simp add: j_def)
    have "blit (blit m (d + j + k) (s + j + k) 8) (d + j) (s + j) k = blit m (d + j) (s + j) (8 + k)"
      using less.prems(5) by (intro blit_down) (auto simp: j)
    moreover have "copy_words_down m (d + n) (s + n) n = copy_words_down ?m (d + ?n) (s + ?n) ?n"
      using c False by (subst copy_words_down.simps) (auto simp: bind_Some_iff)
    ultimately show ?thesis using k(2) by (intro exI [of _ "8 + k"]) (simp add: j add.assoc)
  qed
qed

subsection \<open>Merging two source words\<close>

lemma merge_words:
  assumes "length L = 8" "length R = 8" "b < 8"
  shows "drop_bit (b * 8) (word_of_bytes L) OR push_bit ((8 - b) * 8) (word_of_bytes R)
    = (word_of_bytes (drop b L @ take b R) :: u64)"
proof (rule bit_word_eqI)
  fix i assume "i < LENGTH(64)"
  define q r where "q = i div 8" and "r = i mod 8"
  have i: "i = 8 * q + r" "r < 8" "q < 8" using \<open>i < LENGTH(64)\<close> by (auto simp: q_def r_def)
  have 1: "(8 * q + r + b * 8) div 8 = q + b" "(8 * q + r + b * 8) mod 8 = r" using i(2) by simp_all
  have 2: "(8 * q + r - (8 - b) * 8) div 8 = q - (8 - b)" "(8 * q + r - (8 - b) * 8) mod 8 = r"
    if "(8 - b) * 8 \<le> 8 * q + r"
  proof -
    have "8 - b \<le> q" using that i(2) by linarith
    then have "8 * q + r - (8 - b) * 8 = 8 * (q - (8 - b)) + r" by (simp add: diff_mult_distrib2)
    then show "(8 * q + r - (8 - b) * 8) div 8 = q - (8 - b)" "(8 * q + r - (8 - b) * 8) mod 8 = r"
      using i(2) by simp_all
  qed
  have 3: "8 * q + r + b * 8 < 64 \<longleftrightarrow> q < 8 - b" "(8 - b) * 8 \<le> 8 * q + r \<longleftrightarrow> \<not> q < 8 - b"
    using i(2) assms(3) by linarith+
  show "bit (drop_bit (b * 8) (word_of_bytes L) OR push_bit ((8 - b) * 8) (word_of_bytes R) :: u64) i
      = bit (word_of_bytes (drop b L @ take b R) :: u64) i"
    using assms i 1 2 3
    by (auto simp: bit_simps bit_word_of_bytes nth_append add.commute)
qed

lemma copy_merge_prefix:
  assumes "0 < b" "b < 8" "d mod 8 = 0" "(s + (8 - b)) mod 8 = 0"
    and "length L = 8" "bytes_at m s (drop b L)"
    and "mapped m d n" "mapped m s n" "d + n \<le> s \<or> s + n \<le> d"
  shows "\<exists>k \<le> n. copy_merge b m d (s + (8 - b)) (word_of_bytes L) n
    = Some (blit m d s k, d + k, s + k + (8 - b), n - k)"
  using assms(3-)
proof (induction n arbitrary: m d s L rule: less_induct)
  case (less n)
  show ?case
  proof (cases "8 + (8 - b) \<le> n")
    case False
    then show ?thesis by (intro exI [of _ 0]) (simp add: copy_merge.simps)
  next
    case True
    have "mapped m (s + (8 - b)) 8" using True by (intro mapped_sub [OF less.prems(6)]) auto
    then obtain R where R: "length R = 8" "bytes_at m (s + (8 - b)) R"
      using mapped_obtain_bytes by blast
    have "bytes_at m s (drop b L @ take b R)"
      using less.prems(3,4) R by (auto simp: bytes_at_append) (metis append_take_drop_id bytes_at_append)
    then have p: "put_bytes m d (drop b L @ take b R) = blit m d s 8"
      using less.prems(3) R assms(2) by (intro put_bytes_blit) auto
    have st: "store64 m d (drop_bit (b * 8) (word_of_bytes L) OR push_bit ((8 - b) * 8) (word_of_bytes R))
        = Some (blit m d s 8)"
      using less.prems(1,3) R assms(2) p True
      by (simp add: merge_words store64_eq mapped_sub [OF less.prems(5)] word_to_bytes_of_bytes)
    let ?m = "blit m d s 8"
    have rest: "bytes_at m (s + 8) (drop b R)"
      using R assms(2) bytes_at_append [of m "s + (8 - b)" "take b R" "drop b R"] by simp
    have "bytes_at ?m (s + 8) (drop b R)"
      using rest less.prems(3,7) R(1) True by (auto simp: bytes_at_iff blit_def)
    moreover have "(s + 8 + (8 - b)) mod 8 = 0"
      using less.prems(2) mod8_add [of "s + (8 - b)" 8] by (simp add: add.commute add.left_commute)
    ultimately have "\<exists>k \<le> n - 8. copy_merge b ?m (d + 8) ((s + 8) + (8 - b)) (word_of_bytes R) (n - 8)
        = Some (blit ?m (d + 8) (s + 8) k, d + 8 + k, s + 8 + k + (8 - b), n - 8 - k)"
      using less.prems(1,7) R(1) True mapped_rest [OF less.prems(5,6), of 8]
      by (intro less.IH) auto
    then obtain k where k: "k \<le> n - 8"
        "copy_merge b ?m (d + 8) ((s + 8) + (8 - b)) (word_of_bytes R) (n - 8)
          = Some (blit ?m (d + 8) (s + 8) k, d + 8 + k, s + 8 + k + (8 - b), n - 8 - k)"
      by (elim exE conjE) (rule that)
    have "blit ?m (d + 8) (s + 8) k = blit m d s (8 + k)"
      using less.prems(7) k(1) True by (intro blit_up) auto
    moreover have "copy_merge b m d (s + (8 - b)) (word_of_bytes L) n
        = copy_merge b ?m (d + 8) ((s + 8) + (8 - b)) (word_of_bytes R) (n - 8)"
      using True R less.prems(2) st
      by (subst copy_merge.simps) (simp add: load64_at Let_def add.commute add.left_commute)
    ultimately show ?thesis using k True by (intro exI [of _ "8 + k"]) simp
  qed
qed

subsection \<open>The routines are correct\<close>

lemma memcpy_words_prefix:
  assumes "32 \<le> n" "mapped m d n" "mapped m s n" "d + n \<le> s \<or> s + n \<le> d"
  shows "\<exists>k \<le> n. memcpy_words m d s n = Some (blit m d s k, d + k, s + k, n - k)"
proof -
  define st where "st = 16 - d mod 8"
  define l where "l = n - st"
  have st: "st \<le> 16" "8 < st" "st \<le> n" "(d + st) mod 8 = 0"
    using assms(1) by (simp_all add: st_def) presburger
  let ?m = "blit m d s st" and ?d = "d + st" and ?s = "s + st"
  have ms: "mapped m d st" "mapped m s st"
    using st(3) by (auto intro: mapped_sub [OF assms(2)] mapped_sub [OF assms(3)])
  have 1: "copy_bytes m d s st = Some (?m, ?d, ?s)"
    using assms(4) st(3) ms by (intro copy_bytes_up) auto
  have mp: "mapped ?m ?d l" "mapped ?m ?s l"
    unfolding l_def using assms(2,3) st(3) by (rule mapped_rest)+
  have dj: "?d + l \<le> ?s \<or> ?s + l \<le> ?d" using assms(4) st(3) by (auto simp: l_def)
  have fin: "\<exists>k \<le> n. Some (blit ?m ?d ?s k', ?d + k', ?s + k', l - k') = Some (blit m d s k, d + k, s + k, n - k)"
    if "k' \<le> l" for k'
  proof (intro exI conjI)
    show "st + k' \<le> n" using that st(3) by (simp add: l_def)
    show "Some (blit ?m ?d ?s k', ?d + k', ?s + k', l - k')
        = Some (blit m d s (st + k'), d + (st + k'), s + (st + k'), n - (st + k'))"
    proof -
      have "d \<le> s \<or> s + (st + k') \<le> d" using assms(4) that st(3) by (auto simp: l_def)
      then show ?thesis using blit_up [of d s st k' m] by (simp add: l_def add.assoc)
    qed
  qed
  show ?thesis
  proof (cases "?s mod 8 = 0")
    case True
    obtain k where "k \<le> l" "do { (m, d, s, n) \<leftarrow> copy_blocks ?m ?d ?s l; copy_words m d s n }
        = Some (blit ?m ?d ?s k, ?d + k, ?s + k, l - k)"
      using blocks_words.cp [OF st(4) True mp] dj by auto
    then show ?thesis using 1 True fin by (simp add: memcpy_words_def st_def [symmetric] l_def [symmetric])
  next
    case False
    define b where "b = ?s mod 8"
    have b: "0 < b" "b < 8" using False by (simp_all add: b_def)
    have al: "(?s - b) mod 8 = 0" "b \<le> ?s"
      by (simp_all add: b_def minus_mod_eq_mult_div)
    have "mapped ?m (?s - b) 8"
      using b st assms(1) by (intro mapped_blit ms mapped_sub [OF assms(3)]) auto
    then obtain L where L: "length L = 8" "bytes_at ?m (?s - b) L"
      using mapped_obtain_bytes by blast
    have "bytes_at ?m ?s (drop b L)"
      using L b al(2) bytes_at_append [of ?m "?s - b" "take b L" "drop b L"] by simp
    moreover have e: "?s - b + 8 = ?s + (8 - b)" using al(2) b by simp
    moreover have "(?s + (8 - b)) mod 8 = 0" using al(1) by (simp add: e [symmetric])
    ultimately have "\<exists>k \<le> l. copy_merge b ?m ?d (?s + (8 - b)) (word_of_bytes L) l
        = Some (blit ?m ?d ?s k, ?d + k, ?s + k + (8 - b), l - k)"
      using b st(4) L(1) mp dj by (intro copy_merge_prefix)
    then obtain k where k: "k \<le> l" "copy_merge b ?m ?d (?s + (8 - b)) (word_of_bytes L) l
        = Some (blit ?m ?d ?s k, ?d + k, ?s + k + (8 - b), l - k)"
      by (elim exE conjE) (rule that)
    have "load64 ?m (?s - b) = Some (word_of_bytes L)" using L al(1) by (intro load64_at)
    then have "memcpy_words m d s n = Some (blit ?m ?d ?s k, ?d + k, ?s + k, l - k)"
      using 1 b k(2) e
      by (simp add: memcpy_words_def st_def [symmetric] l_def [symmetric] b_def [symmetric] Let_def)
    then show ?thesis using fin [OF k(1)] by simp
  qed
qed

lemma memcpy_blit:
  assumes "mapped m d n" "mapped m s n" "d + n \<le> s \<or> s + n \<le> d"
  shows "memcpy m d s n = Some (blit m d s n, d)"
proof -
  have "\<exists>k \<le> n. (if \<not> TOO_SMALL_BIG_BLOCK n then memcpy_words m d s n else Some (m, d, s, n))
      = Some (blit m d s k, d + k, s + k, n - k)"
    using memcpy_words_prefix [of n m d s] assms by (cases "n < 32") (auto intro!: exI [of _ 0])
  then obtain k where k: "k \<le> n"
      "(if \<not> TOO_SMALL_BIG_BLOCK n then memcpy_words m d s n else Some (m, d, s, n))
        = Some (blit m d s k, d + k, s + k, n - k)"
    by (elim exE conjE) (rule that)
  show ?thesis
    unfolding memcpy_def k(2) using finish_bytes [OF assms(1,2) _ k(1)] assms(3) by auto
qed

lemma memcpy_small_blit:
  assumes "mapped m d n" "mapped m s n" "d \<le> s \<or> s + n \<le> d"
  shows "memcpy_small m d s n = Some (blit m d s n, d)"
  using copy_bytes_up [OF assms] by (simp add: memcpy_small_def)

lemma memmove_blit:
  assumes "mapped m d n" "mapped m s n"
  shows "memmove m d s n = Some (blit m d s n, d)"
proof (cases "s < d \<and> d < s + n")
  case True
  have "\<exists>k \<le> n. (if \<not> TOO_SMALL_LITTLE_BLOCK n \<and> UNALIGNED_X_Y (s + n) (d + n) = 0
        then copy_words_down m (d + n) (s + n) n else Some (m, d + n, s + n, n))
      = Some (blit m (d + (n - k)) (s + (n - k)) k, d + (n - k), s + (n - k), n - k)"
    using copy_words_down_prefix [OF _ _ assms] True by (auto intro!: exI [of _ 0])
  then obtain k where k: "k \<le> n"
      "(if \<not> TOO_SMALL_LITTLE_BLOCK n \<and> UNALIGNED_X_Y (s + n) (d + n) = 0
        then copy_words_down m (d + n) (s + n) n else Some (m, d + n, s + n, n))
      = Some (blit m (d + (n - k)) (s + (n - k)) k, d + (n - k), s + (n - k), n - k)"
    by (elim exE conjE) (rule that)
  define j where "j = n - k"
  let ?m = "blit m (d + j) (s + j) k"
  have mp: "mapped m (s + j) k" "mapped m d j" "mapped m s j"
    using k(1) mapped_sub [OF assms(1)] mapped_sub [OF assms(2)] by (auto simp: j_def)
  have "copy_bytes_down ?m (d + j) (s + j) j = Some (blit ?m d s j, d, s)"
    using mp True by (intro copy_bytes_down_eq mapped_blit) auto
  moreover have "blit ?m d s j = blit m d s (k + j)" using True by (intro blit_down) auto
  ultimately show ?thesis
    unfolding memmove_def Let_def using True k by (simp add: j_def [symmetric]) (simp add: j_def)
next
  case False
  then have dj: "d \<le> s \<or> s + n \<le> d" by auto
  show ?thesis
    using False
    by (auto simp: memmove_def blocks_words.then_bytes [OF _ _ assms dj, simplified] copy_bytes_up [OF assms dj])
qed

lemma memmove_small_blit:
  assumes "mapped m d n" "mapped m s n"
  shows "memmove_small m d s n = Some (blit m d s n, d)"
proof (cases "s < d \<and> d < s + n")
  case True
  then show ?thesis using copy_bytes_down_eq [OF assms] by (simp add: memmove_small_def)
next
  case False
  then have "d \<le> s \<or> s + n \<le> d" by auto
  then show ?thesis using False copy_bytes_up [OF assms] by (auto simp: memmove_small_def)
qed

lemma mempcpy_blit:
  assumes "mapped m d n" "mapped m s n" "d \<le> s \<or> s + n \<le> d"
  shows "mempcpy m d s n = Some (blit m d s n, d + n)"
  by (auto simp: mempcpy_def blocks_words.then_bytes [OF _ _ assms, simplified] copy_bytes_up [OF assms])

subsection \<open>Properties\<close>

text \<open>
  C9: on source and destination ranges that do not meet, \<open>memcpy\<close> (bytes up to alignment, then
  blocks and words, or the merge of two source words when the source is not aligned with
  the destination, then the remaining bytes) returns the destination, which holds the
  source bytes; no other address changes and none outside the two ranges is touched.
\<close>

theorem memcpy_correct:
  assumes "bytes_at m src xs" and "mapped m dst (length xs)"
    and "dst + length xs \<le> src \<or> src + length xs \<le> dst"
  shows "memcpy m dst src (length xs) = Some (put_bytes m dst xs, dst)"
  using memcpy_blit [OF assms(2) bytes_at_mapped [OF assms(1)] assms(3)] put_bytes_blit [OF assms(1)]
  by simp

theorem memcpy_correct_witness:
  "memcpy (put_bytes (\<lambda>_. None) 16 (replicate 90 7)) 17 59 (length (replicate 40 (7::u8)))
    = Some (put_bytes (put_bytes (\<lambda>_. None) 16 (replicate 90 7)) 17 (replicate 40 7), 17)"
  by (rule memcpy_correct) (auto simp: bytes_at_iff put_bytes_apply intro!: mapped_put_inside)

text \<open>
  C10: \<open>memmove\<close> leaves the bytes the source held before the call in the destination, whatever
  the overlap of the two ranges, and changes nothing else.
\<close>

theorem memmove_correct:
  assumes "bytes_at m src xs" and "mapped m dst (length xs)"
  shows "memmove m dst src (length xs) = Some (put_bytes m dst xs, dst)"
  using memmove_blit [OF assms(2) bytes_at_mapped [OF assms(1)]] put_bytes_blit [OF assms(1)]
  by simp

theorem memmove_correct_witness:
  "memmove (put_bytes (\<lambda>_. None) 8 [1, 2, 3, 4, 5]) 9 8 (length [1::u8, 2, 3, 4])
    = Some (put_bytes (put_bytes (\<lambda>_. None) 8 [1, 2, 3, 4, 5]) 9 [1, 2, 3, 4], 9)"
  by (rule memmove_correct) (auto simp: put_bytes_apply intro!: mapped_put_inside)

text \<open>
  C11: the size-optimised and the word-at-a-time builds of \<open>memmove\<close>, \<open>memcpy\<close> and
  \<open>mempcpy\<close> return the same result.
\<close>

theorem copy_variants_agree:
  assumes "mapped m dst n" and "mapped m src n"
  shows "memmove_small m dst src n = memmove m dst src n \<and>
    (dst + n \<le> src \<or> src + n \<le> dst \<longrightarrow>
      memcpy_small m dst src n = memcpy m dst src n \<and> mempcpy_small m dst src n = mempcpy m dst src n)"
proof (intro conjI impI)
  show "memmove_small m dst src n = memmove m dst src n"
    using memmove_blit [OF assms] memmove_small_blit [OF assms] by simp
next
  assume d: "dst + n \<le> src \<or> src + n \<le> dst"
  then have u: "dst \<le> src \<or> src + n \<le> dst" by auto
  show "memcpy_small m dst src n = memcpy m dst src n"
    using memcpy_small_blit [OF assms u] memcpy_blit [OF assms d] by simp
  show "mempcpy_small m dst src n = mempcpy m dst src n"
    using mempcpy_blit [OF assms u] copy_bytes_up [OF assms u] by (simp add: mempcpy_small_def)
qed

theorem copy_variants_agree_witness:
  "memmove_small (put_bytes (\<lambda>_. None) 8 (replicate 64 5)) 10 12 40
      = memmove (put_bytes (\<lambda>_. None) 8 (replicate 64 5)) 10 12 40 \<and>
   memcpy_small (put_bytes (\<lambda>_. None) 8 (replicate 64 5)) 9 41 31
      = memcpy (put_bytes (\<lambda>_. None) 8 (replicate 64 5)) 9 41 31"
  using copy_variants_agree [of "put_bytes (\<lambda>_. None) 8 (replicate 64 5)" 10 40 12]
    copy_variants_agree [of "put_bytes (\<lambda>_. None) 8 (replicate 64 5)" 9 31 41]
  by (simp add: mapped_put_inside)

end
