(* ===== verification/MemFill.thy ===== *)
theory MemFill
  imports MemCopy
begin

text \<open>
  The remaining writers of \<open>libc/string\<close>: \<open>memccpy\<close>, which copies up to a delimiter,
  \<open>memset\<close> with its wrappers, and \<open>swab\<close>. The word loops are compared with the byte
  loops through the list of bytes the routine reads or the bytes it leaves behind.
\<close>

subsection \<open>Copying up to a delimiter\<close>

text \<open>\<^verbatim>\<open>while (len0--) { if ((*dst++ = *src++) == endchar) { ptr = dst; break; } }\<close>\<close>

fun ccpy_bytes :: "mem \<Rightarrow> addr \<Rightarrow> addr \<Rightarrow> u8 \<Rightarrow> nat \<Rightarrow> (mem \<times> addr) option" where
  "ccpy_bytes m dst src endchar 0 = Some (m, NULL)"
| "ccpy_bytes m dst src endchar (Suc n) =
     do { b \<leftarrow> load8 m src; m' \<leftarrow> store8 m dst b;
          if b = endchar then Some (m', dst + 1) else ccpy_bytes m' (dst + 1) (src + 1) endchar n }"

fun ccpy_words :: "mem \<Rightarrow> addr \<Rightarrow> addr \<Rightarrow> u64 \<Rightarrow> nat \<Rightarrow> (mem \<times> addr \<times> addr \<times> nat) option" where
  "ccpy_words m dst src msk n =
     (if TOO_SMALL_LITTLE_BLOCK n then Some (m, dst, src, n)
      else do {
        w \<leftarrow> load64 m src;
        if DETECT_NULL (w XOR msk) \<noteq> 0 then Some (m, dst, src, n)
        else do {
          m' \<leftarrow> store64 m dst w;
          ccpy_words m' (dst + 8) (src + 8) msk (n - LITTLE_BLOCK_SIZE) } })"

declare ccpy_words.simps [simp del]

definition memccpy_small :: "mem \<Rightarrow> addr \<Rightarrow> addr \<Rightarrow> int \<Rightarrow> nat \<Rightarrow> (mem \<times> addr) option" where
  "memccpy_small m dst0 src0 endchar0 len0 = ccpy_bytes m dst0 src0 (word_of_int endchar0) len0"

definition memccpy :: "mem \<Rightarrow> addr \<Rightarrow> addr \<Rightarrow> int \<Rightarrow> nat \<Rightarrow> (mem \<times> addr) option" where
  "memccpy m dst0 src0 endchar0 len0 = do {
     let endchar = word_of_int endchar0;
     (m, dst, src, len) \<leftarrow>
       (if \<not> TOO_SMALL_LITTLE_BLOCK len0 \<and> UNALIGNED_X_Y src0 dst0 = 0
        then ccpy_words m dst0 src0 (spread endchar) len0
        else Some (m, dst0, src0, len0));
     ccpy_bytes m dst src endchar len }"

subsection \<open>Filling\<close>

fun set_bytes :: "mem \<Rightarrow> addr \<Rightarrow> u8 \<Rightarrow> nat \<Rightarrow> mem option" where
  "set_bytes m s c 0 = Some m"
| "set_bytes m s c (Suc n) = do { m' \<leftarrow> store8 m s c; set_bytes m' (s + 1) c n }"

text \<open>The alignment loop; no remaining count means that it returned from \<open>memset\<close>.\<close>

fun set_align :: "mem \<Rightarrow> addr \<Rightarrow> u8 \<Rightarrow> nat \<Rightarrow> (mem \<times> addr \<times> nat option) option" where
  "set_align m s c 0 = Some (m, s, if UNALIGNED_X s = 0 then Some 0 else None)"
| "set_align m s c (Suc n) =
     (if UNALIGNED_X s = 0 then Some (m, s, Some (Suc n))
      else do { m' \<leftarrow> store8 m s c; set_align m' (s + 1) c n })"

fun set_words :: "mem \<Rightarrow> addr \<Rightarrow> u64 \<Rightarrow> nat \<Rightarrow> (mem \<times> addr \<times> nat) option" where
  "set_words m s buffer n =
     (if TOO_SMALL_LITTLE_BLOCK n then Some (m, s, n)
      else do { m' \<leftarrow> store64 m s buffer; set_words m' (s + 8) buffer (n - LITTLE_BLOCK_SIZE) })"

fun set_blocks :: "mem \<Rightarrow> addr \<Rightarrow> u64 \<Rightarrow> nat \<Rightarrow> (mem \<times> addr \<times> nat) option" where
  "set_blocks m s buffer n =
     (if TOO_SMALL_BIG_BLOCK n then Some (m, s, n)
      else do {
        m \<leftarrow> store64 m s buffer; m \<leftarrow> store64 m (s + 8) buffer;
        m \<leftarrow> store64 m (s + 16) buffer; m \<leftarrow> store64 m (s + 24) buffer;
        set_blocks m (s + 32) buffer (n - BIG_BLOCK_SIZE) })"

declare set_words.simps [simp del] set_blocks.simps [simp del]

definition memset_small :: "mem \<Rightarrow> addr \<Rightarrow> int \<Rightarrow> nat \<Rightarrow> (mem \<times> addr) option" where
  "memset_small m s c n = do { m' \<leftarrow> set_bytes m s (word_of_int c) n; Some (m', s) }"

definition memset :: "mem \<Rightarrow> addr \<Rightarrow> int \<Rightarrow> nat \<Rightarrow> (mem \<times> addr) option" where
  "memset m0 m c n = do {
     let d = (word_of_int c :: u8);
     (mm, s, r) \<leftarrow> set_align m0 m d n;
     (case r of
        None \<Rightarrow> Some (mm, m)
      | Some n \<Rightarrow> do {
          (mm, s, n) \<leftarrow>
            (if \<not> TOO_SMALL_LITTLE_BLOCK n then do {
               (mm, s, n) \<leftarrow> set_blocks mm s (spread d) n;
               set_words mm s (spread d) n }
             else Some (mm, s, n));
          mm \<leftarrow> set_bytes mm s d n;
          Some (mm, m) }) }"

definition bzero :: "mem \<Rightarrow> addr \<Rightarrow> nat \<Rightarrow> mem option" where
  "bzero m b len = do { (m, r) \<leftarrow> memset m b 0 len; Some m }"

definition explicit_bzero :: "mem \<Rightarrow> addr \<Rightarrow> nat \<Rightarrow> mem option" where
  "explicit_bzero m p n = bzero m p n"

definition memset_explicit :: "mem \<Rightarrow> addr \<Rightarrow> int \<Rightarrow> nat \<Rightarrow> (mem \<times> addr) option" where
  "memset_explicit m dest ch count = do { (m, r) \<leftarrow> memset m dest ch count; Some (m, dest) }"

subsection \<open>Swapping bytes\<close>

text \<open>
  \<^verbatim>\<open>for (ptr = 1; ptr < length; ptr += 2)\<close>, then a NUL when the length is odd. The length is
  signed: nothing happens when it is not positive.
\<close>

function swab_loop :: "mem \<Rightarrow> addr \<Rightarrow> addr \<Rightarrow> int \<Rightarrow> int \<Rightarrow> (mem \<times> int) option" where
  "swab_loop m from to ptr len =
     (if ptr < len then do {
        p \<leftarrow> load8 m (nat (int from + ptr));
        q \<leftarrow> load8 m (nat (int from + ptr - 1));
        m \<leftarrow> store8 m (nat (int to + ptr - 1)) p;
        m \<leftarrow> store8 m (nat (int to + ptr)) q;
        swab_loop m from to (ptr + 2) len }
      else Some (m, ptr))"
  by pat_completeness auto
termination
  by (relation "measure (\<lambda>(m, f, t, p, l). nat (l - p))") auto

declare swab_loop.simps [simp del]

definition swab :: "mem \<Rightarrow> addr \<Rightarrow> addr \<Rightarrow> int \<Rightarrow> mem option" where
  "swab m b1 b2 len = do {
     (m, ptr) \<leftarrow> swab_loop m b1 b2 1 len;
     if ptr = len then store8 m (nat (int b2 + ptr - 1)) 0 else Some m }"

subsection \<open>\<open>memccpy\<close> stops after the first delimiter\<close>

definition ccpy_result :: "mem \<Rightarrow> addr \<Rightarrow> addr \<Rightarrow> u8 list \<Rightarrow> u8 \<Rightarrow> mem \<times> addr" where
  "ccpy_result m d s xs c =
     (let k = length (takeWhile (\<lambda>b. b \<noteq> c) xs)
      in if k < length xs then (blit m d s (Suc k), d + Suc k) else (blit m d s k, NULL))"

lemma ccpy_bytes_eq:
  assumes "bytes_at m s xs" "mapped m d (length xs)" "d + length xs \<le> s \<or> s + length xs \<le> d"
  shows "ccpy_bytes m d s c (length xs) = Some (ccpy_result m d s xs c)"
  using assms
proof (induction xs arbitrary: m d s)
  case Nil
  show ?case by (simp add: ccpy_result_def)
next
  case (Cons x xs)
  let ?m = "blit m d s 1"
  have ms: "m s = Some x" "m d \<noteq> None" using Cons.prems by (auto simp: mapped_Suc)
  have c: "load8 m s = Some x" "store8 m d x = Some ?m"
    using ms blit_1 [of m s x d] by (simp_all add: load8_def store8_def)
  have "bytes_at ?m (Suc s) xs"
    using Cons.prems by (auto simp: bytes_at_iff blit_def)
  moreover have "mapped ?m (Suc d) (length xs)"
    using Cons.prems by (intro mapped_blit) (auto simp: mapped_Suc)
  ultimately have ih: "ccpy_bytes ?m (Suc d) (Suc s) c (length xs) = Some (ccpy_result ?m (Suc d) (Suc s) xs c)"
    using Cons.prems(3) by (intro Cons.IH) auto
  have b: "blit ?m (Suc d) (Suc s) k = blit m d s (Suc k)" if "k \<le> length xs" for k
    using blit_up [of d s 1 k m] Cons.prems(3) that by auto
  have l: "length (takeWhile (\<lambda>b. b \<noteq> c) xs) \<le> length xs" by (rule length_takeWhile_le)
  show ?case using c ih b l by (auto simp: ccpy_result_def Let_def)
qed

lemma ccpy_result_split:
  assumes "c \<notin> set ys" "d \<le> s \<or> s + length (ys @ zs) \<le> d"
  shows "ccpy_result (blit m d s (length ys)) (d + length ys) (s + length ys) zs c
    = ccpy_result m d s (ys @ zs) c"
proof -
  define k where "k = length (takeWhile (\<lambda>b. b \<noteq> c) zs)"
  have k: "k \<le> length zs" unfolding k_def by (rule length_takeWhile_le)
  have 1: "length (takeWhile (\<lambda>b. b \<noteq> c) (ys @ zs)) = length ys + k"
    using assms(1) by (subst takeWhile_append2) (auto simp: k_def)
  have "blit (blit m d s (length ys)) (d + length ys) (s + length ys) j = blit m d s (length ys + j)"
    if "j \<le> length zs" for j
    using assms(2) that by (intro blit_up) auto
  then show ?thesis using k unfolding ccpy_result_def 1 k_def [symmetric] Let_def by auto
qed

lemma ccpy_words_prefix:
  assumes "d mod 8 = 0" "s mod 8 = 0" "bytes_at m s xs" "mapped m d (length xs)"
    "d + length xs \<le> s \<or> s + length xs \<le> d"
  shows "\<exists>k \<le> length xs. c \<notin> set (take k xs) \<and> ccpy_words m d s (word_of_bytes (replicate 8 c)) (length xs)
    = Some (blit m d s k, d + k, s + k, length xs - k)"
  using assms
proof (induction "length xs" arbitrary: m d s xs rule: less_induct)
  case less
  show ?case
  proof (cases "length xs < 8 \<or> c \<in> set (take 8 xs)")
    case True
    have "ccpy_words m d s (word_of_bytes (replicate 8 c)) (length xs) = Some (m, d, s, length xs)"
    proof (cases "length xs < 8")
      case False
      then have "load64 m s = Some (word_of_bytes (take 8 xs))"
        using less.prems bytes_at_append [of m s "take 8 xs" "drop 8 xs"] by (intro load64_at) auto
      then show ?thesis
        using False True DETECT_CHAR_iff [of "take 8 xs" c]
        by (subst ccpy_words.simps) (auto simp: DETECT_CHAR_def)
    qed (simp add: ccpy_words.simps)
    then show ?thesis by (intro exI [of _ 0]) simp
  next
    case False
    define ys where "ys = drop 8 xs"
    have xs: "xs = take 8 xs @ ys" "length (take 8 xs) = 8" "length xs = 8 + length ys"
      using False by (auto simp: ys_def)
    have at: "bytes_at m s (take 8 xs)" "bytes_at m (s + 8) ys"
      using less.prems(3) xs bytes_at_append [of m s "take 8 xs" ys] by auto
    let ?m = "blit m d s 8"
    have l: "load64 m s = Some (word_of_bytes (take 8 xs))"
      using at(1) xs(2) less.prems(2) by (intro load64_at)
    have "mapped m s 8" "mapped m d 8"
      using bytes_at_mapped [OF at(1)] mapped_sub [OF less.prems(4), of d 8] xs by auto
    then have st: "store64 m d (word_of_bytes (take 8 xs)) = Some ?m"
      using copy64 [of m s d] l less.prems by simp
    have "bytes_at ?m (s + 8) ys"
      using at(2) less.prems(5) xs(3) by (auto simp: bytes_at_iff blit_def)
    moreover have "mapped ?m (d + 8) (length ys)"
      using mapped_rest(1) [OF less.prems(4) bytes_at_mapped [OF less.prems(3)], of 8] xs(3) by simp
    ultimately have "\<exists>k \<le> length ys. c \<notin> set (take k ys) \<and>
        ccpy_words ?m (d + 8) (s + 8) (word_of_bytes (replicate 8 c)) (length ys)
        = Some (blit ?m (d + 8) (s + 8) k, d + 8 + k, s + 8 + k, length ys - k)"
      using less.prems xs(3) by (intro less.hyps) auto
    then obtain k where k: "k \<le> length ys" "c \<notin> set (take k ys)"
        "ccpy_words ?m (d + 8) (s + 8) (word_of_bytes (replicate 8 c)) (length ys)
        = Some (blit ?m (d + 8) (s + 8) k, d + 8 + k, s + 8 + k, length ys - k)"
      by (elim exE conjE) (rule that)
    have "blit ?m (d + 8) (s + 8) k = blit m d s (8 + k)"
      using less.prems(5) k(1) xs(3) by (intro blit_up) auto
    moreover have "take (8 + k) xs = take 8 xs @ take k ys" by (simp add: ys_def take_add)
    moreover have "ccpy_words m d s (word_of_bytes (replicate 8 c)) (length xs)
        = ccpy_words ?m (d + 8) (s + 8) (word_of_bytes (replicate 8 c)) (length ys)"
    proof -
      have "\<not> TOO_SMALL_LITTLE_BLOCK (length xs)" "length xs - 8 = length ys"
        "DETECT_NULL (word_of_bytes (take 8 xs) XOR word_of_bytes (replicate 8 c)) = 0"
        using False xs DETECT_CHAR_iff [of "take 8 xs" c] by (auto simp: DETECT_CHAR_def)
      then show ?thesis using l st by (subst ccpy_words.simps) simp
    qed
    moreover have "c \<notin> set (take 8 xs @ take k ys)" using False k(2) by simp
    ultimately show ?thesis
      using k(1,3) xs(3) by (intro exI [of _ "8 + k"] conjI) (simp_all only: add.assoc, simp_all)
  qed
qed

lemma memccpy_eq:
  assumes "bytes_at m s xs" "mapped m d (length xs)" "d + length xs \<le> s \<or> s + length xs \<le> d"
  shows "memccpy m d s c (length xs) = Some (ccpy_result m d s xs (word_of_int c))"
proof -
  let ?c = "word_of_int c :: u8"
  have "\<exists>k \<le> length xs. ?c \<notin> set (take k xs) \<and>
      (if \<not> TOO_SMALL_LITTLE_BLOCK (length xs) \<and> UNALIGNED_X_Y s d = 0
       then ccpy_words m d s (spread ?c) (length xs) else Some (m, d, s, length xs))
      = Some (blit m d s k, d + k, s + k, length xs - k)"
    using ccpy_words_prefix [OF _ _ assms] by (auto simp: spread_eq intro!: exI [of _ 0])
  then obtain k where k: "k \<le> length xs" "?c \<notin> set (take k xs)"
      "(if \<not> TOO_SMALL_LITTLE_BLOCK (length xs) \<and> UNALIGNED_X_Y s d = 0
       then ccpy_words m d s (spread ?c) (length xs) else Some (m, d, s, length xs))
      = Some (blit m d s k, d + k, s + k, length xs - k)"
    by (elim exE conjE) (rule that)
  let ?m = "blit m d s k"
  have "bytes_at m (s + k) (drop k xs)"
    using assms(1) k(1) bytes_at_append [of m s "take k xs" "drop k xs"] by simp
  then have "bytes_at ?m (s + k) (drop k xs)"
    using assms(3) k(1) by (auto simp: bytes_at_iff blit_def)
  moreover have "mapped ?m (d + k) (length (drop k xs))"
    using mapped_rest(1) [OF assms(2) bytes_at_mapped [OF assms(1)] k(1)] by simp
  ultimately have "ccpy_bytes ?m (d + k) (s + k) ?c (length (drop k xs)) = Some (ccpy_result ?m (d + k) (s + k) (drop k xs) ?c)"
    using assms(3) k(1) by (intro ccpy_bytes_eq) auto
  moreover have "ccpy_result ?m (d + k) (s + k) (drop k xs) ?c = ccpy_result m d s xs ?c"
    using ccpy_result_split [of ?c "take k xs" d s "drop k xs" m] k(1,2) assms(3) by auto
  ultimately show ?thesis unfolding memccpy_def Let_def k(3) by simp
qed

subsection \<open>\<open>memset\<close> fills\<close>

lemma set_bytes_eq: "mapped m s n \<Longrightarrow> set_bytes m s c n = Some (put_bytes m s (replicate n c))"
proof (induction n arbitrary: m s)
  case 0
  show ?case by simp
next
  case (Suc n)
  then have "mapped (m(s \<mapsto> c)) (Suc s) n" "m s \<noteq> None" by (auto simp: mapped_Suc mapped_upd)
  then show ?case using Suc.IH by (simp add: store8_def put_bytes_Cons)
qed

lemma put_replicate_add: "put_bytes (put_bytes m s (replicate a c)) (s + a) (replicate b c) = put_bytes m s (replicate (a + b) c)"
  using put_bytes_append [of m s "replicate a c" "replicate b c"] by (simp add: replicate_add)

lemma store64_fill:
  "mapped m s 8 \<Longrightarrow> s mod 8 = 0 \<Longrightarrow>
   store64 m s (word_of_bytes (replicate 8 c)) = Some (put_bytes m s (replicate 8 c))"
  by (simp add: store64_eq word_to_bytes_of_bytes)

lemma set_words_prefix:
  assumes "s mod 8 = 0" "mapped m s n"
  shows "\<exists>k \<le> n. k mod 8 = 0 \<and> set_words m s (word_of_bytes (replicate 8 c)) n
    = Some (put_bytes m s (replicate k c), s + k, n - k)"
  using assms
proof (induction n arbitrary: m s rule: less_induct)
  case (less n)
  show ?case
  proof (cases "n < 8")
    case True
    then show ?thesis by (intro exI [of _ 0]) (simp add: set_words.simps)
  next
    case False
    let ?m = "put_bytes m s (replicate 8 c)"
    have "\<exists>k \<le> n - 8. k mod 8 = 0 \<and> set_words ?m (s + 8) (word_of_bytes (replicate 8 c)) (n - 8)
        = Some (put_bytes ?m (s + 8) (replicate k c), s + 8 + k, n - 8 - k)"
      using less.prems False by (intro less.IH mapped_put_bytes) (auto intro: mapped_sub [OF less.prems(2)])
    then obtain k where k: "k \<le> n - 8" "k mod 8 = 0"
        "set_words ?m (s + 8) (word_of_bytes (replicate 8 c)) (n - 8)
        = Some (put_bytes ?m (s + 8) (replicate k c), s + 8 + k, n - 8 - k)"
      by (elim exE conjE) (rule that)
    have "set_words m s (word_of_bytes (replicate 8 c)) n = set_words ?m (s + 8) (word_of_bytes (replicate 8 c)) (n - 8)"
      using store64_fill [of m s c] mapped_sub [OF less.prems(2), of s 8] less.prems(1) False
      by (subst set_words.simps) (simp)
    then show ?thesis
      using k False put_replicate_add [of m s 8 c k] by (intro exI [of _ "8 + k"]) (simp add: add.assoc)
  qed
qed

lemma set_blocks_unfold:
  assumes "32 \<le> n" "s mod 8 = 0" "mapped m s n"
  shows "set_blocks m s (word_of_bytes (replicate 8 c)) n =
    set_blocks (put_bytes m s (replicate 32 c)) (s + 32) (word_of_bytes (replicate 8 c)) (n - 32)"
proof -
  have step: "store64 (put_bytes m s (replicate i c)) (s + i) (word_of_bytes (replicate 8 c))
      = Some (put_bytes m s (replicate (i + 8) c))" if "i \<le> 24" "i mod 8 = 0" for i
    using assms that store64_fill [of "put_bytes m s (replicate i c)" "s + i" c] mod8_add [OF assms(2) that(2)]
      mapped_put_bytes [OF mapped_sub [OF assms(3), of "s + i" 8]]
    by (simp add: put_replicate_add)
  show ?thesis
    using assms(1) step [of 0] step [of 8] step [of 16] step [of 24]
    by (subst set_blocks.simps) (simp)
qed

lemma set_blocks_prefix:
  assumes "s mod 8 = 0" "mapped m s n"
  shows "\<exists>k \<le> n. k mod 8 = 0 \<and> set_blocks m s (word_of_bytes (replicate 8 c)) n
    = Some (put_bytes m s (replicate k c), s + k, n - k)"
  using assms
proof (induction n arbitrary: m s rule: less_induct)
  case (less n)
  show ?case
  proof (cases "n < 32")
    case True
    then show ?thesis by (intro exI [of _ 0]) (simp add: set_blocks.simps)
  next
    case False
    let ?m = "put_bytes m s (replicate 32 c)"
    have "\<exists>k \<le> n - 32. k mod 8 = 0 \<and> set_blocks ?m (s + 32) (word_of_bytes (replicate 8 c)) (n - 32)
        = Some (put_bytes ?m (s + 32) (replicate k c), s + 32 + k, n - 32 - k)"
      using less.prems False
      by (intro less.IH mapped_put_bytes) (auto intro: mapped_sub [OF less.prems(2)] mod8_add)
    then obtain k where k: "k \<le> n - 32" "k mod 8 = 0"
        "set_blocks ?m (s + 32) (word_of_bytes (replicate 8 c)) (n - 32)
        = Some (put_bytes ?m (s + 32) (replicate k c), s + 32 + k, n - 32 - k)"
      by (elim exE conjE) (rule that)
    have "(32 + k) mod 8 = 0" using k(2) by (intro mod8_add) auto
    then show ?thesis
      using k False put_replicate_add [of m s 32 c k] set_blocks_unfold [OF _ less.prems]
      by (intro exI [of _ "32 + k"]) (simp add: add.assoc)
  qed
qed

lemma set_align_eq:
  assumes "mapped m s n"
  shows "\<exists>k \<le> n. set_align m s c n = Some (put_bytes m s (replicate k c), s + k,
    if (s + k) mod 8 = 0 then Some (n - k) else None) \<and> ((s + k) mod 8 = 0 \<or> k = n)"
  using assms
proof (induction n arbitrary: m s)
  case 0
  show ?case by simp
next
  case (Suc n)
  show ?case
  proof (cases "s mod 8 = 0")
    case True
    then show ?thesis by (intro exI [of _ 0]) simp
  next
    case False
    let ?m = "put_bytes m s [c]"
    have "\<exists>k \<le> n. set_align ?m (Suc s) c n = Some (put_bytes ?m (Suc s) (replicate k c), Suc s + k,
        if (Suc s + k) mod 8 = 0 then Some (n - k) else None) \<and> ((Suc s + k) mod 8 = 0 \<or> k = n)"
      using Suc.prems by (intro Suc.IH mapped_put_bytes) (auto simp: mapped_Suc)
    then obtain k where k: "k \<le> n" "set_align ?m (Suc s) c n = Some (put_bytes ?m (Suc s) (replicate k c),
        Suc s + k, if (Suc s + k) mod 8 = 0 then Some (n - k) else None)" "(Suc s + k) mod 8 = 0 \<or> k = n"
      by (elim exE conjE) (rule that)
    have "m s \<noteq> None" using Suc.prems by (simp add: mapped_Suc)
    then have "set_align m s c (Suc n) = set_align ?m (Suc s) c n"
      using False by (auto simp: store8_def)
    then show ?thesis using k put_replicate_add [of m s 1 c k]
      by (intro exI [of _ "Suc k"]) simp
  qed
qed

lemma memset_tail:
  assumes "s mod 8 = 0" "mapped m s n"
  shows "do { (mm, s, n) \<leftarrow>
      (if \<not> TOO_SMALL_LITTLE_BLOCK n then do {
         (mm, s, n) \<leftarrow> set_blocks m s (spread c) n;
         set_words mm s (spread c) n }
       else Some (m, s, n));
     set_bytes mm s c n } = Some (put_bytes m s (replicate n c))"
proof -
  obtain k where k: "k \<le> n" "k mod 8 = 0" "set_blocks m s (word_of_bytes (replicate 8 c)) n
      = Some (put_bytes m s (replicate k c), s + k, n - k)"
    using set_blocks_prefix [OF assms, of c] by (elim exE conjE) (rule that)
  let ?m = "put_bytes m s (replicate k c)"
  have mp: "mapped ?m (s + k) (n - k)"
    using k(1) by (intro mapped_put_bytes mapped_sub [OF assms(2)]) auto
  have al: "(s + k) mod 8 = 0" using assms(1) k(2) by (rule mod8_add)
  obtain j where j: "j \<le> n - k" "set_words ?m (s + k) (word_of_bytes (replicate 8 c)) (n - k)
      = Some (put_bytes ?m (s + k) (replicate j c), s + k + j, n - k - j)"
    using set_words_prefix [OF al mp, of c] by (elim exE conjE) (rule that)
  have "mapped (put_bytes ?m (s + k) (replicate j c)) (s + k + j) (n - k - j)"
    using j(1) by (intro mapped_put_bytes mapped_sub [OF mp]) auto
  then have "set_bytes (put_bytes ?m (s + k) (replicate j c)) (s + k + j) c (n - k - j)
      = Some (put_bytes m s (replicate n c))"
    using j(1) k(1) put_replicate_add [of m s "k + j" c "n - k - j"]
    by (simp add: set_bytes_eq put_replicate_add add.assoc)
  then show ?thesis using k(3) j(2) set_bytes_eq [OF assms(2)] by (simp add: spread_eq)
qed

lemma memset_fill:
  assumes "mapped m s n"
  shows "memset m s c n = Some (put_bytes m s (replicate n (word_of_int c)), s)"
proof -
  let ?c = "word_of_int c :: u8"
  obtain k where k: "k \<le> n" "set_align m s ?c n = Some (put_bytes m s (replicate k ?c), s + k,
      if (s + k) mod 8 = 0 then Some (n - k) else None)" "(s + k) mod 8 = 0 \<or> k = n"
    using set_align_eq [OF assms, of ?c] by (elim exE conjE) (rule that)
  show ?thesis
  proof (cases "(s + k) mod 8 = 0")
    case True
    let ?m = "put_bytes m s (replicate k ?c)"
    have "mapped ?m (s + k) (n - k)"
      using k(1) by (intro mapped_put_bytes mapped_sub [OF assms]) auto
    from memset_tail [OF True this, of ?c] put_replicate_add [of m s k ?c "n - k"] k(1)
    show ?thesis unfolding memset_def using k(2) True
      by (cases "n - k < 8") (auto simp: bind_Some_iff)
  next
    case False
    then show ?thesis using k by (simp add: memset_def)
  qed
qed

subsection \<open>\<open>swab\<close> exchanges neighbours\<close>

fun swap_pairs :: "u8 list \<Rightarrow> u8 list" where
  "swap_pairs (a # b # r) = b # a # swap_pairs r"
| "swap_pairs [a] = [0]"
| "swap_pairs [] = []"

lemma length_swap_pairs [simp]: "length (swap_pairs xs) = length xs"
  by (induction xs rule: swap_pairs.induct) auto


text \<open>
  The two buffers are apart or the same, as for every use of \<open>swab\<close>; \<open>i\<close> pairs are done
  when the loop counter is \<open>2 * i + 1\<close>.
\<close>

lemma swab_from:
  assumes "bytes_at m (b1 + 2 * i) xs" "mapped m (b2 + 2 * i) (length xs)"
    and "len = int (2 * i + length xs)"
    and "b1 = b2 \<or> b1 + 2 * i + length xs \<le> b2 + 2 * i \<or> b2 + 2 * i + length xs \<le> b1 + 2 * i"
  shows "do { (m, ptr) \<leftarrow> swab_loop m b1 b2 (int (2 * i) + 1) len;
       if ptr = len then store8 m (nat (int b2 + ptr - 1)) 0 else Some m }
    = Some (put_bytes m (b2 + 2 * i) (swap_pairs xs))"
  using assms
proof (induction xs arbitrary: m i rule: swap_pairs.induct)
  case (1 a b r)
  let ?d = "b2 + 2 * i" and ?s = "b1 + 2 * i"
  let ?m = "put_bytes m ?d [b, a]"
  have n: "nat (int b1 + (int (2 * i) + 1)) = Suc ?s" "nat (int b1 + (int (2 * i) + 1) - 1) = ?s"
    "nat (int b2 + (int (2 * i) + 1)) = Suc ?d" "nat (int b2 + (int (2 * i) + 1) - 1) = ?d" by auto
  have ms: "m ?s = Some a" "m (Suc ?s) = Some b" "m ?d \<noteq> None" "m (Suc ?d) \<noteq> None"
    using 1 by (auto simp: mapped_Suc)
  define m1 where "m1 = put_bytes m ?d [b]"
  have "load8 m (Suc ?s) = Some b" "load8 m ?s = Some a" "store8 m ?d b = Some m1"
    "store8 m1 (Suc ?d) a = Some ?m"
    using ms by (auto simp: load8_def store8_def m1_def put_bytes_Cons)
  moreover have "int (2 * i) + 1 + 2 = int (2 * Suc i) + 1" by simp
  moreover have "int (2 * i) + 1 < len" using 1(4) by simp
  ultimately have "swab_loop m b1 b2 (int (2 * i) + 1) len = swab_loop ?m b1 b2 (int (2 * Suc i) + 1) len"
    by (subst swab_loop.simps) (simp only: n if_True Option.bind.bind_lunit)
  moreover have "bytes_at ?m (b1 + 2 * Suc i) r"
    using 1(2,5) bytes_at_put_other [of "b1 + 2 * Suc i" r ?d "[b, a]" m] by auto
  moreover have "mapped ?m (b2 + 2 * Suc i) (length r)"
    using 1(3) by (intro mapped_put_bytes) (auto simp: mapped_Suc)
  moreover have dj: "b1 = b2 \<or> b1 + length r \<le> b2 \<or> b2 + length r \<le> b1"
    using 1(5) by auto
  ultimately have "do { (m, ptr) \<leftarrow> swab_loop m b1 b2 (int (2 * i) + 1) len;
       if ptr = len then store8 m (nat (int b2 + ptr - 1)) 0 else Some m }
    = Some (put_bytes ?m (b2 + 2 * Suc i) (swap_pairs r))"
    using 1(1) [of ?m "Suc i"] 1(4) dj by simp
  moreover have "put_bytes ?m (b2 + 2 * Suc i) (swap_pairs r) = put_bytes m ?d ([b, a] @ swap_pairs r)"
    by (subst put_bytes_append [symmetric]) simp
  ultimately show ?case by simp
next
  case (2 a)
  then show ?case by (subst swab_loop.simps) (auto simp: mapped_Suc store8_def nat_add_distrib nat_mult_distrib)
next
  case 3
  then show ?case by (subst swab_loop.simps) auto
qed

lemma swab_eq:
  assumes "bytes_at m b1 xs" "mapped m b2 (length xs)"
    and "b1 = b2 \<or> b1 + length xs \<le> b2 \<or> b2 + length xs \<le> b1"
  shows "swab m b1 b2 (int (length xs)) = Some (put_bytes m b2 (swap_pairs xs))"
  using swab_from [of m b1 0 xs b2 "int (length xs)"] assms by (simp add: swab_def)

subsection \<open>Properties\<close>

text \<open>
  C12: \<open>memset\<close> stores the low byte of its argument at every address of the range, whatever the
  alignment and length, changes nothing else, and returns its first argument.
\<close>

theorem memset_correct:
  assumes "mapped m s n"
  shows "memset m s c n = Some (put_bytes m s (replicate n (word_of_int c)), s)"
  using assms by (rule memset_fill)

theorem memset_correct_witness:
  "memset (put_bytes (\<lambda>_. None) 8 (replicate 90 0)) 11 0x1AB 77
    = Some (put_bytes (put_bytes (\<lambda>_. None) 8 (replicate 90 0)) 11 (replicate 77 (word_of_int 0x1AB)), 11)"
  by (rule memset_correct) (simp add: mapped_put_inside)

text \<open>
  \<open>memccpy\<close> copies up to and including the first byte equal to the delimiter and returns
  the address after its copy; without a delimiter it copies all the bytes and returns NULL.
\<close>

theorem memccpy_correct:
  assumes "bytes_at m src xs" and "mapped m dst (length xs)"
    and "dst + length xs \<le> src \<or> src + length xs \<le> dst"
    and "k = length (takeWhile (\<lambda>b. b \<noteq> word_of_int c) xs)"
  shows "memccpy m dst src c (length xs) =
    Some (if k < length xs then (put_bytes m dst (take (Suc k) xs), dst + Suc k)
          else (put_bytes m dst xs, NULL))"
proof -
  have "put_bytes m dst (take j xs) = blit m dst src j" if "j \<le> length xs" for j
    using assms(1) that by (intro put_bytes_blit) (auto simp: bytes_at_iff)
  from this [of "Suc k"] this [of "length xs"] show ?thesis
    using memccpy_eq [OF assms(1-3), of c] length_takeWhile_le [of "\<lambda>b. b \<noteq> word_of_int c" xs]
    by (auto simp: ccpy_result_def assms(4) Let_def)
qed

theorem memccpy_correct_witness:
  "memccpy (put_bytes (\<lambda>_. None) 8 [1, 2, 3, 0, 0, 0]) 11 8 2 (length [1::u8, 2, 3])
    = Some (put_bytes (put_bytes (\<lambda>_. None) 8 [1, 2, 3, 0, 0, 0]) 11 [1, 2], 13)"
  by (subst memccpy_correct [of _ _ _ _ 1]) (auto simp: put_bytes_apply intro!: mapped_put_inside)

text \<open>
  \<open>swab\<close> exchanges the bytes of every pair of the source, and a last byte without a partner
  becomes NUL, in place or between separate buffers.
\<close>

theorem swab_correct:
  assumes "bytes_at m b1 xs" and "mapped m b2 (length xs)"
    and "b1 = b2 \<or> b1 + length xs \<le> b2 \<or> b2 + length xs \<le> b1"
  shows "swab m b1 b2 (int (length xs)) = Some (put_bytes m b2 (swap_pairs xs))"
  using assms by (rule swab_eq)

theorem swab_correct_witness:
  "swab (put_bytes (\<lambda>_. None) 8 [1, 2, 3]) 8 8 (int (length [1::u8, 2, 3]))
    = Some (put_bytes (put_bytes (\<lambda>_. None) 8 [1, 2, 3]) 8 [2, 1, 0])"
  by (subst swab_correct) (auto simp: put_bytes_apply intro!: mapped_put_inside)

end
