(* ===== verification/MemScan.thy ===== *)
theory MemScan
  imports WordDetect
begin

text \<open>
  The routines of \<open>libc/string\<close> that only read: \<open>memchr\<close>, \<open>memrchr\<close>, \<open>rawmemchr\<close>, \<open>memcmp\<close>
  and its wrappers, and the constant-time comparisons. The loops that scan until a byte
  satisfies a test, shared with the string routines, stand first: a byte loop, a word loop, and the
  byte loop that runs until the pointer is aligned.
\<close>

subsection \<open>Unbounded scans\<close>

text \<open>\<^verbatim>\<open>while (!P(*s)) s++;\<close>\<close>

partial_function (option) scan_bytes :: "(u8 \<Rightarrow> bool) \<Rightarrow> mem \<Rightarrow> addr \<Rightarrow> addr option" where
  "scan_bytes P m s = do { b \<leftarrow> load8 m s; if P b then Some s else scan_bytes P m (s + 1) }"

text \<open>\<^verbatim>\<open>while (!T(*aligned_addr)) aligned_addr++;\<close>\<close>

partial_function (option) scan_words :: "(u64 \<Rightarrow> bool) \<Rightarrow> mem \<Rightarrow> addr \<Rightarrow> addr option" where
  "scan_words T m s = do { w \<leftarrow> load64 m s; if T w then Some s else scan_words T m (s + 8) }"

text \<open>\<^verbatim>\<open>while (UNALIGNED_X(s)) { if (P(*s)) return ...; s++; }\<close>; \<open>Inl\<close> is the early return.\<close>

partial_function (option) scan_align :: "(u8 \<Rightarrow> bool) \<Rightarrow> mem \<Rightarrow> addr \<Rightarrow> (addr + addr) option" where
  "scan_align P m s =
     (if UNALIGNED_X s = 0 then Some (Inr s)
      else do { b \<leftarrow> load8 m s; if P b then Some (Inl s) else scan_align P m (s + 1) })"

definition rawmemchr_small :: "mem \<Rightarrow> addr \<Rightarrow> int \<Rightarrow> addr option" where
  "rawmemchr_small m src c = scan_bytes (\<lambda>b. b = word_of_int c) m src"

definition rawmemchr :: "mem \<Rightarrow> addr \<Rightarrow> int \<Rightarrow> addr option" where
  "rawmemchr m src c = do {
     let d = (word_of_int c :: u8);
     r \<leftarrow> scan_align (\<lambda>b. b = d) m src;
     (case r of
        Inl s \<Rightarrow> Some s
      | Inr s \<Rightarrow> do {
          let msk = spread d;
          s \<leftarrow> scan_words (\<lambda>w. DETECT_CHAR w msk \<noteq> 0) m s;
          scan_bytes (\<lambda>b. b = d) m s }) }"

subsection \<open>\<open>memchr\<close>\<close>

fun memchr_align :: "mem \<Rightarrow> u8 \<Rightarrow> addr \<Rightarrow> nat \<Rightarrow> (addr + addr \<times> nat) option" where
  "memchr_align m d src 0 = Some (if UNALIGNED_X src = 0 then Inr (src, 0) else Inl NULL)"
| "memchr_align m d src (Suc n) =
     (if UNALIGNED_X src = 0 then Some (Inr (src, Suc n))
      else do { b \<leftarrow> load8 m src; if b = d then Some (Inl src) else memchr_align m d (src + 1) n })"

fun memchr_words :: "mem \<Rightarrow> u64 \<Rightarrow> addr \<Rightarrow> nat \<Rightarrow> (addr \<times> nat) option" where
  "memchr_words m msk asrc n =
     (if TOO_SMALL_LITTLE_BLOCK n then Some (asrc, n)
      else do {
        w \<leftarrow> load64 m asrc;
        if DETECT_CHAR w msk \<noteq> 0 then Some (asrc, n)
        else memchr_words m msk (asrc + 8) (n - LITTLE_BLOCK_SIZE) })"

fun memchr_bytes :: "mem \<Rightarrow> u8 \<Rightarrow> addr \<Rightarrow> nat \<Rightarrow> addr option" where
  "memchr_bytes m d src 0 = Some NULL"
| "memchr_bytes m d src (Suc n) =
     do { b \<leftarrow> load8 m src; if b = d then Some src else memchr_bytes m d (src + 1) n }"

definition memchr_small :: "mem \<Rightarrow> addr \<Rightarrow> int \<Rightarrow> nat \<Rightarrow> addr option" where
  "memchr_small m src c len = memchr_bytes m (word_of_int c) src len"

definition memchr :: "mem \<Rightarrow> addr \<Rightarrow> int \<Rightarrow> nat \<Rightarrow> addr option" where
  "memchr m src c len = do {
     let d = (word_of_int c :: u8);
     r \<leftarrow> memchr_align m d src len;
     (case r of
        Inl p \<Rightarrow> Some p
      | Inr (src, len) \<Rightarrow> do {
          (src, len) \<leftarrow>
            (if \<not> TOO_SMALL_LITTLE_BLOCK len then memchr_words m (spread d) src len
             else Some (src, len));
          memchr_bytes m d src len }) }"

subsection \<open>\<open>memrchr\<close>\<close>

text \<open>The loops run downwards; \<open>e\<close> is the code's \<open>src + 1\<close>, the end of the bytes still to search.\<close>

fun memrchr_align :: "mem \<Rightarrow> u8 \<Rightarrow> addr \<Rightarrow> nat \<Rightarrow> (addr + addr \<times> nat) option" where
  "memrchr_align m d e 0 = Some (if UNALIGNED_X e = 0 then Inr (e, 0) else Inl NULL)"
| "memrchr_align m d e (Suc n) =
     (if UNALIGNED_X e = 0 then Some (Inr (e, Suc n))
      else do { b \<leftarrow> load8 m (e - 1); if b = d then Some (Inl (e - 1)) else memrchr_align m d (e - 1) n })"

fun memrchr_words :: "mem \<Rightarrow> u64 \<Rightarrow> addr \<Rightarrow> nat \<Rightarrow> (addr \<times> nat) option" where
  "memrchr_words m msk e n =
     (if TOO_SMALL_LITTLE_BLOCK n then Some (e, n)
      else do {
        w \<leftarrow> load64 m (e - 8);
        if DETECT_CHAR w msk \<noteq> 0 then Some (e, n)
        else memrchr_words m msk (e - 8) (n - LITTLE_BLOCK_SIZE) })"

fun memrchr_bytes :: "mem \<Rightarrow> u8 \<Rightarrow> addr \<Rightarrow> nat \<Rightarrow> addr option" where
  "memrchr_bytes m d e 0 = Some NULL"
| "memrchr_bytes m d e (Suc n) =
     do { b \<leftarrow> load8 m (e - 1); if b = d then Some (e - 1) else memrchr_bytes m d (e - 1) n }"

definition memrchr_small :: "mem \<Rightarrow> addr \<Rightarrow> int \<Rightarrow> nat \<Rightarrow> addr option" where
  "memrchr_small m src c len = memrchr_bytes m (word_of_int c) (src + len) len"

definition memrchr :: "mem \<Rightarrow> addr \<Rightarrow> int \<Rightarrow> nat \<Rightarrow> addr option" where
  "memrchr m src c len = do {
     let d = (word_of_int c :: u8);
     r \<leftarrow> memrchr_align m d (src + len) len;
     (case r of
        Inl p \<Rightarrow> Some p
      | Inr (e, len) \<Rightarrow> do {
          (e, len) \<leftarrow>
            (if \<not> TOO_SMALL_LITTLE_BLOCK len then memrchr_words m (spread d) e len
             else Some (e, len));
          memrchr_bytes m d e len }) }"

subsection \<open>\<open>memcmp\<close>\<close>

fun cmp_bytes :: "mem \<Rightarrow> addr \<Rightarrow> addr \<Rightarrow> nat \<Rightarrow> int option" where
  "cmp_bytes m s1 s2 0 = Some 0"
| "cmp_bytes m s1 s2 (Suc n) =
     do { a \<leftarrow> load8 m s1; b \<leftarrow> load8 m s2;
          if a \<noteq> b then Some (uint a - uint b) else cmp_bytes m (s1 + 1) (s2 + 1) n }"

fun cmp_words :: "mem \<Rightarrow> addr \<Rightarrow> addr \<Rightarrow> nat \<Rightarrow> (addr \<times> addr \<times> nat) option" where
  "cmp_words m a1 a2 n =
     (if TOO_SMALL_LITTLE_BLOCK n then Some (a1, a2, n)
      else do {
        v \<leftarrow> load64 m a1; w \<leftarrow> load64 m a2;
        if v \<noteq> w then Some (a1, a2, n)
        else cmp_words m (a1 + 8) (a2 + 8) (n - LITTLE_BLOCK_SIZE) })"

declare memchr_words.simps [simp del] memrchr_words.simps [simp del] cmp_words.simps [simp del]

definition memcmp_small :: "mem \<Rightarrow> addr \<Rightarrow> addr \<Rightarrow> nat \<Rightarrow> int option" where
  "memcmp_small m m1 m2 n = cmp_bytes m m1 m2 n"

definition memcmp :: "mem \<Rightarrow> addr \<Rightarrow> addr \<Rightarrow> nat \<Rightarrow> int option" where
  "memcmp m m1 m2 n = do {
     (s1, s2, n) \<leftarrow>
       (if \<not> TOO_SMALL_LITTLE_BLOCK n \<and> UNALIGNED_X_Y m1 m2 = 0
        then cmp_words m m1 m2 n else Some (m1, m2, n));
     cmp_bytes m s1 s2 n }"

definition bcmp :: "mem \<Rightarrow> addr \<Rightarrow> addr \<Rightarrow> nat \<Rightarrow> int option" where
  "bcmp m m1 m2 n = memcmp m m1 m2 n"

subsection \<open>Constant-time comparisons\<close>

fun timingsafe_bcmp_loop :: "mem \<Rightarrow> addr \<Rightarrow> addr \<Rightarrow> nat \<Rightarrow> int \<Rightarrow> int option" where
  "timingsafe_bcmp_loop m p1 p2 0 ret = Some ret"
| "timingsafe_bcmp_loop m p1 p2 (Suc n) ret =
     do { a \<leftarrow> load8 m p1; b \<leftarrow> load8 m p2;
          timingsafe_bcmp_loop m (p1 + 1) (p2 + 1) n (ret OR (uint a XOR uint b)) }"

definition timingsafe_bcmp :: "mem \<Rightarrow> addr \<Rightarrow> addr \<Rightarrow> nat \<Rightarrow> int option" where
  "timingsafe_bcmp m b1 b2 n =
     do { ret \<leftarrow> timingsafe_bcmp_loop m b1 b2 n 0; Some (if ret \<noteq> 0 then 1 else 0) }"

fun timingsafe_memcmp_loop :: "mem \<Rightarrow> addr \<Rightarrow> addr \<Rightarrow> nat \<Rightarrow> int \<Rightarrow> int \<Rightarrow> int option" where
  "timingsafe_memcmp_loop m p1 p2 0 res dne = Some res"
| "timingsafe_memcmp_loop m p1 p2 (Suc n) res dne = do {
     a \<leftarrow> load8 m p1;
     b \<leftarrow> load8 m p2;
     let lt = drop_bit 8 (uint a - uint b);
     let gt = drop_bit 8 (uint b - uint a);
     let cmp = lt - gt;
     timingsafe_memcmp_loop m (p1 + 1) (p2 + 1) n (res OR (cmp AND NOT dne)) (dne OR (lt OR gt)) }"

definition timingsafe_memcmp :: "mem \<Rightarrow> addr \<Rightarrow> addr \<Rightarrow> nat \<Rightarrow> int option" where
  "timingsafe_memcmp m b1 b2 len = timingsafe_memcmp_loop m b1 b2 len 0 0"

subsection \<open>Interface of a word test\<close>

text \<open>
  What every word-at-a-time scan relies on: the test on a word holds just when the test on
  bytes holds of one of its bytes. Under it the aligned scan finds the first byte that
  satisfies the test. The bytes \<open>xs\<close> before it and every byte of its word must be
  readable, and nothing else is read.
\<close>

definition padded :: "mem \<Rightarrow> addr \<Rightarrow> bool" where
  "padded m e \<longleftrightarrow> mapped m e (8 - e mod 8)"

locale word_test =
  fixes P :: "u8 \<Rightarrow> bool" and T :: "u64 \<Rightarrow> bool"
  assumes T_iff: "length bs = 8 \<Longrightarrow> T (word_of_bytes bs) \<longleftrightarrow> (\<exists>b \<in> set bs. P b)"

lemma scan_bytes_eq:
  "bytes_at m p (xs @ [x]) \<Longrightarrow> \<forall>b \<in> set xs. \<not> P b \<Longrightarrow> P x \<Longrightarrow> scan_bytes P m p = Some (p + length xs)"
proof (induction xs arbitrary: p)
  case Nil
  then show ?case by (subst scan_bytes.simps) (simp add: load8_def)
next
  case (Cons b xs)
  then show ?case by (subst scan_bytes.simps) (simp add: load8_def)
qed

lemma aligned_word:
  assumes "p mod 8 = 0" "bytes_at m p (xs @ [x])" "padded m (p + length xs)" "length xs < 8"
  obtains ys where "length (xs @ x # ys) = 8" "bytes_at m p (xs @ x # ys)"
proof -
  have "(p + length xs) mod 8 = (p mod 8 + length xs) mod 8" by (rule mod_add_left_eq [symmetric])
  then have e: "p + length xs + (8 - (p + length xs) mod 8) = p + 8"
    using assms(1,4) by simp
  define r where "r = 8 - (p + length xs) mod 8"
  have "mapped m (p + length xs) r" "length xs + r = 8" using assms(3) e by (simp_all add: padded_def r_def)
  then have "mapped m (p + length xs + 1) (7 - length xs)" using assms(4) by (elim mapped_sub) auto
  then obtain ys where "length ys = 7 - length xs" "bytes_at m (p + length xs + 1) ys"
    using mapped_obtain_bytes by blast
  then show thesis using assms(2,4) by (intro that [of ys]) (auto simp: bytes_at_append)
qed

context word_test
begin

lemma scan_words_ok:
  assumes "p mod 8 = 0" "bytes_at m p (xs @ [x])" "\<forall>b \<in> set xs. \<not> P b" "P x" "padded m (p + length xs)"
  shows "do { s \<leftarrow> scan_words T m p; scan_bytes P m s } = Some (p + length xs)"
  using assms
proof (induction xs arbitrary: p rule: length_induct)
  case (1 xs)
  show ?case
  proof (cases "length xs < 8")
    case True
    obtain ys where ys: "length (xs @ x # ys) = 8" "bytes_at m p (xs @ x # ys)"
      using aligned_word [OF 1(2,3,6) True] by blast
    then have "load64 m p = Some (word_of_bytes (xs @ x # ys))" "T (word_of_bytes (xs @ x # ys))"
      using 1(2,5) by (auto simp: T_iff intro: load64_at)
    then show ?thesis
      using scan_bytes_eq [OF 1(3,4,5)] by (subst scan_words.simps) simp
  next
    case False
    define ws zs where "ws = take 8 xs" and "zs = drop 8 xs"
    have xs: "xs = ws @ zs" "length ws = 8" using False by (auto simp: ws_def zs_def)
    have at: "bytes_at m p ws" "bytes_at m (p + 8) (zs @ [x])"
      using 1(3) xs by (auto simp: bytes_at_append)
    have "load64 m p = Some (word_of_bytes ws)" "\<not> T (word_of_bytes ws)"
      using at(1) xs 1(2,4) by (auto simp: T_iff intro: load64_at)
    moreover have "do { s \<leftarrow> scan_words T m (p + 8); scan_bytes P m s } = Some (p + 8 + length zs)"
      using 1(1) [rule_format, of zs "p + 8"] at(2) xs 1 by (auto simp: ac_simps)
    ultimately show ?thesis using xs by (subst scan_words.simps) simp
  qed
qed

lemma scan_words_then:
  assumes "p mod 8 = 0" "bytes_at m p (xs @ [x])" "\<forall>b \<in> set xs. \<not> P b" "P x" "padded m (p + length xs)"
  shows "scan_words T m p \<bind> (\<lambda>s. scan_bytes P m s \<bind> g) = g (p + length xs)"
  using scan_words_ok [OF assms] by (auto simp: bind_Some_iff)

lemma scan_ok:
  assumes "bytes_at m p (xs @ [x])" "\<forall>b \<in> set xs. \<not> P b" "P x" "padded m (p + length xs)"
    and "f (p + length xs) = g (p + length xs)"
  shows "scan_align P m p \<bind>
      case_sum f (\<lambda>s. scan_words T m s \<bind> (\<lambda>s. scan_bytes P m s \<bind> g)) = g (p + length xs)"
  using assms
proof (induction xs arbitrary: p)
  case Nil
  then show ?case using scan_words_then [of p m "[]" x g]
    by (subst scan_align.simps) (simp add: load8_def)
next
  case (Cons b xs)
  show ?case
  proof (cases "p mod 8 = 0")
    case True
    then show ?thesis using scan_words_then [of p m "b # xs" x g] Cons.prems
      by (subst scan_align.simps) simp
  next
    case False
    then show ?thesis using Cons.IH [of "Suc p"] Cons.prems
      by (subst scan_align.simps) (simp add: load8_def)
  qed
qed

end

interpretation null_test: word_test "\<lambda>b. b = 0" "\<lambda>w. DETECT_NULL w \<noteq> 0"
  by unfold_locales (auto simp: DETECT_NULL_iff)

interpretation char_test: word_test "\<lambda>b. b = d" "\<lambda>w. DETECT_CHAR w (spread d) \<noteq> 0" for d
  by unfold_locales (auto simp: DETECT_CHAR_iff spread_eq)

interpretation strchr_test: word_test "\<lambda>b. b = 0 \<or> b = c"
  "\<lambda>w. DETECT_NULL w \<noteq> 0 \<or> DETECT_CHAR w (spread_strchr c) \<noteq> 0" for c
  by unfold_locales (auto simp: DETECT_NULL_iff DETECT_CHAR_iff spread_strchr_eq)

subsection \<open>The searches find the first or last occurrence\<close>

definition first_at :: "addr \<Rightarrow> u8 list \<Rightarrow> u8 \<Rightarrow> addr" where
  "first_at p xs d = (if d \<in> set xs then p + length (takeWhile (\<lambda>b. b \<noteq> d) xs) else NULL)"

definition last_at :: "addr \<Rightarrow> u8 list \<Rightarrow> u8 \<Rightarrow> addr" where
  "last_at p xs d =
     (if d \<in> set xs then p + length xs - Suc (length (takeWhile (\<lambda>b. b \<noteq> d) (rev xs))) else NULL)"

lemma first_at_append: "d \<notin> set ys \<Longrightarrow> first_at p (ys @ zs) d = first_at (p + length ys) zs d"
  by (auto simp: first_at_def takeWhile_notin)

lemma last_at_append: "d \<notin> set zs \<Longrightarrow> last_at p (ys @ zs) d = last_at p ys d"
  by (auto simp: last_at_def takeWhile_notin)

lemma rawmemchr_eq:
  assumes "bytes_at m p (xs @ [word_of_int c])" "word_of_int c \<notin> set xs" "padded m (p + length xs)"
  shows "rawmemchr m p c = Some (p + length xs)"
proof -
  have "\<forall>b \<in> set xs. b \<noteq> word_of_int c" using assms(2) by auto
  then show ?thesis using char_test.scan_ok [of m p xs "word_of_int c" "word_of_int c" Some Some] assms
    by (simp add: rawmemchr_def Let_def)
qed

lemma memchr_bytes_eq: "bytes_at m p xs \<Longrightarrow> memchr_bytes m d p (length xs) = Some (first_at p xs d)"
  by (induction xs arbitrary: p) (auto simp: load8_def first_at_def)

lemma memchr_align_eq:
  assumes "bytes_at m p xs"
  shows "memchr_align m d p (length xs) = Some (Inl (first_at p xs d)) \<or>
    (\<exists>k \<le> length xs. (p + k) mod 8 = 0 \<and> d \<notin> set (take k xs) \<and>
       memchr_align m d p (length xs) = Some (Inr (p + k, length xs - k)))"
  using assms
proof (induction xs arbitrary: p)
  case Nil
  then show ?case by (simp add: first_at_def)
next
  case (Cons x xs)
  show ?case
  proof (cases "p mod 8 = 0")
    case True
    then show ?thesis by (intro disjI2 exI [of _ 0]) simp
  next
    case False
    show ?thesis
    proof (cases "x = d")
      case True
      then show ?thesis using False Cons.prems by (simp add: load8_def first_at_def)
    next
      case neq: False
      have e: "memchr_align m d p (length (x # xs)) = memchr_align m d (Suc p) (length xs)"
        "first_at p (x # xs) d = first_at (Suc p) xs d"
        using False neq Cons.prems first_at_append [of d "[x]" p xs] by (simp_all add: load8_def)
      have "bytes_at m (Suc p) xs" using Cons.prems by simp
      from Cons.IH [OF this] show ?thesis unfolding e
      proof (elim disjE exE conjE, goal_cases)
        case (2 k)
        then show ?case using neq by (intro disjI2 exI [of _ "Suc k"]) simp
      qed simp_all
    qed
  qed
qed

lemma memchr_words_eq:
  assumes "p mod 8 = 0" "bytes_at m p xs"
  shows "\<exists>k \<le> length xs. d \<notin> set (take k xs) \<and>
    memchr_words m (spread d) p (length xs) = Some (p + k, length xs - k)"
  using assms
proof (induction xs arbitrary: p rule: length_induct)
  case (1 xs)
  show ?case
  proof (cases "length xs < 8")
    case True
    then show ?thesis by (intro exI [of _ 0]) (simp add: memchr_words.simps)
  next
    case False
    define ws zs where "ws = take 8 xs" and "zs = drop 8 xs"
    have xs: "xs = ws @ zs" "length ws = 8" using False by (auto simp: ws_def zs_def)
    have at: "bytes_at m p ws" "bytes_at m (p + 8) zs" using 1(3) xs by (auto simp: bytes_at_append)
    have l: "load64 m p = Some (word_of_bytes ws)" using at(1) xs(2) 1(2) by (intro load64_at)
    show ?thesis
    proof (cases "d \<in> set ws")
      case True
      then show ?thesis using l xs char_test.T_iff [of ws d]
        by (intro exI [of _ 0]) (simp add: memchr_words.simps)
    next
      case nin: False
      obtain k where k: "k \<le> length zs" "d \<notin> set (take k zs)"
          "memchr_words m (spread d) (p + 8) (length zs) = Some (p + 8 + k, length zs - k)"
        using 1(1) [rule_format, of zs "p + 8"] at(2) xs 1(2) by auto
      have "memchr_words m (spread d) p (length xs) = memchr_words m (spread d) (p + 8) (length zs)"
        using l xs nin char_test.T_iff [of ws d] by (subst memchr_words.simps) simp
      then show ?thesis using k xs nin by (intro exI [of _ "8 + k"]) (simp add: add.assoc)
    qed
  qed
qed

text \<open>A scan that skipped a prefix without \<open>d\<close>, finished by the byte loop.\<close>

lemma memchr_bytes_rest:
  assumes "bytes_at m p xs" "k \<le> length xs" "d \<notin> set (take k xs)"
  shows "memchr_bytes m d (p + k) (length xs - k) = Some (first_at p xs d)"
  using assms bytes_at_append [of m p "take k xs" "drop k xs"]
    first_at_append [of d "take k xs" p "drop k xs"] memchr_bytes_eq [of m "p + k" "drop k xs" d]
  by simp

lemma memchr_eq:
  assumes "bytes_at m p xs"
  shows "memchr m p c (length xs) = Some (first_at p xs (word_of_int c))"
proof -
  let ?d = "word_of_int c :: u8"
  consider "memchr_align m ?d p (length xs) = Some (Inl (first_at p xs ?d))"
    | k where "k \<le> length xs" "(p + k) mod 8 = 0" "?d \<notin> set (take k xs)"
        "memchr_align m ?d p (length xs) = Some (Inr (p + k, length xs - k))"
    using memchr_align_eq [OF assms, of ?d] by (elim disjE exE conjE) (erule that(1), rule that(2))
  then show ?thesis
  proof cases
    case 1
    then show ?thesis by (simp add: memchr_def)
  next
    case (2 k)
    define zs where "zs = drop k xs"
    have zs: "bytes_at m (p + k) zs" "length zs = length xs - k" "take k xs @ zs = xs"
      using assms 2(1) bytes_at_append [of m p "take k xs" "drop k xs"] by (auto simp: zs_def)
    have f: "first_at (p + k) zs ?d = first_at p xs ?d"
      using first_at_append [OF 2(3), of p zs] 2(1) zs(3) by simp
    obtain j where j: "j \<le> length zs" "?d \<notin> set (take j zs)"
        "memchr_words m (spread ?d) (p + k) (length zs) = Some (p + k + j, length zs - j)"
      using memchr_words_eq [OF 2(2) zs(1), of ?d] by (elim exE conjE) (rule that)
    show ?thesis
      unfolding memchr_def Let_def 2(4)
      using j(3) memchr_bytes_eq [OF zs(1), of ?d] memchr_bytes_rest [OF zs(1) j(1,2)] f
      by (simp add: zs(2))
  qed
qed

subsection \<open>\<open>memcmp\<close> is the difference at the first mismatch\<close>

fun cmp_list :: "u8 list \<Rightarrow> u8 list \<Rightarrow> int" where
  "cmp_list (a # xs) (b # ys) = (if a \<noteq> b then uint a - uint b else cmp_list xs ys)"
| "cmp_list _ _ = 0"

lemma cmp_list_append: "length xs = length ys \<Longrightarrow> cmp_list (xs @ us) (ys @ vs) = (if xs = ys then cmp_list us vs else cmp_list xs ys)"
  by (induction xs ys rule: list_induct2) auto

lemma cmp_bytes_eq:
  "bytes_at m p xs \<Longrightarrow> bytes_at m q ys \<Longrightarrow> length xs = length ys \<Longrightarrow>
   cmp_bytes m p q (length xs) = Some (cmp_list xs ys)"
proof (induction xs arbitrary: p q ys)
  case (Cons x xs)
  then show ?case by (cases ys) (auto simp: load8_def)
qed simp

lemma cmp_words_eq:
  assumes "p mod 8 = 0" "q mod 8 = 0" "bytes_at m p xs" "bytes_at m q ys" "length xs = length ys"
  shows "\<exists>k \<le> length xs. take k xs = take k ys \<and>
    cmp_words m p q (length xs) = Some (p + k, q + k, length xs - k)"
  using assms
proof (induction xs arbitrary: p q ys rule: length_induct)
  case (1 xs)
  show ?case
  proof (cases "length xs < 8")
    case True
    then show ?thesis by (intro exI [of _ 0]) (simp add: cmp_words.simps)
  next
    case False
    have at: "bytes_at m p (take 8 xs)" "bytes_at m (p + 8) (drop 8 xs)"
      "bytes_at m q (take 8 ys)" "bytes_at m (q + 8) (drop 8 ys)"
      using 1(4,5,6) False bytes_at_append [of m p "take 8 xs" "drop 8 xs"]
        bytes_at_append [of m q "take 8 ys" "drop 8 ys"] by auto
    have l: "load64 m p = Some (word_of_bytes (take 8 xs))" "load64 m q = Some (word_of_bytes (take 8 ys))"
      using at 1(2,3,6) False by (auto intro!: load64_at)
    show ?thesis
    proof (cases "take 8 xs = take 8 ys")
      case True
      have "length (drop 8 xs) < length xs" using False by simp
      then have "\<exists>k \<le> length (drop 8 xs). take k (drop 8 xs) = take k (drop 8 ys) \<and>
          cmp_words m (p + 8) (q + 8) (length (drop 8 xs)) = Some (p + 8 + k, q + 8 + k, length (drop 8 xs) - k)"
        using 1(1) [rule_format, of "drop 8 xs" "p + 8" "q + 8" "drop 8 ys"] at 1(2,3,6) by simp
      then obtain k where k: "k \<le> length xs - 8" "take k (drop 8 xs) = take k (drop 8 ys)"
          "cmp_words m (p + 8) (q + 8) (length xs - 8) = Some (p + 8 + k, q + 8 + k, length xs - 8 - k)"
        by (elim exE conjE, intro that) simp_all
      have "cmp_words m p q (length xs) = cmp_words m (p + 8) (q + 8) (length xs - 8)"
        using l True False by (subst cmp_words.simps) simp
      then show ?thesis using k True False
        by (intro exI [of _ "8 + k"]) (simp add: take_add add.assoc)
    next
      case ne: False
      have "word_of_bytes (take 8 xs) \<noteq> (word_of_bytes (take 8 ys) :: u64)"
        using ne False 1(6) word_to_bytes_of_bytes [of "take 8 xs" 8, where 'a=64]
          word_to_bytes_of_bytes [of "take 8 ys" 8, where 'a=64] by auto
      then show ?thesis using l False by (intro exI [of _ 0]) (simp add: cmp_words.simps)
    qed
  qed
qed

lemma memcmp_eq:
  assumes "bytes_at m p xs" "bytes_at m q ys" "length xs = length ys"
  shows "memcmp m p q (length xs) = Some (cmp_list xs ys)"
proof -
  have "\<exists>k \<le> length xs. take k xs = take k ys \<and>
      (if \<not> TOO_SMALL_LITTLE_BLOCK (length xs) \<and> UNALIGNED_X_Y p q = 0
        then cmp_words m p q (length xs) else Some (p, q, length xs)) = Some (p + k, q + k, length xs - k)"
    using cmp_words_eq [OF _ _ assms] by (auto intro!: exI [of _ 0])
  then obtain k where k: "k \<le> length xs" "take k xs = take k ys"
      "(if \<not> TOO_SMALL_LITTLE_BLOCK (length xs) \<and> UNALIGNED_X_Y p q = 0
        then cmp_words m p q (length xs) else Some (p, q, length xs)) = Some (p + k, q + k, length xs - k)"
    by (elim exE conjE) (rule that)
  have "cmp_bytes m (p + k) (q + k) (length (drop k xs)) = Some (cmp_list (drop k xs) (drop k ys))"
    using assms k(1) bytes_at_append [of m p "take k xs" "drop k xs"]
      bytes_at_append [of m q "take k ys" "drop k ys"] by (intro cmp_bytes_eq) auto
  moreover have "cmp_list (take k xs @ drop k xs) (take k ys @ drop k ys) = cmp_list (drop k xs) (drop k ys)"
    using k(2) by (subst cmp_list_append) simp_all
  ultimately show ?thesis unfolding memcmp_def k(3) by simp
qed

lemma cmp_list_0: "length xs = length ys \<Longrightarrow> cmp_list xs ys = 0 \<longleftrightarrow> xs = ys"
  by (induction xs ys rule: list_induct2) (auto simp: word_uint_eq_iff)

lemma cmp_list_bound: "\<bar>cmp_list xs ys\<bar> \<le> 255"
proof (induction xs ys rule: cmp_list.induct)
  case (1 a xs b ys)
  have "0 \<le> uint a" "uint a < 256" "0 \<le> uint b" "uint b < 256"
    using uint_bounded [of a] uint_bounded [of b] by simp_all
  then have "\<bar>uint a - uint b\<bar> \<le> 255" by linarith
  with 1 show ?case by simp
qed simp_all

subsection \<open>\<open>memrchr\<close> finds the last occurrence\<close>

lemma memrchr_bytes_eq:
  "bytes_at m p xs \<Longrightarrow> memrchr_bytes m d (p + length xs) (length xs) = Some (last_at p xs d)"
proof (induction xs rule: rev_induct)
  case Nil
  show ?case by (simp add: last_at_def)
next
  case (snoc x xs)
  then show ?case using last_at_append [of d "[x]" p xs]
    by (auto simp: bytes_at_append load8_def last_at_def)
qed

lemma memrchr_align_eq:
  assumes "bytes_at m p xs"
  shows "memrchr_align m d (p + length xs) (length xs) = Some (Inl (last_at p xs d)) \<or>
    (\<exists>k \<le> length xs. (p + k) mod 8 = 0 \<and> d \<notin> set (drop k xs) \<and>
       memrchr_align m d (p + length xs) (length xs) = Some (Inr (p + k, k)))"
  using assms
proof (induction xs rule: rev_induct)
  case Nil
  then show ?case by (simp add: last_at_def)
next
  case (snoc x xs)
  show ?case
  proof (cases "(p + length (xs @ [x])) mod 8 = 0")
    case True
    then show ?thesis by (intro disjI2 exI [of _ "length (xs @ [x])"]) simp
  next
    case False
    then have e: "memrchr_align m d (p + length (xs @ [x])) (length (xs @ [x])) =
        (if x = d then Some (Inl (p + length xs)) else memrchr_align m d (p + length xs) (length xs))"
      using snoc.prems by (simp add: load8_def bytes_at_append)
    show ?thesis
    proof (cases "x = d")
      case True
      then show ?thesis using e by (simp add: last_at_def)
    next
      case neq: False
      have "bytes_at m p xs" using snoc.prems by (simp add: bytes_at_append)
      from snoc.IH [OF this] show ?thesis unfolding e
      proof (elim disjE exE conjE, goal_cases)
        case 1
        then show ?case using neq last_at_append [of d "[x]" p xs] by simp
      next
        case (2 k)
        then show ?case using neq by (intro disjI2 exI [of _ k]) simp
      qed
    qed
  qed
qed

lemma memrchr_words_eq:
  assumes "(p + length xs) mod 8 = 0" "bytes_at m p xs"
  shows "\<exists>k \<le> length xs. d \<notin> set (drop k xs) \<and>
    memrchr_words m (spread d) (p + length xs) (length xs) = Some (p + k, k)"
  using assms
proof (induction xs rule: length_induct)
  case (1 xs)
  show ?case
  proof (cases "length xs < 8")
    case True
    then show ?thesis by (intro exI [of _ "length xs"]) (simp add: memrchr_words.simps)
  next
    case False
    define n where "n = length xs - 8"
    define zs ws where "zs = take n xs" and "ws = drop n xs"
    have xs: "xs = zs @ ws" "length ws = 8" "length zs = n" "p + length xs - 8 = p + n" "length xs - 8 = n"
      using False by (auto simp: ws_def zs_def n_def)
    have at: "bytes_at m (p + n) ws" "bytes_at m p zs" using 1(3) xs by (auto simp: bytes_at_append)
    have al: "(p + n) mod 8 = 0" using 1(2) xs False by (metis add.assoc dvd_add_left_iff dvd_refl length_append mod_eq_0_iff_dvd)
    have l: "load64 m (p + n) = Some (word_of_bytes ws)" using at(1) xs(2) al by (intro load64_at)
    show ?thesis
    proof (cases "d \<in> set ws")
      case True
      then show ?thesis using l xs char_test.T_iff [of ws d] False
        by (intro exI [of _ "length xs"]) (simp add: memrchr_words.simps del: length_append)
    next
      case nin: False
      have "length zs < length xs" using xs False by simp
      then have "\<exists>k \<le> length zs. d \<notin> set (drop k zs) \<and>
          memrchr_words m (spread d) (p + length zs) (length zs) = Some (p + k, k)"
        using 1(1) [rule_format, of zs] at(2) al xs(3) by simp
      then obtain k where k: "k \<le> n" "d \<notin> set (drop k zs)"
          "memrchr_words m (spread d) (p + n) n = Some (p + k, k)"
        unfolding xs(3) by (elim exE conjE) (rule that)
      have "memrchr_words m (spread d) (p + length xs) (length xs) = memrchr_words m (spread d) (p + n) n"
        using l xs nin char_test.T_iff [of ws d] False by (subst memrchr_words.simps) (simp del: length_append)
      then show ?thesis using k xs nin by (intro exI [of _ k]) simp
    qed
  qed
qed

lemma memrchr_bytes_rest:
  assumes "bytes_at m p xs" "k \<le> length xs" "d \<notin> set (drop k xs)"
  shows "memrchr_bytes m d (p + k) k = Some (last_at p xs d)"
  using assms bytes_at_append [of m p "take k xs" "drop k xs"]
    last_at_append [of d "drop k xs" p "take k xs"] memrchr_bytes_eq [of m p "take k xs" d]
  by simp

lemma memrchr_eq:
  assumes "bytes_at m p xs"
  shows "memrchr m p c (length xs) = Some (last_at p xs (word_of_int c))"
proof -
  let ?d = "word_of_int c :: u8"
  consider "memrchr_align m ?d (p + length xs) (length xs) = Some (Inl (last_at p xs ?d))"
    | k where "k \<le> length xs" "(p + k) mod 8 = 0" "?d \<notin> set (drop k xs)"
        "memrchr_align m ?d (p + length xs) (length xs) = Some (Inr (p + k, k))"
    using memrchr_align_eq [OF assms, of ?d] by (elim disjE exE conjE) (erule that(1), rule that(2))
  then show ?thesis
  proof cases
    case 1
    then show ?thesis by (simp add: memrchr_def)
  next
    case (2 k)
    define zs where "zs = take k xs"
    have zs: "bytes_at m p zs" "length zs = k" "zs @ drop k xs = xs"
      using assms 2(1) bytes_at_append [of m p "take k xs" "drop k xs"] by (auto simp: zs_def)
    have f: "last_at p zs ?d = last_at p xs ?d"
      using last_at_append [OF 2(3), of p zs] zs(3) by simp
    have al: "(p + length zs) mod 8 = 0" using 2(2) zs(2) by simp
    obtain j where j: "j \<le> length zs" "?d \<notin> set (drop j zs)"
        "memrchr_words m (spread ?d) (p + length zs) (length zs) = Some (p + j, j)"
      using memrchr_words_eq [OF al zs(1), of ?d] by (elim exE conjE) (rule that)
    show ?thesis
      unfolding memrchr_def Let_def 2(4)
      using j(3) memrchr_bytes_eq [OF zs(1), of ?d] memrchr_bytes_rest [OF zs(1) j(1,2)] f
      by (simp add: zs(2))
  qed
qed

subsection \<open>The constant-time comparisons agree with \<open>memcmp\<close>\<close>

lemma timingsafe_bcmp_loop_eq:
  "bytes_at m p xs \<Longrightarrow> bytes_at m q ys \<Longrightarrow> length xs = length ys \<Longrightarrow>
   \<exists>r. timingsafe_bcmp_loop m p q (length xs) ret = Some r \<and> (r = 0 \<longleftrightarrow> ret = 0 \<and> xs = ys)"
proof (induction xs arbitrary: p q ys ret)
  case (Cons x xs)
  then obtain y zs where ys: "ys = y # zs" by (cases ys) auto
  have "(uint x XOR uint y) = 0 \<longleftrightarrow> x = y"
    by (metis word_uint_eq_iff xor.assoc xor.left_neutral xor.right_neutral xor_self_eq)
  then show ?case
    using Cons.IH [of "Suc p" "Suc q" zs "ret OR (uint x XOR uint y)"] Cons.prems
    by (auto simp: ys load8_def or_eq_0_iff)
qed simp

lemma byte_shift_sign: "drop_bit 8 (uint (a::u8) - uint (b::u8)) = (if uint a < uint b then - 1 else 0)"
proof -
  have "0 \<le> uint a" "uint a < 256" "0 \<le> uint b" "uint b < 256"
    using uint_bounded [of a] uint_bounded [of b] by auto
  moreover have "(x - y) div 256 = (if x < y then - 1 else 0)"
    if "0 \<le> x" "x < 256" "0 \<le> y" "y < 256" for x y :: int
    using that by (auto intro: int_div_pos_eq [where r = "x - y + 256"])
  ultimately show ?thesis by (simp add: drop_bit_eq_div)
qed

lemma timingsafe_memcmp_loop_done:
  assumes "bytes_at m p xs" "bytes_at m q ys" "length xs = length ys"
  shows "timingsafe_memcmp_loop m p q (length xs) res (- 1) = Some res"
  using assms
proof (induction xs arbitrary: p q ys)
  case (Cons x xs)
  then obtain y zs where "ys = y # zs" by (cases ys) auto
  with Cons show ?case by (auto simp: load8_def byte_shift_sign Let_def)
qed simp

lemma timingsafe_memcmp_loop_eq:
  assumes "bytes_at m p xs" "bytes_at m q ys" "length xs = length ys"
  shows "timingsafe_memcmp_loop m p q (length xs) 0 0 = Some (sgn (cmp_list xs ys))"
  using assms
proof (induction xs arbitrary: p q ys)
  case (Cons x xs)
  then obtain y zs where ys: "ys = y # zs" by (cases ys) auto
  have "timingsafe_memcmp_loop m (Suc p) (Suc q) (length xs) res (- 1) = Some res" for res
    using Cons.prems ys by (intro timingsafe_memcmp_loop_done) auto
  with Cons ys show ?case
    by (auto simp: load8_def byte_shift_sign word_uint_eq_iff sgn_if Let_def)
qed simp

subsection \<open>Properties\<close>

text \<open>
  \<open>memchr\<close> and \<open>memrchr\<close> return the address of the first and of the last byte equal to
  the character, NULL when there is none, reading only the given range.
\<close>

theorem memchr_correct:
  assumes "bytes_at m src xs"
  shows "memchr m src c (length xs) = Some (first_at src xs (word_of_int c)) \<and>
    memrchr m src c (length xs) = Some (last_at src xs (word_of_int c))"
  using memchr_eq [OF assms] memrchr_eq [OF assms] by blast

theorem memchr_correct_witness:
  "memchr (put_bytes (\<lambda>_. None) 9 [1, 2, 3, 2]) 9 2 (length [1::u8, 2, 3, 2]) = Some 10 \<and>
   memrchr (put_bytes (\<lambda>_. None) 9 [1, 2, 3, 2]) 9 2 (length [1::u8, 2, 3, 2]) = Some 12"
  using memchr_correct [OF bytes_at_put_same, of "\<lambda>_. None" 9 "[1, 2, 3, 2]" 2]
  by (simp add: first_at_def last_at_def)

text \<open>
  C13: \<open>memcmp\<close> returns the difference of the first pair of bytes that differ, which is zero just
  when the ranges are equal, and is never out of the range of an \<open>int\<close>.
\<close>

theorem memcmp_correct:
  assumes "bytes_at m p xs" and "bytes_at m q ys" and "length xs = length ys"
  shows "memcmp m p q (length xs) = Some (cmp_list xs ys) \<and> (cmp_list xs ys = 0 \<longleftrightarrow> xs = ys)
    \<and> \<bar>cmp_list xs ys\<bar> \<le> 255"
  using memcmp_eq [OF assms] cmp_list_0 [OF assms(3)] cmp_list_bound by blast

theorem memcmp_correct_witness:
  "memcmp (put_bytes (\<lambda>_. None) 8 [1, 2, 9, 1, 2, 5]) 8 11 (length [1::u8, 2, 9]) = Some 4"
  using memcmp_correct [of "put_bytes (\<lambda>_. None) 8 [1, 2, 9, 1, 2, 5]" 8 "[1, 2, 9]" 11 "[1, 2, 5]"]
  by (simp add: put_bytes_apply)

text \<open>
  The comparisons without early exit agree with \<open>memcmp\<close>: \<open>timingsafe_memcmp\<close> returns the
  sign of its result and \<open>timingsafe_bcmp\<close> tells whether it is zero.
\<close>

theorem timingsafe_correct:
  assumes "bytes_at m p xs" and "bytes_at m q ys" and "length xs = length ys"
  shows "timingsafe_memcmp m p q (length xs) = map_option sgn (memcmp m p q (length xs)) \<and>
    timingsafe_bcmp m p q (length xs) = map_option (\<lambda>r. if r = 0 then 0 else 1) (memcmp m p q (length xs))"
proof
  show "timingsafe_memcmp m p q (length xs) = map_option sgn (memcmp m p q (length xs))"
    using timingsafe_memcmp_loop_eq [OF assms] memcmp_eq [OF assms] by (simp add: timingsafe_memcmp_def)
  show "timingsafe_bcmp m p q (length xs) = map_option (\<lambda>r. if r = 0 then 0 else 1) (memcmp m p q (length xs))"
    using timingsafe_bcmp_loop_eq [OF assms, of 0] memcmp_eq [OF assms] cmp_list_0 [OF assms(3)]
    by (auto simp: timingsafe_bcmp_def)
qed

theorem timingsafe_correct_witness:
  "timingsafe_memcmp (put_bytes (\<lambda>_. None) 8 [1, 2, 9, 1, 2, 5]) 8 11 (length [1::u8, 2, 9])
    = map_option sgn (memcmp (put_bytes (\<lambda>_. None) 8 [1, 2, 9, 1, 2, 5]) 8 11 (length [1::u8, 2, 9]))"
  by (rule timingsafe_correct [of _ _ _ _ "[1, 2, 5]", THEN conjunct1]) (simp_all add: put_bytes_apply)

end
