(* ===== verification/StrScan.thy ===== *)
theory StrScan
  imports MemScan
begin

text \<open>
  The string routines of \<open>libc/string\<close> that read strings: length, searches, comparisons, spans
  and the tokenizer (the only one here that writes). A string is a list of non-zero bytes
  laid out by \<open>cstr\<close>; \<open>padded\<close> says that the rest of the word that holds the terminator can be read,
  which the word-at-a-time routines need and the size-optimised ones do not.
\<close>

subsection \<open>Length and search\<close>

definition strlen_small :: "mem \<Rightarrow> addr \<Rightarrow> nat option" where
  "strlen_small m start = do { str \<leftarrow> scan_bytes (\<lambda>b. b = 0) m start; Some (str - start) }"

definition strlen :: "mem \<Rightarrow> addr \<Rightarrow> nat option" where
  "strlen m start = do {
     r \<leftarrow> scan_align (\<lambda>b. b = 0) m start;
     (case r of
        Inl str \<Rightarrow> Some (str - start)
      | Inr str \<Rightarrow> do {
          str \<leftarrow> scan_words (\<lambda>w. DETECT_NULL w \<noteq> 0) m str;
          str \<leftarrow> scan_bytes (\<lambda>b. b = 0) m str;
          Some (str - start) }) }"

fun strnlen_loop :: "mem \<Rightarrow> addr \<Rightarrow> nat \<Rightarrow> addr option" where
  "strnlen_loop m str 0 = Some str"
| "strnlen_loop m str (Suc n) =
     do { b \<leftarrow> load8 m str; if b = 0 then Some str else strnlen_loop m (str + 1) n }"

definition strnlen :: "mem \<Rightarrow> addr \<Rightarrow> nat \<Rightarrow> nat option" where
  "strnlen m start n = do { str \<leftarrow> strnlen_loop m start n; Some (str - start) }"

definition strchr_small :: "mem \<Rightarrow> addr \<Rightarrow> int \<Rightarrow> addr option" where
  "strchr_small m s1 i = do {
     let c = (word_of_int i :: u8);
     s \<leftarrow> scan_bytes (\<lambda>b. b = 0 \<or> b = c) m s1;
     b \<leftarrow> load8 m s;
     Some (if b = c then s else NULL) }"

definition strchr :: "mem \<Rightarrow> addr \<Rightarrow> int \<Rightarrow> addr option" where
  "strchr m s1 i = do {
     let c = (word_of_int i :: u8);
     if c = 0 then do {
       r \<leftarrow> scan_align (\<lambda>b. b = 0) m s1;
       (case r of
          Inl s \<Rightarrow> Some s
        | Inr s \<Rightarrow> do {
            s \<leftarrow> scan_words (\<lambda>w. DETECT_NULL w \<noteq> 0) m s;
            s \<leftarrow> scan_bytes (\<lambda>b. b = 0) m s;
            Some s }) }
     else do {
       r \<leftarrow> scan_align (\<lambda>b. b = 0 \<or> b = c) m s1;
       (case r of
          Inl s \<Rightarrow> do { b \<leftarrow> load8 m s; Some (if b = 0 then NULL else s) }
        | Inr s \<Rightarrow> do {
            s \<leftarrow> scan_words (\<lambda>w. DETECT_NULL w \<noteq> 0 \<or> DETECT_CHAR w (spread_strchr c) \<noteq> 0) m s;
            s \<leftarrow> scan_bytes (\<lambda>b. b = 0 \<or> b = c) m s;
            b \<leftarrow> load8 m s;
            Some (if b = c then s else NULL) }) } }"

definition strchrnul :: "mem \<Rightarrow> addr \<Rightarrow> int \<Rightarrow> addr option" where
  "strchrnul m s1 i = do {
     s \<leftarrow> strchr m s1 i;
     if s \<noteq> NULL then Some s else do { n \<leftarrow> strlen m s1; Some (s1 + n) } }"

partial_function (option) strrchr_loop :: "mem \<Rightarrow> addr \<Rightarrow> int \<Rightarrow> addr \<Rightarrow> addr option" where
  "strrchr_loop m s c lst = do {
     s \<leftarrow> strchr m s c;
     if s = NULL then Some lst else strrchr_loop m (s + 1) c s }"

definition strrchr :: "mem \<Rightarrow> addr \<Rightarrow> int \<Rightarrow> addr option" where
  "strrchr m s i = do {
     let c = (word_of_int i :: u8);
     if c \<noteq> 0 then strrchr_loop m s (sint c) NULL else strchr m s (sint c) }"

definition index_bsd :: "mem \<Rightarrow> addr \<Rightarrow> int \<Rightarrow> addr option" where
  "index_bsd m s c = strchr m s c"

definition rindex_bsd :: "mem \<Rightarrow> addr \<Rightarrow> int \<Rightarrow> addr option" where
  "rindex_bsd m s c = strrchr m s c"

subsection \<open>Comparison\<close>

partial_function (option) strcmp_bytes :: "mem \<Rightarrow> addr \<Rightarrow> addr \<Rightarrow> int option" where
  "strcmp_bytes m s1 s2 = do {
     a \<leftarrow> load8 m s1;
     b \<leftarrow> load8 m s2;
     if a \<noteq> 0 \<and> a = b then strcmp_bytes m (s1 + 1) (s2 + 1) else Some (uint a - uint b) }"

partial_function (option) strcmp_words :: "mem \<Rightarrow> addr \<Rightarrow> addr \<Rightarrow> (int + addr \<times> addr) option" where
  "strcmp_words m a1 a2 = do {
     v \<leftarrow> load64 m a1;
     w \<leftarrow> load64 m a2;
     if v = w then
       if DETECT_NULL v \<noteq> 0 then Some (Inl 0) else strcmp_words m (a1 + 8) (a2 + 8)
     else Some (Inr (a1, a2)) }"

definition strcmp_small :: "mem \<Rightarrow> addr \<Rightarrow> addr \<Rightarrow> int option" where
  "strcmp_small m s1 s2 = strcmp_bytes m s1 s2"

definition strcmp :: "mem \<Rightarrow> addr \<Rightarrow> addr \<Rightarrow> int option" where
  "strcmp m s1 s2 = do {
     r \<leftarrow> (if UNALIGNED_X_Y s1 s2 = 0 then strcmp_words m s1 s2 else Some (Inr (s1, s2)));
     (case r of Inl i \<Rightarrow> Some i | Inr (s1, s2) \<Rightarrow> strcmp_bytes m s1 s2) }"

text \<open>
  \<^verbatim>\<open>while (n-- > 0 && *s1 == *s2) { if (n == 0 || *s1 == 0) return 0; s1++; s2++; }\<close> and the difference after it.
\<close>

fun strncmp_bytes :: "mem \<Rightarrow> addr \<Rightarrow> addr \<Rightarrow> nat \<Rightarrow> int option" where
  "strncmp_bytes m s1 s2 0 =
     do { a \<leftarrow> load8 m s1; b \<leftarrow> load8 m s2; Some (uint a - uint b) }"
| "strncmp_bytes m s1 s2 (Suc n) = do {
     a \<leftarrow> load8 m s1;
     b \<leftarrow> load8 m s2;
     if a = b then
       if n = 0 \<or> a = 0 then Some 0 else strncmp_bytes m (s1 + 1) (s2 + 1) n
     else Some (uint a - uint b) }"

fun strncmp_words :: "mem \<Rightarrow> addr \<Rightarrow> addr \<Rightarrow> nat \<Rightarrow> (int + addr \<times> addr \<times> nat) option" where
  "strncmp_words m a1 a2 n =
     (if n \<ge> 8 then do {
        v \<leftarrow> load64 m a1;
        w \<leftarrow> load64 m a2;
        if v = w then
          if n - 8 = 0 \<or> DETECT_NULL v \<noteq> 0 then Some (Inl 0)
          else strncmp_words m (a1 + 8) (a2 + 8) (n - 8)
        else Some (Inr (a1, a2, n)) }
      else Some (Inr (a1, a2, n)))"

declare strncmp_words.simps [simp del]

definition strncmp :: "mem \<Rightarrow> addr \<Rightarrow> addr \<Rightarrow> nat \<Rightarrow> int option" where
  "strncmp m s1 s2 n =
     (if n = 0 then Some 0
      else do {
        r \<leftarrow> (if UNALIGNED_X_Y s1 s2 = 0 then strncmp_words m s1 s2 n else Some (Inr (s1, s2, n)));
        (case r of Inl i \<Rightarrow> Some i | Inr (s1, s2, n) \<Rightarrow> strncmp_bytes m s1 s2 n) })"

subsection \<open>Spans\<close>

text \<open>\<^verbatim>\<open>for (c = s2; *c; c++) if (a == *c) ...\<close>: whether the loop finds \<open>a\<close>.\<close>

partial_function (option) in_str :: "mem \<Rightarrow> u8 \<Rightarrow> addr \<Rightarrow> bool option" where
  "in_str m a c = do {
     b \<leftarrow> load8 m c;
     if b = 0 then Some False else if a = b then Some True else in_str m a (c + 1) }"

partial_function (option) strspn_loop :: "mem \<Rightarrow> addr \<Rightarrow> addr \<Rightarrow> addr option" where
  "strspn_loop m s1 s2 = do {
     a \<leftarrow> load8 m s1;
     if a = 0 then Some s1
     else do { f \<leftarrow> in_str m a s2; if f then strspn_loop m (s1 + 1) s2 else Some s1 } }"

definition strspn :: "mem \<Rightarrow> addr \<Rightarrow> addr \<Rightarrow> nat option" where
  "strspn m s1 s2 = do { e \<leftarrow> strspn_loop m s1 s2; Some (e - s1) }"

partial_function (option) strcspn_loop :: "mem \<Rightarrow> addr \<Rightarrow> addr \<Rightarrow> addr option" where
  "strcspn_loop m s1 s2 = do {
     a \<leftarrow> load8 m s1;
     if a = 0 then Some s1
     else do { f \<leftarrow> in_str m a s2; if f then Some s1 else strcspn_loop m (s1 + 1) s2 } }"

definition strcspn :: "mem \<Rightarrow> addr \<Rightarrow> addr \<Rightarrow> nat option" where
  "strcspn m s1 s2 = do { e \<leftarrow> strcspn_loop m s1 s2; Some (e - s1) }"

partial_function (option) strpbrk :: "mem \<Rightarrow> addr \<Rightarrow> addr \<Rightarrow> addr option" where
  "strpbrk m s1 s2 = do {
     a \<leftarrow> load8 m s1;
     if a = 0 then Some NULL
     else do { f \<leftarrow> in_str m a s2; if f then Some s1 else strpbrk m (s1 + 1) s2 } }"

subsection \<open>The tokenizer\<close>

text \<open>
  \<open>__strtok_r\<close>: the pointer kept between calls, \<open>*lasts\<close>, is passed and returned. The skipping loop
  ends at the first byte that is no delimiter, or, for \<open>strsep\<close>, at a delimiter (\<open>Inl\<close>).
\<close>

partial_function (option) tok_skip :: "mem \<Rightarrow> addr \<Rightarrow> addr \<Rightarrow> bool \<Rightarrow> (addr + u8 \<times> addr) option" where
  "tok_skip m s delim skip = do {
     c \<leftarrow> load8 m s;
     f \<leftarrow> in_str m c delim;
     if f then if skip then tok_skip m (s + 1) delim skip else Some (Inl (s + 1))
     else Some (Inr (c, s + 1)) }"

text \<open>\<^verbatim>\<open>do { if ((sc = *spanp++) == c) ... } while (sc != 0)\<close>: whether \<open>c\<close> is a delimiter or the terminator.\<close>

partial_function (option) in_str0 :: "mem \<Rightarrow> u8 \<Rightarrow> addr \<Rightarrow> bool option" where
  "in_str0 m c spanp = do {
     sc \<leftarrow> load8 m spanp;
     if sc = c then Some True else if sc \<noteq> 0 then in_str0 m c (spanp + 1) else Some False }"

partial_function (option) tok_scan :: "mem \<Rightarrow> addr \<Rightarrow> addr \<Rightarrow> (u8 \<times> addr) option" where
  "tok_scan m s delim = do {
     c \<leftarrow> load8 m s;
     f \<leftarrow> in_str0 m c delim;
     if f then Some (c, s + 1) else tok_scan m (s + 1) delim }"

definition strtok_r_gen :: "mem \<Rightarrow> addr \<Rightarrow> addr \<Rightarrow> addr \<Rightarrow> bool \<Rightarrow> (mem \<times> addr \<times> addr) option" where
  "strtok_r_gen m s delim lasts skip = do {
     let s = (if s = NULL then lasts else s);
     if s = NULL then Some (m, lasts, NULL)
     else do {
       r \<leftarrow> tok_skip m s delim skip;
       (case r of
          Inl s \<Rightarrow> do { m \<leftarrow> store8 m (s - 1) 0; Some (m, s, s - 1) }
        | Inr (c, s) \<Rightarrow>
            if c = 0 then Some (m, NULL, NULL)
            else do {
              let tok = s - 1;
              (c, s) \<leftarrow> tok_scan m s delim;
              if c = 0 then Some (m, NULL, tok)
              else do { m \<leftarrow> store8 m (s - 1) 0; Some (m, s, tok) } }) } }"

definition strtok_r :: "mem \<Rightarrow> addr \<Rightarrow> addr \<Rightarrow> addr \<Rightarrow> (mem \<times> addr \<times> addr) option" where
  "strtok_r m s delim lasts = strtok_r_gen m s delim lasts True"

text \<open>\<open>strtok\<close> keeps the pointer in the thread-local \<open>_strtok_last\<close>.\<close>

definition strtok :: "mem \<Rightarrow> addr \<Rightarrow> addr \<Rightarrow> addr \<Rightarrow> (mem \<times> addr \<times> addr) option" where
  "strtok m s delim strtok_last = strtok_r_gen m s delim strtok_last True"

definition strsep :: "mem \<Rightarrow> addr \<Rightarrow> addr \<Rightarrow> (mem \<times> addr \<times> addr) option" where
  "strsep m source delim = strtok_r_gen m source delim source False"

subsection \<open>Lengths\<close>

lemma cstr_bytes: "cstr m p xs \<Longrightarrow> bytes_at m p (xs @ [0]) \<and> (\<forall>b \<in> set xs. b \<noteq> 0)"
  by (auto simp: cstr_iff)

lemma cstr_drop:
  assumes "cstr m p xs" "k \<le> length xs"
  shows "cstr m (p + k) (drop k xs)"
proof -
  have "bytes_at m p (take k xs @ drop k xs @ [0])" using assms(1) by (simp add: cstr_iff flip: append_assoc)
  then show ?thesis using assms
    by (auto simp: cstr_iff bytes_at_append min.absorb2 dest: in_set_dropD)
qed

lemma strlen_eq: "cstr m p xs \<Longrightarrow> padded m (p + length xs) \<Longrightarrow> strlen m p = Some (length xs)"
  using null_test.scan_ok [of m p xs 0 "\<lambda>s. Some (s - p)" "\<lambda>s. Some (s - p)"] cstr_bytes [of m p xs]
  by (simp add: strlen_def)

lemma strlen_small_eq: "cstr m p xs \<Longrightarrow> strlen_small m p = Some (length xs)"
  using scan_bytes_eq [of m p xs 0 "\<lambda>b. b = 0"] cstr_bytes [of m p xs] by (simp add: strlen_small_def)

lemma strnlen_loop_eq: "cstr m p xs \<Longrightarrow> strnlen_loop m p n = Some (p + min (length xs) n)"
proof (induction n arbitrary: p xs)
  case (Suc n)
  then show ?case by (cases xs) (auto simp: load8_def)
qed simp

subsection \<open>Searches\<close>

lemma split_at_first:
  assumes "c \<in> set xs"
  obtains ys zs where "xs = ys @ c # zs" "c \<notin> set ys"
  using split_list_first [OF assms] that by blast

lemma first_at_split: "c \<notin> set ys \<Longrightarrow> first_at p (ys @ c # zs) c = p + length ys"
  by (simp add: first_at_def takeWhile_notin)

text \<open>
  Where a scan for \<open>c\<close> or the terminator stops: after \<open>ys\<close>, at a byte \<open>x\<close> that is \<open>c\<close> or the terminator.
\<close>

lemma strchr_stop:
  assumes "cstr m p xs"
  obtains ys x where "bytes_at m p (ys @ [x])" "\<forall>b \<in> set ys. b \<noteq> 0 \<and> b \<noteq> c" "x = 0 \<or> x = c"
    "length ys \<le> length xs" "x = c \<Longrightarrow> first_at p (xs @ [0]) c = p + length ys"
    "x \<noteq> c \<Longrightarrow> first_at p (xs @ [0]) c = NULL" "x \<noteq> c \<Longrightarrow> x = 0"
proof (cases "c \<in> set xs")
  case True
  then obtain ys zs where s: "xs = ys @ c # zs" "c \<notin> set ys" by (rule split_at_first)
  show thesis
    using assms s first_at_split [of c ys p "zs @ [0]"]
    by (intro that [of ys c]) (auto simp: cstr_iff bytes_at_append)
next
  case False
  show thesis
    using assms False first_at_split [of 0 xs p "[]"]
    by (intro that [of xs 0]) (auto simp: cstr_iff first_at_def)
qed

lemma padded_before:
  assumes "mapped m p (Suc n)" "padded m (p + n)" "k \<le> n"
  shows "padded m (p + k)"
proof -
  define r where "r = 8 - (p + n) mod 8"
  define e where "e = p + n + r"
  have "mapped m p n" by (rule mapped_sub [OF assms(1)]) auto
  then have "mapped m p (n + r)" using assms(2) by (intro mapped_join) (simp_all add: padded_def r_def)
  have "e mod 8 = 0" unfolding e_def r_def by presburger
  moreover have "p + k < e" using assms(3) by (simp add: e_def r_def)
  ultimately have "(p + k) div 8 < e div 8" by (metis div_mult_mod_eq add.right_neutral div_less_iff_less_mult zero_less_numeral)
  then have "8 * ((p + k) div 8) + 8 \<le> e" using \<open>e mod 8 = 0\<close> by linarith
  then have "p + k + (8 - (p + k) mod 8) \<le> e" using mult_div_mod_eq [of 8 "p + k"] mod_less_divisor [of 8 "p + k"] by linarith
  then show ?thesis using \<open>mapped m p (n + r)\<close> unfolding padded_def e_def
    by (elim mapped_sub) auto
qed

lemma strchr_eq:
  assumes "cstr m p xs" "padded m (p + length xs)"
  shows "strchr m p c = Some (first_at p (xs @ [0]) (word_of_int c))"
proof (cases "word_of_int c = (0 :: u8)")
  case True
  then show ?thesis
    using null_test.scan_ok [of m p xs 0 Some Some] cstr_bytes [OF assms(1)] assms(2) first_at_split [of 0 xs p "[]"]
    by (auto simp: strchr_def)
next
  case False
  let ?c = "word_of_int c :: u8"
  obtain ys x where y: "bytes_at m p (ys @ [x])" "\<forall>b \<in> set ys. b \<noteq> 0 \<and> b \<noteq> ?c" "x = 0 \<or> x = ?c"
    "length ys \<le> length xs" "x = ?c \<Longrightarrow> first_at p (xs @ [0]) ?c = p + length ys"
    "x \<noteq> ?c \<Longrightarrow> first_at p (xs @ [0]) ?c = NULL" "x \<noteq> ?c \<Longrightarrow> x = 0"
    using strchr_stop [OF assms(1), of ?c] by blast
  have "padded m (p + length ys)"
    using padded_before [OF cstr_mapped [OF assms(1)] assms(2) y(4)] .
  then have "scan_align (\<lambda>b. b = 0 \<or> b = ?c) m p \<bind>
      case_sum (\<lambda>s. do { b \<leftarrow> load8 m s; Some (if b = 0 then NULL else s) })
       (\<lambda>s. scan_words (\<lambda>w. DETECT_NULL w \<noteq> 0 \<or> DETECT_CHAR w (spread_strchr ?c) \<noteq> 0) m s \<bind>
         (\<lambda>s. scan_bytes (\<lambda>b. b = 0 \<or> b = ?c) m s \<bind>
            (\<lambda>s. do { b \<leftarrow> load8 m s; Some (if b = ?c then s else NULL) })))
    = do { b \<leftarrow> load8 m (p + length ys); Some (if b = ?c then p + length ys else NULL) }"
    using y False by (intro strchr_test.scan_ok) (auto simp: bytes_at_append load8_def)
  then show ?thesis using False y by (auto simp: strchr_def Let_def bytes_at_append load8_def)
qed

lemma strchr_small_eq:
  assumes "cstr m p xs"
  shows "strchr_small m p c = Some (first_at p (xs @ [0]) (word_of_int c))"
proof -
  let ?c = "word_of_int c :: u8"
  obtain ys x where y: "bytes_at m p (ys @ [x])" "\<forall>b \<in> set ys. b \<noteq> 0 \<and> b \<noteq> ?c" "x = 0 \<or> x = ?c"
    "length ys \<le> length xs" "x = ?c \<Longrightarrow> first_at p (xs @ [0]) ?c = p + length ys"
    "x \<noteq> ?c \<Longrightarrow> first_at p (xs @ [0]) ?c = NULL" "x \<noteq> ?c \<Longrightarrow> x = 0"
    using strchr_stop [OF assms(1), of ?c] by blast
  have "scan_bytes (\<lambda>b. b = 0 \<or> b = ?c) m p = Some (p + length ys)"
    using y by (intro scan_bytes_eq [of m p ys x]) auto
  then show ?thesis using y by (auto simp: strchr_small_def Let_def bytes_at_append load8_def)
qed

lemma strrchr_loop_eq:
  assumes "cstr m p xs" "padded m (p + length xs)" "word_of_int c \<noteq> (0::u8)" "0 < p"
  shows "strrchr_loop m p c lst =
    Some (if word_of_int c \<in> set xs then last_at p xs (word_of_int c) else lst)"
  using assms
proof (induction xs arbitrary: p lst rule: length_induct)
  case (1 xs)
  let ?c = "word_of_int c :: u8"
  show ?case
  proof (cases "?c \<in> set xs")
    case False
    then show ?thesis using strchr_eq [OF 1(2,3), of c] 1(4)
      by (subst strrchr_loop.simps) (auto simp: first_at_def)
  next
    case True
    then obtain ys zs where s: "xs = ys @ ?c # zs" "?c \<notin> set ys" by (rule split_at_first)
    have e: "strchr m p c = Some (p + length ys)"
      using strchr_eq [OF 1(2,3), of c] first_at_split [OF s(2), of p "zs @ [0]"] s(1) by simp
    have "cstr m (p + Suc (length ys)) (drop (Suc (length ys)) xs)" using 1(2) s by (intro cstr_drop) auto
    then have "strrchr_loop m (p + length ys + 1) c (p + length ys) =
        Some (if ?c \<in> set zs then last_at (p + length ys + 1) zs ?c else p + length ys)"
      using 1(1) [rule_format, of zs "p + length ys + 1"] 1(3,4,5) s by (auto simp: ac_simps)
    moreover have "last_at p xs ?c = (if ?c \<in> set zs then last_at (p + length ys + 1) zs ?c else p + length ys)"
    proof (cases "?c \<in> set zs")
      case True
      then have "takeWhile (\<lambda>b. b \<noteq> ?c) (rev zs @ ?c # rev ys) = takeWhile (\<lambda>b. b \<noteq> ?c) (rev zs)"
        by (intro takeWhile_append1) auto
      then show ?thesis using s(1) True by (simp add: last_at_def)
    next
      case False
      then show ?thesis using s(1) last_at_append [of ?c zs p "ys @ [?c]"] by (simp add: last_at_def)
    qed
    ultimately show ?thesis using e 1(5) True by (subst strrchr_loop.simps) simp
  qed
qed

lemma strrchr_eq:
  assumes "cstr m p xs" "padded m (p + length xs)" "0 < p"
  shows "strrchr m p c = Some (last_at p (xs @ [0]) (word_of_int c))"
proof (cases "word_of_int c = (0::u8)")
  case True
  then show ?thesis
    using strchr_eq [OF assms(1,2), of 0] first_at_split [of 0 xs p "[]"] cstr_bytes [OF assms(1)]
    by (auto simp: strrchr_def last_at_def)
next
  case False
  then show ?thesis
    using strrchr_loop_eq [OF assms(1,2), of "sint (word_of_int c :: u8)" NULL] assms(3)
      last_at_append [of "word_of_int c" "[0]" p xs]
    by (auto simp: strrchr_def Let_def last_at_def)
qed

subsection \<open>Comparisons\<close>

text \<open>The comparison on the bytes that can be read, which go on past the terminators.\<close>

fun strcmp_list :: "u8 list \<Rightarrow> u8 list \<Rightarrow> int" where
  "strcmp_list (a # F) (b # G) = (if a \<noteq> 0 \<and> a = b then strcmp_list F G else uint a - uint b)"
| "strcmp_list _ _ = 0"

fun strncmp_list :: "nat \<Rightarrow> u8 list \<Rightarrow> u8 list \<Rightarrow> int" where
  "strncmp_list (Suc n) (a # F) (b # G) =
     (if a = b then if a = 0 then 0 else strncmp_list n F G else uint a - uint b)"
| "strncmp_list _ _ _ = 0"

lemma strcmp_list_same:
  "strcmp_list (W @ F) (W @ G) = (if 0 \<in> set W then 0 else strcmp_list F G)"
  by (induction W) auto

lemma strncmp_list_0 [simp]: "strncmp_list 0 F G = 0"
  by (cases F; cases G) auto

lemma strncmp_list_same:
  "length W \<le> n \<Longrightarrow> strncmp_list n (W @ F) (W @ G) = (if 0 \<in> set W then 0 else strncmp_list (n - length W) F G)"
proof (induction W arbitrary: n)
  case (Cons w W)
  then show ?case by (cases n) auto
qed simp

lemma strcmp_list_cstr:
  "0 \<notin> set xs \<Longrightarrow> 0 \<notin> set ys \<Longrightarrow> strcmp_list (xs @ 0 # u) (ys @ 0 # v) = cmp_list (xs @ [0]) (ys @ [0])"
proof (induction xs arbitrary: ys)
  case Nil
  then show ?case by (cases ys) auto
next
  case (Cons x xs)
  then show ?case by (cases ys) auto
qed

lemma strncmp_list_cstr:
  "0 \<notin> set xs \<Longrightarrow> 0 \<notin> set ys \<Longrightarrow>
   strncmp_list n (xs @ 0 # u) (ys @ 0 # v) = cmp_list (take n (xs @ [0])) (take n (ys @ [0]))"
proof (induction xs arbitrary: ys n)
  case Nil
  then show ?case by (cases ys; cases n) auto
next
  case (Cons x xs)
  then show ?case by (cases ys; cases n) auto
qed

text \<open>The bytes of a string and of the rest of its last word, a whole number of words.\<close>

lemma cstr_words:
  assumes "cstr m p xs" "padded m (p + length xs)" "p mod 8 = 0"
  obtains u where "bytes_at m p (xs @ 0 # u)" "length (xs @ 0 # u) mod 8 = 0" "0 \<in> set (xs @ 0 # u)"
proof -
  define r where "r = 8 - (p + length xs) mod 8"
  have r: "0 < r" "(p + length xs + r) mod 8 = 0" "(length xs + r) mod 8 = 0"
    using assms(3) unfolding r_def by presburger+
  have "mapped m (p + length xs + 1) (r - 1)"
    using assms(2) r(1) unfolding padded_def r_def [symmetric] by (elim mapped_sub) auto
  then obtain u where u: "length u = r - 1" "bytes_at m (p + length xs + 1) u"
    by (rule mapped_obtain_bytes)
  then show thesis using assms(1) r
    by (intro that [of u]) (auto simp: cstr_iff bytes_at_append)
qed

lemma strcmp_bytes_list:
  assumes "bytes_at m p F" "bytes_at m q G" "0 \<in> set F" "0 \<in> set G"
  shows "strcmp_bytes m p q = Some (strcmp_list F G)"
  using assms
proof (induction F arbitrary: p q G)
  case (Cons a F)
  then obtain b G' where "G = b # G'" by (cases G) auto
  with Cons show ?case by (subst strcmp_bytes.simps) (auto simp: load8_def)
qed simp

lemma strncmp_bytes_list:
  assumes "bytes_at m p F" "bytes_at m q G" "0 \<in> set F" "0 \<in> set G" "0 < n"
  shows "strncmp_bytes m p q n = Some (strncmp_list n F G)"
  using assms
proof (induction F arbitrary: p q G n)
  case (Cons a F)
  then obtain b G' k where "G = b # G'" "n = Suc k" by (cases G; cases n) auto
  with Cons show ?case by (cases "k = 0") (auto simp: load8_def)
qed simp

text \<open>A word of each of two lists of words, and the words they are loaded as.\<close>

lemma take_word:
  assumes "length F mod 8 = 0" "F \<noteq> []" "bytes_at m p F" "p mod 8 = 0"
  obtains W F' where "F = W @ F'" "length W = 8" "length F' mod 8 = 0" "bytes_at m (p + 8) F'"
    "(p + 8) mod 8 = 0" "load64 m p = Some (word_of_bytes W)"
proof -
  have n: "8 \<le> length F" using assms(1,2) by (metis length_0_conv mod_less not_le)
  have a: "bytes_at m p (take 8 F)" "bytes_at m (p + 8) (drop 8 F)"
    using assms(3) n bytes_at_append [of m p "take 8 F" "drop 8 F"] by auto
  have "load64 m p = Some (word_of_bytes (take 8 F))" using n assms(4) by (intro load64_at [OF a(1)]) simp_all
  moreover have "length (drop 8 F) mod 8 = 0" using assms(1) le_mod_geq [OF n] by simp
  ultimately show thesis
    using a(2) assms(4) n by (intro that [of "take 8 F" "drop 8 F"]) simp_all
qed

lemma word_of_bytes_inj:
  assumes "length W = 8" "length V = 8"
  shows "(word_of_bytes W :: u64) = word_of_bytes V \<longleftrightarrow> W = V"
proof
  assume "(word_of_bytes W :: u64) = word_of_bytes V"
  then have "word_to_bytes 8 (word_of_bytes W :: u64) = word_to_bytes 8 (word_of_bytes V :: u64)" by simp
  then show "W = V" using assms by (simp add: word_to_bytes_of_bytes)
qed simp

lemma strcmp_words_list:
  assumes "p mod 8 = 0" "q mod 8 = 0" "bytes_at m p F" "bytes_at m q G" "0 \<in> set F" "0 \<in> set G"
    "length F mod 8 = 0" "length G mod 8 = 0"
  shows "do { r \<leftarrow> strcmp_words m p q;
      (case r of Inl i \<Rightarrow> Some i | Inr (s1, s2) \<Rightarrow> strcmp_bytes m s1 s2) } = Some (strcmp_list F G)"
  using assms
proof (induction F arbitrary: p q G rule: length_induct)
  case (1 F)
  have "F \<noteq> []" "G \<noteq> []" using 1(6,7) by auto
  obtain W F' where f: "F = W @ F'" "length W = 8" "length F' mod 8 = 0" "bytes_at m (p + 8) F'"
    "(p + 8) mod 8 = 0" "load64 m p = Some (word_of_bytes W)"
    using take_word [OF 1(8) \<open>F \<noteq> []\<close> 1(4,2)] .
  obtain V G' where g: "G = V @ G'" "length V = 8" "length G' mod 8 = 0" "bytes_at m (q + 8) G'"
    "(q + 8) mod 8 = 0" "load64 m q = Some (word_of_bytes V)"
    using take_word [OF 1(9) \<open>G \<noteq> []\<close> 1(5,3)] .
  show ?case
  proof (cases "W = V")
    case False
    then show ?thesis using f g word_of_bytes_inj [OF f(2) g(2)] strcmp_bytes_list [OF 1(4-7)]
      by (subst strcmp_words.simps) simp
  next
    case True
    show ?thesis
    proof (cases "0 \<in> set W")
      case True
      then show ?thesis using f g \<open>W = V\<close> null_test.T_iff [OF f(2)] strcmp_list_same [of W F' G']
        by (subst strcmp_words.simps) simp
    next
      case False
      have "length F' < length F" using f by simp
      then have "do { r \<leftarrow> strcmp_words m (p + 8) (q + 8);
          (case r of Inl i \<Rightarrow> Some i | Inr (s1, s2) \<Rightarrow> strcmp_bytes m s1 s2) } = Some (strcmp_list F' G')"
        using 1(1) [rule_format, of F' "p + 8" "q + 8" G'] f g False True 1(6,7) by simp
      then show ?thesis using f g False True null_test.T_iff [OF f(2)] strcmp_list_same [of W F' G']
        by (subst strcmp_words.simps) simp
    qed
  qed
qed

lemma strncmp_words_list:
  assumes "p mod 8 = 0" "q mod 8 = 0" "bytes_at m p F" "bytes_at m q G" "0 \<in> set F" "0 \<in> set G"
    "length F mod 8 = 0" "length G mod 8 = 0" "0 < n"
  shows "do { r \<leftarrow> strncmp_words m p q n;
      (case r of Inl i \<Rightarrow> Some i | Inr (s1, s2, n) \<Rightarrow> strncmp_bytes m s1 s2 n) } = Some (strncmp_list n F G)"
  using assms
proof (induction F arbitrary: p q G n rule: length_induct)
  case (1 F)
  have "F \<noteq> []" "G \<noteq> []" using 1(6,7) by auto
  obtain W F' where f: "F = W @ F'" "length W = 8" "length F' mod 8 = 0" "bytes_at m (p + 8) F'"
    "(p + 8) mod 8 = 0" "load64 m p = Some (word_of_bytes W)"
    using take_word [OF 1(8) \<open>F \<noteq> []\<close> 1(4,2)] .
  obtain V G' where g: "G = V @ G'" "length V = 8" "length G' mod 8 = 0" "bytes_at m (q + 8) G'"
    "(q + 8) mod 8 = 0" "load64 m q = Some (word_of_bytes V)"
    using take_word [OF 1(9) \<open>G \<noteq> []\<close> 1(5,3)] .
  show ?case
  proof (cases "W = V \<and> 8 \<le> n")
    case False
    then show ?thesis using f g word_of_bytes_inj [OF f(2) g(2)] strncmp_bytes_list [OF 1(4-7,10)]
      by (subst strncmp_words.simps) auto
  next
    case True
    then have n: "8 \<le> n" "W = V" by simp_all
    show ?thesis
    proof (cases "0 \<in> set W \<or> n = 8")
      case True
      then show ?thesis using f g n null_test.T_iff [OF f(2)] strncmp_list_same [of W n F' G']
        by (subst strncmp_words.simps) auto
    next
      case False
      have "length F' < length F" using f by simp
      then have "do { r \<leftarrow> strncmp_words m (p + 8) (q + 8) (n - 8);
          (case r of Inl i \<Rightarrow> Some i | Inr (s1, s2, n) \<Rightarrow> strncmp_bytes m s1 s2 n) } = Some (strncmp_list (n - 8) F' G')"
        using 1(1) [rule_format, of F' "p + 8" "q + 8" G' "n - 8"] f g False n 1(6,7) by simp
      then show ?thesis using f g False n null_test.T_iff [OF f(2)] strncmp_list_same [of W n F' G']
        by (subst strncmp_words.simps) simp
    qed
  qed
qed

lemma strcmp_eq:
  assumes "cstr m p xs" "padded m (p + length xs)" "cstr m q ys" "padded m (q + length ys)"
  shows "strcmp m p q = Some (cmp_list (xs @ [0]) (ys @ [0]))"
proof (cases "p mod 8 = 0 \<and> q mod 8 = 0")
  case True
  then have al: "p mod 8 = 0" "q mod 8 = 0" by simp_all
  obtain u where u: "bytes_at m p (xs @ 0 # u)" "length (xs @ 0 # u) mod 8 = 0" "0 \<in> set (xs @ 0 # u)"
    by (rule cstr_words [OF assms(1,2) al(1)])
  obtain v where v: "bytes_at m q (ys @ 0 # v)" "length (ys @ 0 # v) mod 8 = 0" "0 \<in> set (ys @ 0 # v)"
    by (rule cstr_words [OF assms(3,4) al(2)])
  show ?thesis
    using strcmp_words_list [OF _ _ u(1) v(1) u(3) v(3) u(2) v(2)] True
      strcmp_list_cstr [of xs ys u v] assms(1,3)
    by (simp add: strcmp_def cstr_iff)
next
  case False
  then have "UNALIGNED_X_Y p q \<noteq> 0" by simp
  then show ?thesis
    using strcmp_bytes_list [of m p "xs @ [0]" q "ys @ [0]"] strcmp_list_cstr [of xs ys "[]" "[]"] assms(1,3)
    unfolding strcmp_def by (simp add: cstr_iff del: UNALIGNED_X_Y_0)
qed

lemma strncmp_eq:
  assumes "cstr m p xs" "padded m (p + length xs)" "cstr m q ys" "padded m (q + length ys)"
  shows "strncmp m p q n = Some (cmp_list (take n (xs @ [0])) (take n (ys @ [0])))"
proof (cases "n = 0")
  case True
  then show ?thesis by (simp add: strncmp_def)
next
  case n: False
  show ?thesis
  proof (cases "p mod 8 = 0 \<and> q mod 8 = 0")
    case True
    then have al: "p mod 8 = 0" "q mod 8 = 0" by simp_all
    obtain u where u: "bytes_at m p (xs @ 0 # u)" "length (xs @ 0 # u) mod 8 = 0" "0 \<in> set (xs @ 0 # u)"
      by (rule cstr_words [OF assms(1,2) al(1)])
    obtain v where v: "bytes_at m q (ys @ 0 # v)" "length (ys @ 0 # v) mod 8 = 0" "0 \<in> set (ys @ 0 # v)"
      by (rule cstr_words [OF assms(3,4) al(2)])
    show ?thesis
      using strncmp_words_list [OF _ _ u(1) v(1) u(3) v(3) u(2) v(2), of n] True n
        strncmp_list_cstr [of xs ys n u v] assms(1,3)
      by (simp add: strncmp_def cstr_iff)
  next
    case False
    then have "UNALIGNED_X_Y p q \<noteq> 0" by simp
    then show ?thesis
      using strncmp_bytes_list [of m p "xs @ [0]" q "ys @ [0]" n] strncmp_list_cstr [of xs ys n "[]" "[]"] assms(1,3) n
      unfolding strncmp_def by (simp add: cstr_iff del: UNALIGNED_X_Y_0)
  qed
qed

subsection \<open>Spans\<close>

lemma in_str_eq: "cstr m q ds \<Longrightarrow> in_str m a q = Some (a \<in> set ds)"
proof (induction ds arbitrary: q)
  case Nil
  then show ?case by (subst in_str.simps) (simp add: load8_def)
next
  case (Cons d ds)
  then show ?case by (subst in_str.simps) (auto simp: load8_def)
qed

lemma in_str0_eq: "cstr m q ds \<Longrightarrow> in_str0 m a q = Some (a \<in> set ds \<or> a = 0)"
proof (induction ds arbitrary: q)
  case Nil
  then show ?case by (subst in_str0.simps) (auto simp: load8_def)
next
  case (Cons d ds)
  then show ?case by (subst in_str0.simps) (auto simp: load8_def)
qed

lemma strspn_loop_eq:
  "cstr m p xs \<Longrightarrow> cstr m q ds \<Longrightarrow> strspn_loop m p q = Some (p + length (takeWhile (\<lambda>b. b \<in> set ds) xs))"
proof (induction xs arbitrary: p)
  case Nil
  then show ?case by (subst strspn_loop.simps) (simp add: load8_def)
next
  case (Cons x xs)
  then show ?case by (subst strspn_loop.simps) (auto simp: load8_def in_str_eq)
qed

lemma strcspn_loop_eq:
  "cstr m p xs \<Longrightarrow> cstr m q ds \<Longrightarrow> strcspn_loop m p q = Some (p + length (takeWhile (\<lambda>b. b \<notin> set ds) xs))"
proof (induction xs arbitrary: p)
  case Nil
  then show ?case by (subst strcspn_loop.simps) (simp add: load8_def)
next
  case (Cons x xs)
  then show ?case by (subst strcspn_loop.simps) (auto simp: load8_def in_str_eq)
qed

lemma strpbrk_eq:
  "cstr m p xs \<Longrightarrow> cstr m q ds \<Longrightarrow> strpbrk m p q =
    Some (if set xs \<inter> set ds = {} then NULL else p + length (takeWhile (\<lambda>b. b \<notin> set ds) xs))"
proof (induction xs arbitrary: p)
  case Nil
  then show ?case by (subst strpbrk.simps) (simp add: load8_def)
next
  case (Cons x xs)
  then show ?case by (subst strpbrk.simps) (auto simp: load8_def in_str_eq)
qed

subsection \<open>Tokens\<close>

lemma tok_skip_eq:
  assumes "cstr m p xs" "cstr m q ds"
  shows "tok_skip m p q True = (let k = length (takeWhile (\<lambda>b. b \<in> set ds) xs)
    in Some (Inr ((xs @ [0]) ! k, p + k + 1)))"
  using assms
proof (induction xs arbitrary: p)
  case Nil
  then have "0 \<notin> set ds" by (simp add: cstr_iff)
  with Nil show ?case by (subst tok_skip.simps) (simp add: load8_def in_str_eq)
next
  case (Cons x xs)
  then show ?case by (subst tok_skip.simps) (auto simp: load8_def in_str_eq Let_def)
qed

lemma tok_scan_eq:
  assumes "cstr m p xs" "cstr m q ds"
  shows "tok_scan m p q = (let k = length (takeWhile (\<lambda>b. b \<notin> set ds) xs)
    in Some ((xs @ [0]) ! k, p + k + 1))"
  using assms
proof (induction xs arbitrary: p)
  case Nil
  then show ?case by (subst tok_scan.simps) (simp add: load8_def in_str0_eq)
next
  case (Cons x xs)
  then show ?case by (subst tok_scan.simps) (auto simp: load8_def in_str0_eq Let_def)
qed

lemma nth_takeWhile: "(xs @ [z]) ! length (takeWhile P xs) = hd (dropWhile P xs @ [z])"
  by (induction xs) auto

lemma strtok_r_eq:
  assumes "cstr m p xs" "cstr m q ds" "0 < p"
    and "rest = dropWhile (\<lambda>b. b \<in> set ds) xs" "tok = takeWhile (\<lambda>b. b \<notin> set ds) rest"
    and "st = p + length xs - length rest"
  shows "strtok_r_gen m p q lasts True =
    (if rest = [] then Some (m, NULL, NULL)
     else if tok = rest then Some (m, NULL, st)
     else Some (m(st + length tok \<mapsto> 0), st + length tok + 1, st))"
proof -
  define a where "a = takeWhile (\<lambda>b. b \<in> set ds) xs"
  have xs: "xs = a @ rest" by (simp add: a_def assms(4))
  have st: "st = p + length a" by (simp add: assms(6) xs)
  have skip: "tok_skip m p q True = Some (Inr (hd (rest @ [0]), st + 1))"
    using tok_skip_eq [OF assms(1,2), unfolded Let_def nth_takeWhile] by (simp add: a_def assms(4) st)
  show ?thesis
  proof (cases rest)
    case Nil
    then show ?thesis using skip assms(3) by (simp add: strtok_r_gen_def)
  next
    case (Cons x r)
    have s: "cstr m st rest" using cstr_drop [OF assms(1), of "length a"] by (simp add: xs st)
    then have x: "x \<noteq> 0" "cstr m (Suc st) r" by (simp_all add: Cons)
    have xd: "x \<notin> set ds" using assms(4) Cons by (metis hd_dropWhile list.sel(1) list.distinct(1))
    define t where "t = takeWhile (\<lambda>b. b \<notin> set ds) r"
    have tok: "tok = x # t" by (simp add: assms(5) Cons xd t_def)
    have scan: "tok_scan m (st + 1) q = Some (hd (dropWhile (\<lambda>b. b \<notin> set ds) r @ [0]), st + 1 + length t + 1)"
      using tok_scan_eq [OF x(2) assms(2)] by (simp add: nth_takeWhile t_def)
    show ?thesis
    proof (cases "dropWhile (\<lambda>b. b \<notin> set ds) r")
      case Nil
      then have "t = r" by (metis append.right_neutral t_def takeWhile_dropWhile_id)
      then show ?thesis using skip scan Nil assms(3) x Cons tok by (simp add: strtok_r_gen_def)
    next
      case (Cons y r')
      have r: "r = t @ y # r'" by (metis t_def takeWhile_dropWhile_id Cons)
      have "y \<noteq> 0" "m (st + 1 + length t) \<noteq> None"
        using x(2) r by (auto simp: cstr_iff bytes_at_append)
      then show ?thesis using skip scan Cons assms(3) x \<open>rest = x # r\<close> tok r
        by (auto simp: strtok_r_gen_def store8_def)
    qed
  qed
qed

lemma cstr_cut:
  assumes "cstr m p (xs @ y # zs)"
  shows "cstr (m(p + length xs \<mapsto> 0)) p xs" "cstr (m(p + length xs \<mapsto> 0)) (p + length xs + 1) zs"
  using assms by (auto simp: cstr_iff bytes_at_append bytes_at_upd_other)

subsection \<open>Properties\<close>

text \<open>
  C14: on a string whose last word can be read, \<open>strlen\<close> returns the number of bytes before the
  terminator; its size-optimised build agrees without reading past the terminator, and \<open>strnlen\<close>
  returns the length or the bound, whichever is less.
\<close>

theorem strlen_correct:
  assumes "cstr m p xs" and "padded m (p + length xs)"
  shows "strlen m p = Some (length xs) \<and> strlen_small m p = Some (length xs)
    \<and> strnlen m p n = Some (min (length xs) n)"
  using strlen_eq [OF assms] strlen_small_eq [OF assms(1)] strnlen_loop_eq [OF assms(1), of n]
  by (simp add: strnlen_def)

theorem strlen_correct_witness:
  "strlen (put_bytes (\<lambda>_. None) 8 [65, 66, 67, 0, 9, 9, 9, 9]) 9 = Some 2"
  using strlen_correct [of "put_bytes (\<lambda>_. None) 8 [65, 66, 67, 0, 9, 9, 9, 9]" 9 "[66, 67]" 5]
  by (simp add: put_bytes_apply padded_def mapped_put_inside)

text \<open>
  \<open>strchr\<close> and \<open>strrchr\<close> return the first and the last position of the character in the
  string with its terminator, NULL when it does not occur; the small build agrees.
\<close>

theorem strchr_correct:
  assumes "cstr m p xs" and "padded m (p + length xs)" and "0 < p"
  shows "strchr m p c = Some (first_at p (xs @ [0]) (word_of_int c))
    \<and> strchr_small m p c = strchr m p c
    \<and> strrchr m p c = Some (last_at p (xs @ [0]) (word_of_int c))"
  using strchr_eq [OF assms(1,2)] strchr_small_eq [OF assms(1)] strrchr_eq [OF assms] by simp

theorem strchr_correct_witness:
  "strrchr (put_bytes (\<lambda>_. None) 8 [65, 66, 65, 0, 9, 9, 9, 9]) 8 65 = Some 10"
  using strchr_correct [of "put_bytes (\<lambda>_. None) 8 [65, 66, 65, 0, 9, 9, 9, 9]" 8 "[65, 66, 65]" 65]
  by (simp add: put_bytes_apply padded_def mapped_put_inside last_at_def)

text \<open>
  \<open>strcmp\<close> returns the difference of the first bytes in which the two strings, with their
  terminators, differ, and \<open>strncmp\<close> the same for their first \<open>n\<close> bytes.
\<close>

theorem strcmp_correct:
  assumes "cstr m p xs" and "padded m (p + length xs)" and "cstr m q ys" and "padded m (q + length ys)"
  shows "strcmp m p q = Some (cmp_list (xs @ [0]) (ys @ [0]))
    \<and> strncmp m p q n = Some (cmp_list (take n (xs @ [0])) (take n (ys @ [0])))"
  using strcmp_eq [OF assms] strncmp_eq [OF assms] by simp

theorem strcmp_correct_witness:
  "strcmp (put_bytes (\<lambda>_. None) 8 [65, 66, 0, 1, 2, 3, 4, 5, 65, 67, 0, 5, 4, 3, 2, 1]) 8 16 = Some (- 1)"
  using strcmp_correct [of "put_bytes (\<lambda>_. None) 8 [65, 66, 0, 1, 2, 3, 4, 5, 65, 67, 0, 5, 4, 3, 2, 1]" 8 "[65, 66]" 16 "[65, 67]" 1]
  by (simp add: put_bytes_apply padded_def mapped_put_inside)

text \<open>
  \<open>strspn\<close>, \<open>strcspn\<close> and \<open>strpbrk\<close> measure the longest prefix inside the set, the longest
  outside it, and find the first byte inside it.
\<close>

theorem strspn_correct:
  assumes "cstr m p xs" and "cstr m q ds"
  shows "strspn m p q = Some (length (takeWhile (\<lambda>b. b \<in> set ds) xs))
    \<and> strcspn m p q = Some (length (takeWhile (\<lambda>b. b \<notin> set ds) xs))
    \<and> strpbrk m p q = Some (if set xs \<inter> set ds = {} then NULL else p + length (takeWhile (\<lambda>b. b \<notin> set ds) xs))"
  using strspn_loop_eq [OF assms] strcspn_loop_eq [OF assms] strpbrk_eq [OF assms]
  by (simp add: strspn_def strcspn_def)

theorem strspn_correct_witness:
  "strspn (put_bytes (\<lambda>_. None) 8 [65, 65, 66, 0, 65, 0]) 8 12 = Some 2"
  using strspn_correct [of "put_bytes (\<lambda>_. None) 8 [65, 65, 66, 0, 65, 0]" 8 "[65, 65, 66]" 12 "[65]"]
  by (simp add: put_bytes_apply)

text \<open>
  \<open>strtok_r\<close> skips the leading delimiters; when nothing is left it returns NULL and clears the
  saved pointer. Otherwise it returns a string that is the longest run of non-delimiters,
  and the saved pointer is NULL when the input is used up and else holds the text after the delimiter that ended it.
\<close>

theorem strtok_correct:
  assumes "cstr m p xs" and "cstr m q ds" and "0 < p"
    and "rest = dropWhile (\<lambda>b. b \<in> set ds) xs" and "tok = takeWhile (\<lambda>b. b \<notin> set ds) rest"
  shows "\<exists>m' lasts' r. strtok_r m p q lasts = Some (m', lasts', r) \<and>
    (if rest = [] then m' = m \<and> lasts' = NULL \<and> r = NULL
     else r = p + length xs - length rest \<and> cstr m' r tok \<and>
       (case dropWhile (\<lambda>b. b \<notin> set ds) rest of
          [] \<Rightarrow> m' = m \<and> lasts' = NULL
        | _ # more \<Rightarrow> lasts' \<noteq> NULL \<and> cstr m' lasts' more))"
proof (cases "rest = []")
  case True
  then show ?thesis using strtok_r_eq [OF assms refl] by (simp add: strtok_r_def)
next
  case False
  define st where "st = p + length xs - length rest"
  have "length rest \<le> length xs" by (simp add: assms(4) length_dropWhile_le)
  moreover have "xs = takeWhile (\<lambda>b. b \<in> set ds) xs @ rest" by (simp add: assms(4))
  then obtain a where "xs = a @ rest" by (rule that)
  then have "drop (length xs - length rest) xs = rest" by simp
  ultimately have s: "cstr m st rest"
    using cstr_drop [OF assms(1), of "length xs - length rest"] by (simp add: st_def)
  have e: "rest = tok @ dropWhile (\<lambda>b. b \<notin> set ds) rest" by (simp add: assms(5))
  show ?thesis
  proof (cases "dropWhile (\<lambda>b. b \<notin> set ds) rest")
    case Nil
    then have "tok = rest" using e by (metis append_Nil2)
    then show ?thesis unfolding Nil using strtok_r_eq [OF assms st_def, of lasts] False s
      by (simp add: strtok_r_def st_def)
  next
    case (Cons y more)
    then have r: "rest = tok @ y # more" using e by simp
    then have "strtok_r m p q lasts = Some (m(st + length tok \<mapsto> 0), st + length tok + 1, st)"
      using strtok_r_eq [OF assms st_def, of lasts] False by (simp add: strtok_r_def)
    then show ?thesis using cstr_cut [of m st tok y more] s Cons False r by (simp add: st_def)
  qed
qed

theorem strtok_correct_witness:
  "case strtok_r (put_bytes (\<lambda>_. None) 8 [44, 65, 44, 66, 0, 44, 0]) 8 13 0 of
     None \<Rightarrow> False | Some (m', lasts', r) \<Rightarrow> r = 9 \<and> cstr m' 9 [65] \<and> cstr m' lasts' [66]"
proof -
  let ?m = "put_bytes (\<lambda>_. None) 8 [44, 65, 44, 66, 0, 44, 0]"
  have c: "cstr ?m 8 [44, 65, 44, 66]" "cstr ?m 13 [44]" by (simp_all add: put_bytes_apply)
  show ?thesis using strtok_correct [OF c _ refl refl, of 0] by (simp, elim exE conjE) simp
qed

end
