(* ===== verification/StrCopy.thy ===== *)
theory StrCopy
  imports StrScan
begin

text \<open>
  The string routines of \<open>libc/string\<close> that write: copies and concatenations, bounded and not. The
  results are stated with \<open>put_bytes\<close>: which bytes are at the destination afterwards, everything
  else being unchanged.
\<close>

subsection \<open>Copy loops\<close>

text \<open>\<^verbatim>\<open>while ((*dst++ = *src++)) ;\<close>\<close>

partial_function (option) copy_str :: "mem \<Rightarrow> addr \<Rightarrow> addr \<Rightarrow> (mem \<times> addr \<times> addr) option" where
  "copy_str m dst src = do {
     b \<leftarrow> load8 m src;
     m \<leftarrow> store8 m dst b;
     if b = 0 then Some (m, dst + 1, src + 1) else copy_str m (dst + 1) (src + 1) }"

partial_function (option) copy_str_words :: "mem \<Rightarrow> addr \<Rightarrow> addr \<Rightarrow> (mem \<times> addr \<times> addr) option" where
  "copy_str_words m dst src = do {
     w \<leftarrow> load64 m src;
     if DETECT_NULL w \<noteq> 0 then Some (m, dst, src)
     else do { m \<leftarrow> store64 m dst w; copy_str_words m (dst + 8) (src + 8) } }"

definition strcpy_small :: "mem \<Rightarrow> addr \<Rightarrow> addr \<Rightarrow> (mem \<times> addr) option" where
  "strcpy_small m dst0 src0 = do { (m, dst, src) \<leftarrow> copy_str m dst0 src0; Some (m, dst0) }"

definition strcpy :: "mem \<Rightarrow> addr \<Rightarrow> addr \<Rightarrow> (mem \<times> addr) option" where
  "strcpy m dst0 src0 = do {
     (m, dst, src) \<leftarrow>
       (if UNALIGNED_X_Y src0 dst0 = 0 then copy_str_words m dst0 src0 else Some (m, dst0, src0));
     (m, dst, src) \<leftarrow> copy_str m dst src;
     Some (m, dst0) }"

definition stpcpy :: "mem \<Rightarrow> addr \<Rightarrow> addr \<Rightarrow> (mem \<times> addr) option" where
  "stpcpy m dst src = do {
     (m, dst, src) \<leftarrow>
       (if UNALIGNED_X_Y src dst = 0 then copy_str_words m dst src else Some (m, dst, src));
     (m, dst, src) \<leftarrow> copy_str m dst src;
     Some (m, dst - 1) }"

subsection \<open>Bounded copies\<close>

text \<open>
  \<^verbatim>\<open>while (count > 0) { --count; if ((*dst++ = *src++) == 0) break; }\<close>; the last component is \<open>ret\<close>
  of \<open>stpncpy\<close>, the address of the terminator or NULL.
\<close>

fun ncpy_bytes :: "mem \<Rightarrow> addr \<Rightarrow> addr \<Rightarrow> nat \<Rightarrow> (mem \<times> addr \<times> nat \<times> addr) option" where
  "ncpy_bytes m dst src 0 = Some (m, dst, 0, NULL)"
| "ncpy_bytes m dst src (Suc count) = do {
     b \<leftarrow> load8 m src;
     m \<leftarrow> store8 m dst b;
     if b = 0 then Some (m, dst + 1, count, dst) else ncpy_bytes m (dst + 1) (src + 1) count }"

fun ncpy_words :: "mem \<Rightarrow> addr \<Rightarrow> addr \<Rightarrow> nat \<Rightarrow> (mem \<times> addr \<times> addr \<times> nat) option" where
  "ncpy_words m dst src count =
     (if TOO_SMALL_LITTLE_BLOCK count then Some (m, dst, src, count)
      else do {
        w \<leftarrow> load64 m src;
        if DETECT_NULL w \<noteq> 0 then Some (m, dst, src, count)
        else do { m \<leftarrow> store64 m dst w; ncpy_words m (dst + 8) (src + 8) (count - 8) } })"

declare ncpy_words.simps [simp del]

text \<open>\<^verbatim>\<open>while (count-- > 0) *dst++ = 0;\<close>\<close>

fun pad_zeros :: "mem \<Rightarrow> addr \<Rightarrow> nat \<Rightarrow> (mem \<times> addr) option" where
  "pad_zeros m dst 0 = Some (m, dst)"
| "pad_zeros m dst (Suc count) = do { m \<leftarrow> store8 m dst 0; pad_zeros m (dst + 1) count }"

definition strncpy_small :: "mem \<Rightarrow> addr \<Rightarrow> addr \<Rightarrow> nat \<Rightarrow> (mem \<times> addr) option" where
  "strncpy_small m dst0 src0 count = do {
     (m, dst, count, r) \<leftarrow> ncpy_bytes m dst0 src0 count;
     (m, dst) \<leftarrow> pad_zeros m dst count;
     Some (m, dst0) }"

definition strncpy :: "mem \<Rightarrow> addr \<Rightarrow> addr \<Rightarrow> nat \<Rightarrow> (mem \<times> addr) option" where
  "strncpy m dst0 src0 count = do {
     (m, dst, src, count) \<leftarrow>
       (if UNALIGNED_X_Y src0 dst0 = 0 \<and> \<not> TOO_SMALL_LITTLE_BLOCK count
        then ncpy_words m dst0 src0 count else Some (m, dst0, src0, count));
     (m, dst, count, r) \<leftarrow> ncpy_bytes m dst src count;
     (m, dst) \<leftarrow> pad_zeros m dst count;
     Some (m, dst0) }"

definition stpncpy :: "mem \<Rightarrow> addr \<Rightarrow> addr \<Rightarrow> nat \<Rightarrow> (mem \<times> addr) option" where
  "stpncpy m dst src count = do {
     (m, dst, src, count) \<leftarrow>
       (if UNALIGNED_X_Y src dst = 0 \<and> \<not> TOO_SMALL_LITTLE_BLOCK count
        then ncpy_words m dst src count else Some (m, dst, src, count));
     (m, dst, count, ret) \<leftarrow> ncpy_bytes m dst src count;
     (m, dst) \<leftarrow> pad_zeros m dst count;
     Some (m, if ret \<noteq> NULL then ret else dst) }"

text \<open>\<^verbatim>\<open>while (--nleft != 0) { if ((*dst++ = *src++) == 0) break; }\<close>, from \<open>nleft\<close> before the decrement.\<close>

fun lcpy_loop :: "mem \<Rightarrow> addr \<Rightarrow> addr \<Rightarrow> nat \<Rightarrow> (mem \<times> addr \<times> addr \<times> nat) option" where
  "lcpy_loop m dst src 0 = Some (m, dst, src, 0)"
| "lcpy_loop m dst src (Suc nleft) =
     (if nleft = 0 then Some (m, dst, src, 0)
      else do {
        b \<leftarrow> load8 m src;
        m \<leftarrow> store8 m dst b;
        if b = 0 then Some (m, dst + 1, src + 1, nleft) else lcpy_loop m (dst + 1) (src + 1) nleft })"

definition strlcpy :: "mem \<Rightarrow> addr \<Rightarrow> addr \<Rightarrow> nat \<Rightarrow> (mem \<times> nat) option" where
  "strlcpy m dst osrc dsize = do {
     (m, dst, src, nleft) \<leftarrow> (if dsize \<noteq> 0 then lcpy_loop m dst osrc dsize else Some (m, dst, osrc, dsize));
     (m, src) \<leftarrow>
       (if nleft = 0 then do {
          m \<leftarrow> (if dsize \<noteq> 0 then store8 m dst 0 else Some m);
          e \<leftarrow> scan_bytes (\<lambda>b. b = 0) m src;
          Some (m, e + 1) }
        else Some (m, src));
     Some (m, src - osrc - 1) }"

subsection \<open>Concatenation\<close>

text \<open>\<^verbatim>\<open>while (*src) { if (n != 0) { *dst++ = *src; n--; } src++; }\<close>\<close>

partial_function (option) lcat_loop :: "mem \<Rightarrow> addr \<Rightarrow> addr \<Rightarrow> nat \<Rightarrow> (mem \<times> addr \<times> addr) option" where
  "lcat_loop m dst src n = do {
     b \<leftarrow> load8 m src;
     if b = 0 then Some (m, dst, src)
     else if n \<noteq> 0 then do { m \<leftarrow> store8 m dst b; lcat_loop m (dst + 1) (src + 1) (n - 1) }
     else lcat_loop m dst (src + 1) n }"

definition strlcat :: "mem \<Rightarrow> addr \<Rightarrow> addr \<Rightarrow> nat \<Rightarrow> (mem \<times> nat) option" where
  "strlcat m odst osrc dsize = do {
     dst \<leftarrow> strnlen_loop m odst dsize;
     let dlen = dst - odst;
     let n = dsize - dlen;
     if n = 0 then do { k \<leftarrow> strlen m osrc; Some (m, dlen + k) }
     else do {
       (m, dst, src) \<leftarrow> lcat_loop m dst osrc (n - 1);
       m \<leftarrow> store8 m dst 0;
       Some (m, dlen + (src - osrc)) } }"

text \<open>\<^verbatim>\<open>while (UNALIGNED_X(s1) && *s1) s1++;\<close>\<close>

partial_function (option) cat_align :: "mem \<Rightarrow> addr \<Rightarrow> addr option" where
  "cat_align m s1 =
     (if UNALIGNED_X s1 = 0 then Some s1
      else do { b \<leftarrow> load8 m s1; if b = 0 then Some s1 else cat_align m (s1 + 1) })"

text \<open>The part of \<open>strcat\<close> and \<open>strncat\<close> that finds the terminator of the destination.\<close>

definition cat_end :: "mem \<Rightarrow> addr \<Rightarrow> addr option" where
  "cat_end m s1 = do {
     s1 \<leftarrow> cat_align m s1;
     b \<leftarrow> load8 m s1;
     if b \<noteq> 0 then do {
       s1 \<leftarrow> scan_words (\<lambda>w. DETECT_NULL w \<noteq> 0) m s1;
       scan_bytes (\<lambda>b. b = 0) m s1 }
     else Some s1 }"

definition strcat :: "mem \<Rightarrow> addr \<Rightarrow> addr \<Rightarrow> (mem \<times> addr) option" where
  "strcat m s s2 = do { s1 \<leftarrow> cat_end m s; (m, r) \<leftarrow> strcpy m s1 s2; Some (m, s) }"

definition strcat_small :: "mem \<Rightarrow> addr \<Rightarrow> addr \<Rightarrow> (mem \<times> addr) option" where
  "strcat_small m s s2 = do {
     s1 \<leftarrow> scan_bytes (\<lambda>b. b = 0) m s;
     (m, d, e) \<leftarrow> copy_str m s1 s2;
     Some (m, s) }"

text \<open>\<^verbatim>\<open>while (n-- != 0 && (*s1++ = *s2++)) { if (n == 0) *s1 = 0; }\<close>\<close>

fun ncat_loop :: "mem \<Rightarrow> addr \<Rightarrow> addr \<Rightarrow> nat \<Rightarrow> mem option" where
  "ncat_loop m s1 s2 0 = Some m"
| "ncat_loop m s1 s2 (Suc n) = do {
     b \<leftarrow> load8 m s2;
     m \<leftarrow> store8 m s1 b;
     if b = 0 then Some m
     else do {
       m \<leftarrow> (if n = 0 then store8 m (s1 + 1) 0 else Some m);
       ncat_loop m (s1 + 1) (s2 + 1) n } }"

definition strncat :: "mem \<Rightarrow> addr \<Rightarrow> addr \<Rightarrow> nat \<Rightarrow> (mem \<times> addr) option" where
  "strncat m s s2 n = do { s1 \<leftarrow> cat_end m s; m \<leftarrow> ncat_loop m s1 s2 n; Some (m, s) }"

definition strncat_small :: "mem \<Rightarrow> addr \<Rightarrow> addr \<Rightarrow> nat \<Rightarrow> (mem \<times> addr) option" where
  "strncat_small m s s2 n = do {
     s1 \<leftarrow> scan_bytes (\<lambda>b. b = 0) m s;
     m \<leftarrow> ncat_loop m s1 s2 n;
     Some (m, s) }"

subsection \<open>Frame facts\<close>

lemma store8_put: "mapped m d (Suc n) \<Longrightarrow> store8 m d b = Some (put_bytes m d [b])"
  by (auto simp: store8_def mapped_Suc)

declare put_bytes_single [simp del]

lemma store64_put: "mapped m d 8 \<Longrightarrow> d mod 8 = 0 \<Longrightarrow> length W = 8 \<Longrightarrow>
    store64 m d (word_of_bytes W) = Some (put_bytes m d W)"
  by (simp add: store64_eq word_to_bytes_of_bytes)

lemma cstr_put_other:
  "q + length ys < p \<or> p + length xs \<le> q \<Longrightarrow> cstr (put_bytes m p xs) q ys = cstr m q ys"
  using bytes_at_put_other [of q "ys @ [0]" p xs m] by (auto simp: cstr_iff)

lemma mapped_put_rest: "mapped m d (length xs + n) \<Longrightarrow> mapped (put_bytes m d xs) (d + length xs) n"
  by (intro mapped_put_bytes, erule mapped_sub) auto

lemma padded_put [mem_intros]: "padded m e \<Longrightarrow> padded (put_bytes m d xs) e"
  by (simp add: padded_def mapped_put_bytes)

text \<open>The source string does not meet the \<open>n\<close> bytes that may be written.\<close>

definition apart :: "addr \<Rightarrow> nat \<Rightarrow> addr \<Rightarrow> u8 list \<Rightarrow> bool" where
  "apart d n s xs \<longleftrightarrow> d + n \<le> s \<or> s + length xs < d"

lemma apart_step: "apart d (Suc n) s (x # xs) \<Longrightarrow> apart (Suc d) n (Suc s) xs"
  by (auto simp: apart_def)

lemma cstr_step:
  assumes "cstr m s (x # xs)" "apart d (Suc n) s (x # xs)"
  shows "cstr (put_bytes m d [x]) (Suc s) xs"
  using assms cstr_put_other [of "Suc s" xs d "[x]" m] by (auto simp: apart_def)

lemma put_bytes_step: "put_bytes (put_bytes m d [x]) (Suc d) ys = put_bytes m d (x # ys)"
  using put_bytes_append [of m d "[x]" ys] by simp

subsection \<open>Unbounded copies\<close>

lemma copy_str_eq:
  assumes "cstr m s xs" "mapped m d (Suc (length xs))" "apart d (Suc (length xs)) s xs"
  shows "copy_str m d s = Some (put_bytes m d (xs @ [0]), d + length xs + 1, s + length xs + 1)"
  using assms
proof (induction xs arbitrary: m d s)
  case Nil
  then show ?case by (subst copy_str.simps) (simp add: load8_def store8_put)
next
  case (Cons x xs)
  have "mapped (put_bytes m d [x]) (Suc d) (Suc (length xs))"
    using mapped_put_rest [of m d "[x]" "Suc (length xs)"] Cons.prems(2) by simp
  then have "copy_str (put_bytes m d [x]) (Suc d) (Suc s) =
      Some (put_bytes (put_bytes m d [x]) (Suc d) (xs @ [0]), Suc d + length xs + 1, Suc s + length xs + 1)"
    using Cons.prems(1,3) apart_step [of d "Suc (length xs)" s x xs] by (intro Cons.IH cstr_step [of m s]) auto
  then show ?case
    using Cons.prems by (subst copy_str.simps) (simp add: load8_def store8_put put_bytes_step)
qed

text \<open>A word without a NUL lies inside the string.\<close>

lemma word_in_string:
  assumes "xs @ 0 # u = W @ F" "length W = 8" "0 \<notin> set W"
  shows "8 \<le> length xs" "W = take 8 xs"
proof -
  show n: "8 \<le> length xs"
  proof (rule ccontr)
    assume "\<not> 8 \<le> length xs"
    then have "(W @ F) ! length xs \<in> set W" using assms(2) by (simp add: nth_append)
    then show False using assms(3) by (simp add: assms(1) [symmetric] nth_append)
  qed
  have "W = take 8 (xs @ 0 # u)" by (simp add: assms(1,2))
  then show "W = take 8 xs" using n by simp
qed

lemma copy_str_words_prefix:
  assumes "cstr m s xs" "padded m (s + length xs)" "mapped m d (Suc (length xs))"
    "apart d (Suc (length xs)) s xs" "d mod 8 = 0" "s mod 8 = 0"
  shows "\<exists>k \<le> length xs. copy_str_words m d s = Some (put_bytes m d (take k xs), d + k, s + k)"
  using assms
proof (induction xs arbitrary: m d s rule: length_induct)
  case (1 xs)
  obtain u where u: "bytes_at m s (xs @ 0 # u)" "length (xs @ 0 # u) mod 8 = 0" "0 \<in> set (xs @ 0 # u)"
    by (rule cstr_words [OF 1(2,3,7)])
  obtain W F where w: "xs @ 0 # u = W @ F" "length W = 8" "load64 m s = Some (word_of_bytes W)"
    using take_word [OF u(2) _ u(1) 1(7)] by (metis Nil_is_append_conv list.distinct(1))
  show ?case
  proof (cases "0 \<in> set W")
    case True
    then show ?thesis using w null_test.T_iff [OF w(2)]
      by (subst copy_str_words.simps) (auto intro!: exI [of _ 0])
  next
    case False
    then have n: "8 \<le> length xs" and W: "W = take 8 xs" using word_in_string [OF w(1,2)] by simp_all
    define zs m' where "zs = drop 8 xs" and "m' = put_bytes m d W"
    have xs: "xs = W @ zs" "length xs = 8 + length zs" using W n by (auto simp: zs_def)
    have st: "store64 m d (word_of_bytes W) = Some m'"
      unfolding m'_def using w(2) 1(4,6) n by (intro store64_put) (auto elim: mapped_sub)
    have "cstr m (s + 8) zs" using cstr_drop [OF 1(2) n] by (simp add: zs_def)
    then have "cstr m' (s + 8) zs"
      using cstr_put_other [of "s + 8" zs d W m] 1(5) w(2) xs by (auto simp: m'_def apart_def)
    moreover have "mapped m' (d + 8) (Suc (length zs))"
      using mapped_put_rest [of m d W "Suc (length zs)"] 1(4) w(2) xs by (simp add: m'_def)
    moreover have "padded m' (s + 8 + length zs)"
      using 1(3) xs by (simp add: m'_def padded_put add.assoc)
    moreover have "apart (d + 8) (Suc (length zs)) (s + 8) zs"
      using 1(5) xs by (auto simp: apart_def)
    ultimately have "\<exists>k \<le> length zs. copy_str_words m' (d + 8) (s + 8) = Some (put_bytes m' (d + 8) (take k zs), d + 8 + k, s + 8 + k)"
      using 1(1) [rule_format, of zs m' "s + 8" "d + 8"] 1(6,7) xs(2) by simp
    then obtain k where k: "k \<le> length zs" "copy_str_words m' (d + 8) (s + 8)
        = Some (put_bytes m' (d + 8) (take k zs), d + 8 + k, s + 8 + k)" by (elim exE conjE) (rule that)
    have "put_bytes m' (d + 8) (take k zs) = put_bytes m d (take (8 + k) xs)"
      using put_bytes_append [of m d W "take k zs"] w(2) by (simp add: m'_def xs(1))
    moreover have "copy_str_words m d s = copy_str_words m' (d + 8) (s + 8)"
      using w(3) st False null_test.T_iff [OF w(2)] by (subst copy_str_words.simps) simp
    ultimately show ?thesis using k xs(2) by (intro exI [of _ "8 + k"]) (simp add: add.assoc)
  qed
qed

text \<open>A prefix of the source is copied; the state in which the byte loop takes over.\<close>

lemma after_prefix:
  assumes "cstr m s xs" "mapped m d n" "apart d n s xs" "k \<le> length xs" "k \<le> n"
  shows "cstr (put_bytes m d (take k xs)) (s + k) (drop k xs)"
    and "mapped (put_bytes m d (take k xs)) (d + k) (n - k)"
    and "apart (d + k) (n - k) (s + k) (drop k xs)"
  using assms cstr_drop [OF assms(1,4)] cstr_put_other [of "s + k" "drop k xs" d "take k xs" m]
    mapped_put_rest [of m d "take k xs" "n - k"]
  by (auto simp: apart_def)

lemma copy_str_all:
  assumes "cstr m s xs" "padded m (s + length xs)" "mapped m d (Suc (length xs))" "apart d (Suc (length xs)) s xs"
  shows "do { (m, d, s) \<leftarrow> (if UNALIGNED_X_Y s d = 0 then copy_str_words m d s else Some (m, d, s));
      copy_str m d s } = Some (put_bytes m d (xs @ [0]), d + length xs + 1, s + length xs + 1)"
proof -
  have "\<exists>k \<le> length xs. (if UNALIGNED_X_Y s d = 0 then copy_str_words m d s else Some (m, d, s))
      = Some (put_bytes m d (take k xs), d + k, s + k)"
    using copy_str_words_prefix [OF assms] by (auto intro!: exI [of _ 0])
  then obtain k where k: "k \<le> length xs" "(if UNALIGNED_X_Y s d = 0 then copy_str_words m d s else Some (m, d, s))
      = Some (put_bytes m d (take k xs), d + k, s + k)" by (elim exE conjE) (rule that)
  let ?m = "put_bytes m d (take k xs)"
  have "copy_str ?m (d + k) (s + k) = Some (put_bytes ?m (d + k) (drop k xs @ [0]),
      d + k + length (drop k xs) + 1, s + k + length (drop k xs) + 1)"
    using after_prefix [OF assms(1,3,4) k(1)] k(1) by (intro copy_str_eq) (simp_all add: Suc_diff_le)
  moreover have "put_bytes ?m (d + k) (drop k xs @ [0]) = put_bytes m d (xs @ [0])"
    using put_bytes_append [of m d "take k xs" "drop k xs @ [0]"] k(1) by (simp flip: append_assoc)
  ultimately show ?thesis unfolding k(2) using k(1) by simp
qed

lemma strcpy_eq:
  assumes "cstr m s xs" "padded m (s + length xs)" "mapped m d (Suc (length xs))" "apart d (Suc (length xs)) s xs"
  shows "strcpy m d s = Some (put_bytes m d (xs @ [0]), d)"
    and "stpcpy m d s = Some (put_bytes m d (xs @ [0]), d + length xs)"
  using copy_str_all [OF assms] by (auto simp: strcpy_def stpcpy_def bind_Some_iff split: if_splits)

subsection \<open>Bounded copies\<close>

lemma pad_zeros_eq: "mapped m d n \<Longrightarrow> pad_zeros m d n = Some (put_bytes m d (replicate n 0), d + n)"
proof (induction n arbitrary: m d)
  case (Suc n)
  have "mapped (put_bytes m d [0]) (Suc d) n"
    using mapped_put_rest [of m d "[0]" n] Suc.prems by simp
  then show ?case using Suc by (simp add: store8_put put_bytes_step)
qed simp

text \<open>What \<open>strncpy\<close> writes: the string, cut or padded with NULs to the count.\<close>

definition ncpy_list :: "u8 list \<Rightarrow> nat \<Rightarrow> u8 list" where
  "ncpy_list xs n = take n (xs @ replicate n 0)"

lemma length_ncpy_list [simp]: "length (ncpy_list xs n) = n"
  by (simp add: ncpy_list_def)

lemma ncpy_list_Cons [simp]: "ncpy_list (x # xs) (Suc n) = x # ncpy_list xs n"
  by (simp add: ncpy_list_def replicate_append_same [symmetric])

lemma ncpy_list_Nil [simp]: "ncpy_list [] n = replicate n 0"
  by (simp add: ncpy_list_def)

lemma ncpy_list_take: "k \<le> length xs \<Longrightarrow> k \<le> n \<Longrightarrow> take k xs @ ncpy_list (drop k xs) (n - k) = ncpy_list xs n"
proof (induction k arbitrary: xs n)
  case (Suc k)
  then show ?case by (cases xs; cases n) auto
qed simp

lemma ncpy_bytes_pad:
  assumes "cstr m s xs" "mapped m d n" "apart d n s xs" "0 < d"
  shows "do { (m, d, n, r) \<leftarrow> ncpy_bytes m d s n; (m, d) \<leftarrow> pad_zeros m d n; Some (m, d, r) } =
    Some (put_bytes m d (ncpy_list xs n), d + n, if length xs < n then d + length xs else NULL)"
  using assms
proof (induction xs arbitrary: m d s n)
  case Nil
  then show ?case
  proof (cases n)
    case (Suc k)
    have "mapped (put_bytes m d [0]) (Suc d) k" using mapped_put_rest [of m d "[0]" k] Nil Suc by simp
    then show ?thesis using Nil Suc by (simp add: load8_def store8_put pad_zeros_eq put_bytes_step)
  qed (simp add: ncpy_list_def)
next
  case (Cons x xs)
  show ?case
  proof (cases n)
    case 0
    then show ?thesis by (simp add: ncpy_list_def)
  next
    case (Suc k)
    have "mapped (put_bytes m d [x]) (Suc d) k" using mapped_put_rest [of m d "[x]" k] Cons.prems Suc by simp
    moreover have "cstr (put_bytes m d [x]) (Suc s) xs" using Cons.prems Suc by (intro cstr_step [of m s]) auto
    moreover have "apart (Suc d) k (Suc s) xs" using Cons.prems(3) Suc by (auto simp: apart_def)
    ultimately show ?thesis using Cons.IH [of "put_bytes m d [x]" "Suc s" "Suc d" k] Cons.prems Suc
      by (simp add: load8_def store8_put put_bytes_step)
  qed
qed

lemma ncpy_words_prefix:
  assumes "cstr m s xs" "padded m (s + length xs)" "mapped m d n" "apart d n s xs" "d mod 8 = 0" "s mod 8 = 0"
  shows "\<exists>k \<le> length xs. k \<le> n \<and> ncpy_words m d s n = Some (put_bytes m d (take k xs), d + k, s + k, n - k)"
  using assms
proof (induction xs arbitrary: m d s n rule: length_induct)
  case (1 xs)
  obtain u where u: "bytes_at m s (xs @ 0 # u)" "length (xs @ 0 # u) mod 8 = 0" "0 \<in> set (xs @ 0 # u)"
    by (rule cstr_words [OF 1(2,3,7)])
  obtain W F where w: "xs @ 0 # u = W @ F" "length W = 8" "load64 m s = Some (word_of_bytes W)"
    using take_word [OF u(2) _ u(1) 1(7)] by (metis Nil_is_append_conv list.distinct(1))
  show ?case
  proof (cases "0 \<in> set W \<or> n < 8")
    case True
    then show ?thesis using w null_test.T_iff [OF w(2)]
      by (subst ncpy_words.simps) (auto intro!: exI [of _ 0])
  next
    case False
    then have n: "8 \<le> length xs" "W = take 8 xs" using word_in_string [OF w(1,2)] by simp_all
    define zs m' where "zs = drop 8 xs" and "m' = put_bytes m d W"
    have xs: "xs = W @ zs" "length xs = 8 + length zs" using n by (auto simp: zs_def)
    have st: "store64 m d (word_of_bytes W) = Some m'"
      unfolding m'_def using w(2) 1(4,6) False by (intro store64_put) (auto elim: mapped_sub)
    have "take 8 xs = W" "length (take 8 xs) = 8" using n by simp_all
    then have a: "cstr m' (s + 8) zs" "mapped m' (d + 8) (n - 8)" "apart (d + 8) (n - 8) (s + 8) zs"
      using after_prefix [OF 1(2,4,5) n(1)] False by (simp_all add: m'_def zs_def)
    moreover have "padded m' (s + 8 + length zs)" using 1(3) xs by (simp add: m'_def padded_put add.assoc)
    ultimately have "\<exists>k \<le> length zs. k \<le> n - 8 \<and> ncpy_words m' (d + 8) (s + 8) (n - 8)
        = Some (put_bytes m' (d + 8) (take k zs), d + 8 + k, s + 8 + k, n - 8 - k)"
      using 1(1) [rule_format, of zs m' "s + 8" "d + 8" "n - 8"] 1(6,7) xs(2) by simp
    then obtain k where k: "k \<le> length zs" "k \<le> n - 8" "ncpy_words m' (d + 8) (s + 8) (n - 8)
        = Some (put_bytes m' (d + 8) (take k zs), d + 8 + k, s + 8 + k, n - 8 - k)" by (elim exE conjE) (rule that)
    have "put_bytes m' (d + 8) (take k zs) = put_bytes m d (take (8 + k) xs)"
      using put_bytes_append [of m d W "take k zs"] w(2) by (simp add: m'_def xs(1))
    moreover have "ncpy_words m d s n = ncpy_words m' (d + 8) (s + 8) (n - 8)"
      using w(3) st False null_test.T_iff [OF w(2)] by (subst ncpy_words.simps) simp
    moreover have "8 + k \<le> n" using k(2) False by auto
    ultimately show ?thesis using k xs(2) by (intro exI [of _ "8 + k"]) (simp add: add.assoc)
  qed
qed

lemma ncpy_all:
  assumes "cstr m s xs" "padded m (s + length xs)" "mapped m d n" "apart d n s xs" "0 < d"
  shows "do {
     (m, d, s, n) \<leftarrow>
       (if UNALIGNED_X_Y s d = 0 \<and> \<not> TOO_SMALL_LITTLE_BLOCK n then ncpy_words m d s n else Some (m, d, s, n));
     (m, d, n, r) \<leftarrow> ncpy_bytes m d s n;
     (m, d) \<leftarrow> pad_zeros m d n;
     Some (m, d, r) } =
    Some (put_bytes m d (ncpy_list xs n), d + n, if length xs < n then d + length xs else NULL)"
proof -
  have "\<exists>k \<le> length xs. k \<le> n \<and>
      (if UNALIGNED_X_Y s d = 0 \<and> \<not> TOO_SMALL_LITTLE_BLOCK n then ncpy_words m d s n else Some (m, d, s, n))
      = Some (put_bytes m d (take k xs), d + k, s + k, n - k)"
    using ncpy_words_prefix [OF assms(1-4)] by (auto intro!: exI [of _ 0])
  then obtain k where k: "k \<le> length xs" "k \<le> n"
      "(if UNALIGNED_X_Y s d = 0 \<and> \<not> TOO_SMALL_LITTLE_BLOCK n then ncpy_words m d s n else Some (m, d, s, n))
      = Some (put_bytes m d (take k xs), d + k, s + k, n - k)" by (elim exE conjE) (rule that)
  let ?m = "put_bytes m d (take k xs)"
  have "put_bytes ?m (d + k) (ncpy_list (drop k xs) (n - k)) = put_bytes m d (ncpy_list xs n)"
    using put_bytes_append [of m d "take k xs" "ncpy_list (drop k xs) (n - k)"] k ncpy_list_take [OF k(1,2)] by simp
  then show ?thesis unfolding k(3)
    using ncpy_bytes_pad [OF after_prefix [OF assms(1,3,4) k(1,2)]] assms(5) k by auto
qed

lemma strncpy_eq:
  assumes "cstr m s xs" "padded m (s + length xs)" "mapped m d n" "apart d n s xs" "0 < d"
  shows "strncpy m d s n = Some (put_bytes m d (ncpy_list xs n), d)"
    and "stpncpy m d s n = Some (put_bytes m d (ncpy_list xs n), d + min (length xs) n)"
  using ncpy_all [OF assms] assms(5)
  by (auto simp: strncpy_def stpncpy_def bind_Some_iff split: if_splits)

subsection \<open>\<open>strlcpy\<close> and \<open>strlcat\<close>\<close>

lemma lcpy_loop_eq:
  assumes "cstr m s xs" "mapped m d n" "apart d n s xs" "0 < n"
  shows "lcpy_loop m d s n =
    (if length xs < n - 1 then Some (put_bytes m d (xs @ [0]), d + length xs + 1, s + length xs + 1, n - 1 - length xs)
     else Some (put_bytes m d (take (n - 1) xs), d + (n - 1), s + (n - 1), 0))"
  using assms
proof (induction xs arbitrary: m d s n)
  case Nil
  then show ?case by (cases n) (auto simp: load8_def store8_put)
next
  case (Cons x xs)
  obtain k where n: "n = Suc k" using Cons.prems(4) by (cases n) auto
  show ?case
  proof (cases "k = 0")
    case False
    have "mapped (put_bytes m d [x]) (Suc d) k" using mapped_put_rest [of m d "[x]" k] Cons.prems n by simp
    moreover have "cstr (put_bytes m d [x]) (Suc s) xs" using Cons.prems n by (intro cstr_step [of m s]) auto
    moreover have "apart (Suc d) k (Suc s) xs" using Cons.prems(3) n by (auto simp: apart_def)
    moreover have "take k (x # xs) = x # take (k - 1) xs" using False by (cases k) auto
    ultimately show ?thesis using Cons.IH [of "put_bytes m d [x]" "Suc s" "Suc d" k] Cons.prems n False
      by (auto simp: load8_def store8_put put_bytes_step)
  qed (simp add: n)
qed

lemma strlcpy_eq:
  assumes "cstr m s xs" "mapped m d n" "apart d n s xs"
  shows "strlcpy m d s n = Some (if n = 0 then m else put_bytes m d (take (n - 1) xs @ [0]), length xs)"
proof (cases "n = 0")
  case True
  then show ?thesis using strlen_small_eq [OF assms(1)] scan_bytes_eq [of m s xs 0 "\<lambda>b. b = 0"] cstr_bytes [OF assms(1)]
    by (simp add: strlcpy_def)
next
  case n: False
  show ?thesis
  proof (cases "length xs < n - 1")
    case True
    then show ?thesis using lcpy_loop_eq [OF assms] n by (auto simp: strlcpy_def)
  next
    case False
    define k where "k = n - 1"
    have n': "n = Suc k" "n - k = Suc 0" "k \<le> length xs" using n False by (auto simp: k_def)
    let ?m = "put_bytes m d (take k xs)"
    have a: "cstr ?m (s + k) (drop k xs)" "mapped ?m (d + k) (Suc 0)" "apart (d + k) (Suc 0) (s + k) (drop k xs)"
      using after_prefix [OF assms n'(3)] n' by simp_all
    have e: "put_bytes ?m (d + k) [0] = put_bytes m d (take k xs @ [0])"
      using put_bytes_append [of m d "take k xs" "[0]"] n'(3) by simp
    have "cstr (put_bytes ?m (d + k) [0]) (s + k) (drop k xs)"
      using a(1,3) cstr_put_other [of "s + k" "drop k xs" "d + k" "[0]" ?m] by (auto simp: apart_def)
    from scan_bytes_eq [of _ _ "drop k xs" 0 "\<lambda>b. b = 0"] cstr_bytes [OF this]
    have "scan_bytes (\<lambda>b. b = 0) (put_bytes m d (take k xs @ [0])) (s + k) = Some (s + length xs)"
      using n'(3) by (simp add: e)
    moreover have "store8 ?m (d + k) 0 = Some (put_bytes m d (take k xs @ [0]))"
      using store8_put [OF a(2)] by (simp add: e)
    ultimately show ?thesis using lcpy_loop_eq [OF assms] n' unfolding strlcpy_def by simp
  qed
qed

lemma lcat_loop_eq:
  assumes "cstr m s xs" "mapped m d n" "apart d n s xs"
  shows "lcat_loop m d s n = Some (put_bytes m d (take n xs), d + min n (length xs), s + length xs)"
  using assms
proof (induction xs arbitrary: m d s n)
  case Nil
  then show ?case by (subst lcat_loop.simps) (simp add: load8_def)
next
  case (Cons x xs)
  show ?case
  proof (cases n)
    case 0
    have "lcat_loop m d (Suc s) 0 = Some (put_bytes m d (take 0 xs), d + min 0 (length xs), Suc s + length xs)"
      using Cons.prems 0 by (intro Cons.IH) (auto simp: apart_def)
    then show ?thesis using 0 Cons.prems by (subst lcat_loop.simps) (simp add: load8_def)
  next
    case (Suc k)
    have "mapped (put_bytes m d [x]) (Suc d) k" using mapped_put_rest [of m d "[x]" k] Cons.prems Suc by simp
    moreover have "cstr (put_bytes m d [x]) (Suc s) xs" using Cons.prems Suc by (intro cstr_step [of m s]) auto
    moreover have "apart (Suc d) k (Suc s) xs" using Cons.prems(3) Suc by (auto simp: apart_def)
    ultimately show ?thesis using Cons.IH [of "put_bytes m d [x]" "Suc s" "Suc d" k] Cons.prems Suc
      by (subst lcat_loop.simps) (simp add: load8_def store8_put put_bytes_step)
  qed
qed

lemma strlcat_eq:
  assumes "cstr m d ys" "cstr m s xs" "padded m (s + length xs)" "mapped m d n" "apart d n s xs"
  shows "strlcat m d s n = Some
    (if n \<le> length ys then (m, n + length xs)
     else (put_bytes m (d + length ys) (take (n - length ys - 1) xs @ [0]), length ys + length xs))"
proof (cases "n \<le> length ys")
  case True
  then show ?thesis using strnlen_loop_eq [OF assms(1), of n] strlen_eq [OF assms(2,3)]
    by (simp add: strlcat_def min_def)
next
  case False
  define k where "k = n - length ys - 1"
  have k: "n = length ys + Suc k" using False by (simp add: k_def)
  let ?d = "d + length ys"
  have mp: "mapped m ?d k" "mapped m ?d (Suc k)" using mapped_sub [OF assms(4)] k by auto
  have lp: "lcat_loop m ?d s k = Some (put_bytes m ?d (take k xs), ?d + min k (length xs), s + length xs)"
    using assms(2,5) mp(1) k by (intro lcat_loop_eq) (auto simp: apart_def)
  have "mapped (put_bytes m ?d (take k xs)) (?d + min k (length xs)) (Suc 0)"
    by (intro mapped_put_bytes mapped_sub [OF mp(2)]) auto
  then have "store8 (put_bytes m ?d (take k xs)) (?d + min k (length xs)) 0
      = Some (put_bytes (put_bytes m ?d (take k xs)) (?d + min k (length xs)) [0])" by (rule store8_put)
  then show ?thesis
    using strnlen_loop_eq [OF assms(1), of n] lp put_bytes_append [of m ?d "take k xs" "[0]"] k
    by (simp add: strlcat_def Let_def min.commute)
qed

subsection \<open>\<open>strcat\<close> and \<open>strncat\<close>\<close>

lemma cat_align_eq:
  assumes "cstr m p ys"
  shows "\<exists>k \<le> length ys. cat_align m p = Some (p + k) \<and> ((p + k) mod 8 = 0 \<or> k = length ys)"
  using assms
proof (induction ys arbitrary: p)
  case Nil
  then show ?case by (subst cat_align.simps) (simp add: load8_def)
next
  case (Cons y ys)
  show ?case
  proof (cases "p mod 8 = 0")
    case True
    then show ?thesis by (subst cat_align.simps) (auto intro!: exI [of _ 0])
  next
    case False
    have e: "cat_align m p = cat_align m (Suc p)"
      using Cons.prems False by (subst cat_align.simps) (simp add: load8_def)
    have "cstr m (Suc p) ys" using Cons.prems by simp
    then obtain k where "k \<le> length ys" "cat_align m (Suc p) = Some (Suc p + k)" "(Suc p + k) mod 8 = 0 \<or> k = length ys"
      by (elim Cons.IH [THEN exE] conjE) (rule that)
    then show ?thesis unfolding e by (intro exI [of _ "Suc k"]) simp
  qed
qed

lemma cat_end_eq:
  assumes "cstr m p ys" "padded m (p + length ys)"
  shows "cat_end m p = Some (p + length ys)"
proof -
  obtain k where k: "k \<le> length ys" "cat_align m p = Some (p + k)" "(p + k) mod 8 = 0 \<or> k = length ys"
    using cat_align_eq [OF assms(1)] by (elim exE conjE) (rule that)
  have c: "cstr m (p + k) (drop k ys)" by (rule cstr_drop [OF assms(1) k(1)])
  show ?thesis
  proof (cases "drop k ys")
    case Nil
    then show ?thesis using c k by (simp add: cat_end_def load8_def)
  next
    case (Cons z zs)
    then have "(p + k) mod 8 = 0" using k(1,3) by auto
    moreover have "p + k + length (drop k ys) = p + length ys" using k(1) by simp
    ultimately have "do { s \<leftarrow> scan_words (\<lambda>w. DETECT_NULL w \<noteq> 0) m (p + k); scan_bytes (\<lambda>b. b = 0) m s } = Some (p + length ys)"
      using null_test.scan_words_ok [of "p + k" m "drop k ys" 0] cstr_bytes [OF c] assms(2) by simp
    then show ?thesis using k(2) c Cons by (simp add: cat_end_def load8_def)
  qed
qed

lemma ncat_loop_eq:
  assumes "cstr m s xs" "mapped m d (Suc (min n (length xs)))" "apart d (Suc (min n (length xs))) s xs" "0 < n"
  shows "ncat_loop m d s n = Some (put_bytes m d (take n xs @ [0]))"
  using assms
proof (induction xs arbitrary: m d s n)
  case Nil
  then show ?case by (cases n) (auto simp: load8_def store8_put)
next
  case (Cons x xs)
  obtain k where n: "n = Suc k" using Cons.prems(4) by (cases n) auto
  let ?m = "put_bytes m d [x]"
  have m: "mapped ?m (Suc d) (Suc (min k (length xs)))"
    using mapped_put_rest [of m d "[x]" "Suc (min k (length xs))"] Cons.prems(2) n by simp
  show ?case
  proof (cases "k = 0")
    case True
    then show ?thesis using Cons.prems n m store8_put [OF m]
      by (simp add: load8_def store8_put put_bytes_step)
  next
    case False
    have "cstr ?m (Suc s) xs" using Cons.prems n by (intro cstr_step [of m s]) auto
    moreover have "apart (Suc d) (Suc (min k (length xs))) (Suc s) xs"
      using Cons.prems(3) n by (auto simp: apart_def)
    ultimately show ?thesis using Cons.IH [of ?m "Suc s" "Suc d" k] Cons.prems n False m
      by (simp add: load8_def store8_put put_bytes_step)
  qed
qed

subsection \<open>Properties\<close>

text \<open>
  \<open>strcpy\<close> and \<open>stpcpy\<close> copy a string with its terminator to a destination apart from it and
  return the destination and the address of the copied terminator; the small build agrees.
\<close>

theorem strcpy_correct:
  assumes "cstr m s xs" and "padded m (s + length xs)" and "mapped m d (Suc (length xs))"
    and "apart d (Suc (length xs)) s xs"
  shows "strcpy m d s = Some (put_bytes m d (xs @ [0]), d)
    \<and> strcpy_small m d s = strcpy m d s
    \<and> stpcpy m d s = Some (put_bytes m d (xs @ [0]), d + length xs)"
  using strcpy_eq [OF assms] copy_str_eq [OF assms(1,3,4)] by (simp add: strcpy_small_def)

theorem strcpy_correct_witness:
  "strcpy (put_bytes (\<lambda>_. None) 8 [65, 66, 0, 1, 2, 3, 4, 5, 9, 9, 9]) 16 8
    = Some (put_bytes (put_bytes (\<lambda>_. None) 8 [65, 66, 0, 1, 2, 3, 4, 5, 9, 9, 9]) 16 [65, 66, 0], 16)"
  using strcpy_correct [of "put_bytes (\<lambda>_. None) 8 [65, 66, 0, 1, 2, 3, 4, 5, 9, 9, 9]" 8 "[65, 66]" 16]
  by (simp add: put_bytes_apply padded_def mapped_put_inside apart_def)

text \<open>
  \<open>strncpy\<close> writes exactly \<open>n\<close> bytes, the string cut at \<open>n\<close> or padded with NULs, and \<open>stpncpy\<close>
  returns the end of the copied characters.
\<close>

theorem strncpy_correct:
  assumes "cstr m s xs" and "padded m (s + length xs)" and "mapped m d n" and "apart d n s xs" and "0 < d"
  shows "strncpy m d s n = Some (put_bytes m d (take n (xs @ replicate n 0)), d)
    \<and> stpncpy m d s n = Some (put_bytes m d (take n (xs @ replicate n 0)), d + min (length xs) n)"
  using strncpy_eq [OF assms] by (simp add: ncpy_list_def)

theorem strncpy_correct_witness:
  "stpncpy (put_bytes (\<lambda>_. None) 8 [65, 66, 0, 1, 2, 3, 4, 5, 9, 9, 9, 9]) 16 8 4
    = Some (put_bytes (put_bytes (\<lambda>_. None) 8 [65, 66, 0, 1, 2, 3, 4, 5, 9, 9, 9, 9]) 16 [65, 66, 0, 0], 18)"
proof -
  have "replicate 4 (0 :: u8) = [0, 0, 0, 0]" by (simp add: eval_nat_numeral)
  then show ?thesis
    using strncpy_correct [of "put_bytes (\<lambda>_. None) 8 [65, 66, 0, 1, 2, 3, 4, 5, 9, 9, 9, 9]" 8 "[65, 66]" 16 4]
    by (simp add: put_bytes_apply padded_def mapped_put_inside apart_def)
qed

text \<open>
  C16: \<open>strlcpy\<close> and \<open>strlcat\<close> never write beyond the given size, terminate the destination
  whenever it has room for a terminator, and return the length of the string they tried to
  create, so that a result not below the size tells of truncation.
\<close>

theorem strlcpy_correct:
  assumes "cstr m s xs" and "padded m (s + length xs)" and "mapped m d n" and "apart d n s xs" and "cstr m d ys"
  shows "strlcpy m d s n = Some (if n = 0 then m else put_bytes m d (take (n - 1) xs @ [0]), length xs)
    \<and> strlcat m d s n = Some
      (if n \<le> length ys then (m, n + length xs)
       else (put_bytes m (d + length ys) (take (n - length ys - 1) xs @ [0]), length ys + length xs))"
  using strlcpy_eq [OF assms(1,3,4)] strlcat_eq [OF assms(5,1,2,3,4)] by simp

theorem strlcpy_correct_witness:
  "strlcat (put_bytes (\<lambda>_. None) 8 [65, 66, 0, 1, 2, 3, 4, 5, 67, 0, 9, 9]) 16 8 3
    = Some (put_bytes (put_bytes (\<lambda>_. None) 8 [65, 66, 0, 1, 2, 3, 4, 5, 67, 0, 9, 9]) 17 [65, 0], 3)"
  using strlcpy_correct [of "put_bytes (\<lambda>_. None) 8 [65, 66, 0, 1, 2, 3, 4, 5, 67, 0, 9, 9]" 8 "[65, 66]" 16 3 "[67]"]
  by (simp add: put_bytes_apply padded_def mapped_put_inside apart_def)

text \<open>
  \<open>strcat\<close> and \<open>strncat\<close> append the source, or at most its first \<open>n\<close> bytes, to the destination
  string and terminate it.
\<close>

theorem strcat_correct:
  assumes "cstr m d ys" and "padded m (d + length ys)" and "cstr m s xs" and "padded m (s + length xs)"
    and "mapped m (d + length ys) (Suc (length xs))" and "apart (d + length ys) (Suc (length xs)) s xs"
  shows "strcat m d s = Some (put_bytes m (d + length ys) (xs @ [0]), d)
    \<and> (0 < n \<longrightarrow> strncat m d s n = Some (put_bytes m (d + length ys) (take n xs @ [0]), d))"
proof (intro conjI impI)
  show "strcat m d s = Some (put_bytes m (d + length ys) (xs @ [0]), d)"
    using cat_end_eq [OF assms(1,2)] strcpy_eq [OF assms(3-6)] by (simp add: strcat_def)
next
  assume n: "0 < n"
  have "ncat_loop m (d + length ys) s n = Some (put_bytes m (d + length ys) (take n xs @ [0]))"
    using assms(6) n by (intro ncat_loop_eq assms(3) mapped_sub [OF assms(5)]) (auto simp: apart_def)
  then show "strncat m d s n = Some (put_bytes m (d + length ys) (take n xs @ [0]), d)"
    using cat_end_eq [OF assms(1,2)] by (simp add: strncat_def)
qed

theorem strcat_correct_witness:
  "strncat (put_bytes (\<lambda>_. None) 8 [65, 66, 0, 1, 2, 3, 4, 5, 67, 0, 9, 9, 9, 9, 9, 9]) 16 8 1
    = Some (put_bytes (put_bytes (\<lambda>_. None) 8 [65, 66, 0, 1, 2, 3, 4, 5, 67, 0, 9, 9, 9, 9, 9, 9]) 17 [65, 0], 16)"
  using strcat_correct [of "put_bytes (\<lambda>_. None) 8 [65, 66, 0, 1, 2, 3, 4, 5, 67, 0, 9, 9, 9, 9, 9, 9]" 16 "[67]" 8 "[65, 66]" 1]
  by (simp add: put_bytes_apply padded_def mapped_put_inside apart_def)

end
