(* ===== verification/XdrMem.thy ===== *)
theory XdrMem
  imports MemCopy
begin

text \<open>
  The XDR streams of \<open>libc/xdr\<close> over a memory buffer (\<open>xdr_mem.c\<close>) and the interface the
  filters of \<open>xdr.c\<close> rely on. The C handle points to a table of operations; here the handle
  is a record, the table is another record (\<open>xdr_ops\<close>), and the filters take both. The 32-bit
  counter \<open>x_handy\<close> is a natural number that every operation keeps below \<open>2 ^ 32\<close>.
\<close>

subsection \<open>Handles and operation tables\<close>

datatype xdr_op = XDR_ENCODE | XDR_DECODE | XDR_FREE

record XDR =
  x_op :: xdr_op
  x_private :: addr
  x_base :: addr
  x_handy :: nat

text \<open>
  A read returns the value, or \<open>None\<close> for FALSE; a write returns the boolean the C function
  returns. All of them may fault, which is the outer \<open>option\<close>.
\<close>

record xdr_ops =
  x_getlong :: "XDR \<Rightarrow> mem \<Rightarrow> (u64 option \<times> XDR) option"
  x_putlong :: "XDR \<Rightarrow> mem \<Rightarrow> u64 \<Rightarrow> (bool \<times> XDR \<times> mem) option"
  x_getbytes :: "XDR \<Rightarrow> mem \<Rightarrow> addr \<Rightarrow> nat \<Rightarrow> (bool \<times> XDR \<times> mem) option"
  x_putbytes :: "XDR \<Rightarrow> mem \<Rightarrow> addr \<Rightarrow> nat \<Rightarrow> (bool \<times> XDR \<times> mem) option"
  x_getpostn :: "XDR \<Rightarrow> nat"
  x_setpostn :: "XDR \<Rightarrow> nat \<Rightarrow> bool \<times> XDR"
  x_inline :: "XDR \<Rightarrow> nat \<Rightarrow> addr \<times> XDR"
  x_getint32 :: "XDR \<Rightarrow> mem \<Rightarrow> (u32 option \<times> XDR) option"
  x_putint32 :: "XDR \<Rightarrow> mem \<Rightarrow> u32 \<Rightarrow> (bool \<times> XDR \<times> mem) option"

subsection \<open>Byte order\<close>

definition xdr_ntohl :: "u32 \<Rightarrow> u32" where
  "xdr_ntohl x =
     (let s = word_to_bytes 4 x
      in push_bit 24 (ucast (s ! 0)) OR push_bit 16 (ucast (s ! 1)) OR push_bit 8 (ucast (s ! 2)) OR ucast (s ! 3))"

abbreviation (input) xdr_htonl :: "u32 \<Rightarrow> u32" where "xdr_htonl x \<equiv> xdr_ntohl x"

subsection \<open>The memory stream\<close>

definition xdr_take :: "XDR \<Rightarrow> nat \<Rightarrow> XDR" where
  "xdr_take x n = x\<lparr>x_private := x_private x + n, x_handy := x_handy x - n\<rparr>"

definition xdrmem_getlong_aligned :: "XDR \<Rightarrow> mem \<Rightarrow> (u64 option \<times> XDR) option" where
  "xdrmem_getlong_aligned xdrs m =
     (if x_handy xdrs < 4 then Some (None, xdrs)
      else do { w \<leftarrow> load32 m (x_private xdrs); Some (Some (scast (xdr_ntohl w)), xdr_take xdrs 4) })"

definition xdrmem_putlong_aligned :: "XDR \<Rightarrow> mem \<Rightarrow> u64 \<Rightarrow> (bool \<times> XDR \<times> mem) option" where
  "xdrmem_putlong_aligned xdrs m l =
     (if x_handy xdrs < 4 then Some (False, xdrs, m)
      else do { m \<leftarrow> store32 m (x_private xdrs) (xdr_htonl (ucast l)); Some (True, xdr_take xdrs 4, m) })"

text \<open>The unaligned operations move the four bytes to or from a local \<open>u_int32_t\<close>.\<close>

definition xdrmem_getlong_unaligned :: "XDR \<Rightarrow> mem \<Rightarrow> (u64 option \<times> XDR) option" where
  "xdrmem_getlong_unaligned xdrs m =
     (if x_handy xdrs < 4 then Some (None, xdrs)
      else do {
        bs \<leftarrow> load_bytes m (x_private xdrs) 4;
        Some (Some (ucast (xdr_ntohl (word_of_bytes bs))), xdr_take xdrs 4) })"

definition xdrmem_putlong_unaligned :: "XDR \<Rightarrow> mem \<Rightarrow> u64 \<Rightarrow> (bool \<times> XDR \<times> mem) option" where
  "xdrmem_putlong_unaligned xdrs m l =
     (if x_handy xdrs < 4 then Some (False, xdrs, m)
      else do {
        m \<leftarrow> store_bytes m (x_private xdrs) (word_to_bytes 4 (xdr_htonl (ucast l)));
        Some (True, xdr_take xdrs 4, m) })"

definition xdrmem_getbytes :: "XDR \<Rightarrow> mem \<Rightarrow> addr \<Rightarrow> nat \<Rightarrow> (bool \<times> XDR \<times> mem) option" where
  "xdrmem_getbytes xdrs m a len =
     (if x_handy xdrs < len then Some (False, xdrs, m)
      else do { (m, r) \<leftarrow> memmove m a (x_private xdrs) len; Some (True, xdr_take xdrs len, m) })"

definition xdrmem_putbytes :: "XDR \<Rightarrow> mem \<Rightarrow> addr \<Rightarrow> nat \<Rightarrow> (bool \<times> XDR \<times> mem) option" where
  "xdrmem_putbytes xdrs m a len =
     (if x_handy xdrs < len then Some (False, xdrs, m)
      else do { (m, r) \<leftarrow> memmove m (x_private xdrs) a len; Some (True, xdr_take xdrs len, m) })"

definition xdrmem_getpos :: "XDR \<Rightarrow> nat" where
  "xdrmem_getpos xdrs = (x_private xdrs - x_base xdrs) mod 2 ^ 32"

text \<open>
  The checks of the code: the new position is not beyond the end, not before the base, and the
  number of bytes left still fits 32 bits.
\<close>

definition xdrmem_setpos :: "XDR \<Rightarrow> nat \<Rightarrow> bool \<times> XDR" where
  "xdrmem_setpos xdrs pos =
     (let newaddr = x_base xdrs + pos;
          lastaddr = x_private xdrs + x_handy xdrs;
          handy = lastaddr - newaddr
      in if newaddr > lastaddr \<or> newaddr < x_base xdrs \<or> handy \<noteq> handy mod 2 ^ 32 then (False, xdrs)
         else (True, xdrs\<lparr>x_private := newaddr, x_handy := handy mod 2 ^ 32\<rparr>))"

definition xdrmem_inline_aligned :: "XDR \<Rightarrow> nat \<Rightarrow> addr \<times> XDR" where
  "xdrmem_inline_aligned xdrs len =
     (if x_handy xdrs \<ge> len then (x_private xdrs, xdr_take xdrs len) else (NULL, xdrs))"

definition xdrmem_inline_unaligned :: "XDR \<Rightarrow> nat \<Rightarrow> addr \<times> XDR" where
  "xdrmem_inline_unaligned xdrs len = (NULL, xdrs)"

definition xdrmem_getint32_aligned :: "XDR \<Rightarrow> mem \<Rightarrow> (u32 option \<times> XDR) option" where
  "xdrmem_getint32_aligned xdrs m =
     (if x_handy xdrs < 4 then Some (None, xdrs)
      else do { w \<leftarrow> load32 m (x_private xdrs); Some (Some (xdr_ntohl w), xdr_take xdrs 4) })"

definition xdrmem_putint32_aligned :: "XDR \<Rightarrow> mem \<Rightarrow> u32 \<Rightarrow> (bool \<times> XDR \<times> mem) option" where
  "xdrmem_putint32_aligned xdrs m i =
     (if x_handy xdrs < 4 then Some (False, xdrs, m)
      else do { m \<leftarrow> store32 m (x_private xdrs) (xdr_htonl i); Some (True, xdr_take xdrs 4, m) })"

definition xdrmem_getint32_unaligned :: "XDR \<Rightarrow> mem \<Rightarrow> (u32 option \<times> XDR) option" where
  "xdrmem_getint32_unaligned xdrs m =
     (if x_handy xdrs < 4 then Some (None, xdrs)
      else do {
        bs \<leftarrow> load_bytes m (x_private xdrs) 4;
        Some (Some (xdr_ntohl (word_of_bytes bs)), xdr_take xdrs 4) })"

definition xdrmem_putint32_unaligned :: "XDR \<Rightarrow> mem \<Rightarrow> u32 \<Rightarrow> (bool \<times> XDR \<times> mem) option" where
  "xdrmem_putint32_unaligned xdrs m i =
     (if x_handy xdrs < 4 then Some (False, xdrs, m)
      else do {
        m \<leftarrow> store_bytes m (x_private xdrs) (word_to_bytes 4 (xdr_htonl i));
        Some (True, xdr_take xdrs 4, m) })"

definition xdrmem_ops_aligned :: xdr_ops where
  "xdrmem_ops_aligned = \<lparr>
     x_getlong = xdrmem_getlong_aligned, x_putlong = xdrmem_putlong_aligned,
     x_getbytes = xdrmem_getbytes, x_putbytes = xdrmem_putbytes,
     x_getpostn = xdrmem_getpos, x_setpostn = xdrmem_setpos, x_inline = xdrmem_inline_aligned,
     x_getint32 = xdrmem_getint32_aligned, x_putint32 = xdrmem_putint32_aligned\<rparr>"

definition xdrmem_ops_unaligned :: xdr_ops where
  "xdrmem_ops_unaligned = \<lparr>
     x_getlong = xdrmem_getlong_unaligned, x_putlong = xdrmem_putlong_unaligned,
     x_getbytes = xdrmem_getbytes, x_putbytes = xdrmem_putbytes,
     x_getpostn = xdrmem_getpos, x_setpostn = xdrmem_setpos, x_inline = xdrmem_inline_unaligned,
     x_getint32 = xdrmem_getint32_unaligned, x_putint32 = xdrmem_putint32_unaligned\<rparr>"

definition xdrmem_create :: "addr \<Rightarrow> nat \<Rightarrow> xdr_op \<Rightarrow> XDR \<times> xdr_ops" where
  "xdrmem_create a sz op =
     (\<lparr>x_op = op, x_private = a, x_base = a, x_handy = sz\<rparr>,
      if a mod 4 \<noteq> 0 then xdrmem_ops_unaligned else xdrmem_ops_aligned)"

subsection \<open>Byte order facts\<close>

text \<open>The external form of a 32-bit unit: most significant byte first.\<close>

definition be32 :: "u32 \<Rightarrow> u8 list" where
  "be32 w = rev (word_to_bytes 4 w)"

lemma length_be32 [simp]: "length (be32 w) = 4"
  by (simp add: be32_def)

lemma list4: "length bs = 4 \<Longrightarrow> \<exists>a b c d. bs = [a, b, c, d]"
  by (auto simp: numeral_eq_Suc length_Suc_conv)

lemma xdr_ntohl_bytes:
  assumes "length bs = 4"
  shows "xdr_ntohl (word_of_bytes bs) = word_of_bytes (rev bs)"
proof -
  obtain a b c d where bs: "bs = [a, b, c, d]" using list4 [OF assms] by blast
  have "word_to_bytes 4 (word_of_bytes bs :: u32) = bs" using assms by (simp add: word_to_bytes_of_bytes)
  then show ?thesis
    by (simp add: xdr_ntohl_def Let_def bs word_of_bytes_Cons push_bit_or or.assoc)
qed

lemma htonl_be32: "word_to_bytes 4 (xdr_htonl w) = be32 w"
proof -
  have "xdr_ntohl w = word_of_bytes (be32 w)"
    using xdr_ntohl_bytes [of "word_to_bytes 4 w"] by (simp add: word_of_to_bytes be32_def)
  then show ?thesis by (simp add: word_to_bytes_of_bytes)
qed

lemma ntohl_be32: "xdr_ntohl (word_of_bytes (be32 w)) = w"
  using xdr_ntohl_bytes [of "be32 w"] by (simp add: be32_def word_of_to_bytes)

lemma be32_inject: "be32 v = be32 w \<longleftrightarrow> v = w"
  using ntohl_be32 by metis

lemma load_be32: "bytes_at m p (be32 w) \<Longrightarrow> load_bytes m p 4 = Some (be32 w)"
  using load_bytes_at [of m p "be32 w"] by simp

lemma bytes_be32:
  assumes "length bs = 4"
  obtains w where "bs = be32 w"
proof
  show "bs = be32 (word_of_bytes (rev bs))" using assms by (simp add: be32_def word_to_bytes_of_bytes)
qed

subsection \<open>Interface of a stream\<close>

text \<open>
  What the filters rely on. On addresses the stream supports (\<open>al\<close>), a write of a unit with
  room left stores its external form and advances; without room it returns FALSE and changes
  nothing. A read returns the unit stored there; \<open>ext\<close> is how the stream widens a unit to a \<open>long\<close>,
  of which only the low half is promised.
\<close>

locale xdr_stream =
  fixes ops :: xdr_ops and al :: "addr \<Rightarrow> bool" and ext :: "u32 \<Rightarrow> u64"
  assumes ext_low: "ucast (ext w) = w"
    and al_step: "al p \<Longrightarrow> al (p + 4)"
    and putlong_full: "x_handy x < 4 \<Longrightarrow> x_putlong ops x m l = Some (False, x, m)"
    and putlong: "4 \<le> x_handy x \<Longrightarrow> al (x_private x) \<Longrightarrow> mapped m (x_private x) 4 \<Longrightarrow>
      x_putlong ops x m l = Some (True, xdr_take x 4, put_bytes m (x_private x) (be32 (ucast l)))"
    and putint32_full: "x_handy x < 4 \<Longrightarrow> x_putint32 ops x m i = Some (False, x, m)"
    and putint32: "4 \<le> x_handy x \<Longrightarrow> al (x_private x) \<Longrightarrow> mapped m (x_private x) 4 \<Longrightarrow>
      x_putint32 ops x m i = Some (True, xdr_take x 4, put_bytes m (x_private x) (be32 i))"
    and getlong_short: "x_handy x < 4 \<Longrightarrow> x_getlong ops x m = Some (None, x)"
    and getlong: "4 \<le> x_handy x \<Longrightarrow> al (x_private x) \<Longrightarrow> bytes_at m (x_private x) (be32 w) \<Longrightarrow>
      x_getlong ops x m = Some (Some (ext w), xdr_take x 4)"
    and getint32_short: "x_handy x < 4 \<Longrightarrow> x_getint32 ops x m = Some (None, x)"
    and getint32: "4 \<le> x_handy x \<Longrightarrow> al (x_private x) \<Longrightarrow> bytes_at m (x_private x) (be32 w) \<Longrightarrow>
      x_getint32 ops x m = Some (Some w, xdr_take x 4)"
    and getbytes_short: "x_handy x < n \<Longrightarrow> x_getbytes ops x m a n = Some (False, x, m)"
    and getbytes: "length bs \<le> x_handy x \<Longrightarrow> bytes_at m (x_private x) bs \<Longrightarrow> mapped m a (length bs) \<Longrightarrow>
      x_getbytes ops x m a (length bs) = Some (True, xdr_take x (length bs), put_bytes m a bs)"
    and putbytes_full: "x_handy x < n \<Longrightarrow> x_putbytes ops x m a n = Some (False, x, m)"
    and putbytes: "length bs \<le> x_handy x \<Longrightarrow> bytes_at m a bs \<Longrightarrow> mapped m (x_private x) (length bs) \<Longrightarrow>
      x_putbytes ops x m a (length bs) = Some (True, xdr_take x (length bs), put_bytes m (x_private x) bs)"

lemma memmove_put:
  "bytes_at m s bs \<Longrightarrow> mapped m d (length bs) \<Longrightarrow> memmove m d s (length bs) = Some (put_bytes m d bs, d)"
  using memmove_blit [of m d "length bs" s] put_bytes_blit [of m s bs] bytes_at_mapped [of m s bs] by simp

lemma store32_be32:
  "p mod 4 = 0 \<Longrightarrow> mapped m p 4 \<Longrightarrow> store32 m p (xdr_htonl w) = Some (put_bytes m p (be32 w))"
  by (simp add: store32_eq htonl_be32)

lemma store_bytes_be32: "mapped m p 4 \<Longrightarrow> store_bytes m p (be32 w) = Some (put_bytes m p (be32 w))"
  by (simp add: store_bytes_eq)

lemma load32_be32: "p mod 4 = 0 \<Longrightarrow> bytes_at m p (be32 w) \<Longrightarrow> load32 m p = Some (word_of_bytes (be32 w))"
  by (simp add: load32_at)

lemmas xdrmem_defs =
  xdrmem_getlong_aligned_def xdrmem_putlong_aligned_def xdrmem_getlong_unaligned_def
  xdrmem_putlong_unaligned_def xdrmem_getbytes_def xdrmem_putbytes_def xdrmem_getint32_aligned_def
  xdrmem_putint32_aligned_def xdrmem_getint32_unaligned_def xdrmem_putint32_unaligned_def

lemma scast_low: "ucast (scast (w :: u32) :: u64) = w"
  by (rule bit_word_eqI) (auto simp: bit_simps)

lemma ucast_low: "ucast (ucast (w :: u32) :: u64) = w"
  by (rule bit_word_eqI) (auto simp: bit_simps)

interpretation aligned: xdr_stream xdrmem_ops_aligned "\<lambda>p. p mod 4 = 0" scast
  by unfold_locales
    (auto simp: xdrmem_ops_aligned_def xdrmem_defs scast_low store32_be32 load32_be32 ntohl_be32 memmove_put)

interpretation unaligned: xdr_stream xdrmem_ops_unaligned "\<lambda>p. True" ucast
  by unfold_locales
    (auto simp: xdrmem_ops_unaligned_def xdrmem_defs ucast_low htonl_be32 store_bytes_be32 load_be32 ntohl_be32 memmove_put)

subsection \<open>Positions\<close>

text \<open>The window of the stream: base, position and end in order, sizes within 32 bits.\<close>

definition xdr_ok :: "XDR \<Rightarrow> bool" where
  "xdr_ok x \<longleftrightarrow> x_base x \<le> x_private x \<and> x_private x - x_base x + x_handy x < 2 ^ 32"

lemma xdr_ok_take: "xdr_ok x \<Longrightarrow> n \<le> x_handy x \<Longrightarrow> xdr_ok (xdr_take x n)"
  by (auto simp: xdr_ok_def xdr_take_def)

lemma setpos_iff:
  assumes "xdr_ok x"
  shows "xdrmem_setpos x pos =
    (if pos \<le> x_private x - x_base x + x_handy x
     then (True, x\<lparr>x_private := x_base x + pos, x_handy := x_private x + x_handy x - (x_base x + pos)\<rparr>)
     else (False, x))"
proof (cases "pos \<le> x_private x - x_base x + x_handy x")
  case True
  have "x_private x + x_handy x - (x_base x + pos) < 2 ^ 32" using assms by (auto simp: xdr_ok_def)
  then show ?thesis using True assms by (auto simp: xdrmem_setpos_def Let_def xdr_ok_def)
next
  case False
  then show ?thesis using assms by (auto simp: xdrmem_setpos_def Let_def xdr_ok_def)
qed

end
