(* ===== verification/Xdr.thy ===== *)
theory Xdr
  imports XdrMem StrScan MemFill
begin

text \<open>
  The filters of \<open>libc/xdr/xdr.c\<close>, \<open>xdr_float.c\<close>, \<open>xdr_array.c\<close> and \<open>xdr_sizeof.c\<close>. A filter moves one
  value between the program and a stream, in the direction the handle says; it returns the
  boolean of the C function, the handle, the memory and the value, which a decoding
  filter replaces. Scalars are passed by value, byte strings by address.
\<close>

type_synonym 'a xdrproc = "XDR \<Rightarrow> mem \<Rightarrow> 'a \<Rightarrow> (bool \<times> XDR \<times> mem \<times> 'a) option"

subsection \<open>Scalars\<close>

text \<open>
  The switch of the filters that go through a \<open>long\<close>, with the conversion of each direction, and
  that of the filters that go through an \<open>int32_t\<close>.
\<close>

definition via_long :: "xdr_ops \<Rightarrow> ('a \<Rightarrow> u64) \<Rightarrow> (u64 \<Rightarrow> 'a) \<Rightarrow> 'a xdrproc" where
  "via_long ops enc dec xdrs m v = (case x_op xdrs of
     XDR_ENCODE \<Rightarrow> do { (r, xdrs, m) \<leftarrow> x_putlong ops xdrs m (enc v); Some (r, xdrs, m, v) }
   | XDR_DECODE \<Rightarrow> do {
       (r, xdrs) \<leftarrow> x_getlong ops xdrs m;
       Some (case r of None \<Rightarrow> (False, xdrs, m, v) | Some l \<Rightarrow> (True, xdrs, m, dec l)) }
   | XDR_FREE \<Rightarrow> Some (True, xdrs, m, v))"

definition via_int32 :: "xdr_ops \<Rightarrow> ('a \<Rightarrow> u32) \<Rightarrow> (u32 \<Rightarrow> 'a) \<Rightarrow> 'a xdrproc" where
  "via_int32 ops enc dec xdrs m v = (case x_op xdrs of
     XDR_ENCODE \<Rightarrow> do { (r, xdrs, m) \<leftarrow> x_putint32 ops xdrs m (enc v); Some (r, xdrs, m, v) }
   | XDR_DECODE \<Rightarrow> do {
       (r, xdrs) \<leftarrow> x_getint32 ops xdrs m;
       Some (case r of None \<Rightarrow> (False, xdrs, m, v) | Some t \<Rightarrow> (True, xdrs, m, dec t)) }
   | XDR_FREE \<Rightarrow> Some (True, xdrs, m, v))"

definition xdr_void :: bool where "xdr_void = True"

definition xdr_int :: "xdr_ops \<Rightarrow> u32 xdrproc" where
  "xdr_int ops = via_long ops scast ucast"

definition xdr_u_int :: "xdr_ops \<Rightarrow> u32 xdrproc" where
  "xdr_u_int ops = via_long ops ucast ucast"

definition xdr_long :: "xdr_ops \<Rightarrow> u64 xdrproc" where
  "xdr_long ops xdrs m l =
     (if x_op xdrs = XDR_ENCODE \<and> scast (ucast l :: u32) = l then
        do { (r, xdrs, m) \<leftarrow> x_putlong ops xdrs m l; Some (r, xdrs, m, l) }
      else if x_op xdrs = XDR_DECODE then
        do { (r, xdrs) \<leftarrow> x_getlong ops xdrs m;
             Some (case r of None \<Rightarrow> (False, xdrs, m, l) | Some l' \<Rightarrow> (True, xdrs, m, l')) }
      else Some (x_op xdrs = XDR_FREE, xdrs, m, l))"

definition xdr_u_long :: "xdr_ops \<Rightarrow> u64 xdrproc" where
  "xdr_u_long ops xdrs m ul = (case x_op xdrs of
     XDR_ENCODE \<Rightarrow>
       if ucast (ucast ul :: u32) \<noteq> ul then Some (False, xdrs, m, ul)
       else do { (r, xdrs, m) \<leftarrow> x_putlong ops xdrs m ul; Some (r, xdrs, m, ul) }
   | XDR_DECODE \<Rightarrow> do {
       (r, xdrs) \<leftarrow> x_getlong ops xdrs m;
       Some (case r of None \<Rightarrow> (False, xdrs, m, ul) | Some tmp \<Rightarrow> (True, xdrs, m, ucast (ucast tmp :: u32))) }
   | XDR_FREE \<Rightarrow> Some (True, xdrs, m, ul))"

definition xdr_int32_t :: "xdr_ops \<Rightarrow> u32 xdrproc" where
  "xdr_int32_t ops = via_int32 ops (\<lambda>v. v) (\<lambda>t. t)"

definition xdr_u_int32_t :: "xdr_ops \<Rightarrow> u32 xdrproc" where
  "xdr_u_int32_t ops = via_int32 ops (\<lambda>v. v) (\<lambda>t. t)"

definition xdr_uint32_t :: "xdr_ops \<Rightarrow> u32 xdrproc" where
  "xdr_uint32_t ops = via_int32 ops (\<lambda>v. v) (\<lambda>t. t)"

definition xdr_short :: "xdr_ops \<Rightarrow> u16 xdrproc" where
  "xdr_short ops = via_long ops scast ucast"

definition xdr_u_short :: "xdr_ops \<Rightarrow> u16 xdrproc" where
  "xdr_u_short ops = via_long ops ucast ucast"

definition xdr_int16_t :: "xdr_ops \<Rightarrow> u16 xdrproc" where
  "xdr_int16_t ops = via_int32 ops scast ucast"

definition xdr_u_int16_t :: "xdr_ops \<Rightarrow> u16 xdrproc" where
  "xdr_u_int16_t ops = via_int32 ops ucast ucast"

definition xdr_uint16_t :: "xdr_ops \<Rightarrow> u16 xdrproc" where
  "xdr_uint16_t ops = via_int32 ops ucast ucast"

definition xdr_int8_t :: "xdr_ops \<Rightarrow> u8 xdrproc" where
  "xdr_int8_t ops = via_int32 ops scast ucast"

definition xdr_u_int8_t :: "xdr_ops \<Rightarrow> u8 xdrproc" where
  "xdr_u_int8_t ops = via_int32 ops ucast ucast"

definition xdr_uint8_t :: "xdr_ops \<Rightarrow> u8 xdrproc" where
  "xdr_uint8_t ops = via_int32 ops ucast ucast"

definition xdr_char :: "xdr_ops \<Rightarrow> u8 xdrproc" where
  "xdr_char ops xdrs m c = do {
     (r, xdrs, m, i) \<leftarrow> xdr_int ops xdrs m (scast c);
     Some (if r then (True, xdrs, m, ucast i) else (False, xdrs, m, c)) }"

definition xdr_u_char :: "xdr_ops \<Rightarrow> u8 xdrproc" where
  "xdr_u_char ops xdrs m uc = do {
     (r, xdrs, m, u) \<leftarrow> xdr_u_int ops xdrs m (ucast uc);
     Some (if r then (True, xdrs, m, ucast u) else (False, xdrs, m, uc)) }"

text \<open>\<open>bool_t\<close> is an \<open>int\<close>: any non-zero value is sent as one.\<close>

definition xdr_bool :: "xdr_ops \<Rightarrow> u32 xdrproc" where
  "xdr_bool ops = via_long ops (\<lambda>b. if b \<noteq> 0 then 1 else 0) (\<lambda>lb. if lb = 0 then 0 else 1)"

definition xdr_enum :: "xdr_ops \<Rightarrow> u32 xdrproc" where
  "xdr_enum ops = via_long ops scast ucast"

subsection \<open>64-bit scalars\<close>

text \<open>Two units, the high one first; the second is not tried when the first fails.\<close>

definition put_two :: "xdr_ops \<Rightarrow> XDR \<Rightarrow> mem \<Rightarrow> u32 \<Rightarrow> u32 \<Rightarrow> (bool \<times> XDR \<times> mem) option" where
  "put_two ops xdrs m t1 t2 = do {
     (r, xdrs, m) \<leftarrow> x_putint32 ops xdrs m t1;
     if r then x_putint32 ops xdrs m t2 else Some (False, xdrs, m) }"

definition get_two :: "xdr_ops \<Rightarrow> XDR \<Rightarrow> mem \<Rightarrow> ((u32 \<times> u32) option \<times> XDR) option" where
  "get_two ops xdrs m = do {
     (t1, xdrs) \<leftarrow> x_getint32 ops xdrs m;
     (case t1 of
        None \<Rightarrow> Some (None, xdrs)
      | Some t1 \<Rightarrow> do {
          (t2, xdrs) \<leftarrow> x_getint32 ops xdrs m;
          Some (map_option (Pair t1) t2, xdrs) }) }"

text \<open>
  The high unit is shifted as a signed number.  C leaves the shift of a negative one undefined; the compilers
  the library is built with define it on the two's complement, which is what is modelled.
\<close>

definition xdr_int64_t :: "xdr_ops \<Rightarrow> u64 xdrproc" where
  "xdr_int64_t ops xdrs m ll = (case x_op xdrs of
     XDR_ENCODE \<Rightarrow> do {
       (r, xdrs, m) \<leftarrow> put_two ops xdrs m (ucast (signed_drop_bit 32 ll)) (ucast ll);
       Some (r, xdrs, m, ll) }
   | XDR_DECODE \<Rightarrow> do {
       (r, xdrs) \<leftarrow> get_two ops xdrs m;
       Some (case r of
          None \<Rightarrow> (False, xdrs, m, ll)
        | Some (t1, t2) \<Rightarrow> (True, xdrs, m, push_bit 32 (scast t1) OR ucast t2)) }
   | XDR_FREE \<Rightarrow> Some (True, xdrs, m, ll))"

definition xdr_u_int64_t :: "xdr_ops \<Rightarrow> u64 xdrproc" where
  "xdr_u_int64_t ops xdrs m ull = (case x_op xdrs of
     XDR_ENCODE \<Rightarrow> do {
       (r, xdrs, m) \<leftarrow> put_two ops xdrs m (ucast (drop_bit 32 ull)) (ucast ull);
       Some (r, xdrs, m, ull) }
   | XDR_DECODE \<Rightarrow> do {
       (r, xdrs) \<leftarrow> get_two ops xdrs m;
       Some (case r of
          None \<Rightarrow> (False, xdrs, m, ull)
        | Some (t1, t2) \<Rightarrow> (True, xdrs, m, push_bit 32 (ucast t1) OR ucast t2)) }
   | XDR_FREE \<Rightarrow> Some (True, xdrs, m, ull))"

definition xdr_uint64_t :: "xdr_ops \<Rightarrow> u64 xdrproc" where
  "xdr_uint64_t ops xdrs m ull = (case x_op xdrs of
     XDR_ENCODE \<Rightarrow> do {
       (r, xdrs, m) \<leftarrow> put_two ops xdrs m (ucast (drop_bit 32 ull)) (ucast ull);
       Some (r, xdrs, m, ull) }
   | XDR_DECODE \<Rightarrow> do {
       (r, xdrs) \<leftarrow> get_two ops xdrs m;
       Some (case r of
          None \<Rightarrow> (False, xdrs, m, ull)
        | Some (t1, t2) \<Rightarrow> (True, xdrs, m, push_bit 32 (ucast t1) OR ucast t2)) }
   | XDR_FREE \<Rightarrow> Some (True, xdrs, m, ull))"

definition xdr_hyper :: "xdr_ops \<Rightarrow> u64 xdrproc" where "xdr_hyper ops = xdr_int64_t ops"

definition xdr_u_hyper :: "xdr_ops \<Rightarrow> u64 xdrproc" where "xdr_u_hyper ops = xdr_uint64_t ops"

definition xdr_longlong_t :: "xdr_ops \<Rightarrow> u64 xdrproc" where "xdr_longlong_t ops = xdr_int64_t ops"

definition xdr_u_longlong_t :: "xdr_ops \<Rightarrow> u64 xdrproc" where "xdr_u_longlong_t ops = xdr_uint64_t ops"

text \<open>Floating-point numbers are their bit patterns; the high half of a double goes first.\<close>

definition xdr_float :: "xdr_ops \<Rightarrow> u32 xdrproc" where
  "xdr_float ops = via_int32 ops (\<lambda>v. v) (\<lambda>t. t)"

text \<open>A decoding failure after the first unit leaves the high half of the double replaced.\<close>

definition xdr_double :: "xdr_ops \<Rightarrow> u64 xdrproc" where
  "xdr_double ops xdrs m d = (case x_op xdrs of
     XDR_ENCODE \<Rightarrow> do {
       (r, xdrs, m) \<leftarrow> put_two ops xdrs m (ucast (drop_bit 32 d)) (ucast d);
       Some (r, xdrs, m, d) }
   | XDR_DECODE \<Rightarrow> do {
       (t1, xdrs) \<leftarrow> x_getint32 ops xdrs m;
       (case t1 of
          None \<Rightarrow> Some (False, xdrs, m, d)
        | Some t1 \<Rightarrow> do {
            let d = push_bit 32 (ucast t1) OR ucast (ucast d :: u32);
            (t2, xdrs) \<leftarrow> x_getint32 ops xdrs m;
            Some (case t2 of
               None \<Rightarrow> (False, xdrs, m, d)
             | Some t2 \<Rightarrow> (True, xdrs, m, push_bit 32 (ucast (ucast (drop_bit 32 d) :: u32)) OR ucast t2)) }) }
   | XDR_FREE \<Rightarrow> Some (True, xdrs, m, d))"

subsection \<open>Byte strings\<close>

text \<open>
  \<open>xdr_zero\<close> and \<open>crud\<close> are the addresses of the four zero bytes of \<open>xdr.c\<close> and of the local buffer that
  takes the padding.
\<close>

definition xdr_opaque ::
    "xdr_ops \<Rightarrow> addr \<Rightarrow> addr \<Rightarrow> XDR \<Rightarrow> mem \<Rightarrow> addr \<Rightarrow> u32 \<Rightarrow> (bool \<times> XDR \<times> mem) option" where
  "xdr_opaque ops xdr_zero crud xdrs m cp cnt =
     (if cnt = 0 then Some (True, xdrs, m)
      else do {
        let rndup = unat cnt mod 4;
        let rndup = (if rndup > 0 then 4 - rndup else rndup);
        (case x_op xdrs of
           XDR_DECODE \<Rightarrow> do {
             (r, xdrs, m) \<leftarrow> x_getbytes ops xdrs m cp (unat cnt);
             if \<not> r then Some (False, xdrs, m)
             else if rndup = 0 then Some (True, xdrs, m)
             else x_getbytes ops xdrs m crud rndup }
         | XDR_ENCODE \<Rightarrow> do {
             (r, xdrs, m) \<leftarrow> x_putbytes ops xdrs m cp (unat cnt);
             if \<not> r then Some (False, xdrs, m)
             else if rndup = 0 then Some (True, xdrs, m)
             else x_putbytes ops xdrs m xdr_zero rndup }
         | XDR_FREE \<Rightarrow> Some (True, xdrs, m)) })"

text \<open>
  The memory allocator behind \<open>mem_alloc\<close> and \<open>mem_free\<close>: an allocation returns the new memory and
  the address, NULL when there is none.
\<close>

record allocator =
  mem_alloc :: "mem \<Rightarrow> nat \<Rightarrow> mem \<times> addr"
  mem_free :: "mem \<Rightarrow> addr \<Rightarrow> mem"

definition xdr_bytes ::
    "xdr_ops \<Rightarrow> addr \<Rightarrow> addr \<Rightarrow> allocator \<Rightarrow> XDR \<Rightarrow> mem \<Rightarrow> addr \<Rightarrow> u32 \<Rightarrow> u32
      \<Rightarrow> (bool \<times> XDR \<times> mem \<times> addr \<times> u32) option" where
  "xdr_bytes ops xdr_zero crud al xdrs m cpp sizep maxsize = do {
     (r, xdrs, m, nodesize) \<leftarrow> xdr_u_int ops xdrs m sizep;
     if \<not> r then Some (False, xdrs, m, cpp, nodesize)
     else if nodesize > maxsize \<and> x_op xdrs \<noteq> XDR_FREE then Some (False, xdrs, m, cpp, nodesize)
     else (case x_op xdrs of
        XDR_DECODE \<Rightarrow>
          if nodesize = 0 then Some (True, xdrs, m, cpp, nodesize)
          else do {
            let (m, sp) = (if cpp = NULL then mem_alloc al m (unat nodesize) else (m, cpp));
            if sp = NULL then Some (False, xdrs, m, sp, nodesize)
            else do {
              (r, xdrs, m) \<leftarrow> xdr_opaque ops xdr_zero crud xdrs m sp nodesize;
              Some (r, xdrs, m, sp, nodesize) } }
      | XDR_ENCODE \<Rightarrow> do {
          (r, xdrs, m) \<leftarrow> xdr_opaque ops xdr_zero crud xdrs m cpp nodesize;
          Some (r, xdrs, m, cpp, nodesize) }
      | XDR_FREE \<Rightarrow>
          if cpp \<noteq> NULL then Some (True, xdrs, mem_free al m cpp, NULL, nodesize)
          else Some (True, xdrs, m, cpp, nodesize)) }"

definition xdr_netobj ::
    "xdr_ops \<Rightarrow> addr \<Rightarrow> addr \<Rightarrow> allocator \<Rightarrow> XDR \<Rightarrow> mem \<Rightarrow> addr \<Rightarrow> u32
      \<Rightarrow> (bool \<times> XDR \<times> mem \<times> addr \<times> u32) option" where
  "xdr_netobj ops xdr_zero crud al xdrs m n_bytes n_len =
     xdr_bytes ops xdr_zero crud al xdrs m n_bytes n_len 1024"

definition xdr_string ::
    "xdr_ops \<Rightarrow> addr \<Rightarrow> addr \<Rightarrow> allocator \<Rightarrow> XDR \<Rightarrow> mem \<Rightarrow> addr \<Rightarrow> u32
      \<Rightarrow> (bool \<times> XDR \<times> mem \<times> addr) option" where
  "xdr_string ops xdr_zero crud al xdrs m cpp maxsize =
     (if x_op xdrs = XDR_FREE \<and> cpp = NULL then Some (True, xdrs, m, cpp)
      else if x_op xdrs = XDR_ENCODE \<and> cpp = NULL then Some (False, xdrs, m, cpp)
      else do {
        n \<leftarrow> (if x_op xdrs = XDR_DECODE then Some 0 else strlen m cpp);
        (r, xdrs, m, sz) \<leftarrow> xdr_u_int ops xdrs m (of_nat n);
        if \<not> r then Some (False, xdrs, m, cpp)
        else if sz > maxsize then Some (False, xdrs, m, cpp)
        else do {
          let nodesize = sz + 1;
          if nodesize = 0 then Some (False, xdrs, m, cpp)
          else (case x_op xdrs of
             XDR_DECODE \<Rightarrow> do {
               let (m, sp) = (if cpp = NULL then mem_alloc al m (unat nodesize) else (m, cpp));
               if sp = NULL then Some (False, xdrs, m, sp)
               else do {
                 m \<leftarrow> store8 m (sp + unat sz) 0;
                 (r, xdrs, m) \<leftarrow> xdr_opaque ops xdr_zero crud xdrs m sp sz;
                 Some (r, xdrs, m, sp) } }
           | XDR_ENCODE \<Rightarrow> do {
               (r, xdrs, m) \<leftarrow> xdr_opaque ops xdr_zero crud xdrs m cpp sz;
               Some (r, xdrs, m, cpp) }
           | XDR_FREE \<Rightarrow> Some (True, xdrs, mem_free al m cpp, NULL)) } })"

definition xdr_wrapstring ::
    "xdr_ops \<Rightarrow> addr \<Rightarrow> addr \<Rightarrow> allocator \<Rightarrow> XDR \<Rightarrow> mem \<Rightarrow> addr
      \<Rightarrow> (bool \<times> XDR \<times> mem \<times> addr) option" where
  "xdr_wrapstring ops xdr_zero crud al xdrs m cpp =
     xdr_string ops xdr_zero crud al xdrs m cpp (0 - 1)"

subsection \<open>Unions and arrays\<close>

text \<open>An element filter works on the object at an address.\<close>

type_synonym objproc = "XDR \<Rightarrow> mem \<Rightarrow> addr \<Rightarrow> (bool \<times> XDR \<times> mem) option"

fun xdr_choose :: "(u32 \<times> objproc) list \<Rightarrow> u32 \<Rightarrow> objproc option" where
  "xdr_choose [] dscm = None"
| "xdr_choose ((v, proc) # choices) dscm = (if v = dscm then Some proc else xdr_choose choices dscm)"

definition xdr_union ::
    "xdr_ops \<Rightarrow> XDR \<Rightarrow> mem \<Rightarrow> u32 \<Rightarrow> addr \<Rightarrow> (u32 \<times> objproc) list \<Rightarrow> objproc option
      \<Rightarrow> (bool \<times> XDR \<times> mem \<times> u32) option" where
  "xdr_union ops xdrs m dscmp unp choices dfault = do {
     (r, xdrs, m, dscm) \<leftarrow> xdr_enum ops xdrs m dscmp;
     if \<not> r then Some (False, xdrs, m, dscm)
     else (case xdr_choose choices dscm of
        Some proc \<Rightarrow> do { (r, xdrs, m) \<leftarrow> proc xdrs m unp; Some (r, xdrs, m, dscm) }
      | None \<Rightarrow>
          (case dfault of
             None \<Rightarrow> Some (False, xdrs, m, dscm)
           | Some proc \<Rightarrow> do { (r, xdrs, m) \<leftarrow> proc xdrs m unp; Some (r, xdrs, m, dscm) })) }"

fun xdr_vector :: "objproc \<Rightarrow> nat \<Rightarrow> XDR \<Rightarrow> mem \<Rightarrow> addr \<Rightarrow> nat \<Rightarrow> (bool \<times> XDR \<times> mem) option" where
  "xdr_vector xdr_elem elemsize xdrs m elptr 0 = Some (True, xdrs, m)"
| "xdr_vector xdr_elem elemsize xdrs m elptr (Suc nelem) = do {
     (r, xdrs, m) \<leftarrow> xdr_elem xdrs m elptr;
     if r then xdr_vector xdr_elem elemsize xdrs m (elptr + elemsize) nelem else Some (False, xdrs, m) }"

text \<open>
  The size check of \<open>xdr_array\<close>: more elements than allowed, or more than the 32-bit size of the array can
  count. The division is only reached when the first test fails, and faults for elements of size zero.
\<close>

definition array_reject :: "u32 \<Rightarrow> u32 \<Rightarrow> u32 \<Rightarrow> bool option" where
  "array_reject c maxsize elsize =
     (if c > maxsize then Some True
      else if elsize = 0 then None
      else Some (0xFFFFFFFF div elsize < c))"

definition xdr_array ::
    "xdr_ops \<Rightarrow> allocator \<Rightarrow> objproc \<Rightarrow> XDR \<Rightarrow> mem \<Rightarrow> addr \<Rightarrow> u32 \<Rightarrow> u32 \<Rightarrow> u32
      \<Rightarrow> (bool \<times> XDR \<times> mem \<times> addr \<times> u32) option" where
  "xdr_array ops al elproc xdrs m addrp sizep maxsize elsize = do {
     (r, xdrs, m, c) \<leftarrow> xdr_u_int ops xdrs m sizep;
     if \<not> r then Some (False, xdrs, m, addrp, c)
     else do {
       bad \<leftarrow> array_reject c maxsize elsize;
       if bad \<and> x_op xdrs \<noteq> XDR_FREE then Some (False, xdrs, m, addrp, c)
       else do {
         let nodesize = c * elsize;
         if addrp = NULL \<and> x_op xdrs = XDR_FREE then Some (True, xdrs, m, addrp, c)
         else if addrp = NULL \<and> x_op xdrs = XDR_DECODE \<and> c = 0 then Some (True, xdrs, m, addrp, c)
         else do {
           let (m, target) =
             (if addrp = NULL \<and> x_op xdrs = XDR_DECODE then mem_alloc al m (unat nodesize) else (m, addrp));
           if addrp = NULL \<and> x_op xdrs = XDR_DECODE \<and> target = NULL then Some (False, xdrs, m, target, c)
           else do {
             m \<leftarrow> (if addrp = NULL \<and> x_op xdrs = XDR_DECODE
                  then map_option fst (memset m target 0 (unat nodesize)) else Some m);
             (stat, xdrs, m) \<leftarrow> xdr_vector elproc (unat elsize) xdrs m target (unat c);
             if x_op xdrs = XDR_FREE then Some (stat, xdrs, mem_free al m target, NULL, c)
             else Some (stat, xdrs, m, target, c) } } } } }"

definition xdr_reference ::
    "allocator \<Rightarrow> objproc \<Rightarrow> XDR \<Rightarrow> mem \<Rightarrow> addr \<Rightarrow> u32 \<Rightarrow> (bool \<times> XDR \<times> mem \<times> addr) option" where
  "xdr_reference al proc xdrs m pp sz =
     (if pp = NULL \<and> x_op xdrs = XDR_FREE then Some (True, xdrs, m, pp)
      else do {
        let (m, loc) = (if pp = NULL \<and> x_op xdrs = XDR_DECODE then mem_alloc al m (unat sz) else (m, pp));
        if pp = NULL \<and> x_op xdrs = XDR_DECODE \<and> loc = NULL then Some (False, xdrs, m, loc)
        else do {
          m \<leftarrow> (if pp = NULL \<and> x_op xdrs = XDR_DECODE then map_option fst (memset m loc 0 (unat sz)) else Some m);
          (stat, xdrs, m) \<leftarrow> proc xdrs m loc;
          if x_op xdrs = XDR_FREE then Some (stat, xdrs, mem_free al m loc, NULL)
          else Some (stat, xdrs, m, loc) } })"

definition xdr_pointer ::
    "xdr_ops \<Rightarrow> allocator \<Rightarrow> objproc \<Rightarrow> XDR \<Rightarrow> mem \<Rightarrow> addr \<Rightarrow> u32 \<Rightarrow> (bool \<times> XDR \<times> mem \<times> addr) option" where
  "xdr_pointer ops al xdr_obj xdrs m objpp obj_size = do {
     (r, xdrs, m, more_data) \<leftarrow> xdr_bool ops xdrs m (if objpp \<noteq> NULL then 1 else 0);
     if \<not> r then Some (False, xdrs, m, objpp)
     else if more_data = 0 then Some (True, xdrs, m, NULL)
     else xdr_reference al xdr_obj xdrs m objpp obj_size }"

subsection \<open>Measuring\<close>

text \<open>\<open>xdr_sizeof\<close> runs a filter on a stream that only counts; the counter has 32 bits.\<close>

definition sizeof_count :: "XDR \<Rightarrow> nat \<Rightarrow> XDR" where
  "sizeof_count x n = x\<lparr>x_handy := (x_handy x + n) mod 2 ^ 32\<rparr>"

text \<open>\<open>x_inline\<close>: \<open>alloc\<close> is the address \<open>mem_alloc\<close> returns; the size of the area is kept in \<open>x_base\<close>.\<close>

definition sizeof_inline :: "(nat \<Rightarrow> addr) \<Rightarrow> XDR \<Rightarrow> nat \<Rightarrow> addr \<times> XDR" where
  "sizeof_inline alloc xdrs len =
     (if len = 0 then (NULL, xdrs)
      else if x_op xdrs \<noteq> XDR_ENCODE then (NULL, xdrs)
      else if len < x_base xdrs mod 2 ^ 32 then (x_private xdrs, sizeof_count xdrs len)
      else (let p = alloc len; xdrs = xdrs\<lparr>x_private := p\<rparr>
            in if p = NULL then (NULL, xdrs\<lparr>x_base := 0\<rparr>)
               else (p, sizeof_count (xdrs\<lparr>x_base := len\<rparr>) len)))"

definition sizeof_ops :: "(nat \<Rightarrow> addr) \<Rightarrow> xdr_ops" where
  "sizeof_ops alloc = \<lparr>
     x_getlong = (\<lambda>x m. Some (None, x)), x_putlong = (\<lambda>x m l. Some (True, sizeof_count x 4, m)),
     x_getbytes = (\<lambda>x m a n. Some (False, x, m)), x_putbytes = (\<lambda>x m a n. Some (True, sizeof_count x n, m)),
     x_getpostn = x_handy, x_setpostn = (\<lambda>x pos. (False, x)), x_inline = sizeof_inline alloc,
     x_getint32 = (\<lambda>x m. Some (None, x)), x_putint32 = (\<lambda>x m i. Some (True, sizeof_count x 4, m))\<rparr>"

definition xdr_sizeof :: "(nat \<Rightarrow> addr) \<Rightarrow> (xdr_ops \<Rightarrow> 'a xdrproc) \<Rightarrow> mem \<Rightarrow> 'a \<Rightarrow> nat option" where
  "xdr_sizeof alloc func m data = do {
     (stat, x, m, v) \<leftarrow> func (sizeof_ops alloc)
        \<lparr>x_op = XDR_ENCODE, x_private = NULL, x_base = 0, x_handy = 0\<rparr> m data;
     Some (if stat then x_handy x else 0) }"

subsection \<open>Exact transfers\<close>

text \<open>
  \<open>xfer al f v bs\<close>: on a stream at a supported address the filter \<open>f\<close> encodes \<open>v\<close> as exactly the bytes
  \<open>bs\<close> and decodes those bytes to \<open>v\<close>, moving the stream past them in both directions.
\<close>

definition xfer :: "(addr \<Rightarrow> bool) \<Rightarrow> 'a xdrproc \<Rightarrow> 'a \<Rightarrow> u8 list \<Rightarrow> bool" where
  "xfer al f v bs \<longleftrightarrow>
     (\<forall>x m. x_op x = XDR_ENCODE \<longrightarrow> al (x_private x) \<longrightarrow> length bs \<le> x_handy x \<longrightarrow> mapped m (x_private x) (length bs) \<longrightarrow>
        f x m v = Some (True, xdr_take x (length bs), put_bytes m (x_private x) bs, v)) \<and>
     (\<forall>x m u. x_op x = XDR_DECODE \<longrightarrow> al (x_private x) \<longrightarrow> length bs \<le> x_handy x \<longrightarrow> bytes_at m (x_private x) bs \<longrightarrow>
        f x m u = Some (True, xdr_take x (length bs), m, v))"

text \<open>The filters of structures run the filters of their members in turn.\<close>

definition xdr_seq :: "'a xdrproc \<Rightarrow> 'b xdrproc \<Rightarrow> ('a \<times> 'b) xdrproc" where
  "xdr_seq f g xdrs m v = do {
     (r, xdrs, m, a) \<leftarrow> f xdrs m (fst v);
     if \<not> r then Some (False, xdrs, m, (a, snd v))
     else do { (r, xdrs, m, b) \<leftarrow> g xdrs m (snd v); Some (r, xdrs, m, (a, b)) } }"

lemma xdr_take_sel [simp]: "x_op (xdr_take x n) = x_op x" "x_private (xdr_take x n) = x_private x + n"
  "x_handy (xdr_take x n) = x_handy x - n" "x_base (xdr_take x n) = x_base x"
  by (simp_all add: xdr_take_def)

lemma xdr_take_take [simp]: "xdr_take (xdr_take x a) b = xdr_take x (a + b)"
  by (simp add: xdr_take_def)

lemma join_halves: "push_bit 32 (ucast (ucast (drop_bit 32 w) :: u32)) OR ucast (ucast w :: u32) = (w :: u64)"
  by (rule bit_word_eqI) (auto simp: bit_simps)

lemma join_halves_signed:
  "push_bit 32 (scast (ucast (signed_drop_bit 32 w) :: u32)) OR ucast (ucast w :: u32) = (w :: u64)"
  by (rule bit_word_eqI) (auto simp: bit_simps)

lemma replace_high:
  "push_bit 32 (ucast (ucast (drop_bit 32 (push_bit 32 (ucast (t :: u32))) OR drop_bit 32 (ucast (s :: u32)) :: u64) :: u32))
     OR ucast (r :: u32) = (push_bit 32 (ucast t) OR ucast r :: u64)"
  by (rule bit_word_eqI) (auto simp: bit_simps dest: bit_imp_le_length)

context xdr_stream
begin

lemma via_long_xfer:
  "dec (ext (ucast (enc v))) = v \<Longrightarrow> xfer al (via_long ops enc dec) v (be32 (ucast (enc v)))"
  by (simp add: xfer_def via_long_def putlong getlong)

lemma via_int32_xfer: "dec (enc v) = v \<Longrightarrow> xfer al (via_int32 ops enc dec) v (be32 (enc v))"
  by (simp add: xfer_def via_int32_def putint32 getint32)

lemma put_two:
  assumes "8 \<le> x_handy x" "al (x_private x)" "mapped m (x_private x) 8"
  shows "put_two ops x m a b = Some (True, xdr_take x 8, put_bytes m (x_private x) (be32 a @ be32 b))"
proof -
  have "mapped m (x_private x) 4" using assms(3) by (elim mapped_sub) auto
  moreover have "mapped (put_bytes m (x_private x) (be32 a)) (x_private x + 4) 4"
    using assms(3) by (intro mapped_put_bytes) (elim mapped_sub, auto)
  ultimately show ?thesis
    using assms putint32 [of x m a] putint32 [of "xdr_take x 4" "put_bytes m (x_private x) (be32 a)" b]
      al_step [of "x_private x"] put_bytes_append [of m "x_private x" "be32 a" "be32 b"]
    by (simp add: put_two_def)
qed

lemma get_two:
  assumes "8 \<le> x_handy x" "al (x_private x)" "bytes_at m (x_private x) (be32 a @ be32 b)"
  shows "get_two ops x m = Some (Some (a, b), xdr_take x 8)"
  using assms getint32 [of x m a] getint32 [of "xdr_take x 4" m b] al_step [of "x_private x"]
  by (simp add: get_two_def bytes_at_append)

lemma int64_xfer:
  "xfer al (xdr_int64_t ops) v (be32 (ucast (signed_drop_bit 32 v)) @ be32 (ucast v))"
  by (simp add: xfer_def xdr_int64_t_def put_two get_two join_halves_signed)

lemma uint64_xfer:
  "xfer al (xdr_u_int64_t ops) v (be32 (ucast (drop_bit 32 v)) @ be32 (ucast v))"
  "xfer al (xdr_uint64_t ops) v (be32 (ucast (drop_bit 32 v)) @ be32 (ucast v))"
  by (simp_all add: xfer_def xdr_u_int64_t_def xdr_uint64_t_def put_two get_two join_halves)

lemma double_xfer: "xfer al (xdr_double ops) v (be32 (ucast (drop_bit 32 v)) @ be32 (ucast v))"
proof -
  have "xdr_double ops x m u = Some (True, xdr_take x 8, m, v)"
    if "x_op x = XDR_DECODE" "al (x_private x)" "8 \<le> x_handy x"
      "bytes_at m (x_private x) (be32 (ucast (drop_bit 32 v)) @ be32 (ucast v))" for x m u
    using that getint32 [of x m "ucast (drop_bit 32 v)"] getint32 [of "xdr_take x 4" m "ucast v"]
      al_step [of "x_private x"]
    by (simp add: xdr_double_def bytes_at_append Let_def replace_high join_halves)
  then show ?thesis by (simp add: xfer_def put_two) (simp add: xdr_double_def put_two)
qed

lemma char_xfer: "xfer al (xdr_char ops) v (be32 (scast v))" "xfer al (xdr_u_char ops) v (be32 (ucast v))"
proof -
  have 1: "ucast (scast v :: u32) = v" "ucast (scast (scast v :: u32) :: u64) = (scast v :: u32)"
    "ucast (ucast v :: u32) = v" "ucast (ucast (ucast v :: u32) :: u64) = (ucast v :: u32)"
    by (rule bit_word_eqI, auto simp: bit_simps)+
  have "xfer al (xdr_int ops) (scast v) (be32 (scast v))"
    using via_long_xfer [of ucast scast "scast v :: u32"] by (simp add: xdr_int_def 1 ext_low)
  then show "xfer al (xdr_char ops) v (be32 (scast v))" by (simp add: xfer_def xdr_char_def 1)
  have "xfer al (xdr_u_int ops) (ucast v) (be32 (ucast v))"
    using via_long_xfer [of ucast ucast "ucast v :: u32"] by (simp add: xdr_u_int_def 1 ext_low)
  then show "xfer al (xdr_u_char ops) v (be32 (ucast v))" by (simp add: xfer_def xdr_u_char_def 1)
qed

end

subsection \<open>Opaque data and strings\<close>

declare put_bytes_single [simp del]

text \<open>The padding that completes \<open>n\<close> bytes to whole units.\<close>

definition pad_len :: "nat \<Rightarrow> nat" where
  "pad_len n = (if n mod 4 > 0 then 4 - n mod 4 else 0)"

lemma pad_len_le: "pad_len n \<le> 4"
  by (simp add: pad_len_def)

lemma pad_len_mod: "(n + pad_len n) mod 4 = 0"
  unfolding pad_len_def by presburger

lemma pad_len_0 [simp]: "pad_len 0 = 0"
  by (simp add: pad_len_def)

lemma bytes_at_replicate: "bytes_at m p (replicate n b) \<Longrightarrow> k \<le> n \<Longrightarrow> bytes_at m p (replicate k b)"
  by (simp add: bytes_at_iff)

lemma small_u32: "Suc n < 2 ^ 32 \<Longrightarrow> unat (of_nat n :: u32) = n \<and> (of_nat n :: u32) + 1 \<noteq> 0"
proof -
  assume n: "Suc n < 2 ^ 32"
  have a: "unat (of_nat k :: u32) = k" if "k < 2 ^ 32" for k
    using that by (simp add: unat_of_nat take_bit_nat_eq_self)
  have "unat ((of_nat n :: u32) + 1) = Suc n" using a [OF n] by (simp add: add.commute)
  then have "(of_nat n :: u32) + 1 \<noteq> 0" by (metis unat_0 nat.distinct(1))
  then show ?thesis using a [of n] n by simp
qed

text \<open>The ranges of \<open>a\<close> and \<open>b\<close> bytes do not meet.\<close>

definition disj :: "addr \<Rightarrow> nat \<Rightarrow> addr \<Rightarrow> nat \<Rightarrow> bool" where
  "disj p a q b \<longleftrightarrow> p + a \<le> q \<or> q + b \<le> p"

lemma bytes_at_put_disj: "disj p (length xs) q (length ys) \<Longrightarrow> bytes_at (put_bytes m p xs) q ys = bytes_at m q ys"
  by (rule bytes_at_put_other) (auto simp: disj_def)

lemma disj_sub: "disj p a q b \<Longrightarrow> p \<le> p' \<Longrightarrow> p' + a' \<le> p + a \<Longrightarrow> q \<le> q' \<Longrightarrow> q' + b' \<le> q + b \<Longrightarrow> disj p' a' q' b'"
  by (auto simp: disj_def)

context xdr_stream
begin

lemma opaque_encode:
  assumes "x_op x = XDR_ENCODE" "length bs = unat cnt" "length bs + pad_len (length bs) \<le> x_handy x"
    and "bytes_at m cp bs" "bytes_at m z (replicate 4 0)"
    and "mapped m (x_private x) (length bs + pad_len (length bs))"
    and "disj (x_private x) (length bs) z 4"
  shows "xdr_opaque ops z crud x m cp cnt = Some (True, xdr_take x (length bs + pad_len (length bs)),
    put_bytes m (x_private x) (bs @ replicate (pad_len (length bs)) 0))"
proof (cases "cnt = 0")
  case True
  then show ?thesis using assms(2) by (simp add: xdr_opaque_def xdr_take_def)
next
  case False
  let ?p = "x_private x" and ?r = "pad_len (length bs)"
  let ?m = "put_bytes m ?p bs"
  have "mapped m ?p (length bs)" using assms(6) by (elim mapped_sub) auto
  then have 1: "x_putbytes ops x m cp (length bs) = Some (True, xdr_take x (length bs), ?m)"
    using assms(3,4) by (intro putbytes) auto
  have "bytes_at ?m z (replicate 4 0)" using assms(5,7) bytes_at_put_disj [of ?p bs z "replicate 4 0" m] by simp
  then have "bytes_at ?m z (replicate ?r 0)" using pad_len_le by (elim bytes_at_replicate)
  moreover have "mapped ?m (?p + length bs) ?r"
    using assms(6) by (intro mapped_put_bytes) (elim mapped_sub, auto)
  ultimately have "x_putbytes ops (xdr_take x (length bs)) ?m z (length (replicate ?r (0::u8)))
      = Some (True, xdr_take (xdr_take x (length bs)) (length (replicate ?r (0::u8))),
          put_bytes ?m (x_private (xdr_take x (length bs))) (replicate ?r 0))"
    using assms(3) by (intro putbytes) auto
  then show ?thesis using 1 False assms(1)
    by (auto simp: xdr_opaque_def Let_def assms(2) [symmetric] pad_len_def put_bytes_append)
qed

lemma opaque_decode:
  assumes "x_op x = XDR_DECODE" "length bs = unat cnt" "length pad = pad_len (length bs)"
    and "length bs + length pad \<le> x_handy x" "bytes_at m (x_private x) (bs @ pad)"
    and "mapped m cp (length bs)" "mapped m crud 4"
    and "disj cp (length bs) (x_private x) (length bs + length pad)"
  shows "xdr_opaque ops z crud x m cp cnt = Some (True, xdr_take x (length bs + length pad),
    put_bytes (put_bytes m cp bs) crud pad)"
proof (cases "cnt = 0")
  case True
  then show ?thesis using assms(2,3) by (simp add: xdr_opaque_def xdr_take_def)
next
  case False
  let ?p = "x_private x"
  let ?m = "put_bytes m cp bs"
  have b: "bytes_at m ?p bs" "bytes_at m (?p + length bs) pad" using assms(5) by (simp_all add: bytes_at_append)
  then have 1: "x_getbytes ops x m cp (length bs) = Some (True, xdr_take x (length bs), ?m)"
    using assms(4,6) by (intro getbytes) auto
  have "bytes_at ?m (?p + length bs) pad"
    using b(2) assms(8) bytes_at_put_disj [of cp bs "?p + length bs" pad m] by (auto simp: disj_def)
  moreover have "mapped ?m crud (length pad)"
    using assms(7) pad_len_le [of "length bs"] unfolding assms(3) by (intro mapped_put_bytes) (elim mapped_sub, auto)
  ultimately have "x_getbytes ops (xdr_take x (length bs)) ?m crud (length pad)
      = Some (True, xdr_take (xdr_take x (length bs)) (length pad), put_bytes ?m crud pad)"
    using assms(4) by (intro getbytes) auto
  then show ?thesis using 1 False assms(1,3)
    by (auto simp: xdr_opaque_def Let_def assms(2) [symmetric] pad_len_def)
qed

lemma u_int_xfer: "xfer al (xdr_u_int ops) v (be32 v)"
proof -
  have "ucast (ucast v :: u64) = (v :: u32)" by (rule bit_word_eqI) (auto simp: bit_simps)
  then show ?thesis using via_long_xfer [of ucast ucast v] by (simp add: xdr_u_int_def ext_low)
qed

lemma u_int_encode:
  "x_op x = XDR_ENCODE \<Longrightarrow> al (x_private x) \<Longrightarrow> 4 \<le> x_handy x \<Longrightarrow> mapped m (x_private x) 4 \<Longrightarrow>
   xdr_u_int ops x m v = Some (True, xdr_take x 4, put_bytes m (x_private x) (be32 v), v)"
  using u_int_xfer [of v] by (simp add: xfer_def)

lemma u_int_decode:
  "x_op x = XDR_DECODE \<Longrightarrow> al (x_private x) \<Longrightarrow> 4 \<le> x_handy x \<Longrightarrow> bytes_at m (x_private x) (be32 v) \<Longrightarrow>
   xdr_u_int ops x m u = Some (True, xdr_take x 4, m, v)"
  using u_int_xfer [of v] by (simp add: xfer_def)

lemma string_encode:
  assumes "x_op x = XDR_ENCODE" "al (x_private x)" "cstr m cp xs" "padded m (cp + length xs)" "cp \<noteq> NULL"
    and "Suc (length xs) < 2 ^ 32" "of_nat (length xs) \<le> maxsize"
    and "4 + (length xs + pad_len (length xs)) \<le> x_handy x"
    and "mapped m (x_private x) (4 + (length xs + pad_len (length xs)))"
    and "bytes_at m z (replicate 4 0)"
    and "disj (x_private x) (4 + length xs) z 4" "disj (x_private x) (4 + length xs) cp (Suc (length xs))"
  shows "xdr_string ops z crud A x m cp maxsize = Some (True, xdr_take x (4 + (length xs + pad_len (length xs))),
    put_bytes m (x_private x) (be32 (of_nat (length xs)) @ xs @ replicate (pad_len (length xs)) 0), cp)"
proof -
  let ?p = "x_private x" and ?n = "of_nat (length xs) :: u32" and ?l = "length xs + pad_len (length xs)"
  let ?m = "put_bytes m ?p (be32 ?n)"
  have n: "unat ?n = length xs" "?n + 1 \<noteq> 0" using small_u32 [OF assms(6)] by auto
  have 1: "xdr_u_int ops x m ?n = Some (True, xdr_take x 4, ?m, ?n)"
    using assms(1,2,8) by (intro u_int_encode mapped_sub [OF assms(9)]) auto
  have "bytes_at m cp xs" using assms(3) by (simp add: cstr_iff bytes_at_append)
  then have "bytes_at ?m cp xs"
    using bytes_at_put_disj [of ?p "be32 ?n" cp xs m] disj_sub [OF assms(12), of ?p 4 cp "length xs"] by simp
  moreover have "bytes_at ?m z (replicate 4 0)"
    using assms(10) bytes_at_put_disj [of ?p "be32 ?n" z "replicate 4 0" m] disj_sub [OF assms(11), of ?p 4 z 4] by simp
  moreover have "mapped ?m (?p + 4) ?l"
    by (intro mapped_put_bytes mapped_sub [OF assms(9)]) auto
  ultimately have "xdr_opaque ops z crud (xdr_take x 4) ?m cp ?n = Some (True, xdr_take (xdr_take x 4) ?l,
      put_bytes ?m (x_private (xdr_take x 4)) (xs @ replicate (pad_len (length xs)) 0))"
    using assms(1,8,11) n(1) by (intro opaque_encode) (auto simp: disj_def)
  then show ?thesis
    using 1 assms(1,5,7) n(2) strlen_eq [OF assms(3,4)] put_bytes_append [of m ?p "be32 ?n"]
    by (simp add: xdr_string_def Let_def not_less)
qed

lemma string_decode:
  assumes "x_op x = XDR_DECODE" "al (x_private x)" "0 \<notin> set xs" "length pad = pad_len (length xs)"
    and "Suc (length xs) < 2 ^ 32" "of_nat (length xs) \<le> maxsize"
    and "4 + (length xs + length pad) \<le> x_handy x"
    and "bytes_at m (x_private x) (be32 (of_nat (length xs)) @ xs @ pad)"
    and "dst \<noteq> NULL" "mapped m dst (Suc (length xs))" "mapped m crud 4"
    and "disj dst (Suc (length xs)) (x_private x) (4 + (length xs + length pad))" "disj dst (Suc (length xs)) crud 4"
  shows "\<exists>m'. xdr_string ops z crud A x m dst maxsize = Some (True, xdr_take x (4 + (length xs + length pad)), m', dst)
    \<and> cstr m' dst xs"
proof -
  let ?p = "x_private x" and ?n = "of_nat (length xs) :: u32" and ?l = "length xs + length pad"
  let ?m = "put_bytes m (dst + length xs) [0]"
  have n: "unat ?n = length xs" "?n + 1 \<noteq> 0" using small_u32 [OF assms(5)] by auto
  have b: "bytes_at m ?p (be32 ?n)" "bytes_at m (?p + 4) (xs @ pad)"
    using assms(8) by (simp_all add: bytes_at_append)
  have 1: "xdr_u_int ops x m 0 = Some (True, xdr_take x 4, m, ?n)"
    using assms(1,2,7) b(1) by (intro u_int_decode) auto
  have "m (dst + length xs) \<noteq> None" using assms(10) mappedD [of m dst "Suc (length xs)" "dst + length xs"] by auto
  then have 2: "store8 m (dst + length xs) 0 = Some ?m" by (auto simp: store8_def put_bytes_single)
  have "bytes_at ?m (?p + 4) (xs @ pad)"
    using b(2) bytes_at_put_disj [of "dst + length xs" "[0]" "?p + 4" "xs @ pad" m] assms(12) by (auto simp: disj_def)
  moreover have "mapped ?m dst (length xs)" by (intro mapped_put_bytes mapped_sub [OF assms(10)]) auto
  moreover have "mapped ?m crud 4" using assms(11) by (rule mapped_put_bytes)
  ultimately have "xdr_opaque ops z crud (xdr_take x 4) ?m dst ?n = Some (True, xdr_take (xdr_take x 4) ?l,
      put_bytes (put_bytes ?m dst xs) crud pad)"
    using assms(1,4,7,12) n(1) by (intro opaque_decode) (auto simp: disj_def)
  moreover have "cstr (put_bytes (put_bytes ?m dst xs) crud pad) dst xs"
  proof -
    have "length pad \<le> 4" using assms(4) pad_len_le by simp
    then have "bytes_at (put_bytes (put_bytes ?m dst xs) crud pad) dst (xs @ [0]) = bytes_at (put_bytes ?m dst xs) dst (xs @ [0])"
      using assms(13) by (intro bytes_at_put_disj) (auto simp: disj_def)
    moreover have "bytes_at (put_bytes ?m dst xs) (dst + length xs) [0]"
      using bytes_at_put_disj [of dst xs "dst + length xs" "[0]" ?m] bytes_at_put_same [of m "dst + length xs" "[0]"]
      by (simp add: disj_def)
    ultimately show ?thesis using assms(3) bytes_at_put_same [of ?m dst xs] by (simp add: cstr_iff bytes_at_append)
  qed
  ultimately show ?thesis
    using 1 2 assms(1,6,9) n by (simp add: xdr_string_def Let_def not_less)
qed

end

subsection \<open>Both memory streams\<close>

text \<open>A filter transfers \<open>v\<close> as \<open>bs\<close> on a memory buffer of either alignment.\<close>

definition codec :: "(xdr_ops \<Rightarrow> 'a xdrproc) \<Rightarrow> 'a \<Rightarrow> u8 list \<Rightarrow> bool" where
  "codec f v bs \<longleftrightarrow>
     xfer (\<lambda>p. p mod 4 = 0) (f xdrmem_ops_aligned) v bs \<and> xfer (\<lambda>p. True) (f xdrmem_ops_unaligned) v bs"

lemma codec_via_long:
  assumes "\<And>l. ucast l = (ucast (enc v) :: u32) \<Longrightarrow> dec l = v"
  shows "codec (\<lambda>ops. via_long ops enc dec) v (be32 (ucast (enc v)))"
  unfolding codec_def
  using aligned.via_long_xfer [of dec enc v] unaligned.via_long_xfer [of dec enc v]
  by (simp add: assms aligned.ext_low unaligned.ext_low)

lemma codec_via_int32: "dec (enc v) = v \<Longrightarrow> codec (\<lambda>ops. via_int32 ops enc dec) v (be32 (enc v))"
  by (simp add: codec_def aligned.via_int32_xfer unaligned.via_int32_xfer)

lemma low_bits_32: "ucast l = (ucast (scast (v :: u32) :: u64) :: u32) \<Longrightarrow> ucast (l :: u64) = v"
  "ucast l = (ucast (ucast (v :: u32) :: u64) :: u32) \<Longrightarrow> ucast (l :: u64) = v"
  by (simp_all add: scast_low ucast_low)

lemma low_bits_16: "ucast l = (ucast (scast (s :: u16) :: u64) :: u32) \<Longrightarrow> ucast (l :: u64) = s"
  "ucast l = (ucast (ucast (s :: u16) :: u64) :: u32) \<Longrightarrow> ucast (l :: u64) = s"
proof -
  have 1: "ucast l = (ucast (ucast l :: u32) :: u16)" for l :: u64 by (rule bit_word_eqI) (auto simp: bit_simps)
  have 2: "(ucast (ucast (scast s :: u64) :: u32) :: u16) = s" "(ucast (ucast (ucast s :: u64) :: u32) :: u16) = s"
    by (rule bit_word_eqI, auto simp: bit_simps)+
  show "ucast l = (ucast (scast s :: u64) :: u32) \<Longrightarrow> ucast l = s" using 1 [of l] 2 by simp
  show "ucast l = (ucast (ucast s :: u64) :: u32) \<Longrightarrow> ucast l = s" using 1 [of l] 2 by simp
qed

lemma extend_16: "ucast (scast (s :: u16) :: u64) = (scast s :: u32)" "ucast (ucast (s :: u16) :: u64) = (ucast s :: u32)"
  "ucast (scast (s :: u16) :: u32) = s" "ucast (ucast (s :: u16) :: u32) = s"
  by (rule bit_word_eqI, auto simp: bit_simps)+

lemma extend_8: "ucast (scast (b :: u8) :: u32) = b" "ucast (ucast (b :: u8) :: u32) = b"
  by (rule bit_word_eqI, auto simp: bit_simps)+

lemma codec_32:
  "codec xdr_int v (be32 v)" "codec xdr_u_int v (be32 v)" "codec xdr_enum v (be32 v)"
  "codec xdr_int32_t v (be32 v)" "codec xdr_u_int32_t v (be32 v)" "codec xdr_uint32_t v (be32 v)"
  "codec xdr_float v (be32 v)"
  using codec_via_long [of scast v ucast, OF low_bits_32(1)] codec_via_long [of ucast v ucast, OF low_bits_32(2)]
    codec_via_int32 [of "\<lambda>t. t" "\<lambda>v. v" v]
  by (simp_all add: xdr_int_def xdr_u_int_def xdr_enum_def xdr_int32_t_def xdr_u_int32_t_def xdr_uint32_t_def
    xdr_float_def scast_low ucast_low codec_def)

lemma codec_bool: "codec xdr_bool 0 (be32 0)" "codec xdr_bool 1 (be32 1)"
proof -
  have a: "codec (\<lambda>ops. via_long ops (\<lambda>b. if b \<noteq> 0 then 1 else 0) (\<lambda>lb. if lb = 0 then 0 else 1)) (0 :: u32) (be32 (ucast (if (0::u32) \<noteq> 0 then 1 else (0 :: u64))))"
    unfolding codec_def
    using aligned.via_long_xfer [of "\<lambda>lb. if lb = 0 then 0 else 1" "\<lambda>b. if b \<noteq> 0 then 1 else 0" "0 :: u32"]
      unaligned.via_long_xfer [of "\<lambda>lb. if lb = 0 then 0 else 1" "\<lambda>b. if b \<noteq> 0 then 1 else 0" "0 :: u32"] by simp
  have b: "codec (\<lambda>ops. via_long ops (\<lambda>b. if b \<noteq> 0 then 1 else 0) (\<lambda>lb. if lb = 0 then 0 else 1)) (1 :: u32) (be32 (ucast (if (1::u32) \<noteq> 0 then 1 else (0 :: u64))))"
    unfolding codec_def
    using aligned.via_long_xfer [of "\<lambda>lb. if lb = 0 then 0 else 1" "\<lambda>b. if b \<noteq> 0 then 1 else 0" "1 :: u32"]
      unaligned.via_long_xfer [of "\<lambda>lb. if lb = 0 then 0 else 1" "\<lambda>b. if b \<noteq> 0 then 1 else 0" "1 :: u32"] by simp
  show "codec xdr_bool 0 (be32 0)" "codec xdr_bool 1 (be32 1)" using a b by (simp_all add: xdr_bool_def codec_def)
qed

lemma codec_16:
  "codec xdr_short s (be32 (scast s))" "codec xdr_u_short s (be32 (ucast s))"
  "codec xdr_int16_t s (be32 (scast s))" "codec xdr_u_int16_t s (be32 (ucast s))" "codec xdr_uint16_t s (be32 (ucast s))"
  using codec_via_long [of scast s ucast, OF low_bits_16(1)] codec_via_long [of ucast s ucast, OF low_bits_16(2)]
    codec_via_int32 [of ucast scast s] codec_via_int32 [of ucast ucast s]
  by (simp_all add: xdr_short_def xdr_u_short_def xdr_int16_t_def xdr_u_int16_t_def xdr_uint16_t_def extend_16 codec_def)

lemma codec_8:
  "codec xdr_int8_t b (be32 (scast b))" "codec xdr_u_int8_t b (be32 (ucast b))" "codec xdr_uint8_t b (be32 (ucast b))"
  "codec xdr_char b (be32 (scast b))" "codec xdr_u_char b (be32 (ucast b))"
  using codec_via_int32 [of ucast scast b] codec_via_int32 [of ucast ucast b]
  by (simp_all add: xdr_int8_t_def xdr_u_int8_t_def xdr_uint8_t_def extend_8 codec_def
    aligned.char_xfer unaligned.char_xfer)

lemma codec_64:
  "codec xdr_int64_t w (be32 (ucast (signed_drop_bit 32 w)) @ be32 (ucast w))"
  "codec xdr_hyper w (be32 (ucast (signed_drop_bit 32 w)) @ be32 (ucast w))"
  "codec xdr_u_int64_t w (be32 (ucast (drop_bit 32 w)) @ be32 (ucast w))"
  "codec xdr_uint64_t w (be32 (ucast (drop_bit 32 w)) @ be32 (ucast w))"
  "codec xdr_u_hyper w (be32 (ucast (drop_bit 32 w)) @ be32 (ucast w))"
  "codec xdr_double w (be32 (ucast (drop_bit 32 w)) @ be32 (ucast w))"
  by (simp_all add: codec_def xdr_hyper_def xdr_u_hyper_def aligned.int64_xfer unaligned.int64_xfer
    aligned.uint64_xfer unaligned.uint64_xfer aligned.double_xfer unaligned.double_xfer)

subsection \<open>Structures\<close>

text \<open>
  A structure of scalars: its filter runs the filters of the members in turn and stops at the first that
  fails, as the filters written by hand or by \<open>rpcgen\<close> do.
\<close>

datatype scalar = S_int u32 | S_u_int u32 | S_long u64 | S_u_long u64 | S_short u16 | S_u_short u16 | S_char u8 | S_u_char u8
  | S_bool bool | S_enum u32 | S_int8 u8 | S_uint8 u8 | S_int16 u16 | S_uint16 u16 | S_int32 u32 | S_uint32 u32
  | S_hyper u64 | S_u_hyper u64 | S_float u32 | S_double u64

definition tag :: "('a \<Rightarrow> scalar) \<Rightarrow> (bool \<times> XDR \<times> mem \<times> 'a) option \<Rightarrow> (bool \<times> XDR \<times> mem \<times> scalar) option" where
  "tag c r = map_option (\<lambda>(ok, x, m, v). (ok, x, m, c v)) r"

fun xdr_scalar :: "xdr_ops \<Rightarrow> scalar xdrproc" where
  "xdr_scalar ops x m (S_int v) = tag S_int (xdr_int ops x m v)"
| "xdr_scalar ops x m (S_u_int v) = tag S_u_int (xdr_u_int ops x m v)"
| "xdr_scalar ops x m (S_long v) = tag S_long (xdr_long ops x m v)"
| "xdr_scalar ops x m (S_u_long v) = tag S_u_long (xdr_u_long ops x m v)"
| "xdr_scalar ops x m (S_short v) = tag S_short (xdr_short ops x m v)"
| "xdr_scalar ops x m (S_u_short v) = tag S_u_short (xdr_u_short ops x m v)"
| "xdr_scalar ops x m (S_char v) = tag S_char (xdr_char ops x m v)"
| "xdr_scalar ops x m (S_u_char v) = tag S_u_char (xdr_u_char ops x m v)"
| "xdr_scalar ops x m (S_bool v) = tag (\<lambda>b. S_bool (b \<noteq> 0)) (xdr_bool ops x m (of_bool v))"
| "xdr_scalar ops x m (S_enum v) = tag S_enum (xdr_enum ops x m v)"
| "xdr_scalar ops x m (S_int8 v) = tag S_int8 (xdr_int8_t ops x m v)"
| "xdr_scalar ops x m (S_uint8 v) = tag S_uint8 (xdr_uint8_t ops x m v)"
| "xdr_scalar ops x m (S_int16 v) = tag S_int16 (xdr_int16_t ops x m v)"
| "xdr_scalar ops x m (S_uint16 v) = tag S_uint16 (xdr_uint16_t ops x m v)"
| "xdr_scalar ops x m (S_int32 v) = tag S_int32 (xdr_int32_t ops x m v)"
| "xdr_scalar ops x m (S_uint32 v) = tag S_uint32 (xdr_uint32_t ops x m v)"
| "xdr_scalar ops x m (S_hyper v) = tag S_hyper (xdr_hyper ops x m v)"
| "xdr_scalar ops x m (S_u_hyper v) = tag S_u_hyper (xdr_u_hyper ops x m v)"
| "xdr_scalar ops x m (S_float v) = tag S_float (xdr_float ops x m v)"
| "xdr_scalar ops x m (S_double v) = tag S_double (xdr_double ops x m v)"

fun xdr_struct :: "xdr_ops \<Rightarrow> scalar list xdrproc" where
  "xdr_struct ops x m [] = Some (True, x, m, [])"
| "xdr_struct ops x m (v # vs) = do {
     (r, x, m, v) \<leftarrow> xdr_scalar ops x m v;
     if \<not> r then Some (False, x, m, v # vs)
     else do { (r, x, m, vs) \<leftarrow> xdr_struct ops x m vs; Some (r, x, m, v # vs) } }"

text \<open>
  The bytes on the wire, the kind of a member, and the values that can be transferred: a \<open>long\<close> has to fit a unit, and on an unaligned
  buffer only the non-negative ones keep their value.
\<close>

fun wire :: "scalar \<Rightarrow> u8 list" where
  "wire (S_int v) = be32 v" | "wire (S_u_int v) = be32 v" | "wire (S_long l) = be32 (ucast l)" | "wire (S_u_long l) = be32 (ucast l)"
| "wire (S_short v) = be32 (scast v)" | "wire (S_u_short v) = be32 (ucast v)" | "wire (S_char v) = be32 (scast v)" | "wire (S_u_char v) = be32 (ucast v)"
| "wire (S_bool v) = be32 (of_bool v)" | "wire (S_enum v) = be32 v" | "wire (S_int8 v) = be32 (scast v)" | "wire (S_uint8 v) = be32 (ucast v)"
| "wire (S_int16 v) = be32 (scast v)" | "wire (S_uint16 v) = be32 (ucast v)" | "wire (S_int32 v) = be32 v" | "wire (S_uint32 v) = be32 v"
| "wire (S_hyper w) = be32 (ucast (signed_drop_bit 32 w)) @ be32 (ucast w)" | "wire (S_u_hyper w) = be32 (ucast (drop_bit 32 w)) @ be32 (ucast w)"
| "wire (S_float v) = be32 v" | "wire (S_double w) = be32 (ucast (drop_bit 32 w)) @ be32 (ucast w)"

fun blank :: "scalar \<Rightarrow> scalar" where
  "blank (S_int v) = S_int 0" | "blank (S_u_int v) = S_u_int 0" | "blank (S_long v) = S_long 0" | "blank (S_u_long v) = S_u_long 0"
| "blank (S_short v) = S_short 0" | "blank (S_u_short v) = S_u_short 0" | "blank (S_char v) = S_char 0" | "blank (S_u_char v) = S_u_char 0"
| "blank (S_bool v) = S_bool False" | "blank (S_enum v) = S_enum 0" | "blank (S_int8 v) = S_int8 0" | "blank (S_uint8 v) = S_uint8 0"
| "blank (S_int16 v) = S_int16 0" | "blank (S_uint16 v) = S_uint16 0" | "blank (S_int32 v) = S_int32 0" | "blank (S_uint32 v) = S_uint32 0"
| "blank (S_hyper v) = S_hyper 0" | "blank (S_u_hyper v) = S_u_hyper 0" | "blank (S_float v) = S_float 0" | "blank (S_double v) = S_double 0"

fun sendable :: "bool \<Rightarrow> scalar \<Rightarrow> bool" where
  "sendable unaligned (S_long l) = (scast (ucast l :: u32) = l \<and> (unaligned \<longrightarrow> 0 \<le> sint l))"
| "sendable unaligned (S_u_long l) = (ucast (ucast l :: u32) = l)"
| "sendable unaligned v = True"

context xdr_stream
begin

lemma long_xfer: "ext (ucast l) = l \<Longrightarrow> scast (ucast l :: u32) = l \<Longrightarrow> xfer al (xdr_long ops) l (be32 (ucast l))"
  by (simp add: xfer_def xdr_long_def putlong getlong)

lemma long_encode: "scast (ucast l :: u32) = l \<Longrightarrow> x_op x = XDR_ENCODE \<Longrightarrow> al (x_private x) \<Longrightarrow> 4 \<le> x_handy x \<Longrightarrow>
    mapped m (x_private x) 4 \<Longrightarrow> xdr_long ops x m l = Some (True, xdr_take x 4, put_bytes m (x_private x) (be32 (ucast l)), l)"
  by (simp add: xdr_long_def putlong)

lemma long_decode: "x_op x = XDR_DECODE \<Longrightarrow> al (x_private x) \<Longrightarrow> 4 \<le> x_handy x \<Longrightarrow> bytes_at m (x_private x) (be32 v) \<Longrightarrow>
    xdr_long ops x m u = Some (True, xdr_take x 4, m, ext v)"
  by (simp add: xdr_long_def getlong)

lemma u_long_xfer: "ucast (ucast l :: u32) = l \<Longrightarrow> xfer al (xdr_u_long ops) l (be32 (ucast l))"
  by (simp add: xfer_def xdr_u_long_def putlong getlong ext_low)

end

lemma nonneg_ucast: "scast (ucast (l :: u64) :: u32) = l \<Longrightarrow> 0 \<le> sint l \<Longrightarrow> ucast (ucast l :: u32) = l"
proof -
  assume s: "scast (ucast l :: u32) = l" and p: "0 \<le> sint l"
  have b: "bit l i \<longleftrightarrow> bit l (min i 31)" if "i < 64" for i
    by (subst s [symmetric]) (use that in \<open>auto simp: bit_simps min_def\<close>)
  have "\<not> bit l 63" using p bit_last_iff [of l] by simp
  then have z: "\<not> bit l i" if "31 \<le> i" "i < 64" for i using b [of 63] b [of i] that by (simp add: min_def)
  show ?thesis
  proof (rule bit_word_eqI)
    fix n assume "n < LENGTH(64)"
    then show "bit (ucast (ucast l :: u32) :: u64) n \<longleftrightarrow> bit l n" using z [of n] by (cases "n < 32") (auto simp: bit_simps)
  qed
qed

text \<open>The two directions of a transfer.\<close>

definition encodes :: "(addr \<Rightarrow> bool) \<Rightarrow> 'a xdrproc \<Rightarrow> 'a \<Rightarrow> u8 list \<Rightarrow> bool" where
  "encodes al f v bs \<longleftrightarrow>
     (\<forall>x m. x_op x = XDR_ENCODE \<longrightarrow> al (x_private x) \<longrightarrow> length bs \<le> x_handy x \<longrightarrow> mapped m (x_private x) (length bs) \<longrightarrow>
        f x m v = Some (True, xdr_take x (length bs), put_bytes m (x_private x) bs, v))"

definition decodes :: "(addr \<Rightarrow> bool) \<Rightarrow> 'a xdrproc \<Rightarrow> 'a \<Rightarrow> u8 list \<Rightarrow> bool" where
  "decodes al f v bs \<longleftrightarrow>
     (\<forall>x m u. x_op x = XDR_DECODE \<longrightarrow> al (x_private x) \<longrightarrow> length bs \<le> x_handy x \<longrightarrow> bytes_at m (x_private x) bs \<longrightarrow>
        f x m u = Some (True, xdr_take x (length bs), m, v))"

lemma long_formats:
  "xfer (\<lambda>p. p mod 4 = 0) (xdr_long xdrmem_ops_aligned) (scast v) (be32 v)"
  "encodes (\<lambda>p. True) (xdr_long xdrmem_ops_unaligned) (scast v) (be32 v)"
  "decodes (\<lambda>p. True) (xdr_long xdrmem_ops_unaligned) (ucast v) (be32 v)"
  using aligned.long_xfer [of "scast v"] unaligned.long_encode [of "scast v"] unaligned.long_decode [where v = v]
  by (simp_all add: encodes_def decodes_def scast_low)

lemma codec_longlong:
  "codec xdr_longlong_t w (be32 (ucast (signed_drop_bit 32 w)) @ be32 (ucast w))"
  "codec xdr_u_longlong_t w (be32 (ucast (drop_bit 32 w)) @ be32 (ucast w))"
  using codec_64(1,4) [of w] by (simp_all add: xdr_longlong_t_def xdr_u_longlong_t_def codec_def)

lemma codec_u_long: "codec xdr_u_long (ucast (v :: u32)) (be32 v)"
  using aligned.u_long_xfer [of "ucast v"] unaligned.u_long_xfer [of "ucast v"] by (simp add: codec_def ucast_low)

text \<open>The two memory streams, with the positions they work at.\<close>

definition memory_stream :: "bool \<Rightarrow> xdr_ops \<Rightarrow> (addr \<Rightarrow> bool) \<Rightarrow> bool" where
  "memory_stream un ops al \<longleftrightarrow> ops = (if un then xdrmem_ops_unaligned else xdrmem_ops_aligned) \<and> al = (\<lambda>p. un \<or> p mod 4 = 0)"

lemma codec_xfer: "codec f v bs \<Longrightarrow> memory_stream un ops al \<Longrightarrow> xfer al (f ops) v bs"
  by (auto simp: codec_def memory_stream_def)

lemma long_codec: "sendable un (S_long l) \<Longrightarrow> memory_stream un ops al \<Longrightarrow> xfer al (xdr_long ops) l (be32 (ucast l))"
  using aligned.long_xfer [of l] unaligned.long_xfer [of l] nonneg_ucast [of l] by (auto simp: memory_stream_def)

lemma u_long_codec: "sendable un (S_u_long l) \<Longrightarrow> memory_stream un ops al \<Longrightarrow> xfer al (xdr_u_long ops) l (be32 (ucast l))"
  using aligned.u_long_xfer [of l] unaligned.u_long_xfer [of l] by (auto simp: memory_stream_def)

lemma bool_codec: "codec xdr_bool (of_bool b) (be32 (of_bool b))"
  using codec_bool by (cases b) simp_all

lemma tag_encode:
  "xfer al f v bs \<Longrightarrow> x_op x = XDR_ENCODE \<Longrightarrow> al (x_private x) \<Longrightarrow> length bs \<le> x_handy x \<Longrightarrow> mapped m (x_private x) (length bs) \<Longrightarrow>
   tag c (f x m v) = Some (True, xdr_take x (length bs), put_bytes m (x_private x) bs, c v)"
  by (simp add: xfer_def tag_def)

lemma tag_decode:
  "xfer al f v bs \<Longrightarrow> x_op x = XDR_DECODE \<Longrightarrow> al (x_private x) \<Longrightarrow> length bs \<le> x_handy x \<Longrightarrow> bytes_at m (x_private x) bs \<Longrightarrow>
   tag c (f x m u) = Some (True, xdr_take x (length bs), m, c v)"
  by (simp add: xfer_def tag_def)

lemmas scalar_codecs = codec_32 codec_16 codec_8 codec_64 bool_codec

lemma scalar_encode:
  assumes "memory_stream un ops al" "sendable un v" "x_op x = XDR_ENCODE" "al (x_private x)"
    "length (wire v) \<le> x_handy x" "mapped m (x_private x) (length (wire v))"
  shows "xdr_scalar ops x m v = Some (True, xdr_take x (length (wire v)), put_bytes m (x_private x) (wire v), v)"
proof -
  note enc = tag_encode [of al _ _ _ x, OF _ assms(3,4)] and xf = scalar_codecs [THEN codec_xfer, OF assms(1)]
  show ?thesis
    using assms(5,6) enc [OF long_codec [OF _ assms(1)]] enc [OF u_long_codec [OF _ assms(1)]] assms(2) by (cases v) (simp_all add: xf [THEN enc])
qed

lemma scalar_decode:
  assumes "memory_stream un ops al" "sendable un v" "blank u = blank v" "x_op x = XDR_DECODE" "al (x_private x)"
    "length (wire v) \<le> x_handy x" "bytes_at m (x_private x) (wire v)"
  shows "xdr_scalar ops x m u = Some (True, xdr_take x (length (wire v)), m, v)"
proof -
  note dec = tag_decode [of al _ _ _ x, OF _ assms(4,5)] and xf = scalar_codecs [THEN codec_xfer, OF assms(1)]
  show ?thesis
    using assms(3,6,7) dec [OF long_codec [OF _ assms(1)]] dec [OF u_long_codec [OF _ assms(1)]] assms(2)
    by (cases v; cases u) (simp_all add: xf [THEN dec])
qed

lemma wire_units: "length (wire v) mod 4 = 0"
  by (cases v) simp_all

lemma memory_stream_step: "memory_stream un ops al \<Longrightarrow> al p \<Longrightarrow> al (p + length (wire v))"
  using wire_units [of v] by (auto simp: memory_stream_def)

lemma struct_encode:
  assumes "memory_stream un ops al" "\<forall>v \<in> set vs. sendable un v" "x_op x = XDR_ENCODE" "al (x_private x)"
    "length (concat (map wire vs)) \<le> x_handy x" "mapped m (x_private x) (length (concat (map wire vs)))"
  shows "xdr_struct ops x m vs = Some (True, xdr_take x (length (concat (map wire vs))), put_bytes m (x_private x) (concat (map wire vs)), vs)"
  using assms
proof (induction vs arbitrary: x m)
  case (Cons v vs)
  have "mapped m (x_private x) (length (wire v))" by (rule mapped_sub [OF Cons.prems(6)]) auto
  then have 1: "xdr_scalar ops x m v = Some (True, xdr_take x (length (wire v)), put_bytes m (x_private x) (wire v), v)"
    using Cons.prems by (intro scalar_encode [OF Cons.prems(1)]) auto
  have "mapped (put_bytes m (x_private x) (wire v)) (x_private x + length (wire v)) (length (concat (map wire vs)))"
    by (intro mapped_put_bytes mapped_sub [OF Cons.prems(6)]) auto
  then show ?case
    using 1 Cons.prems memory_stream_step [OF Cons.prems(1,4), of v]
      Cons.IH [of "xdr_take x (length (wire v))" "put_bytes m (x_private x) (wire v)"] by (simp add: put_bytes_append)
qed (simp add: xdr_take_def)

lemma struct_decode:
  assumes "memory_stream un ops al" "\<forall>v \<in> set vs. sendable un v" "map blank us = map blank vs" "x_op x = XDR_DECODE" "al (x_private x)"
    "length (concat (map wire vs)) \<le> x_handy x" "bytes_at m (x_private x) (concat (map wire vs))"
  shows "xdr_struct ops x m us = Some (True, xdr_take x (length (concat (map wire vs))), m, vs)"
  using assms
proof (induction vs arbitrary: x us)
  case (Cons v vs)
  then obtain u us' where us: "us = u # us'" "blank u = blank v" "map blank us' = map blank vs" by auto
  have "xdr_scalar ops x m u = Some (True, xdr_take x (length (wire v)), m, v)"
    using Cons.prems us(2) by (intro scalar_decode [OF Cons.prems(1)]) (auto simp: bytes_at_append)
  then show ?case
    using Cons.prems us memory_stream_step [OF Cons.prems(1,5), of v] Cons.IH [of us' "xdr_take x (length (wire v))"]
    by (simp add: bytes_at_append)
qed (simp add: xdr_take_def)

subsection \<open>Properties\<close>

text \<open>
  C17: on a memory buffer, aligned or not, the scalar filters send their value as
  big-endian 32-bit units (64-bit values high unit first, narrow ones sign- or zero-extended)
  and receive the same value from those units.  \<open>xdr_u_long\<close> does so for the values of one unit.  \<open>xdr_long\<close> sends the values of a
  signed unit; it receives them sign-extended from an aligned buffer, but zero-extended from an unaligned one.
\<close>

theorem xdr_wire_format:
  "codec xdr_int v (be32 v) \<and> codec xdr_u_int v (be32 v) \<and> codec xdr_enum v (be32 v)
   \<and> codec xdr_int32_t v (be32 v) \<and> codec xdr_u_int32_t v (be32 v) \<and> codec xdr_uint32_t v (be32 v)
   \<and> codec xdr_float v (be32 v) \<and> codec xdr_bool 0 (be32 0) \<and> codec xdr_bool 1 (be32 1)
   \<and> codec xdr_short s (be32 (scast s)) \<and> codec xdr_u_short s (be32 (ucast s))
   \<and> codec xdr_int16_t s (be32 (scast s)) \<and> codec xdr_u_int16_t s (be32 (ucast s)) \<and> codec xdr_uint16_t s (be32 (ucast s))
   \<and> codec xdr_int8_t b (be32 (scast b)) \<and> codec xdr_u_int8_t b (be32 (ucast b)) \<and> codec xdr_uint8_t b (be32 (ucast b))
   \<and> codec xdr_char b (be32 (scast b)) \<and> codec xdr_u_char b (be32 (ucast b))
   \<and> codec xdr_int64_t w (be32 (ucast (signed_drop_bit 32 w)) @ be32 (ucast w))
   \<and> codec xdr_hyper w (be32 (ucast (signed_drop_bit 32 w)) @ be32 (ucast w))
   \<and> codec xdr_longlong_t w (be32 (ucast (signed_drop_bit 32 w)) @ be32 (ucast w))
   \<and> codec xdr_u_int64_t w (be32 (ucast (drop_bit 32 w)) @ be32 (ucast w))
   \<and> codec xdr_uint64_t w (be32 (ucast (drop_bit 32 w)) @ be32 (ucast w))
   \<and> codec xdr_u_hyper w (be32 (ucast (drop_bit 32 w)) @ be32 (ucast w))
   \<and> codec xdr_u_longlong_t w (be32 (ucast (drop_bit 32 w)) @ be32 (ucast w))
   \<and> codec xdr_double w (be32 (ucast (drop_bit 32 w)) @ be32 (ucast w))
   \<and> codec xdr_u_long (ucast v) (be32 v)
   \<and> xfer (\<lambda>p. p mod 4 = 0) (xdr_long xdrmem_ops_aligned) (scast v) (be32 v)
   \<and> encodes (\<lambda>p. True) (xdr_long xdrmem_ops_unaligned) (scast v) (be32 v)
   \<and> decodes (\<lambda>p. True) (xdr_long xdrmem_ops_unaligned) (ucast v) (be32 v)"
  by (intro conjI codec_32 codec_bool codec_16 codec_8 codec_64 codec_longlong codec_u_long long_formats)

text \<open>
  C18: what is encoded into a buffer is decoded from it: for any sequence of scalars of all
  kinds, sent by their filters one after the other on a fresh handle over \<open>n\<close> bytes, the same filters on a fresh handle over the same bytes return TRUE and the
  values sent, and both handles stand behind the bytes of the values.  A \<open>long\<close> has to fit a unit, and must not be
  negative on an unaligned buffer.
\<close>

theorem xdr_roundtrip:
  assumes "\<forall>v \<in> set vs. sendable (a mod 4 \<noteq> 0) v" and "map blank us = map blank vs"
    and "mapped m a n" and "length (concat (map wire vs)) \<le> n"
    and "xdrmem_create a n XDR_ENCODE = (x, ops)" and "xdrmem_create a n XDR_DECODE = (y, ops')"
  shows "\<exists>x' m' y'. xdr_struct ops x m vs = Some (True, x', m', vs) \<and> xdr_struct ops' y m' us = Some (True, y', m', vs)
    \<and> x_private x' = a + length (concat (map wire vs)) \<and> x_private y' = a + length (concat (map wire vs))"
proof -
  let ?bs = "concat (map wire vs)" and ?al = "\<lambda>p. a mod 4 \<noteq> 0 \<or> p mod 4 = 0"
  have x: "x = \<lparr>x_op = XDR_ENCODE, x_private = a, x_base = a, x_handy = n\<rparr>" "ops' = ops"
    "y = \<lparr>x_op = XDR_DECODE, x_private = a, x_base = a, x_handy = n\<rparr>"
    and ms: "memory_stream (a mod 4 \<noteq> 0) ops ?al"
    using assms(5,6) by (auto simp: xdrmem_create_def memory_stream_def)
  have "mapped m a (length ?bs)" using assms(4) by (intro mapped_sub [OF assms(3)]) auto
  then have "xdr_struct ops x m vs = Some (True, xdr_take x (length ?bs), put_bytes m (x_private x) ?bs, vs)"
    using assms(4) x by (intro struct_encode [OF ms assms(1)]) auto
  moreover have "xdr_struct ops y (put_bytes m a ?bs) us = Some (True, xdr_take y (length ?bs), put_bytes m a ?bs, vs)"
    using assms(4) x bytes_at_put_same [of m a ?bs] by (intro struct_decode [OF ms assms(1,2)]) auto
  ultimately show ?thesis by (simp add: x)
qed

theorem xdr_roundtrip_witness:
  "\<exists>x' m' y'. xdr_struct xdrmem_ops_unaligned (fst (xdrmem_create 9 20 XDR_ENCODE)) (put_bytes (\<lambda>_. None) 9 (replicate 20 0))
        [S_int (- 2), S_bool True, S_short 7, S_hyper (- 1)] = Some (True, x', m', [S_int (- 2), S_bool True, S_short 7, S_hyper (- 1)])
   \<and> xdr_struct xdrmem_ops_unaligned (fst (xdrmem_create 9 20 XDR_DECODE)) m' [S_int 0, S_bool False, S_short 0, S_hyper 0]
       = Some (True, y', m', [S_int (- 2), S_bool True, S_short 7, S_hyper (- 1)])
   \<and> x_private x' = 29 \<and> x_private y' = 29"
  using xdr_roundtrip [of "[S_int (- 2), S_bool True, S_short 7, S_hyper (- 1)]" 9 "[S_int 0, S_bool False, S_short 0, S_hyper 0]"
      "put_bytes (\<lambda>_. None) 9 (replicate 20 0)" 20 "fst (xdrmem_create 9 20 XDR_ENCODE)" xdrmem_ops_unaligned
      "fst (xdrmem_create 9 20 XDR_DECODE)" xdrmem_ops_unaligned]
  by (simp add: mapped_put_inside xdrmem_create_def del: xdr_struct.simps)

text \<open>
  With fewer than four bytes left, every one-unit filter returns FALSE in both
  directions and leaves the handle, the memory and the value as they were.
\<close>

theorem xdr_no_room:
  assumes "x_handy x < 4" and "x_op x \<noteq> XDR_FREE" and "ops = xdrmem_ops_aligned \<or> ops = xdrmem_ops_unaligned"
  shows "xdr_int ops x m v = Some (False, x, m, v) \<and> xdr_u_int ops x m v = Some (False, x, m, v)
    \<and> xdr_int32_t ops x m v = Some (False, x, m, v) \<and> xdr_bool ops x m v = Some (False, x, m, v)
    \<and> xdr_short ops x m s = Some (False, x, m, s) \<and> xdr_char ops x m b = Some (False, x, m, b)
    \<and> xdr_long ops x m l = Some (False, x, m, l) \<and> xdr_int64_t ops x m l = Some (False, x, m, l)"
proof -
  have g: "x_getlong ops x m = Some (None, x)" "x_getint32 ops x m = Some (None, x)"
    "x_putlong ops x m k = Some (False, x, m)" "x_putint32 ops x m i = Some (False, x, m)" for k i
    using assms(1,3) aligned.getlong_short unaligned.getlong_short aligned.getint32_short unaligned.getint32_short
      aligned.putlong_full unaligned.putlong_full aligned.putint32_full unaligned.putint32_full by auto
  show ?thesis
    using assms(2) by (cases "x_op x")
      (simp_all add: g xdr_int_def xdr_u_int_def xdr_int32_t_def xdr_bool_def xdr_short_def xdr_char_def xdr_long_def
        xdr_int64_t_def via_long_def via_int32_def put_two_def get_two_def)
qed

theorem xdr_no_room_witness:
  "xdr_int xdrmem_ops_aligned \<lparr>x_op = XDR_ENCODE, x_private = 8, x_base = 0, x_handy = 3\<rparr> (\<lambda>_. None) 5
    = Some (False, \<lparr>x_op = XDR_ENCODE, x_private = 8, x_base = 0, x_handy = 3\<rparr>, \<lambda>_. None, 5)"
  using xdr_no_room [of "\<lparr>x_op = XDR_ENCODE, x_private = 8, x_base = 0, x_handy = 3\<rparr>" xdrmem_ops_aligned "\<lambda>_. None" 5 0 0 0]
  by simp

text \<open>
  \<open>xdr_long\<close> refuses a value that does not fit 32 bits without touching the stream; one that
  fits is sent as one unit and, on an aligned buffer, received unchanged.
\<close>

theorem xdr_long_range:
  "(scast (ucast l :: u32) \<noteq> l \<longrightarrow> x_op x = XDR_ENCODE \<longrightarrow> xdr_long ops x m l = Some (False, x, m, l)) \<and>
   (scast (ucast l :: u32) = l \<longrightarrow> xfer (\<lambda>p. p mod 4 = 0) (xdr_long xdrmem_ops_aligned) l (be32 (ucast l)))"
  by (simp add: xdr_long_def xfer_def aligned.putlong aligned.getlong)

theorem xdr_long_range_witness:
  "xdr_long xdrmem_ops_aligned \<lparr>x_op = XDR_ENCODE, x_private = 8, x_base = 8, x_handy = 4\<rparr> (\<lambda>_. None) 0x100000000
    = Some (False, \<lparr>x_op = XDR_ENCODE, x_private = 8, x_base = 8, x_handy = 4\<rparr>, \<lambda>_. None, 0x100000000)"
  using xdr_long_range [of "0x100000000" "\<lparr>x_op = XDR_ENCODE, x_private = 8, x_base = 8, x_handy = 4\<rparr>" xdrmem_ops_aligned "\<lambda>_. None"]
  by simp



text \<open>
  C20: \<open>xdr_string\<close> sends a string as its length and its bytes padded with zeros to whole
  units, on either memory stream.
\<close>

theorem xdr_string_roundtrip:
  assumes "x_op x = XDR_ENCODE" and "cstr m cp xs" and "padded m (cp + length xs)" and "cp \<noteq> NULL"
    and "Suc (length xs) < 2 ^ 32" and "of_nat (length xs) \<le> maxsize"
    and "4 + (length xs + pad_len (length xs)) \<le> x_handy x"
    and "mapped m (x_private x) (4 + (length xs + pad_len (length xs)))"
    and "bytes_at m z (replicate 4 0)"
    and "disj (x_private x) (4 + length xs) z 4" and "disj (x_private x) (4 + length xs) cp (Suc (length xs))"
    and "ops = (if x_private x mod 4 \<noteq> 0 then xdrmem_ops_unaligned else xdrmem_ops_aligned)"
    and "m1 = put_bytes m (x_private x) (be32 (of_nat (length xs)) @ xs @ replicate (pad_len (length xs)) 0)"
    and "dst \<noteq> NULL" and "mapped m dst (Suc (length xs))" and "mapped m crud 4" and "disj dst (Suc (length xs)) crud 4"
    and "disj dst (Suc (length xs)) (x_private x) (4 + (length xs + pad_len (length xs)))"
  shows "xdr_string ops z crud A x m cp maxsize = Some (True, xdr_take x (4 + (length xs + pad_len (length xs))), m1, cp) \<and>
    (\<exists>m2. xdr_string ops z crud A (x\<lparr>x_op := XDR_DECODE\<rparr>) m1 dst maxsize
        = Some (True, xdr_take (x\<lparr>x_op := XDR_DECODE\<rparr>) (4 + (length xs + pad_len (length xs))), m2, dst) \<and> cstr m2 dst xs)"
proof
  show "xdr_string ops z crud A x m cp maxsize = Some (True, xdr_take x (4 + (length xs + pad_len (length xs))), m1, cp)"
    using aligned.string_encode [OF assms(1) _ assms(2-11)] unaligned.string_encode [OF assms(1) _ assms(2-11)]
    unfolding assms(12,13) by simp
  let ?y = "x\<lparr>x_op := XDR_DECODE\<rparr>" and ?pad = "replicate (pad_len (length xs)) 0 :: u8 list"
  have p: "x_op ?y = XDR_DECODE" "0 \<notin> set xs" "length ?pad = pad_len (length xs)"
    "4 + (length xs + length ?pad) \<le> x_handy ?y" "mapped m1 dst (Suc (length xs))" "mapped m1 crud 4"
    "bytes_at m1 (x_private ?y) (be32 (of_nat (length xs)) @ xs @ ?pad)"
    "disj dst (Suc (length xs)) (x_private ?y) (4 + (length xs + length ?pad))"
    using assms(2,7,15,16,18) bytes_at_put_same by (auto simp: cstr_iff assms(13) mapped_put_bytes)
  show "\<exists>m2. xdr_string ops z crud A ?y m1 dst maxsize
      = Some (True, xdr_take ?y (4 + (length xs + pad_len (length xs))), m2, dst) \<and> cstr m2 dst xs"
    using aligned.string_decode [OF p(1) _ p(2,3) assms(5,6) p(4,7) assms(14) p(5,6,8) assms(17)]
      unaligned.string_decode [OF p(1) _ p(2,3) assms(5,6) p(4,7) assms(14) p(5,6,8) assms(17)]
    unfolding assms(12) by simp
qed

theorem xdr_string_roundtrip_witness:
  "\<exists>m2. xdr_string xdrmem_ops_aligned 24 28 \<lparr>mem_alloc = \<lambda>m n. (m, 0), mem_free = \<lambda>m a. m\<rparr>
       \<lparr>x_op = XDR_DECODE, x_private = 8, x_base = 8, x_handy = 8\<rparr>
       (put_bytes (put_bytes (\<lambda>_. None) 8
          [1, 1, 1, 1, 1, 1, 1, 1, 65, 0, 9, 9, 9, 9, 9, 9, 0, 0, 0, 0, 1, 1, 1, 1, 1, 1]) 8
          (be32 1 @ [65] @ [0, 0, 0])) 32 10
     = Some (True, xdr_take \<lparr>x_op = XDR_DECODE, x_private = 8, x_base = 8, x_handy = 8\<rparr> 8, m2, 32)
     \<and> cstr m2 32 [65]"
proof -
  let ?m = "put_bytes (\<lambda>_. None) 8 [1, 1, 1, 1, 1, 1, 1, 1, 65, 0, 9, 9, 9, 9, 9, 9, 0, 0, 0, 0, 1, 1, 1, 1, 1, 1]"
  let ?x = "\<lparr>x_op = XDR_ENCODE, x_private = 8, x_base = 8, x_handy = 8\<rparr>"
  have p: "pad_len (Suc 0) = 3" by (simp add: pad_len_def)
  have r: "replicate 3 (0 :: u8) = [0, 0, 0]" "replicate 4 (0 :: u8) = [0, 0, 0, 0]" by (simp_all add: eval_nat_numeral)
  have c: "cstr ?m 16 [65]" "bytes_at ?m 24 (replicate 4 0)" by (simp_all add: put_bytes_apply r)
  show ?thesis
    using xdr_string_roundtrip [of ?x ?m 16 "[65]" 10 24 xdrmem_ops_aligned _ 32 28 "\<lparr>mem_alloc = \<lambda>m n. (m, 0), mem_free = \<lambda>m a. m\<rparr>",
      OF _ c(1) _ _ _ _ _ _ c(2) _ _ _ refl]
    by (simp add: p r padded_def mapped_put_inside disj_def)
qed

text \<open>
  \<open>xdr_sizeof\<close> of a scalar filter is the number of bytes the filter writes.
\<close>

theorem xdr_sizeof_correct:
  "xdr_sizeof alloc xdr_int m v = Some (length (be32 v))
   \<and> xdr_sizeof alloc xdr_short m s = Some (length (be32 (scast s)))
   \<and> xdr_sizeof alloc xdr_char m b = Some (length (be32 (scast b)))
   \<and> xdr_sizeof alloc xdr_int64_t m w = Some (length (be32 (ucast (signed_drop_bit 32 w)) @ be32 (ucast w)))
   \<and> xdr_sizeof alloc xdr_double m w = Some (length (be32 (ucast (drop_bit 32 w)) @ be32 (ucast w)))
   \<and> xdr_sizeof alloc (\<lambda>ops. xdr_seq (xdr_int ops) (xdr_short ops)) m (v, s)
      = Some (length (be32 v @ be32 (scast s)))"
  by (simp add: xdr_sizeof_def sizeof_ops_def sizeof_count_def xdr_int_def xdr_short_def xdr_char_def
    xdr_int64_t_def xdr_double_def via_long_def put_two_def xdr_seq_def)

text \<open>
  \<open>xdrmem_setpos\<close> succeeds just for the offsets from the start to the end of the buffer,
  moves there without moving the end, keeps the handle well-formed, and \<open>xdrmem_getpos\<close> then
  returns the offset.
\<close>

theorem xdrmem_setpos_ok:
  assumes "xdr_ok x" and "xdrmem_setpos x pos = (r, y)"
  shows "xdr_ok y \<and> (r \<longleftrightarrow> pos \<le> x_private x - x_base x + x_handy x) \<and> (\<not> r \<longrightarrow> y = x) \<and>
    (r \<longrightarrow> xdrmem_getpos y = pos \<and> x_private y + x_handy y = x_private x + x_handy x \<and> x_base y = x_base x)"
  using assms(2) setpos_iff [OF assms(1), of pos] assms(1)
  by (auto simp: xdr_ok_def xdrmem_getpos_def split: if_splits)

theorem xdrmem_setpos_ok_witness:
  "xdr_ok \<lparr>x_op = XDR_DECODE, x_private = 108, x_base = 100, x_handy = 12\<rparr> \<and>
   xdrmem_getpos (snd (xdrmem_setpos \<lparr>x_op = XDR_DECODE, x_private = 108, x_base = 100, x_handy = 12\<rparr> 4)) = 4"
  using xdrmem_setpos_ok [of "\<lparr>x_op = XDR_DECODE, x_private = 108, x_base = 100, x_handy = 12\<rparr>" 4]
  by (simp add: xdr_ok_def xdrmem_setpos_def Let_def)

text \<open>
  The size check of \<open>xdr_array\<close> is enough: for a count that passes it, the 32-bit product
  that \<open>mem_alloc\<close> is given does not wrap, so the array holds all the elements the loop fills.
\<close>

theorem xdr_array_no_wrap:
  assumes "array_reject c maxsize elsize = Some False"
  shows "unat (c * elsize) = unat c * unat elsize \<and> c \<le> maxsize"
proof -
  have e: "elsize \<noteq> 0" "c \<le> 0xFFFFFFFF div elsize" "c \<le> maxsize"
    using assms by (auto simp: array_reject_def not_less split: if_splits)
  have "unat c \<le> 0xFFFFFFFF div unat elsize" using e(2) by (simp add: word_le_nat_alt unat_div)
  then have "unat c * unat elsize \<le> 0xFFFFFFFF div unat elsize * unat elsize" by (rule mult_le_mono1)
  also have "\<dots> \<le> 0xFFFFFFFF" by (rule div_times_less_eq_dividend)
  finally have "unat c * unat elsize < 2 ^ LENGTH(32)" by simp
  then have "unat (c * elsize) = unat c * unat elsize" by (rule unat_mult_lem [THEN iffD1])
  then show ?thesis using e(3) by simp
qed

theorem xdr_array_no_wrap_witness:
  "array_reject 1000 2000 8 = Some False \<and> unat (1000 * 8 :: u32) = 8000"
  using xdr_array_no_wrap [of 1000 2000 8] by (simp add: array_reject_def)

end
