(* ===== verification/Calendar.thy ===== *)
theory Calendar
  imports Prelude
begin

text \<open>
  The calendar core of \<open>libc/time\<close>: \<open>gmtime_r\<close> (seconds to broken-down
  time), \<open>validate_structure\<close>, \<open>mktime_utc\<close> and \<open>timegm\<close> (broken-down time
  with arbitrary field values to seconds).  The specification is the
  proleptic Gregorian calendar: \<open>jan1\<close> and \<open>civil\<close> count days from the epoch.

  \<open>struct tm\<close> is a record of integers.  \<open>int\<close> and \<open>time_t\<close> expressions whose
  overflow would be undefined behaviour and is not excluded by the ranges of
  the operands go through \<open>ck32\<close> and \<open>ck64\<close>, which are \<open>None\<close> out of range;
  conversions to unsigned types are written as \<open>mod\<close>.
\<close>

section \<open>Machine ranges\<close>

definition INT_MAX :: int where "INT_MAX = 2 ^ 31 - 1"
definition INT_MIN :: int where "INT_MIN = - (2 ^ 31)"
definition TIME_T_MAX :: int where "TIME_T_MAX = 2 ^ 63 - 1"
definition TIME_T_MIN :: int where "TIME_T_MIN = - (2 ^ 63)"

lemmas range_defs = INT_MAX_def INT_MIN_def TIME_T_MAX_def TIME_T_MIN_def

definition ck32 :: "int \<Rightarrow> int option" where
  "ck32 x = (if INT_MIN \<le> x \<and> x \<le> INT_MAX then Some x else None)"

definition ck64 :: "int \<Rightarrow> int option" where
  "ck64 x = (if TIME_T_MIN \<le> x \<and> x \<le> TIME_T_MAX then Some x else None)"

abbreviation to_u32 :: "int \<Rightarrow> int" where "to_u32 x \<equiv> x mod 4294967296"
abbreviation to_u64 :: "int \<Rightarrow> int" where "to_u64 x \<equiv> x mod 18446744073709551616"

text \<open>An array access; outside the array it is undefined.\<close>

definition arr_get :: "'a list \<Rightarrow> int \<Rightarrow> 'a option" where
  "arr_get xs i = (if 0 \<le> i \<and> i < int (length xs) then Some (xs ! nat i) else None)"

section \<open>The data of \<open>local.h\<close>\<close>

record tm =
  tm_sec :: int
  tm_min :: int
  tm_hour :: int
  tm_mday :: int
  tm_mon :: int
  tm_year :: int
  tm_wday :: int
  tm_yday :: int
  tm_isdst :: int

datatype errno = EOVERFLOW

definition SECSPERMIN :: int where "SECSPERMIN = 60"
definition MINSPERHOUR :: int where "MINSPERHOUR = 60"
definition HOURSPERDAY :: int where "HOURSPERDAY = 24"
definition SECSPERHOUR :: int where "SECSPERHOUR = SECSPERMIN * MINSPERHOUR"
definition SECSPERDAY :: int where "SECSPERDAY = SECSPERHOUR * HOURSPERDAY"
definition DAYSPERWEEK :: int where "DAYSPERWEEK = 7"
definition YEAR_BASE :: int where "YEAR_BASE = 1900"

lemmas time_consts =
  SECSPERMIN_def MINSPERHOUR_def HOURSPERDAY_def SECSPERHOUR_def SECSPERDAY_def
  DAYSPERWEEK_def YEAR_BASE_def

definition month_lengths :: "bool \<Rightarrow> int list" where
  "month_lengths leap =
     (if leap then [31, 29, 31, 30, 31, 30, 31, 31, 30, 31, 30, 31]
      else [31, 28, 31, 30, 31, 30, 31, 31, 30, 31, 30, 31])"

definition isleap :: "int \<Rightarrow> bool" where
  "isleap y \<longleftrightarrow> cmod y 4 = 0 \<and> (cmod y 100 \<noteq> 0 \<or> cmod y 400 = 0)"

definition isleap2 :: "int \<Rightarrow> int \<Rightarrow> bool" where
  "isleap2 y y_off = isleap (if y_off \<noteq> 0 then cmod y 400 + y_off else y)"

section \<open>\<open>gmtime_r\<close>\<close>

definition EPOCH_ADJUSTMENT_DAYS :: int where "EPOCH_ADJUSTMENT_DAYS = 719468"
definition ADJUSTED_EPOCH_YEAR :: int where "ADJUSTED_EPOCH_YEAR = 0"
definition ADJUSTED_EPOCH_WDAY :: int where "ADJUSTED_EPOCH_WDAY = 3"
definition DAYS_PER_ERA :: int where "DAYS_PER_ERA = 146097"
definition DAYS_PER_CENTURY :: int where "DAYS_PER_CENTURY = 36524"
definition DAYS_PER_4_YEARS :: int where "DAYS_PER_4_YEARS = 3 * 365 + 366"
definition DAYS_PER_YEAR :: int where "DAYS_PER_YEAR = 365"
definition DAYS_IN_JANUARY :: int where "DAYS_IN_JANUARY = 31"
definition DAYS_IN_FEBRUARY :: int where "DAYS_IN_FEBRUARY = 28"
definition YEARS_PER_ERA :: int where "YEARS_PER_ERA = 400"

lemmas gmtime_consts =
  EPOCH_ADJUSTMENT_DAYS_def ADJUSTED_EPOCH_YEAR_def ADJUSTED_EPOCH_WDAY_def DAYS_PER_ERA_def
  DAYS_PER_CENTURY_def DAYS_PER_4_YEARS_def DAYS_PER_YEAR_def DAYS_IN_JANUARY_def
  DAYS_IN_FEBRUARY_def YEARS_PER_ERA_def

text \<open>
  The year inside an era and the day inside that year (years start on the
  first of March), from the day of the era.  All operands are unsigned.
\<close>

definition era_year :: "int \<Rightarrow> int" where
  "era_year eraday =
     to_u32 (to_u64 (eraday - eraday div (DAYS_PER_4_YEARS - 1) + eraday div DAYS_PER_CENTURY
                     - eraday div (DAYS_PER_ERA - 1)) div 365)"

definition era_yearday :: "int \<Rightarrow> int \<Rightarrow> int" where
  "era_yearday eraday erayear =
     to_u32 (eraday - to_u32 (DAYS_PER_YEAR * erayear + erayear div 4 - erayear div 100))"

text \<open>
  \<open>gmtime_r\<close> fills \<open>res\<close> and returns whether it returned \<open>res\<close> (\<open>True\<close>) or
  \<open>NULL\<close>; in the latter case the fields it had already stored stay.
\<close>

definition gmtime_r :: "int \<Rightarrow> tm \<Rightarrow> tm \<times> bool" where
  "gmtime_r lcltime res =
     (let days = cdiv lcltime SECSPERDAY + EPOCH_ADJUSTMENT_DAYS;
          rem = cmod lcltime SECSPERDAY;
          (rem, days) = (if rem < 0 then (rem + SECSPERDAY, days - 1) else (rem, days));
          res = res\<lparr>tm_hour := cdiv rem SECSPERHOUR\<rparr>;
          rem = cmod rem SECSPERHOUR;
          res = res\<lparr>tm_min := cdiv rem SECSPERMIN\<rparr>;
          res = res\<lparr>tm_sec := cmod rem SECSPERMIN\<rparr>;
          weekday = cmod (ADJUSTED_EPOCH_WDAY + days) DAYSPERWEEK;
          weekday = (if weekday < 0 then weekday + DAYSPERWEEK else weekday);
          res = res\<lparr>tm_wday := weekday\<rparr>;
          era = cdiv (if days \<ge> 0 then days else days - (DAYS_PER_ERA - 1)) DAYS_PER_ERA;
          eraday = to_u64 (days - era * DAYS_PER_ERA);
          erayear = era_year eraday;
          yearday = era_yearday eraday erayear;
          month = to_u32 (5 * yearday + 2) div 153;
          day = to_u32 (yearday - to_u32 (153 * month + 2) div 5 + 1);
          month = to_u32 (month + (if month < 10 then 2 else - 10));
          year = ADJUSTED_EPOCH_YEAR + erayear + era * YEARS_PER_ERA + (if month \<le> 1 then 1 else 0);
          res = res\<lparr>tm_yday :=
            (if yearday \<ge> DAYS_PER_YEAR - DAYS_IN_JANUARY - DAYS_IN_FEBRUARY
             then yearday - (DAYS_PER_YEAR - DAYS_IN_JANUARY - DAYS_IN_FEBRUARY)
             else yearday + DAYS_IN_JANUARY + DAYS_IN_FEBRUARY + of_bool (isleap erayear))\<rparr>;
          year = year - YEAR_BASE
      in if year > INT_MAX \<or> year < INT_MIN then (res, False)
         else (res\<lparr>tm_year := year, tm_mon := month, tm_mday := day, tm_isdst := 0\<rparr>, True))"

section \<open>\<open>mktime.c\<close>: normalisation\<close>

definition DAYS_BEFORE_MONTH :: "int list" where
  "DAYS_BEFORE_MONTH = [0, 31, 59, 90, 120, 151, 181, 212, 243, 273, 304, 334]"

definition DAYS_IN_MONTH :: "int \<Rightarrow> int \<Rightarrow> int option" where
  "DAYS_IN_MONTH days_in_feb x =
     (if x = 1 then Some days_in_feb else arr_get (month_lengths False) x)"

definition DAYS_IN_YEAR :: "int \<Rightarrow> int" where
  "DAYS_IN_YEAR year = 365 + of_bool (isleap2 year YEAR_BASE)"

definition set_tm_wday :: "int \<Rightarrow> tm \<Rightarrow> tm" where
  "set_tm_wday days tim_p =
     (let tim_p = tim_p\<lparr>tm_wday := cmod (days + 4) 7\<rparr>
      in if tm_wday tim_p < 0 then tim_p\<lparr>tm_wday := tm_wday tim_p + 7\<rparr> else tim_p)"

text \<open>
  One field of the normalisation: \<open>x\<close> is reduced to \<open>[0, lim)\<close> and the
  quotient carried to the next field; the four blocks of the code differ only
  in the field and the limit.
\<close>

definition carry :: "int \<Rightarrow> int \<Rightarrow> int \<Rightarrow> (int \<times> int) option" where
  "carry lim x up =
     (if x < 0 \<or> x > lim - 1 then do {
        up \<leftarrow> ck32 (up + cdiv x lim);
        let x = cmod x lim;
        if x < 0 then do { up \<leftarrow> ck32 (up - 1); Some (x + lim, up) } else Some (x, up)
      } else Some (x, up))"

partial_function (option) mday_down ::
  "int \<Rightarrow> int \<Rightarrow> int \<Rightarrow> int \<Rightarrow> int \<Rightarrow> (int \<times> int \<times> int) option" where
  "mday_down year mday mon year_off days_in_feb =
     (if mday \<le> 0 then do {
        let mon = mon - 1;
        let (year_off, mon, days_in_feb) =
          (if mon = - 1
           then (year_off - 1, 11, if isleap2 year (year_off - 1 + YEAR_BASE) then 29 else 28)
           else (year_off, mon, days_in_feb));
        len \<leftarrow> DAYS_IN_MONTH days_in_feb mon;
        mday_down year (mday + len) mon year_off days_in_feb
      } else Some (mday, mon, year_off))"

partial_function (option) mday_up ::
  "int \<Rightarrow> int \<Rightarrow> int \<Rightarrow> int \<Rightarrow> int \<Rightarrow> (int \<times> int \<times> int) option" where
  "mday_up year mday mon year_off days_in_feb = do {
     len \<leftarrow> DAYS_IN_MONTH days_in_feb mon;
     if mday > len then do {
       let mday = mday - len;
       let mon = mon + 1;
       let (year_off, mon, days_in_feb) =
         (if mon = 12
          then (year_off + 1, 0, if isleap2 year (year_off + 1 + YEAR_BASE) then 29 else 28)
          else (year_off, mon, days_in_feb));
       mday_up year mday mon year_off days_in_feb
     } else Some (mday, mon, year_off) }"

declare mday_down.simps [code] mday_up.simps [code]

definition picolibc_add_overflow :: "int \<Rightarrow> int \<Rightarrow> int \<times> bool" where
  "picolibc_add_overflow a b =
     (let c = sint (word_of_int (a + b) :: u32) in (c, c \<noteq> a + b))"

definition validate_structure :: "tm \<Rightarrow> (tm \<times> bool) option" where
  "validate_structure tim_p = do {
     (sec, min) \<leftarrow> carry 60 (tm_sec tim_p) (tm_min tim_p);
     (min, hour) \<leftarrow> carry 60 min (tm_hour tim_p);
     (hour, mday) \<leftarrow> carry 24 hour (tm_mday tim_p);
     (mon, year_off) \<leftarrow> carry 12 (tm_mon tim_p) 0;
     let year = tm_year tim_p;
     let days_in_feb = (if isleap2 year (year_off + YEAR_BASE) then 29 else 28);
     (mday, mon, year_off) \<leftarrow>
       (if mday \<le> 0 then mday_down year mday mon year_off days_in_feb
        else mday_up year mday mon year_off days_in_feb);
     let (year, overflow) = picolibc_add_overflow year year_off;
     Some (tim_p\<lparr>tm_sec := sec, tm_min := min, tm_hour := hour, tm_mday := mday,
                 tm_mon := mon, tm_year := year\<rparr>, \<not> overflow) }"

section \<open>\<open>mktime.c\<close>: counting\<close>

definition DAYSPERHCEN :: int where "DAYSPERHCEN = 3652425"
definition DAY_MAX :: int where "DAY_MAX = cdiv TIME_T_MAX SECSPERDAY"
definition DAY_MIN :: int where "DAY_MIN = cdiv TIME_T_MIN SECSPERDAY"

text \<open>The negative branch divides the negated \<open>unsigned\<close> value.\<close>

definition split_hcen :: "int \<Rightarrow> int" where
  "split_hcen year =
     (if year > 0 then cdiv year 10000
      else sint (- ((- (word_of_int year :: u32)) div 10000)))"

function years_up :: "int \<Rightarrow> int \<Rightarrow> int \<Rightarrow> int" where
  "years_up y year days =
     (if y < year then years_up (y + 1) year (days + DAYS_IN_YEAR y) else days)"
  by auto
termination by (relation "measure (\<lambda>(y, year, _). nat (year - y))") auto

function years_down :: "int \<Rightarrow> int \<Rightarrow> int \<Rightarrow> int" where
  "years_down y year days =
     (if y > year then years_down (y - 1) year (days - DAYS_IN_YEAR y)
      else days - DAYS_IN_YEAR y)"
  by auto
termination by (relation "measure (\<lambda>(y, year, _). nat (y - year))") auto

declare years_up.simps [simp del] years_down.simps [simp del]

definition add_years :: "int \<Rightarrow> int \<Rightarrow> int" where
  "add_years year days =
     (let hundredcentury = split_hcen year;
          year = year - hundredcentury * 10000;
          days = days + hundredcentury * DAYSPERHCEN
      in if year > 70 then years_up 70 year days
         else if year < 70 then years_down 69 year days else days)"

definition mktime_utc :: "tm \<Rightarrow> (tm \<times> (errno + int \<times> int)) option" where
  "mktime_utc tim_p = do {
     (tim_p, ok) \<leftarrow> validate_structure tim_p;
     if \<not> ok then Some (tim_p, Inl EOVERFLOW) else do {
       let tim = tm_sec tim_p + tm_min tim_p * SECSPERMIN + tm_hour tim_p * SECSPERHOUR;
       before \<leftarrow> arr_get DAYS_BEFORE_MONTH (tm_mon tim_p);
       let days = tm_mday tim_p - 1 + before;
       let days = (if tm_mon tim_p > 1 \<and> isleap2 (tm_year tim_p) YEAR_BASE then days + 1 else days);
       let tim_p = tim_p\<lparr>tm_yday := days\<rparr>;
       let days = add_years (tm_year tim_p) days;
       if days < DAY_MIN \<or> DAY_MAX < days then Some (tim_p, Inl EOVERFLOW) else do {
         let daysecs = days * SECSPERDAY;
         tim \<leftarrow> ck64 (tim + daysecs);
         if daysecs > 0 \<and> tim < 0 then Some (tim_p, Inl EOVERFLOW)
         else Some (tim_p, Inr (tim, days)) } } }"

text \<open>
  \<open>timegm\<close> returns the structure, the \<open>time_t\<close> and the value stored in
  \<open>errno\<close>, if any.  The failure of \<open>mktime_utc\<close> is the in-band value \<open>-1\<close>.
\<close>

definition timegm :: "tm \<Rightarrow> (tm \<times> int \<times> errno option) option" where
  "timegm tim_p = do {
     (tim_p, r) \<leftarrow> mktime_utc tim_p;
     case r of
       Inl e \<Rightarrow> Some (tim_p, - 1, Some e)
     | Inr (tim, days) \<Rightarrow>
         if tim = - 1 then Some (tim_p, tim, None)
         else let tim_p = tim_p\<lparr>tm_isdst := 0\<rparr> in Some (set_tm_wday days tim_p, tim, None) }"

section \<open>The Gregorian calendar\<close>

definition leap :: "int \<Rightarrow> bool" where
  "leap Y \<longleftrightarrow> Y mod 4 = 0 \<and> (Y mod 100 \<noteq> 0 \<or> Y mod 400 = 0)"

text \<open>Days from 1970-01-01 to the first of January of year \<open>Y\<close>.\<close>

definition jan1 :: "int \<Rightarrow> int" where
  "jan1 Y = 365 * Y + (Y - 1) div 4 - (Y - 1) div 100 + (Y - 1) div 400 - 719527"

definition month_start :: "int \<Rightarrow> int \<Rightarrow> int" where
  "month_start Y k = sum_list (take (nat k) (month_lengths (leap Y)))"

text \<open>
  The day number of a date whose month (from 0) and day (from 1) may be any
  integers: months carry into years, and days count on from the first of the
  month.
\<close>

definition civil :: "int \<Rightarrow> int \<Rightarrow> int \<Rightarrow> int" where
  "civil Y mon mday =
     (let Y = Y + mon div 12; k = mon mod 12 in jan1 Y + month_start Y k + mday - 1)"

definition tm_days :: "tm \<Rightarrow> int" where
  "tm_days t = civil (tm_year t + 1900) (tm_mon t) (tm_mday t)"

definition tm_time :: "tm \<Rightarrow> int" where
  "tm_time t = tm_days t * 86400 + tm_hour t * 3600 + tm_min t * 60 + tm_sec t"

text \<open>Every field in the range the C standard gives it.\<close>

definition tm_normal :: "tm \<Rightarrow> bool" where
  "tm_normal t \<longleftrightarrow>
     0 \<le> tm_sec t \<and> tm_sec t < 60 \<and> 0 \<le> tm_min t \<and> tm_min t < 60 \<and>
     0 \<le> tm_hour t \<and> tm_hour t < 24 \<and> 0 \<le> tm_mon t \<and> tm_mon t < 12 \<and>
     1 \<le> tm_mday t \<and> tm_mday t \<le> month_lengths (leap (tm_year t + 1900)) ! nat (tm_mon t)"

text \<open>The derived fields agree with the date.\<close>

definition tm_derived :: "tm \<Rightarrow> bool" where
  "tm_derived t \<longleftrightarrow>
     tm_wday t = (tm_days t + 4) mod 7 \<and>
     tm_yday t = tm_days t - jan1 (tm_year t + 1900)"

section \<open>Leap years and day counts\<close>

lemma cmod_eq_0_iff: "0 < b \<Longrightarrow> cmod a b = 0 \<longleftrightarrow> a mod b = 0"
  by (cases "a < 0") (simp_all add: cmod_neg cmod_nonneg mod_eq_0_iff_dvd)

lemma isleap_leap [simp]: "isleap y = leap y"
  by (simp add: isleap_def leap_def cmod_eq_0_iff)

lemma leap_shift: "leap (y + 400 * k) = leap y"
proof -
  have "(y + 400 * k) mod 4 = y mod 4" "(y + 400 * k) mod 100 = y mod 100"
    "(y + 400 * k) mod 400 = y mod 400"
    by (simp_all add: mod_add_eq [symmetric] mod_mult_eq [symmetric, of 400])
  then show ?thesis by (simp add: leap_def)
qed

lemma isleap2_leap [simp]: "isleap2 y y_off = leap (y + y_off)"
proof -
  have "leap (cmod y 400 + y_off) = leap (y + y_off)"
    using leap_shift [of "cmod y 400 + y_off" "cdiv y 400"] cdiv_cmod [of y 400]
    by (simp add: algebra_simps)
  then show ?thesis by (simp add: isleap2_def)
qed

lemma of_bool_leap:
  "(c \<Longrightarrow> b) \<Longrightarrow> (b \<Longrightarrow> a) \<Longrightarrow>
     of_bool (a \<and> (\<not> b \<or> c)) = of_bool a - of_bool b + (of_bool c :: int)"
  by (cases a; cases b; cases c) simp_all

lemma leap_div:
  "of_bool (leap Y) = Y div 4 - (Y - 1) div 4 - (Y div 100 - (Y - 1) div 100)
     + (Y div 400 - (Y - 1) div 400)"
proof -
  have step: "Y div n - (Y - 1) div n = of_bool (Y mod n = 0)" if "1 < n" for n :: int
  proof -
    have "(Y - 1) div n = (if Y mod n = 0 then Y div n - 1 else Y div n)"
    proof (cases "Y mod n = 0")
      case True
      then have "Y - 1 = n * (Y div n - 1) + (n - 1)"
        using mult_div_mod_eq [of n Y] by (simp add: algebra_simps)
      from int_div_pos_eq [OF this] True that show ?thesis by simp
    next
      case False
      have "0 \<le> Y mod n" using that by simp
      then have lo: "0 \<le> Y mod n - 1" using False by linarith
      have "Y mod n < n" using that by simp
      then have hi: "Y mod n - 1 < n" by linarith
      have "Y - 1 = n * (Y div n) + (Y mod n - 1)" by simp
      from int_div_pos_eq [OF this lo hi] False show ?thesis by simp
    qed
    then show ?thesis by simp
  qed
  have s4: "Y div 4 - (Y - 1) div 4 = of_bool (Y mod 4 = 0)" by (rule step) simp
  have s100: "Y div 100 - (Y - 1) div 100 = of_bool (Y mod 100 = 0)" by (rule step) simp
  have s400: "Y div 400 - (Y - 1) div 400 = of_bool (Y mod 400 = 0)" by (rule step) simp
  have "Y mod 400 = 0 \<Longrightarrow> Y mod 100 = 0" "Y mod 100 = 0 \<Longrightarrow> Y mod 4 = 0"
    unfolding mod_eq_0_iff_dvd
    by (rule dvd_trans [of _ 400], simp, assumption) (rule dvd_trans [of _ 100], simp, assumption)
  then show ?thesis
    unfolding leap_def s4 s100 s400
    by (rule of_bool_leap)
qed

lemma jan1_Suc: "jan1 (Y + 1) = jan1 Y + 365 + of_bool (leap Y)"
  by (simp add: jan1_def leap_div)

lemma jan1_epoch: "jan1 1970 = 0"
  by (simp add: jan1_def)

lemma less_12_cases:
  assumes "0 \<le> (k::int)" "k < 12"
  obtains "k = 0" | "k = 1" | "k = 2" | "k = 3" | "k = 4" | "k = 5" | "k = 6" | "k = 7" | "k = 8"
    | "k = 9" | "k = 10" | "k = 11"
  using assms by atomize_elim arith

abbreviation month_len :: "int \<Rightarrow> int \<Rightarrow> int" where
  "month_len Y k \<equiv> month_lengths (leap Y) ! nat k"

abbreviation feb_len :: "int \<Rightarrow> int" where
  "feb_len Y \<equiv> (if leap Y then 29 else 28)"

lemma month_len_bounds:
  assumes "0 \<le> k" "k < 12" shows "28 \<le> month_len Y k \<and> month_len Y k \<le> 31"
  using assms by (cases rule: less_12_cases) (auto simp: month_lengths_def)

lemma DAYS_IN_MONTH_ok:
  assumes "0 \<le> k" "k < 12"
  shows "DAYS_IN_MONTH (feb_len Y) k = Some (month_len Y k)"
  using assms
  by (cases rule: less_12_cases) (auto simp: DAYS_IN_MONTH_def arr_get_def month_lengths_def)

lemma month_start_Suc:
  assumes "0 \<le> k" "k < 12"
  shows "month_start Y (k + 1) = month_start Y k + month_len Y k"
proof -
  have "nat (k + 1) = Suc (nat k)" "nat k < length (month_lengths (leap Y))"
    using assms by (simp_all add: nat_add_distrib month_lengths_def)
  then show ?thesis by (simp add: month_start_def take_Suc_conv_app_nth)
qed

lemma month_start_0 [simp]: "month_start Y 0 = 0"
  by (simp add: month_start_def)

lemma month_start_12: "month_start Y 12 = 365 + of_bool (leap Y)"
  by (simp add: month_start_def month_lengths_def)

lemma days_before_month:
  assumes "0 \<le> k" "k < 12"
  shows "arr_get DAYS_BEFORE_MONTH k = Some (month_start Y k - of_bool (k > 1 \<and> leap Y))"
  using assms
  by (cases rule: less_12_cases)
     (auto simp: arr_get_def DAYS_BEFORE_MONTH_def month_start_def month_lengths_def)

lemma month_start_bounds:
  assumes "0 \<le> k" "k < 12"
  shows "0 \<le> month_start Y k \<and> month_start Y k + month_len Y k \<le> 365 + of_bool (leap Y)"
  using assms
  by (cases rule: less_12_cases) (auto simp: month_start_def month_lengths_def)

lemma civil_in_year:
  "0 \<le> mon \<Longrightarrow> mon < 12 \<Longrightarrow> civil Y mon mday = jan1 Y + month_start Y mon + mday - 1"
  by (simp add: civil_def)

lemma civil_year_end: "civil Y 12 mday = civil (Y + 1) 0 mday"
  by (simp add: civil_def)

lemma civil_next_month:
  assumes "0 \<le> mon" "mon < 12"
  shows "civil Y mon (mday + month_len Y mon) = civil Y (mon + 1) mday"
proof (cases "mon = 11")
  case True
  have "month_start Y 11 + month_len Y 11 = 365 + of_bool (leap Y)"
    using month_start_Suc [of 11 Y] by (simp add: month_start_12)
  then show ?thesis using True
    by (simp add: civil_in_year civil_year_end jan1_Suc)
next
  case False
  then show ?thesis using assms by (simp add: civil_in_year month_start_Suc)
qed

lemma civil_carry: "civil Y (mon + 12 * q) mday = civil (Y + q) mon mday"
  by (simp add: civil_def Let_def algebra_simps)

section \<open>Normalisation\<close>

lemma div_mod_of_cdiv:
  assumes "0 < b"
  shows "a div b = (if cmod a b < 0 then cdiv a b - 1 else cdiv a b)
    \<and> a mod b = (if cmod a b < 0 then cmod a b + b else cmod a b)"
proof -
  have *: "cdiv a b * b + cmod a b = a" by (rule cdiv_cmod)
  have b: "\<bar>cmod a b\<bar> < b" using assms by (rule cmod_bound)
  show ?thesis
  proof (cases "cmod a b < 0")
    case True
    have "a = b * (cdiv a b - 1) + (cmod a b + b)" using * by (simp add: algebra_simps)
    then show ?thesis using True b by (simp add: int_div_pos_eq int_mod_pos_eq)
  next
    case False
    have "a = b * cdiv a b + cmod a b" using * by (simp add: algebra_simps)
    then show ?thesis using False b by (simp add: int_div_pos_eq int_mod_pos_eq)
  qed
qed

lemma carry_div_mod:
  assumes "carry lim x up = Some (x', up')" and "0 < lim"
  shows "x' = x mod lim \<and> up' = up + x div lim"
  using assms div_mod_of_cdiv [OF assms(2), of x]
  by (auto simp: carry_def ck32_def Let_def split: if_splits)

lemma carry_ok:
  assumes "carry lim x up = Some (x', up')" and "0 < lim"
  shows "0 \<le> x' \<and> x' < lim \<and> up' * lim + x' = up * lim + x"
  using carry_div_mod [OF assms] assms(2) by (simp add: algebra_simps)

lemma carry_defined:
  assumes "0 < lim" "INT_MIN \<le> up + x div lim" "up + x div lim \<le> INT_MAX" "up \<le> INT_MAX"
  shows "carry lim x up = Some (x mod lim, up + x div lim)"
proof (cases "x < 0 \<or> x > lim - 1")
  case True
  have "cmod x lim < 0 \<Longrightarrow> cdiv x lim \<le> 0"
    using assms(1) pos_mod_sign [of lim x] cmod_nonneg [of x lim]
    by (cases "x < 0") (simp add: cdiv_neg pos_imp_zdiv_nonneg_iff, linarith)
  with True show ?thesis using assms div_mod_of_cdiv [OF assms(1), of x]
    by (auto simp: carry_def ck32_def Let_def split: if_splits)
next
  case False
  then show ?thesis using assms by (simp add: carry_def)
qed

lemma mday_down_ok:
  assumes "0 \<le> mon" "mon < 12" "mday \<le> month_len (year + 1900 + off) mon"
  shows "\<exists>md mo off'. mday_down year mday mon off (feb_len (year + 1900 + off)) = Some (md, mo, off')
    \<and> 0 \<le> mo \<and> mo < 12 \<and> 1 \<le> md \<and> md \<le> month_len (year + 1900 + off') mo
    \<and> civil (year + 1900 + off') mo md = civil (year + 1900 + off) mon mday
    \<and> off + min mday 1 - 1 \<le> off' \<and> off' \<le> off"
  using assms
proof (induction "nat (1 - mday)" arbitrary: mday mon off rule: less_induct)
  case less
  show ?case
  proof (cases "mday \<le> 0")
    case False
    then show ?thesis using less.prems by (subst mday_down.simps) auto
  next
    case True
    define off1 where "off1 = (if mon = 0 then off - 1 else off)"
    define mon1 where "mon1 = (if mon = 0 then 11 else mon - 1)"
    let ?Y1 = "year + 1900 + off1"
    have mon1: "0 \<le> mon1" "mon1 < 12" using less.prems by (auto simp: mon1_def)
    note len = month_len_bounds [OF mon1, of ?Y1]
    have step: "mday_down year mday mon off (feb_len (year + 1900 + off)) =
        mday_down year (mday + month_len ?Y1 mon1) mon1 off1 (feb_len ?Y1)"
      using True less.prems DAYS_IN_MONTH_ok [OF mon1, of ?Y1]
      by (subst mday_down.simps) (auto simp: off1_def mon1_def YEAR_BASE_def Let_def algebra_simps)
    have same: "civil ?Y1 mon1 (mday + month_len ?Y1 mon1) = civil (year + 1900 + off) mon mday"
    proof (cases "mon = 0")
      case True
      then have "?Y1 + 1 = year + 1900 + off" "mon1 + 1 = 12" by (simp_all add: off1_def mon1_def)
      then show ?thesis using civil_next_month [OF mon1, of ?Y1 mday] civil_year_end [of ?Y1 mday] True
        by (simp only:)
    next
      case False
      then have "?Y1 = year + 1900 + off" "mon1 + 1 = mon" by (simp_all add: off1_def mon1_def)
      then show ?thesis using civil_next_month [OF mon1, of ?Y1 mday] by simp
    qed
    have "nat (1 - (mday + month_len ?Y1 mon1)) < nat (1 - mday)" using len True by simp
    from less.hyps [OF this mon1, of off1] True obtain md mo off' where
      "mday_down year (mday + month_len ?Y1 mon1) mon1 off1 (feb_len ?Y1) = Some (md, mo, off')"
      "0 \<le> mo" "mo < 12" "1 \<le> md" "md \<le> month_len (year + 1900 + off') mo"
      "civil (year + 1900 + off') mo md = civil ?Y1 mon1 (mday + month_len ?Y1 mon1)"
      "off1 + min (mday + month_len ?Y1 mon1) 1 - 1 \<le> off'" "off' \<le> off1"
      by auto
    then show ?thesis unfolding step same using len True by (auto simp: off1_def split: if_splits)
  qed
qed

lemma mday_up_ok:
  assumes "0 \<le> mon" "mon < 12" "1 \<le> mday"
  shows "\<exists>md mo off'. mday_up year mday mon off (feb_len (year + 1900 + off)) = Some (md, mo, off')
    \<and> 0 \<le> mo \<and> mo < 12 \<and> 1 \<le> md \<and> md \<le> month_len (year + 1900 + off') mo
    \<and> civil (year + 1900 + off') mo md = civil (year + 1900 + off) mon mday
    \<and> off \<le> off' \<and> off' \<le> off + mday"
  using assms
proof (induction "nat mday" arbitrary: mday mon off rule: less_induct)
  case less
  let ?Y = "year + 1900 + off" and ?len = "month_len (year + 1900 + off) mon"
  note mon = less.prems(1,2)
  note len = month_len_bounds [OF mon, of ?Y]
  show ?case
  proof (cases "mday \<le> ?len")
    case True
    then show ?thesis using less.prems DAYS_IN_MONTH_ok [OF mon, of ?Y]
      by (subst mday_up.simps) auto
  next
    case False
    define off1 where "off1 = (if mon = 11 then off + 1 else off)"
    define mon1 where "mon1 = (if mon = 11 then 0 else mon + 1)"
    let ?Y1 = "year + 1900 + off1"
    have mon1: "0 \<le> mon1" "mon1 < 12" using less.prems by (auto simp: mon1_def)
    have step: "mday_up year mday mon off (feb_len ?Y) =
        mday_up year (mday - ?len) mon1 off1 (feb_len ?Y1)"
      using False mon DAYS_IN_MONTH_ok [OF mon, of ?Y]
      by (subst mday_up.simps) (auto simp: off1_def mon1_def YEAR_BASE_def Let_def algebra_simps)
    have same: "civil ?Y1 mon1 (mday - ?len) = civil ?Y mon mday"
    proof (cases "mon = 11")
      case True
      then have "?Y1 = ?Y + 1" "mon1 = 0" "mon + 1 = 12" by (simp_all add: off1_def mon1_def)
      then show ?thesis
        using civil_next_month [OF mon, of ?Y "mday - ?len"] civil_year_end [of ?Y "mday - ?len"]
        by (simp only: diff_add_cancel)
    next
      case False
      then have "?Y1 = ?Y" "mon1 = mon + 1" by (simp_all add: off1_def mon1_def)
      then show ?thesis using civil_next_month [OF mon, of ?Y "mday - ?len"]
        by (simp only: diff_add_cancel)
    qed
    have "nat (mday - ?len) < nat mday" "1 \<le> mday - ?len" using len False less.prems by simp_all
    from less.hyps [OF this(1) mon1 this(2), of off1] obtain md mo off' where
      "mday_up year (mday - ?len) mon1 off1 (feb_len ?Y1) = Some (md, mo, off')"
      "0 \<le> mo" "mo < 12" "1 \<le> md" "md \<le> month_len (year + 1900 + off') mo"
      "civil (year + 1900 + off') mo md = civil ?Y1 mon1 (mday - ?len)"
      "off1 \<le> off'" "off' \<le> off1 + (mday - ?len)"
      by auto
    then show ?thesis unfolding step same using len by (auto simp: off1_def split: if_splits)
  qed
qed

lemma sint32_eq_iff: "sint (word_of_int s :: u32) = s \<longleftrightarrow> INT_MIN \<le> s \<and> s \<le> INT_MAX"
proof
  assume "sint (word_of_int s :: u32) = s"
  then show "INT_MIN \<le> s \<and> s \<le> INT_MAX"
    using sint_greater_eq [of "word_of_int s :: u32"] sint_lt [of "word_of_int s :: u32"]
    by (simp add: range_defs)
next
  assume "INT_MIN \<le> s \<and> s \<le> INT_MAX"
  then show "sint (word_of_int s :: u32) = s"
    by (simp add: range_defs signed_of_int signed_take_bit_int_eq_self_iff)
qed

lemma picolibc_add_overflow_ok:
  "picolibc_add_overflow a b = (c, v) \<Longrightarrow>
     v = (a + b < INT_MIN \<or> INT_MAX < a + b) \<and> (\<not> v \<longrightarrow> c = a + b)"
  using sint32_eq_iff [of "a + b"]
  by (auto simp: picolibc_add_overflow_def Let_def simp del: of_int_add)

text \<open>
  The fields whose carries stay in \<open>int\<close>: what makes the arithmetic of
  \<open>validate_structure\<close> defined.
\<close>

definition carries_fit :: "tm \<Rightarrow> bool" where
  "carries_fit t \<longleftrightarrow>
     (let mi = tm_min t + tm_sec t div 60; ho = tm_hour t + mi div 60; md = tm_mday t + ho div 24
      in \<forall>x \<in> set [tm_sec t, tm_min t, tm_hour t, tm_mday t, tm_mon t, tm_year t, mi, ho, md].
           INT_MIN \<le> x \<and> x \<le> INT_MAX)"

lemma civil_add: "civil Y mon (mday + k) = civil Y mon mday + k"
  by (simp add: civil_def Let_def)

lemma jan1_mono: "X < Y \<Longrightarrow> jan1 X + 365 \<le> jan1 Y"
proof (induction "nat (Y - X)" arbitrary: X)
  case (Suc n)
  show ?case
  proof (cases "X + 1 = Y")
    case True
    then show ?thesis using jan1_Suc [of X] by simp
  next
    case False
    then have "jan1 (X + 1) + 365 \<le> jan1 Y" using Suc by (intro Suc.hyps) auto
    moreover have "jan1 X \<le> jan1 (X + 1)" by (simp only: jan1_Suc) simp
    ultimately show ?thesis by linarith
  qed
qed simp

lemma jan1_le_iff: "jan1 X \<le> jan1 Y \<longleftrightarrow> X \<le> Y"
  using jan1_mono [of X Y] jan1_mono [of Y X] by (cases X Y rule: linorder_cases) auto

lemma jan1_less_iff: "jan1 X < jan1 Y \<longleftrightarrow> X < Y"
  using jan1_le_iff [of Y X] by linarith

lemma civil_year_bounds:
  assumes "0 \<le> mon" "mon < 12" "1 \<le> mday" "mday \<le> month_len Y mon"
  shows "jan1 Y \<le> civil Y mon mday \<and> civil Y mon mday < jan1 (Y + 1)"
  using assms month_start_bounds [OF assms(1,2), of Y] by (simp add: civil_in_year jan1_Suc)

text \<open>The days whose year, counted from 1900, fits an \<open>int\<close>.\<close>

definition day_fits :: "int \<Rightarrow> bool" where
  "day_fits d \<longleftrightarrow> jan1 (INT_MIN + 1900) \<le> d \<and> d < jan1 (INT_MAX + 1901)"

lemma day_fits_iff:
  assumes "jan1 Y \<le> d" "d < jan1 (Y + 1)"
  shows "day_fits d \<longleftrightarrow> INT_MIN \<le> Y - 1900 \<and> Y - 1900 \<le> INT_MAX"
proof -
  have "jan1 Z \<le> d \<longleftrightarrow> Z \<le> Y" for Z
    using assms jan1_le_iff [of Z Y] jan1_le_iff [of "Y + 1" Z] by linarith
  from this [of "INT_MIN + 1900"] this [of "INT_MAX + 1901"] show ?thesis
    by (auto simp: day_fits_def)
qed

lemma mday_loops_ok:
  assumes "0 \<le> mon" "mon < 12"
  obtains md mo off' where
    "(if mday \<le> 0 then mday_down year mday mon off (feb_len (year + 1900 + off))
      else mday_up year mday mon off (feb_len (year + 1900 + off))) = Some (md, mo, off')"
    "0 \<le> mo" "mo < 12" "1 \<le> md" "md \<le> month_len (year + 1900 + off') mo"
    "civil (year + 1900 + off') mo md = civil (year + 1900 + off) mon mday"
proof (cases "mday \<le> 0")
  case True
  then have "mday \<le> month_len (year + 1900 + off) mon"
    using month_len_bounds [OF assms, of "year + 1900 + off"] by linarith
  from mday_down_ok [OF assms this] True that show ?thesis by auto
next
  case False
  then have "1 \<le> mday" by simp
  from mday_up_ok [OF assms this, of year off] False that show ?thesis by auto
qed

lemma hms_sum:
  fixes hr mn sc ho mi :: int
  shows "mn * 60 + sc = mi * 60 + s \<Longrightarrow> hr * 60 + mi = ho * 60 + m \<Longrightarrow> ho = 24 * q + h \<Longrightarrow>
    hr * 3600 + mn * 60 + sc = q * 86400 + (h * 3600 + m * 60 + s)"
  by linarith

lemma validate_structure_ok:
  assumes "carries_fit t"
  obtains t' where "validate_structure t = Some (t', day_fits (tm_time t div 86400))"
    and "day_fits (tm_time t div 86400) \<Longrightarrow>
      tm_normal t' \<and> tm_time t' = tm_time t \<and> INT_MIN \<le> tm_year t' \<and> tm_year t' \<le> INT_MAX"
    and "tm_wday t' = tm_wday t" "tm_yday t' = tm_yday t" "tm_isdst t' = tm_isdst t"
proof -
  define mi where "mi = tm_min t + tm_sec t div 60"
  define ho where "ho = tm_hour t + mi div 60"
  define md0 where "md0 = tm_mday t + ho div 24"
  define off where "off = tm_mon t div 12"
  let ?y = "tm_year t"
  note fit = assms [unfolded carries_fit_def Let_def, folded mi_def, folded ho_def, folded md0_def]
  have c1: "carry 60 (tm_sec t) (tm_min t) = Some (tm_sec t mod 60, mi)"
    using carry_defined [of 60 "tm_min t" "tm_sec t"] fit by (simp add: mi_def)
  have c2: "carry 60 mi (tm_hour t) = Some (mi mod 60, ho)"
    using carry_defined [of 60 "tm_hour t" mi] fit by (simp add: ho_def)
  have c3: "carry 24 ho (tm_mday t) = Some (ho mod 24, md0)"
    using carry_defined [of 24 "tm_mday t" ho] fit by (simp add: md0_def)
  have "INT_MIN \<le> tm_mon t div 12" "tm_mon t div 12 \<le> INT_MAX" "0 \<le> INT_MAX"
    using fit mult_div_mod_eq [of 12 "tm_mon t"] pos_mod_bound [of 12 "tm_mon t"]
      pos_mod_sign [of 12 "tm_mon t"]
    by (simp_all add: range_defs del: mult_div_mod_eq) linarith+
  then have c4: "carry 12 (tm_mon t) 0 = Some (tm_mon t mod 12, off)"
    using carry_defined [of 12 0 "tm_mon t"] by (simp add: off_def)
  obtain md mo off' where loop:
    "(if md0 \<le> 0 then mday_down ?y md0 (tm_mon t mod 12) off (feb_len (?y + 1900 + off))
      else mday_up ?y md0 (tm_mon t mod 12) off (feb_len (?y + 1900 + off))) = Some (md, mo, off')"
    and mo: "0 \<le> mo" "mo < 12" and md: "1 \<le> md" "md \<le> month_len (?y + 1900 + off') mo"
    and civil: "civil (?y + 1900 + off') mo md = civil (?y + 1900 + off) (tm_mon t mod 12) md0"
    by (rule mday_loops_ok [of "tm_mon t mod 12" md0 ?y off]) simp_all
  have day: "civil (?y + 1900) (tm_mon t) (tm_mday t) + ho div 24 = civil (?y + 1900 + off') mo md"
    using civil_carry [of "?y + 1900" "tm_mon t mod 12" off md0] civil
    by (simp add: off_def md0_def civil_add)
  have secs: "tm_time t = civil (?y + 1900 + off') mo md * 86400
      + (ho mod 24 * 3600 + mi mod 60 * 60 + tm_sec t mod 60)"
  proof -
    have "tm_min t * 60 + tm_sec t = mi * 60 + tm_sec t mod 60" by (simp add: mi_def)
    moreover have "tm_hour t * 60 + mi = ho * 60 + mi mod 60" by (simp add: ho_def)
    moreover have "ho = 24 * (ho div 24) + ho mod 24" by simp
    ultimately have "tm_hour t * 3600 + tm_min t * 60 + tm_sec t = ho div 24 * 86400
        + (ho mod 24 * 3600 + mi mod 60 * 60 + tm_sec t mod 60)" by (rule hms_sum)
    then show ?thesis unfolding tm_time_def tm_days_def day [symmetric] by (simp add: distrib_right)
  qed
  have "0 \<le> ho mod 24 * 3600 + mi mod 60 * 60 + tm_sec t mod 60"
    "ho mod 24 * 3600 + mi mod 60 * 60 + tm_sec t mod 60 < 86400"
    using pos_mod_bound [of 24 ho] pos_mod_bound [of 60 mi] pos_mod_bound [of 60 "tm_sec t"]
      pos_mod_sign [of 24 ho] pos_mod_sign [of 60 mi] pos_mod_sign [of 60 "tm_sec t"] by linarith+
  then have d: "tm_time t div 86400 = civil (?y + 1900 + off') mo md"
    unfolding secs by (simp add: int_div_pos_eq)
  obtain y v where pv: "picolibc_add_overflow ?y off' = (y, v)" by fastforce
  note ov = picolibc_add_overflow_ok [OF pv]
  have fits: "day_fits (tm_time t div 86400) \<longleftrightarrow> \<not> v"
    using ov day_fits_iff [OF conjunct1 [OF civil_year_bounds [OF mo md]]
        conjunct2 [OF civil_year_bounds [OF mo md]]]
    by (auto simp: d algebra_simps)
  let ?t = "t\<lparr>tm_sec := tm_sec t mod 60, tm_min := mi mod 60, tm_hour := ho mod 24, tm_mday := md,
              tm_mon := mo, tm_year := y\<rparr>"
  show thesis
  proof (rule that)
    have lp: "isleap2 ?y (off + YEAR_BASE) = leap (?y + 1900 + off)"
      by (simp add: YEAR_BASE_def algebra_simps)
    show "validate_structure t = Some (?t, day_fits (tm_time t div 86400))"
      by (simp add: validate_structure_def c1 c2 c3 c4 loop [folded lp] pv fits Let_def
          del: isleap2_leap split del: if_split)
    assume "day_fits (tm_time t div 86400)"
    then have y: "y = ?y + off'" "INT_MIN \<le> y" "y \<le> INT_MAX" using ov fits by auto
    have Y: "y + 1900 = ?y + 1900 + off'" unfolding y by simp
    have "tm_time ?t = tm_time t" unfolding secs by (simp add: tm_time_def tm_days_def Y)
    then show "tm_normal ?t \<and> tm_time ?t = tm_time t \<and> INT_MIN \<le> tm_year ?t \<and> tm_year ?t \<le> INT_MAX"
      using mo md y(2,3) by (simp add: tm_normal_def Y)
  qed simp_all
qed

section \<open>Counting days and seconds\<close>

lemma DAYS_IN_YEAR_jan1: "DAYS_IN_YEAR y = jan1 (y + 1901) - jan1 (y + 1900)"
proof -
  have "y + 1901 = y + 1900 + 1" by simp
  then show ?thesis by (simp only: jan1_Suc) (simp add: DAYS_IN_YEAR_def YEAR_BASE_def)
qed

lemma years_up_jan1: "y \<le> year \<Longrightarrow> years_up y year days = days + jan1 (year + 1900) - jan1 (y + 1900)"
proof (induction y year days rule: years_up.induct)
  case (1 y year days)
  then show ?case
    by (subst years_up.simps) (auto simp: DAYS_IN_YEAR_jan1 algebra_simps)
qed

lemma years_down_jan1:
  "year \<le> y \<Longrightarrow> years_down y year days = days + jan1 (year + 1900) - jan1 (y + 1901)"
proof (induction y year days rule: years_down.induct)
  case (1 y year days)
  then show ?case
    by (subst years_down.simps) (auto simp: DAYS_IN_YEAR_jan1 algebra_simps)
qed

lemma jan1_10000: "jan1 (Y + 10000 * k) = jan1 Y + DAYSPERHCEN * k"
proof -
  have "(Y + 10000 * k - 1) div n = (Y - 1) div n + 10000 div n * k" if n: "n dvd 10000" "n \<noteq> 0" for n
  proof -
    obtain c where c: "10000 = n * c" using n(1) by (rule dvdE)
    have "Y + 10000 * k - 1 = (Y - 1) + n * (c * k)" unfolding c by (simp add: algebra_simps)
    then have "(Y + 10000 * k - 1) div n = c * k + (Y - 1) div n" using n(2) by (simp only:) simp
    then show ?thesis using n(2) by (simp add: c)
  qed
  from this [of 4] this [of 100] this [of 400] show ?thesis
    by (simp add: jan1_def DAYSPERHCEN_def)
qed

lemma split_hcen_cdiv:
  assumes "INT_MIN \<le> year" "year \<le> INT_MAX"
  shows "split_hcen year = cdiv year 10000"
proof (cases "year > 0")
  case False
  have "uint (word_of_int n :: u32) = n" if "0 \<le> n" "n < 2 ^ 32" for n
    using that by (simp add: unsigned_of_int take_bit_int_eq_self)
  from this [of "- year"] have "uint (- (word_of_int year :: u32)) = - year"
    using False assms by (simp add: range_defs)
  then have "- ((- (word_of_int year :: u32)) div 10000) = word_of_int (- ((- year) div 10000))"
    by (simp add: word_div_def)
  moreover have "INT_MIN \<le> - ((- year) div 10000)" "- ((- year) div 10000) \<le> INT_MAX"
    using False assms by (simp_all add: range_defs)
  ultimately have "split_hcen year = - ((- year) div 10000)"
    using False sint32_eq_iff [of "- ((- year) div 10000)"] by (simp add: split_hcen_def)
  then show ?thesis using False by (cases "year = 0") (simp_all add: cdiv_neg cdiv_def)
qed (simp add: split_hcen_def)

lemma add_years_jan1:
  assumes "INT_MIN \<le> year" "year \<le> INT_MAX"
  shows "add_years year days = days + jan1 (year + 1900)"
proof -
  let ?hc = "split_hcen year" and ?y = "year - split_hcen year * 10000"
  have "jan1 (year + 1900) = jan1 (?y + 1900) + ?hc * DAYSPERHCEN"
    using jan1_10000 [of "?y + 1900" ?hc] by (simp add: algebra_simps)
  moreover have "years_up 70 ?y d = d + jan1 (?y + 1900)" if "?y > 70" for d
    using years_up_jan1 [of 70 ?y d] that by (simp add: jan1_epoch)
  moreover have "years_down 69 ?y d = d + jan1 (?y + 1900)" if "?y < 70" for d
    using years_down_jan1 [of ?y 69 d] that by (simp add: jan1_epoch)
  moreover have "jan1 (?y + 1900) = 0" if "?y = 70"
    using that by (simp add: jan1_epoch)
  ultimately show ?thesis by (auto simp: add_years_def Let_def)
qed

lemma day_fits_bounds: "day_fits d \<Longrightarrow> - 800000000000 \<le> d \<and> d \<le> 800000000000"
  by (simp add: day_fits_def jan1_def range_defs)

lemma tm_normal_day:
  assumes "tm_normal t"
  shows "tm_time t div 86400 = tm_days t"
    and "tm_time t = tm_sec t + tm_min t * 60 + tm_hour t * 3600 + tm_days t * 86400"
    and "0 \<le> tm_sec t + tm_min t * 60 + tm_hour t * 3600"
    and "tm_sec t + tm_min t * 60 + tm_hour t * 3600 < 86400"
proof -
  show t: "tm_time t = tm_sec t + tm_min t * 60 + tm_hour t * 3600 + tm_days t * 86400"
    by (simp add: tm_time_def)
  show b: "0 \<le> tm_sec t + tm_min t * 60 + tm_hour t * 3600"
    "tm_sec t + tm_min t * 60 + tm_hour t * 3600 < 86400"
    using assms by (simp_all add: tm_normal_def)
  show "tm_time t div 86400 = tm_days t" unfolding t using b by (simp add: int_div_pos_eq)
qed

lemma mktime_utc_overflow:
  assumes "carries_fit t" "\<not> day_fits (tm_time t div 86400)"
  shows "\<exists>t'. mktime_utc t = Some (t', Inl EOVERFLOW)"
proof -
  obtain t' where "validate_structure t = Some (t', day_fits (tm_time t div 86400))"
    by (rule validate_structure_ok [OF assms(1)])
  then show ?thesis using assms(2) by (simp add: mktime_utc_def)
qed

lemma mktime_utc_ok:
  assumes "carries_fit t" "day_fits (tm_time t div 86400)"
  obtains t' where "mktime_utc t = Some (t', Inr (tm_time t, tm_time t div 86400))"
    "tm_normal t'" "tm_time t' = tm_time t" "INT_MIN \<le> tm_year t'" "tm_year t' \<le> INT_MAX"
    "tm_yday t' = tm_days t' - jan1 (tm_year t' + 1900)"
    "tm_wday t' = tm_wday t" "tm_isdst t' = tm_isdst t"
proof -
  obtain v where v: "validate_structure t = Some (v, True)" "tm_normal v" "tm_time v = tm_time t"
    "INT_MIN \<le> tm_year v" "tm_year v \<le> INT_MAX" "tm_wday v = tm_wday t" "tm_isdst v = tm_isdst t"
    using assms(2) by (auto intro: validate_structure_ok [OF assms(1)])
  note nd = tm_normal_day [OF v(2)]
  let ?Y = "tm_year v + 1900"
  have mo: "0 \<le> tm_mon v" "tm_mon v < 12" using v(2) by (simp_all add: tm_normal_def)
  define yd where "yd = tm_days v - jan1 ?Y"
  have lp: "isleap2 (tm_year v) YEAR_BASE = leap ?Y" by (simp add: YEAR_BASE_def)
  obtain b where b: "arr_get DAYS_BEFORE_MONTH (tm_mon v) = Some b"
    and yd: "(if tm_mon v > 1 \<and> leap ?Y then tm_mday v - 1 + b + 1 else tm_mday v - 1 + b) = yd"
    using days_before_month [OF mo, of ?Y] mo by (simp add: yd_def tm_days_def civil_in_year)
  have days: "add_years (tm_year v) yd = tm_days v"
    using add_years_jan1 [OF v(4,5), of yd] by (simp add: yd_def)
  have fd: "day_fits (tm_days v)" using assms(2) v(3) nd(1) by simp
  note db = day_fits_bounds [OF fd]
  have day_ok: "\<not> tm_days v < DAY_MIN" "\<not> DAY_MAX < tm_days v"
    using db by (simp_all add: DAY_MIN_def DAY_MAX_def time_consts range_defs cdiv_def)
  let ?tim = "tm_sec v + tm_min v * SECSPERMIN + tm_hour v * SECSPERHOUR"
  have tim: "?tim + tm_days v * SECSPERDAY = tm_time t"
    using nd(2) v(3) by (simp add: time_consts)
  have ck: "ck64 (tm_time t) = Some (tm_time t)"
    using nd(2-4) v(3) db by (simp add: ck64_def range_defs)
  have pos: "\<not> (0 < tm_days v * SECSPERDAY \<and> tm_time t < 0)"
    using nd(2-4) v(3) by (auto simp: time_consts)
  show thesis
  proof (rule that)
    show "mktime_utc t = Some (v\<lparr>tm_yday := yd\<rparr>, Inr (tm_time t, tm_time t div 86400))"
      using days day_ok tim ck pos nd(1) v(3)
      by (simp add: mktime_utc_def v(1) b lp yd if_not_P [OF pos] Let_def del: isleap2_leap split del: if_split)
    show "tm_normal (v\<lparr>tm_yday := yd\<rparr>)" using v(2) by (simp add: tm_normal_def)
  qed (use v in \<open>simp_all add: tm_time_def tm_days_def yd_def\<close>)
qed

section \<open>From seconds to the date\<close>

text \<open>
  A day of the era is \<open>a\<close> centuries, \<open>b\<close> four-year cycles, \<open>c\<close> years and
  \<open>d\<close> days; the last year of a cycle has 366 days unless its cycle ends one of
  the first three centuries.
\<close>

lemma eraday_split:
  fixes e :: int
  assumes "0 \<le> e" "e \<le> 146096"
  obtains a b c d where "e = 36524 * a + 1461 * b + 365 * c + d"
    "0 \<le> a" "a \<le> 3" "0 \<le> b" "b \<le> 24" "0 \<le> c" "c \<le> 3" "0 \<le> d"
    "d \<le> 364 \<or> d = 365 \<and> c = 3 \<and> (b \<noteq> 24 \<or> a = 3)"
proof -
  define a where "a = min 3 (e div 36524)"
  define r where "r = e - 36524 * a"
  define b where "b = r div 1461"
  define r2 where "r2 = r mod 1461"
  define c where "c = min 3 (r2 div 365)"
  have a: "0 \<le> a" "a \<le> 3" using assms by (simp_all add: a_def pos_imp_zdiv_nonneg_iff)
  have r: "0 \<le> r" "r \<le> 36524" "a < 3 \<Longrightarrow> r < 36524"
  proof -
    have "36524 * (e div 36524) + e mod 36524 = e" "0 \<le> e mod 36524" "e mod 36524 < 36524" by simp_all
    then show "0 \<le> r" "r \<le> 36524" "a < 3 \<Longrightarrow> r < 36524"
      using assms unfolding r_def a_def min_def by (auto split: if_splits)
  qed
  have b: "r = 1461 * b + r2" "0 \<le> r2" "r2 < 1461" by (simp_all add: b_def r2_def)
  then have b24: "0 \<le> b" "b \<le> 24" using r by linarith+
  have c: "0 \<le> c" "c \<le> 3" using b by (simp_all add: c_def pos_imp_zdiv_nonneg_iff)
  have d: "0 \<le> r2 - 365 * c" "r2 - 365 * c \<le> 365" "c < 3 \<Longrightarrow> r2 - 365 * c < 365"
  proof -
    have "365 * (r2 div 365) + r2 mod 365 = r2" "0 \<le> r2 mod 365" "r2 mod 365 < 365" by simp_all
    then show "0 \<le> r2 - 365 * c" "r2 - 365 * c \<le> 365" "c < 3 \<Longrightarrow> r2 - 365 * c < 365"
      using b unfolding c_def min_def by (auto split: if_splits)
  qed
  show thesis
  proof (rule that [OF _ a b24 c d(1)])
    show "e = 36524 * a + 1461 * b + 365 * c + (r2 - 365 * c)" using b by (simp add: r_def)
    show "r2 - 365 * c \<le> 364 \<or> r2 - 365 * c = 365 \<and> c = 3 \<and> (b \<noteq> 24 \<or> a = 3)"
      using d r b a c by linarith
  qed
qed

lemma era_year_split:
  fixes a b c d :: int
  assumes abcd: "0 \<le> a" "a \<le> 3" "0 \<le> b" "b \<le> 24" "0 \<le> c" "c \<le> 3" "0 \<le> d"
    "d \<le> 364 \<or> d = 365 \<and> c = 3 \<and> (b \<noteq> 24 \<or> a = 3)"
  shows "era_year (36524 * a + 1461 * b + 365 * c + d) = 100 * a + 4 * b + c"
proof -
  let ?e = "36524 * a + 1461 * b + 365 * c + d"
  define e1 where "e1 = (if 24 * a + b + 365 * c + d < 1460 then 0 else 1 :: int)"
  define e2 where "e2 = (if ?e < 146096 then 0 else 1 :: int)"
  have d365: "d \<le> 365" using abcd(8) by auto
  have "?e = 1460 * (25 * a + b + e1) + (24 * a + b + 365 * c + d - 1460 * e1)" by (simp add: algebra_simps)
  then have q1: "?e div 1460 = 25 * a + b + e1"
    by (rule int_div_pos_eq) (use abcd d365 in \<open>auto simp: e1_def\<close>)
  have cent: "1461 * b + 365 * c + d < 36524 \<or> ?e = 146096" using abcd by linarith
  have "?e = 36524 * (a + e2) + (1461 * b + 365 * c + d - 36524 * e2)" by (simp add: algebra_simps)
  then have q2: "?e div 36524 = a + e2"
    by (rule int_div_pos_eq) (use abcd d365 cent in \<open>auto simp: e2_def split: if_splits\<close>)
  have "?e = 146096 * e2 + (?e - 146096 * e2)" by simp
  then have q3: "?e div 146096 = e2"
    by (rule int_div_pos_eq) (use abcd d365 cent in \<open>auto simp: e2_def split: if_splits\<close>)
  have num: "?e - ?e div 1460 + ?e div 36524 - ?e div 146096 = 365 * (100 * a + 4 * b + c) + (d - e1)"
    unfolding q1 q2 q3 by (simp add: algebra_simps)
  have de: "0 \<le> d - e1" "d - e1 < 365" using abcd by (auto simp: e1_def split: if_splits)
  have "365 * (100 * a + 4 * b + c) + (d - e1) < 146100" "0 \<le> 365 * (100 * a + 4 * b + c) + (d - e1)"
    using abcd(1-7) de by simp_all
  moreover have "(365 * (100 * a + 4 * b + c) + (d - e1)) div 365 = 100 * a + 4 * b + c"
    by (rule int_div_pos_eq [OF refl de])
  moreover have "100 * a + 4 * b + c < 4294967296" "0 \<le> 100 * a + 4 * b + c" using abcd by linarith+
  ultimately show ?thesis
    by (simp add: era_year_def gmtime_consts num)
qed

lemma era_year_ok:
  assumes "0 \<le> e" "e \<le> 146096"
  shows "0 \<le> era_year e \<and> era_year e \<le> 399
    \<and> 0 \<le> era_yearday e (era_year e) \<and> era_yearday e (era_year e) \<le> 364 + of_bool (leap (era_year e + 1))
    \<and> e = 365 * era_year e + era_year e div 4 - era_year e div 100 + era_yearday e (era_year e)"
proof -
  obtain a b c d where e: "e = 36524 * a + 1461 * b + 365 * c + d"
    and abcd: "0 \<le> a" "a \<le> 3" "0 \<le> b" "b \<le> 24" "0 \<le> c" "c \<le> 3" "0 \<le> d"
      "d \<le> 364 \<or> d = 365 \<and> c = 3 \<and> (b \<noteq> 24 \<or> a = 3)"
    by (rule eraday_split [OF assms])
  have y: "era_year e = 100 * a + 4 * b + c" unfolding e by (rule era_year_split [OF abcd])
  have y4: "(100 * a + 4 * b + c) div 4 = 25 * a + b"
    by (rule int_div_pos_eq [where r = c]) (use abcd in auto)
  have y100: "(100 * a + 4 * b + c) div 100 = a"
    by (rule int_div_pos_eq [where r = "4 * b + c"]) (use abcd in auto)
  have start: "365 * (100 * a + 4 * b + c) + (25 * a + b) - a = e - d" using e by simp
  have "0 \<le> 365 * (100 * a + 4 * b + c) + (25 * a + b) - a" "d \<le> 365" using abcd by auto
  then have "0 \<le> e - d" "e - d < 4294967296" "d < 4294967296" unfolding start using assms abcd(7) by auto
  then have yd: "era_yearday e (era_year e) = d"
    using abcd start by (simp add: era_yearday_def gmtime_consts y y4 y100)
  have "leap (100 * a + 4 * b + c + 1)" if "d = 365"
  proof -
    have c: "c = 3" "b \<noteq> 24 \<or> a = 3" using that abcd(8) by auto
    then have m4: "(100 * a + 4 * b + c + 1) mod 4 = 0"
      using mod_mult_self1_is_0 [of 4 "25 * a + b + 1"] by (simp add: algebra_simps)
    show ?thesis
    proof (cases "b = 24")
      case True
      then show ?thesis using c by (simp add: leap_def)
    next
      case False
      have "(100 * a + 4 * b + c + 1) mod 100 = 4 * b + 4"
        by (rule int_mod_pos_eq [where q = a]) (use abcd c False in auto)
      then show ?thesis using m4 abcd(3) unfolding leap_def by linarith
    qed
  qed
  then show ?thesis unfolding yd unfolding y y4 y100 using abcd start by auto
qed

text \<open>The first of March of year \<open>Y\<close>.\<close>

lemma jan1_march: "jan1 Y + 59 + of_bool (leap Y) = 365 * Y + Y div 4 - Y div 100 + Y div 400 - 719468"
  by (simp add: jan1_def leap_div)

lemma march_split:
  fixes era y :: int
  assumes "0 \<le> y" "y \<le> 399"
  shows "jan1 (y + era * 400) + 59 + of_bool (leap y)
    = 146097 * era + (365 * y + y div 4 - y div 100) - 719468"
proof -
  have d: "(y + era * 400) div 4 = y div 4 + 100 * era" "(y + era * 400) div 100 = y div 100 + 4 * era"
    "(y + era * 400) div 400 = era"
    using assms div_mult_self2 [of 4 y "100 * era"] div_mult_self2 [of 100 y "4 * era"]
    by (simp_all add: algebra_simps)
  have "leap (y + era * 400) = leap y" using leap_shift [of y era] by (simp add: mult.commute)
  then show ?thesis using jan1_march [of "y + era * 400"] unfolding d by simp
qed

text \<open>The month and day of a day counted from the first of March.\<close>

definition march_month :: "int \<Rightarrow> int" where
  "march_month yd = (let m = (5 * yd + 2) div 153 in m + (if m < 10 then 2 else - 10))"

definition march_day :: "int \<Rightarrow> int" where
  "march_day yd = yd - (153 * ((5 * yd + 2) div 153) + 2) div 5 + 1"

definition march_check :: "int \<Rightarrow> bool" where
  "march_check yd \<longleftrightarrow>
     (let m = march_month yd; d = march_day yd in
      0 \<le> m \<and> m < 12 \<and> 1 \<le> d \<and>
      (yd < 306 \<longrightarrow> 2 \<le> m \<and> d \<le> month_lengths False ! nat m \<and>
         sum_list (take (nat m) (month_lengths False)) + d - 1 = yd + 59) \<and>
      (306 \<le> yd \<longrightarrow> m \<le> 1 \<and> d \<le> month_lengths (yd = 365) ! nat m \<and>
         sum_list (take (nat m) (month_lengths False)) + d - 1 = yd - 306))"

lemma march_check_all: "list_all march_check [0..365]"
  by code_simp

lemma march_checked: "0 \<le> yd \<Longrightarrow> yd \<le> 365 \<Longrightarrow> march_check yd"
  using march_check_all by (simp only: list_all_iff) auto

lemma month_start_leap:
  assumes "0 \<le> m" "m < 12"
  shows "month_start Y m = sum_list (take (nat m) (month_lengths False)) + of_bool (2 \<le> m \<and> leap Y)"
  using assms by (cases rule: less_12_cases) (auto simp: month_start_def month_lengths_def)

lemma month_len_leap:
  assumes "0 \<le> m" "m < 12"
  shows "month_lengths False ! nat m \<le> month_len Y m"
    and "2 \<le> m \<Longrightarrow> month_len Y m = month_lengths False ! nat m"
  using assms by (cases rule: less_12_cases; auto simp: month_lengths_def)+

text \<open>
  The date \<open>gmtime_r\<close> computes from the year of the era \<open>y\<close> and the day
  \<open>yd\<close> counted from March denotes the right day.
\<close>

lemma march_date:
  fixes era y yd :: int
  assumes y: "0 \<le> y" "y \<le> 399" and yd: "0 \<le> yd" "yd \<le> 364 + of_bool (leap (y + 1))"
  defines "m \<equiv> march_month yd" and "d \<equiv> march_day yd"
  defines "Y \<equiv> y + era * 400 + (if m \<le> 1 then 1 else 0)"
  shows "0 \<le> m \<and> m < 12 \<and> 1 \<le> d \<and> d \<le> month_len Y m
    \<and> civil Y m d = 146097 * era + (365 * y + y div 4 - y div 100) + yd - 719468
    \<and> (if yd \<ge> 306 then yd - 306 else yd + 59 + of_bool (leap y)) = civil Y m d - jan1 Y"
proof -
  have "yd \<le> 365" using yd by (cases "leap (y + 1)") simp_all
  then have ck: "march_check yd" using yd by (intro march_checked)
  then have m: "0 \<le> m" "m < 12" and d: "1 \<le> d"
    by (simp_all add: march_check_def Let_def m_def d_def)
  note march = march_split [OF y, of era]
  have lp: "leap (y + era * 400) = leap y" "leap (y + era * 400 + 1) = leap (y + 1)"
    using leap_shift [of y era] leap_shift [of "y + 1" era] by (simp_all add: algebra_simps)
  have "d \<le> month_len Y m \<and> civil Y m d = 146097 * era + (365 * y + y div 4 - y div 100) + yd - 719468
    \<and> (if yd \<ge> 306 then yd - 306 else yd + 59 + of_bool (leap y)) = civil Y m d - jan1 Y"
  proof (cases "yd < 306")
    case True
    then have *: "2 \<le> m" "d \<le> month_lengths False ! nat m"
      "sum_list (take (nat m) (month_lengths False)) + d - 1 = yd + 59"
      using ck by (simp_all add: march_check_def Let_def m_def d_def)
    then have Y: "Y = y + era * 400" by (simp add: Y_def)
    show ?thesis
      using * True march month_len_leap(2) [OF m *(1), of Y] month_start_leap [OF m, of Y]
      by (simp add: civil_in_year [OF m] Y lp)
  next
    case False
    then have *: "m \<le> 1" "d \<le> month_lengths (yd = 365) ! nat m"
      "sum_list (take (nat m) (month_lengths False)) + d - 1 = yd - 306"
      using ck by (simp_all add: march_check_def Let_def m_def d_def)
    then have Y: "Y = y + era * 400 + 1" by (simp add: Y_def)
    have "yd = 365 \<Longrightarrow> leap Y" using yd unfolding Y lp by (cases "leap (y + 1)") simp_all
    then have len: "d \<le> month_len Y m" using *(2) month_len_leap(1) [OF m, of Y]
      by (cases "yd = 365") auto
    have "jan1 Y = jan1 (y + era * 400) + 365 + of_bool (leap y)" unfolding Y jan1_Suc lp ..
    then show ?thesis using len * False march month_start_leap [OF m, of Y]
      by (simp add: civil_in_year [OF m])
  qed
  then show ?thesis using m d by blast
qed

lemma era_floor: "cdiv (if days \<ge> 0 then days else days - 146096) 146097 = days div 146097"
proof (cases "days \<ge> 0")
  case False
  have "(146096 - days) div 146097 = - (days div 146097)"
  proof (rule int_div_pos_eq [where r = "146096 - days mod 146097"])
    show "146096 - days = 146097 * - (days div 146097) + (146096 - days mod 146097)"
      using mult_div_mod_eq [of 146097 days] by linarith
  qed (use pos_mod_bound [of 146097 days] pos_mod_sign [of 146097 days] in linarith)+
  then show ?thesis using False by (simp add: cdiv_neg)
qed (simp add: cdiv_nonneg)

lemma hms_join:
  "t div 86400 * 86400 + t mod 86400 div 3600 * 3600 + t mod 86400 mod 3600 div 60 * 60
     + t mod 86400 mod 3600 mod 60 = (t :: int)"
  by (simp only: add.assoc div_mult_mod_eq)

lemma gmtime_r_cases:
  fixes t :: int
  defines "D \<equiv> t div 86400"
  obtains r where "gmtime_r t res = (r, day_fits D)"
    and "day_fits D \<Longrightarrow> tm_normal r \<and> tm_derived r \<and> tm_time r = t \<and> tm_isdst r = 0
      \<and> INT_MIN \<le> tm_year r \<and> tm_year r \<le> INT_MAX"
proof -
  define d0 where "d0 = D + 719468"
  define era where "era = d0 div 146097"
  define e where "e = d0 mod 146097"
  define y where "y = era_year e"
  define yd where "yd = era_yearday e y"
  define Y where "Y = y + era * 400 + (if march_month yd \<le> 1 then 1 else 0)"
  have e: "0 \<le> e" "e \<le> 146096" using pos_mod_bound [of 146097 d0] by (simp_all add: e_def)
  from era_year_ok [OF e] have y: "0 \<le> y" "y \<le> 399"
    and yd: "0 \<le> yd" "yd \<le> 364 + of_bool (leap (y + 1))"
    and ey: "e = 365 * y + y div 4 - y div 100 + yd"
    by (simp_all add: y_def yd_def)
  have date: "0 \<le> march_month yd" "march_month yd < 12" "1 \<le> march_day yd"
    "march_day yd \<le> month_len Y (march_month yd)"
    "civil Y (march_month yd) (march_day yd) = 146097 * era + (365 * y + y div 4 - y div 100) + yd - 719468"
    "(if yd \<ge> 306 then yd - 306 else yd + 59 + of_bool (leap y))
      = civil Y (march_month yd) (march_day yd) - jan1 Y"
    using march_date [OF y yd, of era, folded Y_def] by blast+
  have day: "civil Y (march_month yd) (march_day yd) = D"
    using date(5) ey mult_div_mod_eq [of 146097 d0] by (simp add: d0_def era_def e_def)
  have yd365: "yd \<le> 365" using yd by (cases "leap (y + 1)") simp_all
  let ?rem = "t mod 86400" and ?m0 = "(5 * yd + 2) div 153"
  have split: "(if cmod t SECSPERDAY < 0
      then (cmod t SECSPERDAY + SECSPERDAY, cdiv t SECSPERDAY + EPOCH_ADJUSTMENT_DAYS - 1)
      else (cmod t SECSPERDAY, cdiv t SECSPERDAY + EPOCH_ADJUSTMENT_DAYS)) = (?rem, d0)"
    using div_mod_of_cdiv [of 86400 t] by (simp add: d0_def D_def time_consts gmtime_consts)
  have wday: "(if cmod (ADJUSTED_EPOCH_WDAY + d0) DAYSPERWEEK < 0
      then cmod (ADJUSTED_EPOCH_WDAY + d0) DAYSPERWEEK + DAYSPERWEEK
      else cmod (ADJUSTED_EPOCH_WDAY + d0) DAYSPERWEEK) = (D + 4) mod 7"
    using div_mod_of_cdiv [of 7 "3 + d0"] mod_mult_self2 [of "D + 4" 7 102781]
    by (simp add: time_consts gmtime_consts d0_def add.commute split: if_splits)
  have era: "cdiv (if d0 \<ge> 0 then d0 else d0 - (DAYS_PER_ERA - 1)) DAYS_PER_ERA = era"
    using era_floor [of d0] by (cases "d0 \<ge> 0") (simp_all add: gmtime_consts era_def)
  have eraday: "to_u64 (d0 - era * DAYS_PER_ERA) = e"
    using e minus_div_mult_eq_mod [of d0 146097] by (simp add: gmtime_consts era_def e_def)
  have m0: "0 \<le> ?m0" "?m0 \<le> 11" "to_u32 (5 * yd + 2) div 153 = ?m0"
    using yd(1) yd365 by simp_all
  have mon: "to_u32 (?m0 + (if ?m0 < 10 then 2 else - 10)) = march_month yd"
    using m0 by (simp add: march_month_def Let_def)
  have mday: "to_u32 (yd - to_u32 (153 * ?m0 + 2) div 5 + 1) = march_day yd"
  proof -
    have "to_u32 (153 * ?m0 + 2) = 153 * ?m0 + 2" using m0 by simp
    moreover have "1 \<le> march_day yd" "march_day yd < 4294967296"
      using date(3,4) month_len_bounds [OF date(1,2), of Y] by linarith+
    ultimately show ?thesis by (simp add: march_day_def)
  qed
  have year: "ADJUSTED_EPOCH_YEAR + y + era * YEARS_PER_ERA + (if march_month yd \<le> 1 then 1 else 0)
      - YEAR_BASE = Y - 1900"
    by (simp add: gmtime_consts time_consts Y_def)
  have yday: "(if yd \<ge> DAYS_PER_YEAR - DAYS_IN_JANUARY - DAYS_IN_FEBRUARY
      then yd - (DAYS_PER_YEAR - DAYS_IN_JANUARY - DAYS_IN_FEBRUARY)
      else yd + DAYS_IN_JANUARY + DAYS_IN_FEBRUARY + of_bool (isleap y)) = D - jan1 Y"
    using date(6) unfolding day by (cases "yd \<ge> 306") (simp_all add: gmtime_consts)
  have hms: "cdiv ?rem SECSPERHOUR = ?rem div 3600" "cmod ?rem SECSPERHOUR = ?rem mod 3600"
    "cdiv (?rem mod 3600) SECSPERMIN = ?rem mod 3600 div 60"
    "cmod (?rem mod 3600) SECSPERMIN = ?rem mod 3600 mod 60"
    by (simp_all add: time_consts cint_simps)
  have fits: "day_fits D \<longleftrightarrow> \<not> (Y - 1900 > INT_MAX \<or> Y - 1900 < INT_MIN)"
    using day_fits_iff [of Y D] civil_year_bounds [OF date(1-4)] unfolding day by auto
  let ?r = "res\<lparr>tm_hour := ?rem div 3600, tm_min := ?rem mod 3600 div 60,
    tm_sec := ?rem mod 3600 mod 60, tm_wday := (D + 4) mod 7, tm_yday := D - jan1 Y\<rparr>"
  have run: "gmtime_r t res = (if \<not> day_fits D then (?r, False)
    else (?r\<lparr>tm_year := Y - 1900, tm_mon := march_month yd, tm_mday := march_day yd, tm_isdst := 0\<rparr>,
          True))"
    unfolding gmtime_r_def Let_def split prod.case hms wday era eraday y_def [symmetric]
      yd_def [symmetric] m0(3) mon mday year yday fits by (simp split del: if_split)
  show thesis
  proof (cases "day_fits D")
    case False
    then show ?thesis using run that by simp
  next
    case True
    let ?r' = "?r\<lparr>tm_year := Y - 1900, tm_mon := march_month yd, tm_mday := march_day yd, tm_isdst := 0\<rparr>"
    have days: "tm_days ?r' = D" by (simp add: tm_days_def day)
    have "?rem div 3600 < 24" "0 \<le> ?rem div 3600" "?rem mod 3600 div 60 < 60" "0 \<le> ?rem mod 3600 div 60"
      by (simp_all add: pos_imp_zdiv_nonneg_iff div_less_iff_less_mult)
    then have "tm_normal ?r'" using date by (simp add: tm_normal_def)
    moreover have "tm_time ?r' = t"
    proof -
      have "tm_hour ?r' = ?rem div 3600" "tm_min ?r' = ?rem mod 3600 div 60"
        "tm_sec ?r' = ?rem mod 3600 mod 60" by simp_all
      then show ?thesis unfolding tm_time_def days using hms_join [of t, folded D_def] by (simp only:)
    qed
    moreover have "tm_wday ?r' = (D + 4) mod 7" "tm_yday ?r' = D - jan1 Y" "tm_year ?r' = Y - 1900"
      "tm_isdst ?r' = 0" "Y - 1900 + 1900 = Y" by simp_all
    moreover have "INT_MIN \<le> Y - 1900" "Y - 1900 \<le> INT_MAX" using fits True by linarith+
    moreover have "gmtime_r t res = (?r', day_fits D)" unfolding run using True by (simp only: if_False simp_thms)
    ultimately show ?thesis unfolding tm_derived_def
      by (intro that [of ?r'] conjI) (simp_all only: days tm_derived_def)
  qed
qed

section \<open>Dates are unique\<close>

lemma month_start_mono:
  assumes "0 \<le> k" "k < l" "l < 12"
  shows "month_start Y k + month_len Y k \<le> month_start Y l"
  using assms
proof (induction "nat (l - k)" arbitrary: k)
  case (Suc n)
  note next_month = month_start_Suc [of k Y]
  show ?case
  proof (cases "k + 1 = l")
    case False
    then have "month_start Y (k + 1) + month_len Y (k + 1) \<le> month_start Y l"
      using Suc by (intro Suc.hyps) auto
    then show ?thesis using next_month month_len_bounds [of "k + 1" Y] Suc.prems by simp
  qed (use next_month Suc.prems in simp)
qed simp

lemma month_unique:
  assumes "0 \<le> k" "k < 12" "1 \<le> c" "c \<le> month_len Y k"
    and "0 \<le> l" "l < 12" "1 \<le> d" "d \<le> month_len Y l"
    and "month_start Y k + c = month_start Y l + d"
  shows "k = l"
  using assms month_start_mono [of k l Y] month_start_mono [of l k Y]
  by (cases k l rule: linorder_cases) auto

lemma hms_unique:
  fixes h :: int
  assumes "s + m * 60 + h * 3600 = s' + m' * 60 + h' * 3600"
    "0 \<le> s" "s < 60" "0 \<le> m" "m < 60" "0 \<le> s'" "s' < 60" "0 \<le> m'" "m' < 60"
  shows "s = s' \<and> m = m' \<and> h = h'"
proof -
  have base: "x = x' \<and> r = r'" if "x * 60 + r = x' * 60 + r'" "0 \<le> r" "r < 60" "0 \<le> r'" "r' < 60"
    for x r x' r' :: int
    using that by (cases x x' rule: linorder_cases) auto
  have "(h * 60 + m) * 60 + s = (h' * 60 + m') * 60 + s'" using assms(1) by simp
  from base [OF this] assms(2-) have *: "h * 60 + m = h' * 60 + m'" "s = s'" by simp_all
  from base [OF *(1)] assms(2-) *(2) show ?thesis by simp
qed

lemma tm_normal_unique:
  assumes "tm_normal a" "tm_normal b" "tm_time a = tm_time b"
  shows "tm_sec a = tm_sec b \<and> tm_min a = tm_min b \<and> tm_hour a = tm_hour b \<and>
    tm_mday a = tm_mday b \<and> tm_mon a = tm_mon b \<and> tm_year a = tm_year b"
proof -
  have days: "tm_days a = tm_days b"
    using tm_normal_day(1) [OF assms(1)] tm_normal_day(1) [OF assms(2)] assms(3) by simp
  then have "tm_sec a + tm_min a * 60 + tm_hour a * 3600 = tm_sec b + tm_min b * 60 + tm_hour b * 3600"
    using assms(3) by (simp add: tm_time_def)
  then have hms: "tm_sec a = tm_sec b \<and> tm_min a = tm_min b \<and> tm_hour a = tm_hour b"
    using assms(1,2) by (intro hms_unique) (simp_all add: tm_normal_def)
  note na = assms(1) [unfolded tm_normal_def] and nb = assms(2) [unfolded tm_normal_def]
  have "jan1 (tm_year a + 1900) \<le> tm_days a \<and> tm_days a < jan1 (tm_year a + 1900 + 1)"
    "jan1 (tm_year b + 1900) \<le> tm_days b \<and> tm_days b < jan1 (tm_year b + 1900 + 1)"
    using na nb unfolding tm_days_def by (intro civil_year_bounds; simp)+
  then have "jan1 (tm_year a + 1900) < jan1 (tm_year b + 1900 + 1)"
    "jan1 (tm_year b + 1900) < jan1 (tm_year a + 1900 + 1)" using days by linarith+
  then have year: "tm_year a = tm_year b" by (simp add: jan1_less_iff)
  have start: "month_start (tm_year a + 1900) (tm_mon a) + tm_mday a
      = month_start (tm_year a + 1900) (tm_mon b) + tm_mday b"
    using days na nb year by (simp add: tm_days_def civil_in_year)
  have "tm_mon a = tm_mon b"
  proof (rule month_unique)
    show "month_start (tm_year a + 1900) (tm_mon a) + tm_mday a
      = month_start (tm_year a + 1900) (tm_mon b) + tm_mday b" by (rule start)
  qed (use na nb [folded year] in blast)+
  then show ?thesis using hms year start by simp
qed

lemma tm_derived_unique:
  assumes "tm_normal a" "tm_normal b" "tm_time a = tm_time b" "tm_derived a" "tm_derived b"
    "tm_isdst a = tm_isdst b"
  shows "a = (b :: tm)"
  using tm_normal_unique [OF assms(1-3)] assms(4-) by (simp add: tm_derived_def tm_days_def)

lemma tm_normal_carries:
  assumes "tm_normal t" "INT_MIN \<le> tm_year t" "tm_year t \<le> INT_MAX"
  shows "carries_fit t"
proof -
  have md: "tm_mday t \<le> 31"
    using assms(1) month_len_bounds [of "tm_mon t" "tm_year t + 1900"] by (simp add: tm_normal_def)
  show ?thesis using assms md
    by (simp add: carries_fit_def tm_normal_def range_defs)
qed

lemma set_tm_wday_ok: "set_tm_wday days t = t\<lparr>tm_wday := (days + 4) mod 7\<rparr>"
  using div_mod_of_cdiv [of 7 "days + 4"] by (simp add: set_tm_wday_def Let_def)

lemma timegm_ok:
  assumes "carries_fit t" "day_fits (tm_time t div 86400)"
  obtains t' where "timegm t = Some (t', tm_time t, None)" "tm_normal t'" "tm_time t' = tm_time t"
    "tm_time t \<noteq> - 1 \<Longrightarrow> tm_derived t' \<and> tm_isdst t' = 0"
    "tm_yday t' = tm_days t' - jan1 (tm_year t' + 1900)"
    "tm_time t = - 1 \<Longrightarrow> tm_wday t' = tm_wday t \<and> tm_isdst t' = tm_isdst t"
proof -
  obtain v where v: "mktime_utc t = Some (v, Inr (tm_time t, tm_time t div 86400))"
    "tm_normal v" "tm_time v = tm_time t" "tm_yday v = tm_days v - jan1 (tm_year v + 1900)"
    "tm_wday v = tm_wday t" "tm_isdst v = tm_isdst t"
    using mktime_utc_ok [OF assms] by metis
  show thesis
  proof (cases "tm_time t = - 1")
    case True
    then show ?thesis using v by (intro that [of v]) (simp_all add: timegm_def)
  next
    case False
    let ?r = "v\<lparr>tm_isdst := 0, tm_wday := (tm_time t div 86400 + 4) mod 7\<rparr>"
    have d: "tm_days ?r = tm_time t div 86400" using tm_normal_day(1) [OF v(2)] v(3)
      by (simp add: tm_days_def)
    have n: "tm_normal ?r" using v(2) by (simp add: tm_normal_def)
    have t: "tm_time ?r = tm_time t" using v(3) by (simp add: tm_time_def tm_days_def)
    show ?thesis
      by (rule that [of ?r]) (use False v n t d in \<open>simp_all add: timegm_def set_tm_wday_ok tm_derived_def tm_days_def\<close>)
  qed
qed

section \<open>Properties\<close>

text \<open>
  C21: \<open>gmtime_r\<close> fails exactly for the times whose year does not fit
  \<open>int\<close>; otherwise every field is in its range, the date and time denote the
  given number of seconds in the proleptic Gregorian calendar, before and
  after the epoch, and the day of the week and of the year agree with it.
\<close>

theorem gmtime_r_correct:
  "case gmtime_r t res of (r, ok) \<Rightarrow>
     ok = day_fits (t div 86400) \<and>
     (ok \<longrightarrow> tm_normal r \<and> tm_derived r \<and> tm_time r = t \<and> tm_isdst r = 0)"
  by (rule gmtime_r_cases [of t res]) auto

definition tm0 :: tm where
  "tm0 = \<lparr>tm_sec = 0, tm_min = 0, tm_hour = 0, tm_mday = 0, tm_mon = 0, tm_year = 0, tm_wday = 0,
          tm_yday = 0, tm_isdst = 0\<rparr>"

theorem gmtime_r_correct_witness:
  "gmtime_r 951782399 tm0 = (\<lparr>tm_sec = 59, tm_min = 59, tm_hour = 23, tm_mday = 28, tm_mon = 1,
      tm_year = 100, tm_wday = 1, tm_yday = 58, tm_isdst = 0\<rparr>, True)
   \<and> tm_time (fst (gmtime_r 951782399 tm0)) = 951782399"
proof -
  have run: "gmtime_r 951782399 tm0 = (\<lparr>tm_sec = 59, tm_min = 59, tm_hour = 23, tm_mday = 28,
      tm_mon = 1, tm_year = 100, tm_wday = 1, tm_yday = 58, tm_isdst = 0\<rparr>, True)"
    by code_simp
  from gmtime_r_correct [of 951782399 tm0] show ?thesis unfolding run by simp
qed

text \<open>
  C22: for fields of any value whose carries stay in \<open>int\<close>, \<open>timegm\<close>
  returns (its loops end) the number of seconds the fields denote, with months
  carried into years and days counted on from the month; the structure is
  normalised to the same time, its derived fields set; when the year leaves
  \<open>int\<close> it returns \<open>-1\<close> with \<open>EOVERFLOW\<close>.
\<close>

theorem timegm_correct:
  assumes "carries_fit t"
  shows "if day_fits (tm_time t div 86400)
    then \<exists>t'. timegm t = Some (t', tm_time t, None) \<and> tm_normal t' \<and> tm_time t' = tm_time t
           \<and> (tm_time t \<noteq> - 1 \<longrightarrow> tm_derived t' \<and> tm_isdst t' = 0)
    else \<exists>t'. timegm t = Some (t', - 1, Some EOVERFLOW)"
proof (cases "day_fits (tm_time t div 86400)")
  case True
  then show ?thesis using timegm_ok [OF assms True] by auto
next
  case False
  then show ?thesis using mktime_utc_overflow [OF assms False] by (auto simp: timegm_def)
qed

definition tm_feb30 :: tm where
  "tm_feb30 = tm0\<lparr>tm_year := 99, tm_mon := 13, tm_mday := 30, tm_hour := - 1, tm_sec := 3601\<rparr>"

theorem timegm_correct_witness:
  "carries_fit tm_feb30 \<and>
   (\<exists>t'. timegm tm_feb30 = Some (t', 951868801, None) \<and> tm_normal t' \<and> tm_derived t')"
proof -
  have fit: "carries_fit tm_feb30" by code_simp
  have t: "tm_time tm_feb30 = 951868801" "day_fits (951868801 div 86400)" by code_simp+
  from timegm_correct [OF fit] t fit show ?thesis by auto
qed

text \<open>
  C23: \<open>timegm\<close> inverts \<open>gmtime_r\<close>: it returns the time and leaves
  the structure as it is; and \<open>gmtime_r\<close> of a time other than \<open>-1\<close> that
  \<open>timegm\<close> returns is the structure \<open>timegm\<close> stored.
\<close>

theorem timegm_gmtime_roundtrip:
  "(gmtime_r s res = (r, True) \<longrightarrow> timegm r = Some (r, s, None)) \<and>
   (carries_fit t \<longrightarrow> timegm t = Some (t', u, None) \<longrightarrow> u \<noteq> - 1 \<longrightarrow> gmtime_r u res = (t', True))"
proof (intro conjI impI)
  assume "gmtime_r s res = (r, True)"
  then have r: "day_fits (s div 86400)" "tm_normal r" "tm_derived r" "tm_time r = s" "tm_isdst r = 0"
    "INT_MIN \<le> tm_year r" "tm_year r \<le> INT_MAX"
    by (auto intro: gmtime_r_cases [of s res])
  obtain r' where r': "timegm r = Some (r', s, None)" "tm_normal r'" "tm_time r' = s"
    "s \<noteq> - 1 \<Longrightarrow> tm_derived r' \<and> tm_isdst r' = 0"
    "tm_yday r' = tm_days r' - jan1 (tm_year r' + 1900)"
    "s = - 1 \<Longrightarrow> tm_wday r' = tm_wday r \<and> tm_isdst r' = tm_isdst r"
    using timegm_ok [OF tm_normal_carries [OF r(2,6,7)]] r(1,4) by metis
  have "r' = r"
  proof (cases "s = - 1")
    case True
    note same = tm_normal_unique [OF r'(2) r(2), unfolded r'(3) r(4), OF refl]
    then have "tm_days r' = tm_days r" by (simp add: tm_days_def)
    then show ?thesis using same r'(5,6) r(3) True by (simp add: tm_derived_def)
  next
    case False
    then show ?thesis using tm_derived_unique [OF r'(2) r(2)] r'(3,4) r(3-5) by simp
  qed
  then show "timegm r = Some (r, s, None)" using r' by simp
next
  assume t: "carries_fit t" "timegm t = Some (t', u, None)" "u \<noteq> - 1"
  have fits: "day_fits (tm_time t div 86400)"
  proof (rule ccontr)
    assume "\<not> ?thesis"
    from mktime_utc_overflow [OF t(1) this] t(2) show False by (auto simp: timegm_def)
  qed
  have t': "tm_normal t'" "tm_time t' = u" "tm_derived t'" "tm_isdst t' = 0" "tm_time t = u"
    using timegm_ok [OF t(1) fits] t(2,3) by auto
  obtain r where "gmtime_r u res = (r, True)" "tm_normal r" "tm_derived r" "tm_time r = u" "tm_isdst r = 0"
    using fits t'(5) by (auto intro: gmtime_r_cases [of u res])
  then show "gmtime_r u res = (t', True)" using tm_derived_unique [of r t'] t' by simp
qed

theorem timegm_gmtime_roundtrip_witness:
  "timegm (fst (gmtime_r (- 86401) tm0)) = Some (fst (gmtime_r (- 86401) tm0), - 86401, None)"
proof -
  have "gmtime_r (- 86401) tm0 = (fst (gmtime_r (- 86401) tm0), True)" by code_simp
  with timegm_gmtime_roundtrip [of "- 86401" tm0 "fst (gmtime_r (- 86401) tm0)"] show ?thesis by blast
qed

text \<open>
  The second before the epoch is a valid time, but \<open>timegm\<close> takes
  the \<open>-1\<close> it denotes for a failure and returns before it stores \<open>tm_wday\<close>
  and \<open>tm_isdst\<close>: whatever the caller left there stays, and no error is set.
\<close>

theorem timegm_minus_one:
  assumes "carries_fit t" "tm_time t = - 1"
  shows "\<exists>t'. timegm t = Some (t', - 1, None) \<and> tm_normal t' \<and> tm_time t' = - 1
    \<and> tm_wday t' = tm_wday t \<and> tm_isdst t' = tm_isdst t"
proof -
  have "day_fits (tm_time t div 86400)"
    by (simp add: assms(2) day_fits_def jan1_def range_defs)
  from timegm_ok [OF assms(1) this] assms(2) show ?thesis by metis
qed

definition tm_last_second :: tm where
  "tm_last_second = tm0\<lparr>tm_year := 69, tm_mon := 11, tm_mday := 31, tm_hour := 23, tm_min := 59,
     tm_sec := 59, tm_wday := 6, tm_isdst := 1\<rparr>"

theorem timegm_minus_one_witness:
  "\<exists>t'. timegm tm_last_second = Some (t', - 1, None) \<and> tm_wday t' = 6 \<and> tm_isdst t' = 1
     \<and> (tm_days t' + 4) mod 7 = 3"
proof -
  have "carries_fit tm_last_second" "tm_time tm_last_second = - 1" by code_simp+
  from timegm_minus_one [OF this] obtain t' where t': "timegm tm_last_second = Some (t', - 1, None)"
    "tm_normal t'" "tm_time t' = - 1" "tm_wday t' = tm_wday tm_last_second"
    "tm_isdst t' = tm_isdst tm_last_second" by blast
  have "tm_days t' = - 1" using tm_normal_day(1) [OF t'(2)] t'(3) by simp
  then show ?thesis using t' by (simp add: tm_last_second_def)
qed

text \<open>
  The carries are added in \<open>int\<close> without a check, although
  the fields may have any value: sixty seconds on top of \<open>INT_MAX\<close> minutes is
  signed overflow, so \<open>timegm\<close> has no defined behaviour there (and does not
  report \<open>EOVERFLOW\<close>), whatever the other fields are.
\<close>

theorem validate_structure_undefined:
  "tm_sec t = 60 \<Longrightarrow> tm_min t = INT_MAX \<Longrightarrow> timegm t = None"
  by (simp add: timegm_def mktime_utc_def validate_structure_def carry_def cdiv_def ck32_def range_defs)

theorem validate_structure_undefined_witness:
  "timegm (tm0\<lparr>tm_sec := 60, tm_min := INT_MAX\<rparr>) = None"
  by (rule validate_structure_undefined) (simp_all add: tm0_def)

end
