(* ===== verification/StrFile.thy ===== *)
theory StrFile
  imports Prelude "HOL-Library.Char_ord"
begin

text \<open>
  The reading side of the string streams of \<open>libc/stdio\<close>: the \<open>struct __file_str\<close> that
  \<open>sscanf\<close> puts on the stack, with \<open>__file_str_get\<close>, \<open>getc\<close> and \<open>ungetc\<close>.  (The writing
  side is in \<open>Printf\<close> and \<open>Asprintf\<close>.)  A C string is the list of its characters before the terminator.

  \<open>__ungetc_t\<close> holds zero, or one more than the character pushed back, and
  \<open>ungetc\<close> clears the end-of-file flag.
\<close>

unbundle bit_operations_syntax

section \<open>Reading\<close>

record rfile =
  unget :: nat
  seof :: bool
  pos :: string

definition setup_string_read :: "string \<Rightarrow> rfile" where
  "setup_string_read s = \<lparr>unget = 0, seof = False, pos = s\<rparr>"

definition file_str_get :: "rfile \<Rightarrow> char option \<times> rfile" where
  "file_str_get f = (case pos f of [] \<Rightarrow> (None, f) | c # cs \<Rightarrow> (Some c, f\<lparr>pos := cs\<rparr>))"

definition getc :: "rfile \<Rightarrow> char option \<times> rfile" where
  "getc f =
     (if unget f \<noteq> 0 then (Some (char_of (unget f - 1)), f\<lparr>unget := 0\<rparr>)
      else case file_str_get f of
             (None, f) \<Rightarrow> (None, f\<lparr>seof := True\<rparr>)
           | (Some c, f) \<Rightarrow> (Some c, f))"

definition ungetc :: "char option \<Rightarrow> rfile \<Rightarrow> rfile" where
  "ungetc c f =
     (case c of None \<Rightarrow> f
      | Some c \<Rightarrow> if unget f \<noteq> 0 then f else f\<lparr>unget := of_char c + 1, seof := False\<rparr>)"

text \<open>What is left to read: the pushed-back character, then the string.\<close>

definition unread :: "rfile \<Rightarrow> string" where
  "unread f = (if unget f \<noteq> 0 then char_of (unget f - 1) # pos f else pos f)"

lemma unread_setup [simp]: "unread (setup_string_read s) = s"
  by (simp add: unread_def setup_string_read_def)

lemma getc_Nil: "unread f = [] \<Longrightarrow> getc f = (None, f\<lparr>seof := True\<rparr>)"
  by (auto simp: unread_def getc_def file_str_get_def split: if_splits list.splits)

lemma getc_Cons:
  assumes "unread f = c # cs"
  obtains f' where "getc f = (Some c, f')" "unread f' = cs" "unget f' = 0"
  using assms that by (auto simp: unread_def getc_def file_str_get_def split: if_splits list.splits)

lemma getc_None_iff: "fst (getc f) = None \<longleftrightarrow> unread f = []"
  by (auto simp: unread_def getc_def file_str_get_def split: list.splits)

lemma getc_SomeD: "getc f = (Some c, f') \<Longrightarrow> unread f = c # unread f' \<and> unget f' = 0"
  by (auto simp: unread_def getc_def file_str_get_def split: if_splits list.splits)

lemma getc_NoneD: "getc f = (None, f') \<Longrightarrow> unread f = [] \<and> f' = f\<lparr>seof := True\<rparr>"
  by (auto simp: unread_def getc_def file_str_get_def split: if_splits list.splits)

lemma unread_ungetc: "unget f = 0 \<Longrightarrow> unread (ungetc (Some c) f) = c # unread f"
  by (simp add: unread_def ungetc_def)

lemma unread_eof [simp]: "unread (f\<lparr>seof := b\<rparr>) = unread f"
  by (simp add: unread_def)

end
