(* ===== verification/Scanf.thy ===== *)
theory Scanf
  imports StrFile
begin

text \<open>
  Formatted input, \<open>libc/stdio/vfscanf.c\<close> in its integer variant
  (\<open>__i_vfscanf\<close>, no positional arguments, C99 size modifiers, \<open>%b\<close> off), on a
  string stream: \<open>sscanf\<close>.  The scan state is the stream with the count of
  characters taken (\<open>scanf_context_t\<close>).  The pointer arguments become the list
  of stores in the order of the conversions; \<open>%*\<close> stores nothing.
\<close>

section \<open>The stream with its count\<close>

record scan =
  stream :: rfile
  slen :: int

definition scanf_getc :: "scan \<Rightarrow> char option \<times> scan" where
  "scanf_getc s =
     (let (c, f) = getc (stream s); s = s\<lparr>stream := f\<rparr>
      in (c, if c \<noteq> None then s\<lparr>slen := slen s + 1\<rparr> else s))"

definition scanf_ungetc :: "char option \<Rightarrow> scan \<Rightarrow> scan" where
  "scanf_ungetc c s =
     (let s = (if c \<noteq> None then s\<lparr>slen := slen s - 1\<rparr> else s)
      in s\<lparr>stream := ungetc c (stream s)\<rparr>)"

text \<open>The count and what is left, of which the scanner's progress is a function.\<close>

abbreviation left :: "scan \<Rightarrow> string" where "left s \<equiv> unread (stream s)"

definition scan_total :: "scan \<Rightarrow> int" where
  "scan_total s = slen s + int (length (left s))"

lemma scanf_getc_SomeD:
  "scanf_getc s = (Some c, s') \<Longrightarrow>
     left s = c # left s' \<and> unget (stream s') = 0 \<and> slen s' = slen s + 1"
  by (auto simp: scanf_getc_def Let_def dest: getc_SomeD split: prod.splits if_splits)

lemma scanf_getc_NoneD:
  "scanf_getc s = (None, s') \<Longrightarrow> left s = [] \<and> left s' = [] \<and> slen s' = slen s \<and> seof (stream s')"
  by (auto simp: scanf_getc_def Let_def dest: getc_NoneD split: prod.splits if_splits)

lemma scanf_getc_Cons:
  assumes "left s = c # cs"
  obtains s' where "scanf_getc s = (Some c, s')" "left s' = cs" "unget (stream s') = 0"
    "slen s' = slen s + 1"
proof -
  obtain f' where "getc (stream s) = (Some c, f')" "unread f' = cs" "unget f' = 0"
    by (rule getc_Cons [OF assms])
  then show thesis using that by (simp add: scanf_getc_def)
qed

lemma scanf_ungetc_left:
  "unget (stream s) = 0 \<Longrightarrow>
     left (scanf_ungetc (Some c) s) = c # left s \<and> slen (scanf_ungetc (Some c) s) = slen s - 1"
  by (simp add: scanf_ungetc_def unread_ungetc)

lemma scanf_getc_total: "scanf_getc s = (c, s') \<Longrightarrow> scan_total s' = scan_total s"
  by (cases c) (auto simp: scan_total_def dest: scanf_getc_SomeD scanf_getc_NoneD)

lemma scanf_ungetc_total:
  "unget (stream s) = 0 \<Longrightarrow> scan_total (scanf_ungetc (Some c) s) = scan_total s"
  using scanf_ungetc_left [of s c] by (simp add: scan_total_def)

section \<open>Conversions\<close>

definition isspace :: "char \<Rightarrow> bool" where
  "isspace c \<longleftrightarrow> c = CHR '' '' \<or> (CHR 0x09 \<le> c \<and> c \<le> CHR 0x0D)"

function skip_spaces :: "scan \<Rightarrow> char option \<times> scan" where
  "skip_spaces s =
     (case scanf_getc s of
        (None, s) \<Rightarrow> (None, s)
      | (Some i, s) \<Rightarrow> if isspace i then skip_spaces s else (Some i, scanf_ungetc (Some i) s))"
  by auto
termination
  by (relation "measure (length \<circ> left)") (auto dest!: scanf_getc_SomeD [OF sym])

text \<open>\<open>digit_to_val\<close> of \<open>local-stdio.h\<close>; \<open>i\<close> is the code of the character.\<close>

definition TOLOWER :: "u32 \<Rightarrow> u32" where
  "TOLOWER c = c OR (97 - 65)"

definition digit_to_val :: "u32 \<Rightarrow> u32" where
  "digit_to_val c = (let c = (if c > 57 then TOLOWER (c - 1) + (48 - 97 + 11) else c) in c - 48)"

record sflags =
  fl_star :: bool
  fl_width :: bool
  fl_long :: bool
  fl_char :: bool
  fl_short :: bool

datatype store = PutChar u8 | PutShort u16 | PutInt u32 | PutLong u64 | PutString string | PutChars string

definition putval :: "u64 \<Rightarrow> sflags \<Rightarrow> store list" where
  "putval val fl =
     (if fl_star fl then []
      else if fl_char fl then [PutChar (ucast val)]
      else if fl_long fl then [PutLong val]
      else if fl_short fl then [PutShort (ucast val)]
      else [PutInt (ucast val)])"

abbreviation ccode :: "char \<Rightarrow> u32" where "ccode c \<equiv> of_char c"

text \<open>
  The digit loop of \<open>conv_int\<close>; \<open>i\<close> is the character in hand.  The flag
  \<open>any\<close> is \<open>FL_ANY\<close>.
\<close>

function conv_digits :: "scan \<Rightarrow> u32 \<Rightarrow> u32 \<Rightarrow> bool \<Rightarrow> u64 \<Rightarrow> char \<Rightarrow> u64 option \<times> scan" where
  "conv_digits s width base any val i =
     (let c = digit_to_val (ccode i) in
      if c \<ge> base then (if any then Some val else None, scanf_ungetc (Some i) s)
      else let val = val * ucast base + ucast c; width = width - 1 in
           if width = 0 then (Some val, s)
           else case scanf_getc s of
                  (None, s) \<Rightarrow> (Some val, s)
                | (Some i, s) \<Rightarrow> conv_digits s width base True val i)"
  by auto
termination
  by (relation "measure (\<lambda>(s, _). length (left s))") (auto dest!: scanf_getc_SomeD [OF sym])

text \<open>
  After an optional sign: a leading zero may announce the base.  \<open>Inl\<close> is the
  jump to \<open>putval\<close> with the value zero.
\<close>

definition conv_prefix ::
  "scan \<Rightarrow> u32 \<Rightarrow> u32 \<Rightarrow> char \<Rightarrow> (unit + u32 \<times> u32 \<times> bool \<times> char) \<times> scan" where
  "conv_prefix s width base i =
     (if i = CHR ''0'' then
        (let width = width - 1 in
         if width = 0 then (Inl (), s)
         else case scanf_getc s of
           (None, s) \<Rightarrow> (Inl (), s)
         | (Some i, s) \<Rightarrow>
             if TOLOWER (ccode i) = 120 \<and> (base = 0 \<or> base = 16) then
               (let width = width - 1 in
                if width = 0 then (Inl (), s)
                else case scanf_getc s of
                       (None, s) \<Rightarrow> (Inl (), s)
                     | (Some i, s) \<Rightarrow> (Inr (width, 16, True, i), s))
             else (Inr (width, if base = 0 \<or> base = 8 then 8 else base, True, i), s))
      else (Inr (width, if base = 0 then 10 else base, False, i), s))"

definition conv_unsigned :: "scan \<Rightarrow> u32 \<Rightarrow> u32 \<Rightarrow> char \<Rightarrow> u64 option \<times> scan" where
  "conv_unsigned s width base i =
     (case conv_prefix s width base i of
        (Inl _, s) \<Rightarrow> (Some 0, s)
      | (Inr (width, base, any, i), s) \<Rightarrow> conv_digits s width base any 0 i)"

definition conv_int :: "scan \<Rightarrow> u32 \<Rightarrow> u32 \<Rightarrow> u64 option \<times> scan" where
  "conv_int s width base =
     (case scanf_getc s of
        (None, s) \<Rightarrow> (None, s)
      | (Some i, s) \<Rightarrow>
          if i = CHR ''-'' \<or> i = CHR ''+'' then
            (let minus = (i = CHR ''-''); width = width - 1 in
             if width = 0 then (None, s)
             else case scanf_getc s of
                    (None, s) \<Rightarrow> (None, s)
                  | (Some i, s) \<Rightarrow>
                      (case conv_unsigned s width base i of
                         (v, s) \<Rightarrow> (if minus then map_option uminus v else v, s)))
          else conv_unsigned s width base i)"

text \<open>
  One pass of \<open>conv_brk\<close> over the scan set: does \<open>wi\<close> (the code of the
  character, -1 at the end of the input) match, and where does the format go
  on?  \<open>None\<close> when the set is not closed.
\<close>

fun brk_match :: "bool \<Rightarrow> bool \<Rightarrow> nat \<Rightarrow> bool \<Rightarrow> string \<Rightarrow> int \<Rightarrow> (bool \<times> string) option" where
  "brk_match first frange cabove fmatch [] wi = None"
| "brk_match first frange cabove fmatch (f # fmt) wi =
     (if \<not> first \<and> f = CHR '']'' then Some (fmatch, fmt)
      else if \<not> first \<and> f = CHR ''-'' \<and> \<not> frange \<and> (fmt = [] \<or> hd fmt \<noteq> CHR '']'')
      then brk_match False True cabove fmatch fmt wi
      else let cbelow = (if frange then cabove else of_char f); cabove = of_char f
           in brk_match False False cabove (fmatch \<or> (int cbelow \<le> wi \<and> wi \<le> int cabove)) fmt wi)"

function brk_loop :: "scan \<Rightarrow> u32 \<Rightarrow> bool \<Rightarrow> string \<Rightarrow> string \<Rightarrow> (string \<times> string) option \<times> scan" where
  "brk_loop s width fnegate fmt acc =
     (case scanf_getc s of
        (None, s) \<Rightarrow>
          (case brk_match True False 0 False fmt (- 1) of
             None \<Rightarrow> (None, s)
           | Some (_, fmt') \<Rightarrow> (if acc = [] then None else Some (acc, fmt'), s))
      | (Some wi, s) \<Rightarrow>
          (case brk_match True False 0 False fmt (of_char wi) of
             None \<Rightarrow> (None, s)
           | Some (fmatch, fmt') \<Rightarrow>
               if fmatch = fnegate
               then (if acc = [] then None else Some (acc, fmt'), scanf_ungetc (Some wi) s)
               else let acc = acc @ [wi]; width = width - 1 in
                    if width = 0 then (Some (acc, fmt'), s) else brk_loop s width fnegate fmt acc))"
  by auto
termination
  by (relation "measure (\<lambda>(s, _). length (left s))") (auto dest!: scanf_getc_SomeD [OF sym])

definition conv_brk :: "scan \<Rightarrow> u32 \<Rightarrow> string \<Rightarrow> (string \<times> string) option \<times> scan" where
  "conv_brk s width fmt =
     (case fmt of
        c # fmt' \<Rightarrow> if c = CHR ''^'' then brk_loop s width True fmt' [] else brk_loop s width False fmt []
      | [] \<Rightarrow> brk_loop s width False fmt [])"

text \<open>The loops of \<open>%c\<close> and \<open>%s\<close>.\<close>

function chr_loop :: "scan \<Rightarrow> u32 \<Rightarrow> string \<Rightarrow> string option \<times> scan" where
  "chr_loop s width acc =
     (case scanf_getc s of
        (None, s) \<Rightarrow> (if acc \<noteq> [] then Some acc else None, s)
      | (Some wi, s) \<Rightarrow>
          let acc = acc @ [wi]; width = width - 1 in
          if width = 0 then (Some acc, s) else chr_loop s width acc)"
  by auto
termination
  by (relation "measure (\<lambda>(s, _). length (left s))") (auto dest!: scanf_getc_SomeD [OF sym])

function str_loop :: "scan \<Rightarrow> u32 \<Rightarrow> string \<Rightarrow> string \<times> scan" where
  "str_loop s width acc =
     (case scanf_getc s of
        (None, s) \<Rightarrow> (acc, s)
      | (Some wi, s) \<Rightarrow>
          if isspace wi then (acc, scanf_ungetc (Some wi) s)
          else let acc = acc @ [wi]; width = width - 1 in
               if width = 0 then (acc, s) else str_loop s width acc)"
  by auto
termination
  by (relation "measure (\<lambda>(s, _). length (left s))") (auto dest!: scanf_getc_SomeD [OF sym])

declare skip_spaces.simps [simp del] conv_digits.simps [simp del] brk_loop.simps [simp del]
  chr_loop.simps [simp del] str_loop.simps [simp del]

section \<open>The format interpreter\<close>

text \<open>
  The character \<open>c\<close> the code holds while it reads a directive is the head of
  the remaining format; the empty list is the terminator.
\<close>

fun parse_width :: "bool \<Rightarrow> u32 \<Rightarrow> string \<Rightarrow> bool \<times> u32 \<times> string" where
  "parse_width fw width [] = (fw, width, [])"
| "parse_width fw width (c # fmt) =
     (if CHR ''0'' \<le> c \<and> c \<le> CHR ''9''
      then parse_width True (width * 10 + (ccode c - 48)) fmt else (fw, width, c # fmt))"

definition no_flags :: sflags where
  "no_flags = \<lparr>fl_star = False, fl_width = False, fl_long = False, fl_char = False, fl_short = False\<rparr>"

text \<open>\<open>long long\<close>, \<open>intmax_t\<close>, \<open>size_t\<close> and \<open>ptrdiff_t\<close> have the size of \<open>long\<close>.\<close>

definition parse_size :: "sflags \<Rightarrow> string \<Rightarrow> sflags \<times> string" where
  "parse_size fl fmt =
     (case fmt of
        [] \<Rightarrow> (fl, [])
      | c # rest \<Rightarrow>
          if c = CHR ''h'' then
            (case rest of
               c' # rest' \<Rightarrow> if c' = CHR ''h'' then (fl\<lparr>fl_short := True, fl_char := True\<rparr>, rest')
                             else (fl\<lparr>fl_short := True\<rparr>, rest)
             | [] \<Rightarrow> (fl\<lparr>fl_short := True\<rparr>, rest))
          else if c = CHR ''l'' then
            (case rest of
               c' # rest' \<Rightarrow> if c' = CHR ''l'' then (fl\<lparr>fl_long := True\<rparr>, rest')
                             else (fl\<lparr>fl_long := True\<rparr>, rest)
             | [] \<Rightarrow> (fl\<lparr>fl_long := True\<rparr>, rest))
          else if c \<in> set ''Ljzt'' then (fl\<lparr>fl_long := True\<rparr>, rest)
          else (fl, fmt))"

text \<open>
  The directive after \<open>%\<close>.  A width of zero leaves the inner loop like any
  other width, so it reaches the conversions, where \<open>--width\<close> wraps.
\<close>

definition parse_spec :: "string \<Rightarrow> sflags \<times> u32 \<times> string" where
  "parse_spec fmt =
     (let (star, fmt) = (case fmt of c # rest \<Rightarrow> if c = CHR ''*'' then (True, rest) else (False, fmt)
                         | [] \<Rightarrow> (False, []));
          (fw, width, fmt) = parse_width False 0 fmt;
          width = (if fw then width else - 1);
          (fl, fmt) = parse_size (no_flags\<lparr>fl_star := star, fl_width := fw\<rparr>) fmt
      in (fl, width, fmt))"

datatype conv = ConvEof | ConvFail | ConvOk "store list" string

definition CNV_LIST :: string where "CNV_LIST = ''cdinopsuxX[''"

definition conv_base :: "char \<Rightarrow> u32" where
  "conv_base c =
     (if c = CHR ''d'' \<or> c = CHR ''u'' then 10 else if c = CHR ''o'' then 8
      else if c = CHR ''i'' then 0 else 16)"

definition puts_unless :: "sflags \<Rightarrow> store \<Rightarrow> store list" where
  "puts_unless fl st = (if fl_star fl then [] else [st])"

definition convert :: "char \<Rightarrow> sflags \<Rightarrow> u32 \<Rightarrow> string \<Rightarrow> scan \<Rightarrow> conv \<times> scan" where
  "convert c fl width fmt s =
     (if c = CHR ''c'' then
        (case chr_loop s (if fl_width fl then width else 1) [] of
           (None, s) \<Rightarrow> (ConvEof, s)
         | (Some cs, s) \<Rightarrow> (ConvOk (puts_unless fl (PutChars cs)) fmt, s))
      else if c = CHR ''['' then
        (case conv_brk s width fmt of
           (None, s) \<Rightarrow> (ConvFail, s)
         | (Some (cs, fmt'), s) \<Rightarrow> (ConvOk (puts_unless fl (PutString cs)) fmt', s))
      else
        (case skip_spaces s of
           (None, s) \<Rightarrow> (ConvEof, s)
         | (Some _, s) \<Rightarrow>
             if c = CHR ''s'' then
               (case str_loop s width [] of (cs, s) \<Rightarrow> (ConvOk (puts_unless fl (PutString cs)) fmt, s))
             else
               let fl = (if c = CHR ''p'' then fl\<lparr>fl_long := True\<rparr> else fl) in
               (case conv_int s width (conv_base c) of
                  (None, s) \<Rightarrow> (ConvFail, s)
                | (Some val, s) \<Rightarrow> (ConvOk (putval val fl) fmt, s))))"

lemma brk_match_shorter:
  "brk_match first frange cabove fmatch fmt wi = Some (m, fmt') \<Longrightarrow> length fmt' < length fmt"
  by (induction first frange cabove fmatch fmt wi rule: brk_match.induct)
     (force simp: Let_def split: if_splits)+

lemma brk_loop_shorter: "brk_loop s width neg fmt acc = (Some (cs, fmt'), s') \<Longrightarrow> length fmt' < length fmt"
proof (induction s width neg fmt acc rule: brk_loop.induct)
  case (1 s width neg fmt acc)
  from 1(2) show ?case
    by (subst (asm) brk_loop.simps)
       (auto simp: Let_def split: prod.splits option.splits if_splits dest: brk_match_shorter 1(1) [rotated -1])
qed

lemma convert_shorter: "convert c fl width fmt s = (ConvOk st fmt', s') \<Longrightarrow> length fmt' \<le> length fmt"
  by (auto simp: convert_def conv_brk_def Let_def dest!: brk_loop_shorter
      split: if_splits option.splits prod.splits list.splits)

lemma parse_width_shorter: "parse_width fw w fmt = (fw', w', fmt') \<Longrightarrow> length fmt' \<le> length fmt"
  by (induction fw w fmt rule: parse_width.induct) (auto split: if_splits)

lemma parse_size_shorter: "parse_size fl fmt = (fl', fmt') \<Longrightarrow> length fmt' \<le> length fmt"
  by (auto simp: parse_size_def split: list.splits if_splits)

lemma parse_spec_shorter: "parse_spec fmt = (fl, w, fmt') \<Longrightarrow> length fmt' \<le> length fmt"
  by (auto simp: parse_spec_def Let_def split: prod.splits list.splits if_splits
      dest!: parse_width_shorter parse_size_shorter)

definition eof_value :: "u8 \<Rightarrow> int" where
  "eof_value nconvs = (if nconvs \<noteq> 0 then uint nconvs else - 1)"

text \<open>The literal character of an ordinary directive: itself, or the second \<open>%\<close> of \<open>%%\<close>.\<close>

definition ordinary :: "char \<Rightarrow> string \<Rightarrow> string option" where
  "ordinary c fmt =
     (if c \<noteq> CHR ''%'' then Some fmt
      else case fmt of c' # rest \<Rightarrow> if c' = CHR ''%'' then Some rest else None | [] \<Rightarrow> None)"

lemma ordinary_shorter: "ordinary c fmt = Some fmt' \<Longrightarrow> length fmt' \<le> length fmt"
  by (auto simp: ordinary_def split: if_splits list.splits)

function vfscanf :: "string \<Rightarrow> scan \<Rightarrow> u8 \<Rightarrow> store list \<Rightarrow> int \<times> store list \<times> scan" where
  "vfscanf [] s nconvs out = (uint nconvs, out, s)"
| "vfscanf (c # fmt) s nconvs out =
     (if isspace c then vfscanf fmt (snd (skip_spaces s)) nconvs out
      else case ordinary c fmt of
        Some fmt \<Rightarrow>
          (case scanf_getc s of
             (None, s) \<Rightarrow> (eof_value nconvs, out, s)
           | (Some i, s) \<Rightarrow>
               if i \<noteq> c then (uint nconvs, out, scanf_ungetc (Some i) s)
               else vfscanf fmt s nconvs out)
      | None \<Rightarrow>
          (case parse_spec fmt of (fl, width, fmt) \<Rightarrow>
             (case fmt of
                [] \<Rightarrow> (uint nconvs, out, s)
              | c # fmt \<Rightarrow>
                  if c \<notin> set CNV_LIST then (uint nconvs, out, s)
                  else if c = CHR ''n''
                  then vfscanf fmt s nconvs (out @ putval (word_of_int (slen s)) fl)
                  else case convert c fl width fmt s of
                    (ConvEof, s) \<Rightarrow> (eof_value nconvs, out, s)
                  | (ConvFail, s) \<Rightarrow>
                      if seof (stream s) \<and> nconvs = 0 then (eof_value nconvs, out, s)
                      else (uint nconvs, out, s)
                  | (ConvOk st fmt', s) \<Rightarrow>
                      vfscanf fmt' s (if fl_star fl then nconvs else nconvs + 1) (out @ st))))"
  by pat_completeness auto
termination
  by (relation "measure (\<lambda>(fmt, _). length fmt)")
     (auto dest!: ordinary_shorter parse_spec_shorter [OF sym] convert_shorter [OF sym])

declare vfscanf.simps(2) [simp del]

definition sscanf :: "string \<Rightarrow> string \<Rightarrow> int \<times> store list" where
  "sscanf s fmt =
     (case vfscanf fmt \<lparr>stream = setup_string_read s, slen = 0\<rparr> 0 [] of (i, out, _) \<Rightarrow> (i, out))"

section \<open>The character count\<close>

text \<open>
  Every step keeps \<open>total\<close>: the count plus what is left.  A character is
  pushed back only right after it was taken, so the push-back never fails.
\<close>

lemma getc_ungetc_total:
  "scanf_getc s = (Some c, s') \<Longrightarrow> scan_total (scanf_ungetc (Some c) s') = scan_total s"
  using scanf_getc_SomeD [of s c s'] scanf_ungetc_total [of s' c] scanf_getc_total [of s "Some c" s'] by simp

lemma skip_spaces_total: "skip_spaces s = (c, s') \<Longrightarrow> scan_total s' = scan_total s"
proof (induction s rule: skip_spaces.induct)
  case (1 s)
  show ?case
  proof (cases "scanf_getc s")
    case (Pair i t)
    then show ?thesis using 1 scanf_getc_total [OF Pair] getc_ungetc_total [of s _ t]
      by (cases i) (auto simp: skip_spaces.simps [of s] split: if_splits)
  qed
qed

lemma getc_step:
  "scanf_getc s = (c, s') \<Longrightarrow> scan_total s' = scan_total s \<and> (c \<noteq> None \<longrightarrow> unget (stream s') = 0)"
  using scanf_getc_total [of s c s'] scanf_getc_SomeD [of s _ s'] by (cases c) auto

lemma conv_digits_total:
  "conv_digits s width base any val i = (v, s') \<Longrightarrow> unget (stream s) = 0 \<Longrightarrow> scan_total s' = scan_total s"
proof (induction s width base any val i rule: conv_digits.induct)
  case (1 s width base any val i)
  show ?case
  proof (cases "scanf_getc s")
    case (Pair c t)
    note IH = 1(1) [OF refl _ refl refl _ Pair [symmetric]]
    then show ?thesis using 1(2,3) getc_step [OF Pair]
      by (cases c) (auto simp: conv_digits.simps [of s] Let_def Pair scanf_ungetc_total split: if_splits)
  qed
qed

lemma conv_prefix_total:
  assumes "conv_prefix s width base i = (r, s')" "unget (stream s) = 0"
  shows "scan_total s' = scan_total s \<and> (\<forall>x. r = Inr x \<longrightarrow> unget (stream s') = 0)"
  using assms
  by (auto simp: conv_prefix_def Let_def split: if_splits prod.splits option.splits dest!: getc_step)

lemma conv_unsigned_total:
  assumes "conv_unsigned s width base i = (v, s')" "unget (stream s) = 0"
  shows "scan_total s' = scan_total s"
  using assms
  by (auto simp: conv_unsigned_def split: prod.splits sum.splits
      dest!: conv_prefix_total conv_digits_total)

lemma conv_int_total: "conv_int s width base = (v, s') \<Longrightarrow> scan_total s' = scan_total s"
  by (auto simp: conv_int_def Let_def split: if_splits prod.splits option.splits
      dest!: getc_step dest: conv_unsigned_total)

lemma brk_loop_total: "brk_loop s width neg fmt acc = (r, s') \<Longrightarrow> scan_total s' = scan_total s"
proof (induction s width neg fmt acc rule: brk_loop.induct)
  case (1 s width neg fmt acc)
  show ?case
  proof (cases "scanf_getc s")
    case (Pair c t)
    note IH = 1(1) [OF Pair [symmetric]]
    then show ?thesis using 1(2) getc_step [OF Pair]
      by (cases c) (auto simp: brk_loop.simps [of s] Let_def Pair scanf_ungetc_total
          split: if_splits option.splits)
  qed
qed

lemma chr_loop_total: "chr_loop s width acc = (r, s') \<Longrightarrow> scan_total s' = scan_total s"
proof (induction s width acc rule: chr_loop.induct)
  case (1 s width acc)
  show ?case
  proof (cases "scanf_getc s")
    case (Pair c t)
    note IH = 1(1) [OF Pair [symmetric]]
    then show ?thesis using 1(2) getc_step [OF Pair]
      by (cases c) (auto simp: chr_loop.simps [of s] Let_def Pair split: if_splits)
  qed
qed

lemma str_loop_total: "str_loop s width acc = (r, s') \<Longrightarrow> scan_total s' = scan_total s"
proof (induction s width acc rule: str_loop.induct)
  case (1 s width acc)
  show ?case
  proof (cases "scanf_getc s")
    case (Pair c t)
    note IH = 1(1) [OF Pair [symmetric]]
    then show ?thesis using 1(2) getc_step [OF Pair]
      by (cases c) (auto simp: str_loop.simps [of s] Let_def Pair scanf_ungetc_total split: if_splits)
  qed
qed

lemma convert_total: "convert c fl width fmt s = (r, s') \<Longrightarrow> scan_total s' = scan_total s"
  by (auto simp: convert_def conv_brk_def Let_def split: if_splits option.splits prod.splits list.splits
      dest!: brk_loop_total chr_loop_total str_loop_total conv_int_total skip_spaces_total)

lemma vfscanf_total: "vfscanf fmt s nconvs out = (r, out', s') \<Longrightarrow> scan_total s' = scan_total s"
proof (induction fmt s nconvs out arbitrary: r out' s' rule: vfscanf.induct)
  case (2 c fmt s nconvs out)
  note run = 2(5) [unfolded vfscanf.simps(2)]
  consider (space) "isspace c" | (lit) fmt' where "\<not> isspace c" "ordinary c fmt = Some fmt'"
    | (spec) fl width fmt' where "\<not> isspace c" "ordinary c fmt = None" "parse_spec fmt = (fl, width, fmt')"
    by (cases "isspace c"; cases "ordinary c fmt"; cases "parse_spec fmt") auto
  then show ?case
  proof cases
    case space
    then show ?thesis using run 2(1) [OF space] skip_spaces_total [of s] by (cases "skip_spaces s") auto
  next
    case lit
    obtain i t where it: "scanf_getc s = (i, t)" by fastforce
    show ?thesis
    proof (cases i)
      case None
      then show ?thesis using run lit it scanf_getc_total [OF it] by simp
    next
      case (Some ch)
      note step = getc_step [OF it] and IH = 2(4) [OF lit it [symmetric] Some]
      show ?thesis using run lit it Some step IH
        by (cases "ch = c") (auto simp: scanf_ungetc_total)
    qed
  next
    case spec
    show ?thesis
    proof (cases fmt')
      case Nil
      then show ?thesis using run spec by simp
    next
      case (Cons d rest)
      note IHn = 2(2) [OF spec(1,2) spec(3) [symmetric] refl Cons]
      note IHc = 2(3) [OF spec(1,2) spec(3) [symmetric] refl Cons]
      obtain cr t where conv: "convert d fl width rest s = (cr, t)" by fastforce
      show ?thesis
        using run spec Cons conv convert_total [OF conv] IHn IHc
        by (auto split: if_splits conv.splits)
    qed
  qed
qed simp

section \<open>Numbers\<close>

definition isalnum :: "char \<Rightarrow> bool" where
  "isalnum c \<longleftrightarrow> (CHR ''0'' \<le> c \<and> c \<le> CHR ''9'') \<or> (CHR ''A'' \<le> c \<and> c \<le> CHR ''Z'')
     \<or> (CHR ''a'' \<le> c \<and> c \<le> CHR ''z'')"

text \<open>The value of a digit, and of a digit string in a base.\<close>

definition dval :: "char \<Rightarrow> nat" where
  "dval c = (if c \<le> CHR ''9'' then of_char c - 48 else if c \<le> CHR ''Z'' then of_char c - 55
             else of_char c - 87)"

definition num_val :: "nat \<Rightarrow> string \<Rightarrow> nat" where
  "num_val b ds = foldl (\<lambda>v c. v * b + dval c) 0 ds"

lemma or_power: "n OR 2 ^ k = (if odd (n div 2 ^ k) then n else n + 2 ^ k)" for n :: nat
proof (cases "bit n k")
  case True
  then have "n OR 2 ^ k = n" by (intro bit_eqI) (auto simp: bit_simps)
  then show ?thesis using True by (simp add: bit_iff_odd)
next
  case False
  then have "n + 2 ^ k = n OR 2 ^ k" by (intro disjunctive_add) (auto simp: bit_simps)
  then show ?thesis using False by (simp add: bit_iff_odd)
qed

lemma or_32: "n < 256 \<Longrightarrow> n OR 32 = (if odd (n div 32) then n else n + 32)" for n :: nat
  using or_power [of n 5] by simp

lemma digit_to_val_nat:
  assumes "n < 256"
  shows "digit_to_val (of_nat n) =
    (if 57 < n then of_nat (if odd ((n - 1) div 32) then n - 1 else n + 31) - 86 else of_nat n - 48)"
proof -
  have "TOLOWER (of_nat n - 1) = of_nat ((n - 1) OR 32)" if "57 < n"
    using that by (simp add: TOLOWER_def of_nat_or_eq of_nat_diff)
  moreover have "(57 < (of_nat n :: u32)) = (57 < n)"
    using assms by (simp add: word_less_nat_alt unat_of_nat)
  ultimately show ?thesis using assms or_32 [of "n - 1"]
    by (simp add: digit_to_val_def Let_def)
qed

lemma of_nat_sub_ge:
  assumes "n < k \<or> k + 36 \<le> n" "k \<le> 1000" "n \<le> 1000"
  shows "36 \<le> (of_nat n - of_nat k :: u32)"
proof (cases "n < k")
  case True
  define m where "m = 4294967296 + n - k"
  have "(of_nat n - of_nat k :: u32) = of_nat m" using assms by (simp add: m_def of_nat_diff)
  moreover have "m < 4294967296" "36 \<le> m" using True assms by (simp_all add: m_def)
  ultimately show ?thesis by (simp add: word_le_nat_alt unat_of_nat)
next
  case False
  define m where "m = n - k"
  have "(of_nat n - of_nat k :: u32) = of_nat m" using False by (simp add: m_def of_nat_diff)
  moreover have "m < 4294967296" "36 \<le> m" using False assms by (simp_all add: m_def)
  ultimately show ?thesis by (simp add: word_le_nat_alt unat_of_nat)
qed

lemma div_32: "32 * q < n \<Longrightarrow> n \<le> 32 * q + 32 \<Longrightarrow> (n - 1) div 32 = q" for n q :: nat
  by (rule div_nat_eqI) auto

lemma digit_to_val_dval:
  "if isalnum c then digit_to_val (ccode c) = of_nat (dval c) \<and> dval c < 36
   else 36 \<le> digit_to_val (ccode c)"
proof -
  define n :: nat where "n = of_char c"
  have n: "n < 256" using of_char_mod_256 [of c, where 'a = nat] mod_less_divisor [of 256 n]
    by (simp add: n_def)
  have code: "ccode c = of_nat n" unfolding n_def by (rule of_nat_of_char [symmetric])
  have al: "isalnum c \<longleftrightarrow> 48 \<le> n \<and> n \<le> 57 \<or> 65 \<le> n \<and> n \<le> 90 \<or> 97 \<le> n \<and> n \<le> 122"
    and dv: "dval c = (if n \<le> 57 then n - 48 else if n \<le> 90 then n - 55 else n - 87)"
    by (simp_all add: isalnum_def dval_def less_eq_char_def n_def)
  note dtv = digit_to_val_nat [OF n]
  consider "n < 48" | "48 \<le> n" "n \<le> 57" | "58 \<le> n" "n \<le> 64" | "65 \<le> n" "n \<le> 90"
    | "91 \<le> n" "n \<le> 96" | "97 \<le> n" "n \<le> 122" | "123 \<le> n" "n \<le> 128" | "129 \<le> n" by linarith
  then show ?thesis
  proof cases
    case 1
    then show ?thesis unfolding code using al dtv of_nat_sub_ge [of n 48] by simp
  next
    case 2
    then show ?thesis unfolding code using al dv dtv by (simp add: of_nat_diff)
  next
    case 3
    then show ?thesis unfolding code using al dtv of_nat_sub_ge [of n 87] div_32 [of 1 n] by simp
  next
    case 4
    then show ?thesis unfolding code using al dv dtv div_32 [of 2 n] by (simp add: of_nat_diff)
  next
    case 5
    then show ?thesis unfolding code using al dtv of_nat_sub_ge [of n 55] div_32 [of 2 n] by simp
  next
    case 6
    then show ?thesis unfolding code using al dv dtv div_32 [of 3 n] by (simp add: of_nat_diff)
  next
    case 7
    then show ?thesis unfolding code using al dtv of_nat_sub_ge [of n 87] div_32 [of 3 n] by simp
  next
    case 8
    then show ?thesis unfolding code using al dtv n of_nat_sub_ge [of n 87] of_nat_sub_ge [of n 55] by simp
  qed
qed

abbreviation is_digit :: "u32 \<Rightarrow> char \<Rightarrow> bool" where
  "is_digit base c \<equiv> digit_to_val (ccode c) < base"

lemma is_digit_iff:
  assumes "base \<le> 36"
  shows "is_digit base c \<longleftrightarrow> isalnum c \<and> dval c < unat base"
proof (cases "isalnum c")
  case True
  then have c: "digit_to_val (ccode c) = of_nat (dval c)" "dval c < 36"
    using digit_to_val_dval [of c] by simp_all
  then show ?thesis using True by (simp add: word_less_nat_alt unat_of_nat)
next
  case False
  then show ?thesis using digit_to_val_dval [of c] assms by auto
qed

text \<open>The value of a digit string, in \<open>unsigned long\<close> arithmetic.\<close>

definition digits_val :: "u32 \<Rightarrow> u64 \<Rightarrow> string \<Rightarrow> u64" where
  "digits_val base = foldl (\<lambda>v c. v * ucast base + ucast (digit_to_val (ccode c)))"

lemma TOLOWER_x: "TOLOWER (ccode c) = 120 \<longleftrightarrow> c = CHR ''x'' \<or> c = CHR ''X''"
proof -
  define n :: nat where "n = of_char c"
  have n: "n < 256" using of_char_mod_256 [of c, where 'a = nat] mod_less_divisor [of 256 n]
    by (simp add: n_def)
  have "TOLOWER (ccode c) = of_nat (n OR 32)"
    by (simp add: TOLOWER_def n_def of_nat_or_eq of_nat_of_char)
  moreover have "n OR 32 < 4294967296" using or_32 [OF n] n by (simp split: if_splits)
  ultimately have "TOLOWER (ccode c) = 120 \<longleftrightarrow> n OR 32 = 120"
    by (simp add: word_unat_eq_iff unat_of_nat del: of_nat_or_eq)
  also have "\<dots> \<longleftrightarrow> n = 120 \<or> n = 88" using or_32 [OF n] by (auto split: if_splits)
  also have "\<dots> \<longleftrightarrow> c = CHR ''x'' \<or> c = CHR ''X''"
    using of_char_eq_iff [of c "CHR ''x''", where 'a = nat] of_char_eq_iff [of c "CHR ''X''", where 'a = nat]
    by (simp add: n_def)
  finally show ?thesis .
qed

lemma digit_0: "digit_to_val 48 = 0"
  by (simp add: digit_to_val_def)

lemma digits_val_0: "digits_val base 0 (CHR ''0'' # ds) = digits_val base 0 ds"
  by (simp add: digits_val_def digit_0)

text \<open>
  A number: an optional sign, digits of the base, and a rest that does not go
  on with the number.
\<close>

definition number :: "u32 \<Rightarrow> string \<Rightarrow> string \<Rightarrow> string \<Rightarrow> bool" where
  "number base sign ds rest \<longleftrightarrow>
     sign \<in> {[], ''-'', ''+''} \<and> ds \<noteq> [] \<and> (\<forall>c \<in> set ds. is_digit base c) \<and>
     (rest = [] \<or> \<not> is_digit base (hd rest) \<and> (base = 16 \<longrightarrow> hd rest \<notin> {CHR ''x'', CHR ''X''})) \<and>
     length ds < 4294967293"

lemma unat_minus_one_32: "unat (- 1 :: u32) = 4294967295"
  by (simp add: unsigned_minus_1_eq_mask mask_eq_exp_minus_1)

lemma skip_spaces_run:
  assumes "left s = ws @ d # rest" "\<forall>c \<in> set ws. isspace c" "\<not> isspace d"
  shows "\<exists>s'. skip_spaces s = (Some d, s') \<and> left s' = d # rest \<and> slen s' = slen s + int (length ws)"
  using assms
proof (induction ws arbitrary: s)
  case Nil
  obtain t where t: "scanf_getc s = (Some d, t)" "left t = rest" "unget (stream t) = 0" "slen t = slen s + 1"
    by (rule scanf_getc_Cons [of s d rest]) (use Nil in simp)
  then show ?case using Nil scanf_ungetc_left [OF t(3), of d] by (simp add: skip_spaces.simps [of s])
next
  case (Cons w ws)
  obtain t where t: "scanf_getc s = (Some w, t)" "left t = ws @ d # rest" "unget (stream t) = 0"
    "slen t = slen s + 1" by (rule scanf_getc_Cons [of s w "ws @ d # rest"]) (use Cons.prems in simp)
  with Cons.IH [OF t(2)] Cons.prems show ?case by (auto simp: skip_spaces.simps [of s])
qed

definition plain_char :: "char \<Rightarrow> bool" where
  "plain_char c \<longleftrightarrow> \<not> (CHR ''0'' \<le> c \<and> c \<le> CHR ''9'') \<and> c \<notin> set ''*hlLjzt''"

lemma CNV_plain: "list_all plain_char CNV_LIST"
  by code_simp

lemma plain_charD:
  assumes "c \<in> set CNV_LIST"
  shows "\<not> (CHR ''0'' \<le> c \<and> c \<le> CHR ''9'')" "c \<noteq> CHR ''*''" "c \<noteq> CHR ''h''" "c \<noteq> CHR ''l''"
    "c \<notin> set ''Ljzt''"
proof -
  have p: "plain_char c" using CNV_plain assms by (simp only: list_all_iff)
  from p show "\<not> (CHR ''0'' \<le> c \<and> c \<le> CHR ''9'')" unfolding plain_char_def by (rule conjunct1)
  from p show "c \<noteq> CHR ''*''" "c \<noteq> CHR ''h''" "c \<noteq> CHR ''l''" "c \<notin> set ''Ljzt''"
    unfolding plain_char_def by simp_all
qed

lemma parse_spec_plain: "c \<in> set CNV_LIST \<Longrightarrow> parse_spec (c # fmt) = (no_flags, - 1, c # fmt)"
  by (frule plain_charD) (simp add: parse_spec_def parse_size_def no_flags_def plain_charD)

section \<open>Number fields\<close>

lemma unat_pred: "width \<noteq> 0 \<Longrightarrow> unat (width - 1 :: u32) = unat width - 1"
  by (simp add: unat_minus_one)

lemma conv_digits_width:
  assumes "left s = ds @ rest" "unget (stream s) = 0" "\<forall>c \<in> set (d # ds). is_digit base c"
    "Suc (length ds) \<le> unat width" "Suc (length ds) < unat width \<Longrightarrow> rest = [] \<or> \<not> is_digit base (hd rest)"
  shows "\<exists>s'. conv_digits s width base any val d = (Some (digits_val base val (d # ds)), s')
    \<and> left s' = rest \<and> slen s' = slen s + int (length ds)"
  using assms
proof (induction ds arbitrary: s width any val d)
  case Nil
  show ?case
  proof (cases "width - 1 = 0")
    case True
    then show ?thesis using Nil by (auto simp: conv_digits.simps [of s] digits_val_def Let_def not_le)
  next
    case w: False
    then have "unat width \<noteq> 1" by (metis diff_self unat_1 word_unat_eq_iff)
    then have stop: "rest = [] \<or> \<not> is_digit base (hd rest)" using Nil.prems(4,5) by simp
    show ?thesis
    proof (cases rest)
      case Nil': Nil
      obtain t where t: "scanf_getc s = (None, t)"
        using Nil.prems(1) Nil' scanf_getc_SomeD [of s] by (cases "scanf_getc s"; cases "fst (scanf_getc s)") auto
      from scanf_getc_NoneD [OF t] show ?thesis
        using Nil.prems w t Nil' by (auto simp: conv_digits.simps [of s] digits_val_def Let_def not_le)
    next
      case (Cons r rs)
      then have "left s = r # rs" using Nil.prems(1) by simp
      then obtain t where t: "scanf_getc s = (Some r, t)" "left t = rs" "unget (stream t) = 0"
        "slen t = slen s + 1" by (rule scanf_getc_Cons)
      have ends: "conv_digits t (width - 1) base True v r = (Some v, scanf_ungetc (Some r) t)" for v
        using stop Cons by (simp add: conv_digits.simps [of t] Let_def not_less)
      show ?thesis using Nil.prems w t Cons scanf_ungetc_left [OF t(3), of r]
        by (auto simp: conv_digits.simps [of s] digits_val_def Let_def not_le ends)
    qed
  qed
next
  case (Cons e ds)
  have "left s = e # (ds @ rest)" using Cons.prems(1) by simp
  then obtain t where t: "scanf_getc s = (Some e, t)" "left t = ds @ rest" "unget (stream t) = 0"
    "slen t = slen s + 1"
    by (rule scanf_getc_Cons)
  have w0: "width \<noteq> 0" and w: "width - 1 \<noteq> 0" using Cons.prems(4) by auto
  have len: "Suc (length ds) \<le> unat (width - 1)" using Cons.prems(4) by (simp add: unat_pred [OF w0])
  have ends: "rest = [] \<or> \<not> is_digit base (hd rest)" if "Suc (length ds) < unat (width - 1)"
    using that Cons.prems(5) by (simp add: unat_pred [OF w0])
  have dig: "\<forall>c \<in> set (e # ds). is_digit base c" using Cons.prems(3) by simp
  let ?val = "val * ucast base + ucast (digit_to_val (ccode d))"
  obtain s' where "conv_digits t (width - 1) base True ?val e = (Some (digits_val base ?val (e # ds)), s')"
    "left s' = rest" "slen s' = slen t + int (length ds)"
    using Cons.IH [OF t(2,3) dig len ends, of True ?val] by blast
  then show ?case using Cons.prems(3) w t
    by (auto simp: conv_digits.simps [of s] digits_val_def Let_def not_le)
qed

text \<open>
  After an optional sign: the prefix \<open>pre\<close> that announces the base and the digits \<open>ds\<close> of base \<open>b\<close>, when the conversion asks for
  \<open>base\<close>.
\<close>

definition reads :: "u32 \<Rightarrow> string \<Rightarrow> string \<Rightarrow> u32 \<Rightarrow> bool" where
  "reads base pre ds b \<longleftrightarrow>
     (\<forall>c \<in> set ds. is_digit b c) \<and> b \<le> 16 \<and> b \<noteq> 0 \<and>
     (base = b \<and> pre = [] \<and> ds \<noteq> []
      \<or> base = 0 \<and> b = 10 \<and> pre = [] \<and> ds \<noteq> [] \<and> hd ds \<noteq> CHR ''0''
      \<or> base = 0 \<and> b = 8 \<and> pre = ''0''
      \<or> (base = 0 \<or> base = 16) \<and> b = 16 \<and> pre \<in> {''0x'', ''0X''} \<and> ds \<noteq> [])"

lemma digit_not_x: "is_digit b c \<Longrightarrow> b \<le> 16 \<Longrightarrow> c \<notin> {CHR ''x'', CHR ''X''}"
proof -
  assume "is_digit b c" "b \<le> 16"
  then have "dval c < 16" using is_digit_iff [of b c] by (auto simp: word_le_nat_alt)
  then show ?thesis by (auto simp: dval_def less_eq_char_def)
qed

text \<open>A leading zero that is not followed by \<open>x\<close>: what follows is read in base \<open>b\<close>.\<close>

lemma conv_zero_run:
  assumes s: "left s = ts @ rest" "unget (stream s) = 0"
    and ts: "\<forall>c \<in> set ts. is_digit b c" and b: "b = (if base = 0 \<or> base = 8 then 8 else base)" "b \<le> 16"
    and w: "Suc (length ts) \<le> unat width"
    and ends: "Suc (length ts) < unat width \<Longrightarrow>
      rest = [] \<or> \<not> is_digit b (hd rest) \<and> (ts = [] \<longrightarrow> base = 0 \<or> base = 16 \<longrightarrow> hd rest \<notin> {CHR ''x'', CHR ''X''})"
  shows "\<exists>s'. conv_unsigned s width base CHR ''0'' = (Some (digits_val b 0 ts), s')
    \<and> left s' = rest \<and> slen s' = slen s + int (length ts)"
proof (cases "width - 1 = 0")
  case True
  then have "width = 1" by simp
  then have "ts = []" using w by simp
  then show ?thesis using True s by (auto simp: conv_unsigned_def conv_prefix_def Let_def digits_val_def)
next
  case w1: False
  then have "unat width \<noteq> 1" by (metis diff_self unat_1 word_unat_eq_iff)
  then have w2: "1 < unat width" using w by simp
  have w0: "width \<noteq> 0" using w2 by auto
  show ?thesis
  proof (cases "ts @ rest")
    case Nil
    obtain t where t: "scanf_getc s = (None, t)"
      using s(1) Nil scanf_getc_SomeD [of s] by (cases "scanf_getc s"; cases "fst (scanf_getc s)") auto
    from scanf_getc_NoneD [OF t] show ?thesis
      using Nil t w1 by (auto simp: conv_unsigned_def conv_prefix_def Let_def digits_val_def)
  next
    case (Cons e es)
    obtain t where t: "scanf_getc s = (Some e, t)" "left t = es" "unget (stream t) = 0"
      "slen t = slen s + 1" by (rule scanf_getc_Cons [of s e es]) (use s Cons in simp)
    have nox: "\<not> (TOLOWER (ccode e) = 120 \<and> (base = 0 \<or> base = 16))"
      using digit_not_x [of e b] ts ends w2 Cons b(2) by (cases ts) (auto simp: TOLOWER_x)
    have run: "conv_unsigned s width base CHR ''0'' = conv_digits t (width - 1) b True 0 e"
      using t(1) w1 nox b(1) by (simp add: conv_unsigned_def conv_prefix_def Let_def split del: if_split) auto
    show ?thesis
    proof (cases ts)
      case Nil
      then have "\<not> is_digit b e" using ends w2 Cons by auto
      then have "conv_digits t (width - 1) b True 0 e = (Some 0, scanf_ungetc (Some e) t)"
        by (simp add: conv_digits.simps [of t] Let_def not_less)
      then show ?thesis using run Nil Cons t scanf_ungetc_left [OF t(3), of e]
        by (simp add: digits_val_def)
    next
      case ts': (Cons e' ts')
      then have e: "left t = ts' @ rest" "e' = e" using t(2) Cons by simp_all
      have len: "Suc (length ts') \<le> unat (width - 1)" using w ts' by (simp add: unat_pred [OF w0])
      have stop: "rest = [] \<or> \<not> is_digit b (hd rest)" if "Suc (length ts') < unat (width - 1)"
        using that ends ts' by (auto simp: unat_pred [OF w0])
      show ?thesis
        using conv_digits_width [OF e(1) t(3) _ len stop, of e True 0] ts ts' e(2) run t(4) by auto
    qed
  qed
qed

lemma conv_hex_run:
  assumes s: "left s = x # ds @ rest" "unget (stream s) = 0" and x: "x \<in> {CHR ''x'', CHR ''X''}" "base = 0 \<or> base = 16"
    and ds: "\<forall>c \<in> set ds. is_digit 16 c" "ds \<noteq> []" and w: "2 + length ds \<le> unat width"
    and ends: "2 + length ds < unat width \<Longrightarrow> rest = [] \<or> \<not> is_digit 16 (hd rest)"
  shows "\<exists>s'. conv_unsigned s width base CHR ''0'' = (Some (digits_val 16 0 ds), s')
    \<and> left s' = rest \<and> slen s' = slen s + int (Suc (length ds))"
proof -
  obtain d ds' where d: "ds = d # ds'" using ds(2) by (cases ds) auto
  have w0: "width \<noteq> 0" "width - 1 \<noteq> 0" using w d by auto
  have w1: "width - 1 - 1 \<noteq> 0" using w d by auto
  have len: "unat (width - 1 - 1) = unat width - 2" using unat_pred [OF w0(1)] unat_pred [OF w0(2)] by (simp only: diff_diff_left one_add_one)
  obtain t where t: "scanf_getc s = (Some x, t)" "left t = ds @ rest" "unget (stream t) = 0" "slen t = slen s + 1"
    by (rule scanf_getc_Cons [OF s(1)])
  obtain u where u: "scanf_getc t = (Some d, u)" "left u = ds' @ rest" "unget (stream u) = 0" "slen u = slen t + 1"
    by (rule scanf_getc_Cons [of t d "ds' @ rest"]) (use t d in simp)
  have "conv_unsigned s width base CHR ''0'' = conv_digits u (width - 1 - 1) 16 True 0 d"
    using t(1) u(1) w0 w1 x TOLOWER_x [of x] by (simp add: conv_unsigned_def conv_prefix_def Let_def)
  moreover have "Suc (length ds') \<le> unat (width - 1 - 1)" using w d unfolding len by simp
  moreover have "rest = [] \<or> \<not> is_digit 16 (hd rest)" if "Suc (length ds') < unat (width - 1 - 1)"
    using that ends d unfolding len by simp
  ultimately show ?thesis using conv_digits_width [OF u(2,3), of d 16 "width - 1 - 1" True 0] ds(1) d u(4) t(4) by auto
qed

lemma conv_unsigned_width:
  assumes s: "left s = ts @ rest" "unget (stream s) = 0" and t: "pre @ ds = d # ts" and r: "reads base pre ds b"
    and w: "Suc (length ts) \<le> unat width"
    and ends: "Suc (length ts) < unat width \<Longrightarrow>
      rest = [] \<or> \<not> is_digit b (hd rest) \<and> (d # ts = ''0'' \<longrightarrow> base = 0 \<or> base = 16 \<longrightarrow> hd rest \<notin> {CHR ''x'', CHR ''X''})"
  shows "\<exists>s'. conv_unsigned s width base d = (Some (digits_val b 0 ds), s') \<and> left s' = rest \<and> slen s' = slen s + int (length ts)"
proof -
  have dig: "\<forall>c \<in> set ds. is_digit b c" and b: "b \<le> 16" "b \<noteq> 0" using r by (auto simp: reads_def)
  consider "pre \<in> {''0x'', ''0X''}" | "pre \<notin> {''0x'', ''0X''}" "d \<noteq> CHR ''0''" | "pre \<notin> {''0x'', ''0X''}" "d = CHR ''0''" by blast
  then show ?thesis
  proof cases
    case 1
    then have h: "d = CHR ''0''" "ts = hd ts # ds" "hd ts \<in> {CHR ''x'', CHR ''X''}" "base = 0 \<or> base = 16" "b = 16" "ds \<noteq> []"
      using t r by (auto simp: reads_def)
    have "left s = hd ts # ds @ rest" using s(1) h(2) by (metis append_Cons)
    moreover have "length ts = Suc (length ds)" using h(2) by (metis length_Cons)
    ultimately show ?thesis using conv_hex_run [of s "hd ts" ds rest base width] s h dig w ends by auto
  next
    case 2
    then have h: "pre = []" "ds = d # ts" "(if base = 0 then 10 else base) = b" using t r by (auto simp: reads_def)
    then show ?thesis using conv_digits_width [OF s, of d b width False 0] 2 dig w ends
      by (auto simp: conv_unsigned_def conv_prefix_def)
  next
    case 3
    then have h: "pre = [] \<and> ds = CHR ''0'' # ts \<or> pre = ''0'' \<and> ds = ts" "b = (if base = 0 \<or> base = 8 then 8 else base)"
      using t r by (auto simp: reads_def)
    then have v: "digits_val b 0 ds = digits_val b 0 ts" and dt: "\<forall>c \<in> set ts. is_digit b c" using digits_val_0 dig by auto
    show ?thesis unfolding v 3(2) by (rule conv_zero_run [OF s dt h(2) b(1) w]) (use ends 3 in auto)
  qed
qed

lemma conv_int_width:
  assumes s: "left s = sign @ pre @ ds @ rest" and sg: "sign \<in> {[], ''-'', ''+''}" and r: "reads base pre ds b"
    and w: "length (sign @ pre @ ds) \<le> unat width"
    and ends: "length (sign @ pre @ ds) < unat width \<Longrightarrow>
      rest = [] \<or> \<not> is_digit b (hd rest) \<and> (pre @ ds = ''0'' \<longrightarrow> base = 0 \<or> base = 16 \<longrightarrow> hd rest \<notin> {CHR ''x'', CHR ''X''})"
  shows "\<exists>s'. conv_int s width base = (Some (if sign = ''-'' then - digits_val b 0 ds else digits_val b 0 ds), s')
    \<and> left s' = rest \<and> slen s' = slen s + int (length (sign @ pre @ ds))"
proof -
  obtain d ts where d: "pre @ ds = d # ts" using r by (cases "pre @ ds") (auto simp: reads_def)
  have dts: "pre @ ds @ rest = d # ts @ rest" using d by (metis append_Cons append_assoc)
  have ln: "length (pre @ ds) = Suc (length ts)" using d by simp
  have b: "b \<le> 36" using r by (auto simp: reads_def word_le_nat_alt)
  have "isalnum d"
  proof (cases "pre = []")
    case True
    then have "is_digit b d" using d r by (auto simp: reads_def)
    then show ?thesis using is_digit_iff [OF b] by blast
  next
    case False
    then have "hd pre = CHR ''0''" "d = hd pre" using r d by (auto simp: reads_def)
    then show ?thesis by (simp add: isalnum_def)
  qed
  then have nosign: "d \<noteq> CHR ''-''" "d \<noteq> CHR ''+''" by (auto simp: isalnum_def less_eq_char_def)
  show ?thesis
  proof (cases "sign = []")
    case True
    obtain t where t: "scanf_getc s = (Some d, t)" "left t = ts @ rest" "unget (stream t) = 0"
      "slen t = slen s + 1" by (rule scanf_getc_Cons [of s d "ts @ rest"]) (use s dts True in simp)
    from conv_unsigned_width [OF t(2,3) d r, of width] w ends ln d True nosign t show ?thesis
      by (auto simp: conv_int_def)
  next
    case False
    then obtain c where c: "sign = [c]" "c = CHR ''-'' \<or> c = CHR ''+''" using sg by auto
    obtain t where t: "scanf_getc s = (Some c, t)" "left t = d # ts @ rest" "unget (stream t) = 0"
      "slen t = slen s + 1" by (rule scanf_getc_Cons [of s c "d # ts @ rest"]) (use s dts c in simp)
    obtain u where u: "scanf_getc t = (Some d, u)" "left u = ts @ rest" "unget (stream u) = 0"
      "slen u = slen t + 1" by (rule scanf_getc_Cons [OF t(2)])
    have w0: "width \<noteq> 0" "width - 1 \<noteq> 0" using w c ln by auto
    have "Suc (length ts) \<le> unat (width - 1)" using w c ln by (simp add: unat_pred [OF w0(1)])
    moreover have "rest = [] \<or> \<not> is_digit b (hd rest) \<and> (d # ts = ''0'' \<longrightarrow> base = 0 \<or> base = 16 \<longrightarrow> hd rest \<notin> {CHR ''x'', CHR ''X''})"
      if "Suc (length ts) < unat (width - 1)"
      using that ends c ln d by (auto simp: unat_pred [OF w0(1)])
    ultimately obtain s' where "conv_unsigned u (width - 1) base d = (Some (digits_val b 0 ds), s')" "left s' = rest" "slen s' = slen u + int (length ts)"
      using conv_unsigned_width [OF u(2,3) d r, of "width - 1"] by blast
    then show ?thesis using c t u w0 ln by (auto simp: conv_int_def Let_def)
  qed
qed

text \<open>The value of the digits, read as a number.\<close>

lemma digits_val_num:
  assumes b: "2 \<le> b" "b \<le> 36" and ds: "\<forall>c \<in> set ds. isalnum c \<and> dval c < b"
  shows "digits_val (of_nat b) (of_nat v) ds = of_nat (foldl (\<lambda>v c. v * b + dval c) v ds)"
  using ds
proof (induction ds arbitrary: v)
  case (Cons c ds)
  have "ucast (of_nat b :: u32) = (of_nat b :: u64)" "ucast (of_nat (dval c) :: u32) = (of_nat (dval c) :: u64)"
    using b Cons.prems by (auto simp: unsigned_of_nat take_bit_nat_eq_self)
  moreover have "digit_to_val (ccode c) = of_nat (dval c)" using digit_to_val_dval [of c] Cons.prems by simp
  ultimately show ?case using Cons.IH [of "v * b + dval c"] Cons.prems by (simp add: digits_val_def)
qed (simp add: digits_val_def)

text \<open>
  What a conversion reads: the prefix and the digits it accepts with the base they are in, and where a field of at most
  \<open>w\<close> characters ends.
\<close>

definition base_digit :: "nat \<Rightarrow> char \<Rightarrow> bool" where
  "base_digit b c \<longleftrightarrow> isalnum c \<and> dval c < b"

definition scan_number :: "char \<Rightarrow> string \<Rightarrow> string \<Rightarrow> nat \<Rightarrow> bool" where
  "scan_number c pre ds b \<longleftrightarrow>
     list_all (base_digit b) ds \<and> (ds \<noteq> [] \<or> c = CHR ''i'' \<and> pre = ''0'') \<and>
     (b = 10 \<and> pre = [] \<and> (c \<in> set ''du'' \<or> c = CHR ''i'' \<and> hd ds \<noteq> CHR ''0'')
      \<or> b = 8 \<and> (c = CHR ''o'' \<and> pre = [] \<or> c = CHR ''i'' \<and> pre = ''0'')
      \<or> b = 16 \<and> (c \<in> set ''xX'' \<and> pre = [] \<or> c \<in> set ''xXi'' \<and> pre \<in> {''0x'', ''0X''}))"

definition field_ends :: "char \<Rightarrow> nat \<Rightarrow> string \<Rightarrow> string \<Rightarrow> string \<Rightarrow> nat \<Rightarrow> bool" where
  "field_ends c b sign text rest w \<longleftrightarrow>
     length (sign @ text) = w \<or>
     length (sign @ text) < w \<and>
       (rest = [] \<or> \<not> base_digit b (hd rest) \<and> (text = ''0'' \<and> c \<in> set ''xXi'' \<longrightarrow> hd rest \<notin> {CHR ''x'', CHR ''X''}))"

lemma is_digit_base: "b \<le> 16 \<Longrightarrow> is_digit (of_nat b) c \<longleftrightarrow> base_digit b c"
  using is_digit_iff [of "of_nat b" c] by (simp add: base_digit_def word_le_nat_alt unat_of_nat)

lemma scan_number_cases: "scan_number c pre ds b \<Longrightarrow> b \<in> {8, 10, 16} \<and> c \<in> set ''duioxX''"
  by (auto simp: scan_number_def)

lemma number_reads: "scan_number c pre ds b \<Longrightarrow> reads (conv_base c) pre ds (of_nat b)"
proof -
  assume n: "scan_number c pre ds b"
  then have "b \<le> 16" "list_all (base_digit b) ds" using scan_number_cases [OF n] by (auto simp: scan_number_def)
  then have "\<forall>d \<in> set ds. is_digit (of_nat b) d" by (simp add: is_digit_base list_all_iff)
  moreover have "(of_nat b :: u32) = (if b = 8 then 8 else if b = 10 then 10 else 16)" using scan_number_cases [OF n] by auto
  ultimately show ?thesis using n unfolding reads_def scan_number_def
    by (elim conjE disjE) (simp_all add: conv_base_def, auto)
qed

lemma convert_field:
  assumes s: "left s = ws @ sign @ pre @ ds @ rest" and ws: "\<forall>c \<in> set ws. isspace c" and sg: "sign \<in> {[], ''-'', ''+''}"
    and num: "scan_number c pre ds b" and ends: "field_ends c b sign (pre @ ds) rest (unat width)"
  shows "\<exists>s'. convert c fl width fmt s =
      (ConvOk (putval (word_of_int ((if sign = ''-'' then - 1 else 1) * int (num_val b ds))) fl) fmt, s')
    \<and> left s' = rest \<and> slen s' = slen s + int (length ws + length sign + length pre + length ds)"
proof -
  have b: "b \<in> {8, 10, 16}" "c \<in> set ''duioxX''" using scan_number_cases [OF num] by simp_all
  have r: "reads (conv_base c) pre ds (of_nat b)" by (rule number_reads [OF num])
  obtain h hs where h: "sign @ pre @ ds = h # hs" using r by (cases "sign @ pre @ ds") (auto simp: reads_def)
  have "isalnum h" if "sign = []"
  proof (cases "pre = []")
    case True
    then have "h \<in> set ds" using h that by simp
    then show ?thesis using num by (auto simp: scan_number_def list_all_iff base_digit_def)
  next
    case False
    then have "hd pre = CHR ''0''" "h = hd pre" using num h that by (auto simp: scan_number_def)
    then show ?thesis by (simp add: isalnum_def)
  qed
  moreover have "h \<in> {CHR ''-'', CHR ''+''}" if "sign \<noteq> []" using that sg h by auto
  ultimately have "\<not> isspace h" by (cases "sign = []") (auto simp: isalnum_def isspace_def less_eq_char_def)
  moreover have hr: "sign @ pre @ ds @ rest = h # hs @ rest" using h by (metis append_Cons append_assoc)
  ultimately obtain t where t: "skip_spaces s = (Some h, t)" "left t = sign @ pre @ ds @ rest" "slen t = slen s + int (length ws)"
    using skip_spaces_run [OF s [unfolded hr] ws] unfolding hr by blast
  have z: "conv_base c = 0 \<or> conv_base c = 16 \<longleftrightarrow> c \<in> set ''xXi''" using b(2) by (auto simp: conv_base_def)
  have dg: "is_digit (of_nat b) x \<longleftrightarrow> base_digit b x" for x by (rule is_digit_base) (use b in auto)
  have w: "length (sign @ pre @ ds) \<le> unat width" using ends unfolding field_ends_def by linarith
  have stop: "rest = [] \<or> \<not> is_digit (of_nat b) (hd rest)
      \<and> (pre @ ds = ''0'' \<longrightarrow> conv_base c = 0 \<or> conv_base c = 16 \<longrightarrow> hd rest \<notin> {CHR ''x'', CHR ''X''})"
    if "length (sign @ pre @ ds) < unat width"
    using ends that unfolding field_ends_def dg z by (metis less_not_refl)
  obtain s' where s': "conv_int t width (conv_base c) = (Some (if sign = ''-'' then - digits_val (of_nat b) 0 ds else digits_val (of_nat b) 0 ds), s')"
    "left s' = rest" "slen s' = slen t + int (length (sign @ pre @ ds))"
    using conv_int_width [OF t(2) sg r w stop] by blast
  have "digits_val (of_nat b) 0 ds = of_nat (num_val b ds)"
    using digits_val_num [of b ds 0] b(1) num by (auto simp: num_val_def scan_number_def list_all_iff base_digit_def)
  then have v: "(if sign = ''-'' then - digits_val (of_nat b) 0 ds else digits_val (of_nat b) 0 ds)
      = word_of_int ((if sign = ''-'' then - 1 else 1) * int (num_val b ds))" by simp
  have "c \<noteq> CHR ''c''" "c \<noteq> CHR ''[''" "c \<noteq> CHR ''s''" "c \<noteq> CHR ''p''" using b(2) by auto
  then show ?thesis using s' t(1,3) v by (simp add: convert_def)
qed

lemma decimal_digit:
  assumes "d \<in> set ''0123456789''"
  shows "CHR ''0'' \<le> d \<and> d \<le> CHR ''9''" "ccode d - 48 = of_nat (dval d)"
proof -
  have "list_all (\<lambda>d. CHR ''0'' \<le> d \<and> d \<le> CHR ''9'' \<and> ccode d - 48 = of_nat (dval d)) ''0123456789''" by code_simp
  then show "CHR ''0'' \<le> d \<and> d \<le> CHR ''9''" "ccode d - 48 = of_nat (dval d)"
    using assms unfolding list_all_iff by blast+
qed

lemma parse_width_digits:
  "\<forall>d \<in> set wd. d \<in> set ''0123456789'' \<Longrightarrow>
   parse_width fw (of_nat v) (wd @ fmt) = parse_width (fw \<or> wd \<noteq> []) (of_nat (foldl (\<lambda>v c. v * 10 + dval c) v wd)) fmt"
proof (induction wd arbitrary: fw v)
  case (Cons d wd)
  have d: "CHR ''0'' \<le> d \<and> d \<le> CHR ''9''" "ccode d - 48 = of_nat (dval d)"
    using decimal_digit [of d] Cons.prems by (metis list.set_intros(1))+
  have "parse_width fw (of_nat v) ((d # wd) @ fmt) = parse_width True (of_nat (v * 10 + dval d)) (wd @ fmt)"
    using d by simp
  then show ?case using Cons.IH [of True "v * 10 + dval d"] Cons.prems by simp
qed simp

text \<open>The length modifiers, and what is stored under them.\<close>

definition size_modifiers :: "string list" where
  "size_modifiers = [[], ''hh'', ''h'', ''l'', ''ll'', ''L'', ''j'', ''z'', ''t'']"

definition stored :: "string \<Rightarrow> int \<Rightarrow> store" where
  "stored md v =
     (if md = ''hh'' then PutChar (word_of_int v) else if md = ''h'' then PutShort (word_of_int v)
      else if md = [] then PutInt (word_of_int v) else PutLong (word_of_int v))"

definition size_flags :: "string \<Rightarrow> sflags \<Rightarrow> sflags" where
  "size_flags md fl =
     (if md = ''hh'' then fl\<lparr>fl_short := True, fl_char := True\<rparr> else if md = ''h'' then fl\<lparr>fl_short := True\<rparr>
      else if md = [] then fl else fl\<lparr>fl_long := True\<rparr>)"

lemma parse_size_modifier:
  assumes "md \<in> set size_modifiers" "c \<in> set ''duioxX''"
  shows "parse_size fl (md @ c # fmt) = (size_flags md fl, c # fmt)"
proof -
  have c: "c \<noteq> CHR ''h''" "c \<noteq> CHR ''l''" "c \<notin> set ''Ljzt''" using assms(2) by auto
  have "md = [] \<or> md = ''hh'' \<or> md = ''h'' \<or> md = ''l'' \<or> md = ''ll'' \<or> md = ''L'' \<or> md = ''j'' \<or> md = ''z'' \<or> md = ''t''"
    using assms(1) by (simp add: size_modifiers_def)
  then show ?thesis by (elim disjE) (simp_all add: parse_size_def size_flags_def c c(3) [simplified])
qed

lemma parse_spec_field:
  assumes wd: "\<forall>d \<in> set wd. d \<in> set ''0123456789''" and md: "md \<in> set size_modifiers" and c: "c \<in> set ''duioxX''"
    and st: "star \<in> {[], ''*''}"
  shows "parse_spec (star @ wd @ md @ c # fmt) =
    (size_flags md (no_flags\<lparr>fl_star := star \<noteq> [], fl_width := wd \<noteq> []\<rparr>), if wd = [] then - 1 else of_nat (num_val 10 wd), c # fmt)"
proof -
  obtain h hs where h: "md @ c # fmt = h # hs" by (cases "md @ c # fmt") auto
  have "h \<in> set ''hlLjztduioxX''" using h md c by (cases md) (auto simp: size_modifiers_def)
  then have hn: "\<not> (CHR ''0'' \<le> h \<and> h \<le> CHR ''9'')" "h \<noteq> CHR ''*''" by (auto simp: less_eq_char_def)
  have "parse_width False 0 (wd @ h # hs) = (wd \<noteq> [], of_nat (num_val 10 wd), h # hs)"
    using parse_width_digits [OF wd, of False 0 "h # hs"] hn(1) by (simp add: num_val_def)
  moreover have "wd = [] \<or> hd wd \<noteq> CHR ''*''"
    using wd decimal_digit(1) [of "hd wd"] by (cases wd) (auto simp: less_eq_char_def)
  ultimately show ?thesis
    using parse_size_modifier [OF md c, of _ fmt] hn(2) st unfolding h
    by (cases wd) (auto simp: parse_spec_def)
qed

lemma ucast_word_of_int:
  "ucast (word_of_int v :: u64) = (word_of_int v :: u8)" "ucast (word_of_int v :: u64) = (word_of_int v :: u16)"
  "ucast (word_of_int v :: u64) = (word_of_int v :: u32)"
  by (rule bit_word_eqI, auto simp: bit_simps)+

lemma putval_stored: "md \<in> set size_modifiers \<Longrightarrow> putval (word_of_int v) (size_flags md (no_flags\<lparr>fl_star := b, fl_width := w\<rparr>)) = (if b then [] else [stored md v])"
  by (auto simp: putval_def size_flags_def stored_def no_flags_def size_modifiers_def ucast_word_of_int)

text \<open>White space as the C standard lists it.\<close>

definition white_space :: string where
  "white_space = [CHR '' '', CHR 0x09, CHR 0x0A, CHR 0x0B, CHR 0x0C, CHR 0x0D]"

lemma white_space_isspace: "c \<in> set white_space \<Longrightarrow> isspace c"
  by (auto simp: white_space_def isspace_def less_eq_char_def)

text \<open>The greatest length of a field with the width \<open>wd\<close> of the directive.\<close>

definition field_width :: "string \<Rightarrow> nat" where
  "field_width wd = (if wd = [] then 2 ^ 32 - 1 else num_val 10 wd)"

lemma vfscanf_field:
  assumes s: "left s = ws @ sign @ pre @ ds @ rest" and ws: "\<forall>x \<in> set ws. x \<in> set white_space" and sg: "sign \<in> {[], ''-'', ''+''}"
    and num: "scan_number c pre ds b" and wd: "\<forall>d \<in> set wd. d \<in> set ''0123456789''" "field_width wd < 2 ^ 32"
    and md: "md \<in> set size_modifiers" and ends: "field_ends c b sign (pre @ ds) rest (field_width wd)" and st: "star \<in> {[], ''*''}"
  shows "\<exists>s'. left s' = rest \<and> slen s' = slen s + int (length ws + length sign + length pre + length ds) \<and>
    vfscanf (''%'' @ star @ wd @ md @ c # fmt) s n out =
      vfscanf fmt s' (if star = [] then n + 1 else n)
        (out @ (if star = [] then [stored md ((if sign = ''-'' then - 1 else 1) * int (num_val b ds))] else []))"
proof -
  define width :: u32 where "width = (if wd = [] then - 1 else of_nat (num_val 10 wd))"
  define fl where "fl = size_flags md (no_flags\<lparr>fl_star := star \<noteq> [], fl_width := wd \<noteq> []\<rparr>)"
  define v where "v = (if sign = ''-'' then - 1 else 1) * int (num_val b ds)"
  have w: "unat width = field_width wd"
    using wd(2) by (auto simp: width_def field_width_def unat_minus_one_32 unat_of_nat)
  have c: "c \<in> set ''duioxX''" using scan_number_cases [OF num] by simp
  then have c': "c \<noteq> CHR ''n''" "c \<in> set CNV_LIST" by (auto simp: CNV_LIST_def)
  obtain s1 where s1: "convert c fl width fmt s = (ConvOk (putval (word_of_int v) fl) fmt, s1)"
    "left s1 = rest" "slen s1 = slen s + int (length ws + length sign + length pre + length ds)"
    using convert_field [OF s _ sg num, of width fl fmt] ws white_space_isspace ends w unfolding v_def by auto
  obtain h hs where h: "star @ wd @ md @ c # fmt = h # hs" by (cases "star @ wd @ md @ c # fmt") auto
  have "h \<noteq> CHR ''%''" using h st wd(1) md c by (cases star; cases wd; cases md) (auto simp: size_modifiers_def)
  then have ord: "ordinary CHR ''%'' (star @ wd @ md @ c # fmt) = None" "\<not> isspace CHR ''%''"
    using h by (auto simp: ordinary_def isspace_def less_eq_char_def)
  note ps = parse_spec_field [OF wd(1) md c st, of fmt, folded width_def fl_def]
  have fs: "fl_star fl = (star \<noteq> [])" by (simp add: fl_def size_flags_def)
  note pv = putval_stored [OF md, where b = "star \<noteq> []" and w = "wd \<noteq> []", folded fl_def]
  show ?thesis using c' ps s1 pv fs unfolding v_def [symmetric]
    by (intro exI [of _ s1]) (simp add: vfscanf.simps(2) ord)
qed

lemma vfscanf_n: "vfscanf ''%n'' s n out = (uint n, out @ [PutInt (word_of_int (slen s))], s)"
proof -
  have "ordinary CHR ''%'' ''n'' = None" "\<not> isspace CHR ''%''" "CHR ''n'' \<in> set CNV_LIST"
    by (auto simp: ordinary_def isspace_def less_eq_char_def CNV_LIST_def)
  then show ?thesis using parse_spec_plain [of "CHR ''n''" "[]"]
    by (simp add: vfscanf.simps(2) putval_def no_flags_def ucast_word_of_int)
qed

section \<open>Properties\<close>



text \<open>
  C25: for every format and input, the count that \<open>%n\<close> reports plus the
  characters left in the stream (the pushed-back one included) is the length
  of the input: no directive loses or repeats a character.
\<close>

theorem vfscanf_count:
  assumes "vfscanf fmt \<lparr>stream = setup_string_read s, slen = 0\<rparr> 0 [] = (r, out, t)"
  shows "slen t + int (length (left t)) = int (length s)"
  using vfscanf_total [OF assms] by (simp add: scan_total_def)

theorem vfscanf_count_witness:
  "case vfscanf ''%d %s'' \<lparr>stream = setup_string_read ''42  kg/m'', slen = 0\<rparr> 0 [] of
     (r, out, t) \<Rightarrow> r = 2 \<and> slen t + int (length (left t)) = 8"
proof -
  obtain r out t where run: "vfscanf ''%d %s'' \<lparr>stream = setup_string_read ''42  kg/m'', slen = 0\<rparr> 0 [] = (r, out, t)"
    using prod_cases3 by blast
  have "fst (vfscanf ''%d %s'' \<lparr>stream = setup_string_read ''42  kg/m'', slen = 0\<rparr> 0 []) = 2" by code_simp
  with vfscanf_count [OF run] run show ?thesis by simp
qed

text \<open>
  A field width of zero is not treated as an error in the format: the
  decrement wraps, so the conversion reads as if no width had been given.
\<close>

lemma sscanf_zero_width: "sscanf ''12'' ''%0d'' = (1, [PutInt 12])"
  by code_simp

end
