(* ===== verification/Strtol.thy ===== *)
theory Strtol
  imports Scanf
begin

text \<open>
  \<open>strtol\<close> and \<open>strtoul\<close>, the two instances for \<open>long\<close> of the template
  \<open>libc/stdio/strtoi.h\<close> (\<open>long long\<close> and \<open>intmax_t\<close> have the same size here).
  A pointer into the string is the rest of the string from it; reading the
  terminator gives the character zero.  The result is the value, the end
  pointer and the value stored in \<open>errno\<close>, if any.

  The template differs between the instances in the step that adds a digit and
  notices overflow; the locale \<open>digit_step\<close> states what the loop needs of it.
\<close>

section \<open>The template\<close>

datatype strtoi_errno = EINVAL | ERANGE

definition deref :: "string \<Rightarrow> char" where
  "deref s = (case s of [] \<Rightarrow> CHR 0x00 | c # _ \<Rightarrow> c)"

fun skip_white :: "string \<Rightarrow> char \<times> string" where
  "skip_white [] = (CHR 0x00, [])"
| "skip_white (i # s) = (if isspace i then skip_white s else (i, s))"

definition strtoi_sign :: "char \<Rightarrow> string \<Rightarrow> bool \<times> char \<times> string" where
  "strtoi_sign i s =
     (if i = CHR ''-'' \<or> i = CHR ''+'' then (i = CHR ''-'', deref s, tl s) else (False, i, s))"

text \<open>The base indication; the third component is the new \<open>nptr\<close>, when the zero counts as parsed.\<close>

definition strtoi_base :: "u32 \<Rightarrow> char \<Rightarrow> string \<Rightarrow> u32 \<times> string option \<times> char \<times> string" where
  "strtoi_base base i s =
     (if i = CHR ''0'' then
        if TOLOWER (ccode (deref s)) = 120 \<and> base OR 16 = 16
        then (16, Some s, deref (tl s), tl (tl s))
        else (if base = 0 then 8 else base, None, i, s)
      else (if base = 0 then 10 else base, None, i, s))"

fun strtoi_loop :: "(u64 \<Rightarrow> u32 \<Rightarrow> u64 \<times> bool) \<Rightarrow> u32 \<Rightarrow> u64 \<Rightarrow> bool \<Rightarrow> string \<Rightarrow> char \<Rightarrow> string \<Rightarrow> u64 \<times> bool \<times> string"
where
  "strtoi_loop step base val oflow nptr i s =
     (let d = digit_to_val (ccode i) in
      if d \<ge> base then (val, oflow, nptr)
      else let (val, ov) = step val d; oflow = (oflow \<or> ov) in
           case s of [] \<Rightarrow> (val, oflow, s)
           | i # s' \<Rightarrow> strtoi_loop step base val oflow s i s')"

declare strtoi_loop.simps [simp del]

text \<open>The instance-specific parts.\<close>

definition step_signed :: "u32 \<Rightarrow> u64 \<Rightarrow> u64 \<Rightarrow> u32 \<Rightarrow> u64 \<times> bool" where
  "step_signed base ucutoff val i =
     (let cutoff = ucutoff div ucast base; cutlim = ucast (ucutoff mod ucast base) in
      if val > cutoff \<or> (val = cutoff \<and> i > cutlim) then (val, True)
      else (val * ucast base + ucast i, False))"

definition step_unsigned :: "u32 \<Rightarrow> u64 \<Rightarrow> u32 \<Rightarrow> u64 \<times> bool" where
  "step_unsigned base val i =
     (let p = val * ucast base in
      if uint val * uint base \<ge> 2 ^ 64 then (p, True)
      else let q = p + ucast i in (q, uint p + uint i \<ge> 2 ^ 64))"

definition LONG_MAX :: u64 where "LONG_MAX = 2 ^ 63 - 1"

definition bad_base :: "int \<Rightarrow> bool" where
  "bad_base ibase \<longleftrightarrow> (let base = word_of_int ibase :: u32 in base > 36 \<or> base = 1)"

definition strtol :: "string \<Rightarrow> int \<Rightarrow> int \<times> string \<times> strtoi_errno option" where
  "strtol nptr ibase =
     (if bad_base ibase then (0, nptr, Some EINVAL)
      else let (i, s) = skip_white nptr;
               (neg, i, s) = strtoi_sign i s;
               (base, parsed, i, s) = strtoi_base (word_of_int ibase) i s;
               nptr = (case parsed of None \<Rightarrow> nptr | Some p \<Rightarrow> p);
               ucutoff = LONG_MAX + of_bool neg;
               (val, oflow, nptr) = strtoi_loop (step_signed base ucutoff) base 0 False nptr i s;
               val = (if neg then - val else val)
           in if oflow then (sint ucutoff, nptr, Some ERANGE) else (sint val, nptr, None))"

definition strtoul :: "string \<Rightarrow> int \<Rightarrow> u64 \<times> string \<times> strtoi_errno option" where
  "strtoul nptr ibase =
     (if bad_base ibase then (0, nptr, Some EINVAL)
      else let (i, s) = skip_white nptr;
               (neg, i, s) = strtoi_sign i s;
               (base, parsed, i, s) = strtoi_base (word_of_int ibase) i s;
               nptr = (case parsed of None \<Rightarrow> nptr | Some p \<Rightarrow> p);
               (val, oflow, nptr) = strtoi_loop (step_unsigned base) base 0 False nptr i s;
               val = (if neg then - val else val)
           in if oflow then (- 1, nptr, Some ERANGE) else (val, nptr, None))"

section \<open>The digit loop\<close>

lemma foldl_mono: "v \<le> w \<Longrightarrow> foldl (\<lambda>v c. v * b + dval c) v ds \<le> foldl (\<lambda>v c. v * b + dval c) w ds"
  by (induction ds arbitrary: v w) (simp_all add: mult_le_mono)

lemma foldl_ge:
  assumes "0 < b" shows "v \<le> foldl (\<lambda>v c. v * b + dval c) v ds"
proof (induction ds arbitrary: v)
  case (Cons c ds)
  have "v \<le> v * b + dval c" using assms by (simp add: trans_le_add1)
  then show ?case using Cons [of "v * b + dval c"] by simp
qed simp

lemma digit_unat:
  assumes "is_digit base c" "base \<le> 36"
  shows "unat (digit_to_val (ccode c)) = dval c"
proof -
  have "isalnum c" using is_digit_iff [OF assms(2)] assms(1) by simp
  then have "digit_to_val (ccode c) = of_nat (dval c)" "dval c < 36"
    using digit_to_val_dval [of c] by simp_all
  then show ?thesis by (simp add: unat_of_nat)
qed

locale digit_step =
  fixes step :: "u32 \<Rightarrow> u64 \<Rightarrow> u32 \<Rightarrow> u64 \<times> bool" and lim :: nat
  assumes step_ok: "0 < b \<Longrightarrow> b \<le> 36 \<Longrightarrow> d < b \<Longrightarrow> unat v \<le> lim \<Longrightarrow>
      unat v * unat b + unat d \<le> lim \<Longrightarrow> step b v d = (w, ov) \<Longrightarrow>
      \<not> ov \<and> unat w = unat v * unat b + unat d"
    and step_over: "0 < b \<Longrightarrow> b \<le> 36 \<Longrightarrow> d < b \<Longrightarrow> unat v \<le> lim \<Longrightarrow>
      lim < unat v * unat b + unat d \<Longrightarrow> step b v d = (w, ov) \<Longrightarrow> ov"
begin

abbreviation loop_inv :: "bool \<Rightarrow> u64 \<Rightarrow> nat \<Rightarrow> bool" where
  "loop_inv oflow val x \<equiv> (if oflow then lim < x else unat val = x \<and> x \<le> lim)"

lemma step_inv:
  assumes base: "0 < base" "base \<le> 36" and i: "is_digit base i" and inv: "loop_inv oflow val x"
    and st: "step base val (digit_to_val (ccode i)) = (w, ov)"
  shows "loop_inv (oflow \<or> ov) w (x * unat base + dval i)"
proof (cases "oflow")
  case True
  have "x \<le> x * unat base" using base(1) by (simp add: word_less_nat_alt)
  moreover have "lim < x" using True inv by simp
  ultimately have "lim < x * unat base + dval i" by linarith
  then show ?thesis using True by simp
next
  case False
  then have v: "unat val = x" "unat val \<le> lim" using inv by auto
  note d = digit_unat [OF i base(2)]
  show ?thesis
  proof (cases "x * unat base + dval i \<le> lim")
    case True
    with step_ok [OF base i v(2) _ st] False v(1) d show ?thesis by auto
  next
    case over: False
    with step_over [OF base i v(2) _ st] v(1) d show ?thesis by auto
  qed
qed

text \<open>
  The loop reads all digits, stops at the first other character, and either
  holds the exact value or has seen it pass the limit.
\<close>

lemma loop:
  assumes base: "0 < base" "base \<le> 36"
    and "\<forall>c \<in> set (i # ds). is_digit base c" and rest: "rest = [] \<or> \<not> is_digit base (hd rest)"
    and "loop_inv oflow val x"
  shows "\<exists>val' oflow'. strtoi_loop (step base) base val oflow nptr i (ds @ rest) = (val', oflow', rest)
    \<and> loop_inv oflow' val' (foldl (\<lambda>v c. v * unat base + dval c) x (i # ds))"
  using assms(3,5)
proof (induction ds arbitrary: i val oflow x nptr)
  case Nil
  obtain w ov where st: "step base val (digit_to_val (ccode i)) = (w, ov)" by fastforce
  have inv: "loop_inv (oflow \<or> ov) w (x * unat base + dval i)"
    using Nil.prems st base by (intro step_inv) auto
  have stop: "strtoi_loop (step base) base v o' p r rs = (v, o', p)" if "\<not> is_digit base r" for v o' p r rs
    using that by (simp add: strtoi_loop.simps [of _ _ _ _ _ r] Let_def not_less)
  have "strtoi_loop (step base) base val oflow nptr i ([] @ rest) = (w, oflow \<or> ov, rest)"
    using Nil.prems(1) rest st
    by (cases rest) (simp_all add: strtoi_loop.simps [of _ _ _ _ _ i] Let_def not_le [symmetric] stop)
  with inv show ?case by simp
next
  case (Cons j ds)
  obtain w ov where st: "step base val (digit_to_val (ccode i)) = (w, ov)" by fastforce
  have inv: "loop_inv (oflow \<or> ov) w (x * unat base + dval i)"
    using Cons.prems st base by (intro step_inv) auto
  have dig: "\<forall>c \<in> set (j # ds). is_digit base c" using Cons.prems(1) by simp
  have "strtoi_loop (step base) base val oflow nptr i ((j # ds) @ rest)
      = strtoi_loop (step base) base w (oflow \<or> ov) (j # ds @ rest) j (ds @ rest)"
    using Cons.prems(1) st by (simp add: strtoi_loop.simps [of _ _ _ _ _ i] Let_def not_le [symmetric])
  with Cons.IH [OF dig inv, of "j # ds @ rest"] show ?case by (simp only: foldl_Cons)
qed

lemma loop_value:
  assumes "0 < base" "base \<le> 36" "\<forall>c \<in> set (i # ds). is_digit base c"
    "rest = [] \<or> \<not> is_digit base (hd rest)"
  obtains val oflow where "strtoi_loop (step base) base 0 False nptr i (ds @ rest) = (val, oflow, rest)"
    "oflow = (lim < num_val (unat base) (i # ds))" "\<not> oflow \<Longrightarrow> unat val = num_val (unat base) (i # ds)"
proof -
  have "loop_inv False 0 0" by simp
  from loop [OF assms this, of nptr] obtain val oflow where
    "strtoi_loop (step base) base 0 False nptr i (ds @ rest) = (val, oflow, rest)"
    "loop_inv oflow val (num_val (unat base) (i # ds))" unfolding num_val_def by blast
  then show thesis by (cases oflow) (auto intro: that)
qed

end

section \<open>The two steps\<close>

lemma signed_step:
  fixes v d :: nat
  assumes "0 < b" "d < b"
  shows "(v > c div b \<or> (v = c div b \<and> d > c mod b)) \<longleftrightarrow> c < v * b + d"
proof -
  have c: "c = c div b * b + c mod b" by simp
  show ?thesis
  proof (cases v "c div b" rule: linorder_cases)
    case less
    then have "Suc v * b \<le> c div b * b" by (intro mult_le_mono) auto
    then show ?thesis using less c assms by (simp; linarith)
  next
    case equal
    then show ?thesis using c by (simp; linarith)
  next
    case greater
    then have "Suc (c div b) * b \<le> v * b" by (intro mult_le_mono) auto
    moreover have "c mod b < b" using assms by simp
    ultimately show ?thesis using greater c by (simp; linarith)
  qed
qed

lemma unat_lt_32: "unat b < 4294967296" for b :: u32
  using unsigned_less [of b, where 'a = nat] by simp

lemma unat_ucast_64: "unat (ucast b :: u64) = unat b" for b :: u32
  using unat_lt_32 [of b] by (simp add: unsigned_ucast_eq take_bit_nat_eq_self)

lemma unat_step:
  fixes b d :: u32
  assumes "unat v * unat b + unat d < 2 ^ 64"
  shows "unat (v * ucast b + ucast d :: u64) = unat v * unat b + unat d"
  using assms by (simp add: unat_word_ariths unat_ucast_64 mod_add_left_eq)

lemma step_signed_eq:
  fixes b d :: u32
  assumes "0 < b" "d < b"
  shows "step_signed b c v d =
    (if unat c < unat v * unat b + unat d then (v, True) else (v * ucast b + ucast d, False))"
proof -
  have b: "0 < unat b" "unat d < unat b" using assms by (simp_all add: word_less_nat_alt)
  have "unat (c mod ucast b :: u64) = unat c mod unat b" by (simp add: unat_mod unat_ucast_64)
  moreover have "unat c mod unat b < 4294967296" using b(1) unat_lt_32 [of b]
    by (meson mod_less_divisor less_trans)
  ultimately have lim: "unat (ucast (c mod ucast b :: u64) :: u32) = unat c mod unat b"
    by (simp add: unsigned_ucast_eq take_bit_nat_eq_self)
  have "(v > c div ucast b \<or> (v = c div ucast b \<and> d > ucast (c mod ucast b)))
      \<longleftrightarrow> (unat v > unat c div unat b \<or> (unat v = unat c div unat b \<and> unat d > unat c mod unat b))"
    by (simp add: word_less_nat_alt word_unat_eq_iff unat_div unat_ucast_64 lim)
  then show ?thesis by (simp add: step_signed_def Let_def signed_step [OF b])
qed

interpretation pos: digit_step "\<lambda>b. step_signed b LONG_MAX" "unat LONG_MAX"
  by unfold_locales (auto simp: step_signed_eq LONG_MAX_def intro!: unat_step split: if_splits)

interpretation neg: digit_step "\<lambda>b. step_signed b (LONG_MAX + 1)" "unat (LONG_MAX + 1)"
  by unfold_locales (auto simp: step_signed_eq LONG_MAX_def intro!: unat_step split: if_splits)

lemma step_unsigned_eq:
  fixes b d :: u32
  shows "unat v * unat b + unat d < 2 ^ 64 \<Longrightarrow> step_unsigned b v d = (v * ucast b + ucast d, False)"
    and "2 ^ 64 \<le> unat v * unat b + unat d \<Longrightarrow> snd (step_unsigned b v d)"
proof -
  have lift: "(2 ^ 64 \<le> int n) = (2 ^ 64 \<le> n)" for n
    using of_nat_le_iff [of "2 ^ 64" n, where 'a = int] by simp
  have m: "(2 ^ 64 \<le> uint v * uint b) = (2 ^ 64 \<le> unat v * unat b)"
    using lift [of "unat v * unat b"] by (simp only: of_nat_mult uint_nat)
  have a: "(2 ^ 64 \<le> uint x + uint d) = (2 ^ 64 \<le> unat x + unat d)" for x :: u64
    using lift [of "unat x + unat d"] by (simp only: of_nat_add uint_nat)
  note def = step_unsigned_def [of b v d, unfolded m Let_def a]
  have p: "unat (v * ucast b) = unat v * unat b" if "unat v * unat b < 2 ^ 64"
    using that by (simp add: unat_word_ariths unat_ucast_64)
  show "step_unsigned b v d = (v * ucast b + ucast d, False)" if "unat v * unat b + unat d < 2 ^ 64"
    using that p by (simp add: def)
  show "snd (step_unsigned b v d)" if "2 ^ 64 \<le> unat v * unat b + unat d"
    using that p by (cases "unat v * unat b < 2 ^ 64") (simp_all add: def)
qed

interpretation uns: digit_step step_unsigned "2 ^ 64 - 1"
proof
  fix b d :: u32 and v w :: u64 and ov
  assume st: "step_unsigned b v d = (w, ov)"
  show "\<not> ov \<and> unat w = unat v * unat b + unat d" if "unat v * unat b + unat d \<le> 2 ^ 64 - 1"
    using that st step_unsigned_eq(1) [of v b d] unat_step [of v b d] by auto
  show ov if "2 ^ 64 - 1 < unat v * unat b + unat d"
    using that st step_unsigned_eq(2) [of v b d] by simp
qed

section \<open>Reading up to the digits\<close>

lemma skip_white_run:
  "\<forall>c \<in> set ws. isspace c \<Longrightarrow> \<not> isspace d \<Longrightarrow> skip_white (ws @ d # s) = (d, s)"
  by (induction ws) auto

lemma digit_not_special:
  assumes "is_digit base d" "base \<le> 36"
  shows "\<not> isspace d" "d \<noteq> CHR ''-''" "d \<noteq> CHR ''+''"
proof -
  have "isalnum d" using is_digit_iff [OF assms(2)] assms(1) by simp
  then show "\<not> isspace d" "d \<noteq> CHR ''-''" "d \<noteq> CHR ''+''"
    by (auto simp: isalnum_def isspace_def less_eq_char_def)
qed

lemma number_prefix:
  assumes ws: "\<forall>c \<in> set ws. isspace c" and num: "number base sign (d # ds) rest" and base: "base \<le> 36"
  obtains i s where "skip_white (ws @ sign @ (d # ds) @ rest) = (i, s)"
    "strtoi_sign i s = (sign = ''-'', d, ds @ rest)"
proof -
  have d: "\<not> isspace d" "d \<noteq> CHR ''-''" "d \<noteq> CHR ''+''"
    using num digit_not_special [OF _ base] by (auto simp: number_def)
  show thesis
  proof (cases "sign = []")
    case True
    then show ?thesis using that [of d "ds @ rest"] skip_white_run [OF ws d(1), of "ds @ rest"] d(2,3)
      by (simp add: strtoi_sign_def)
  next
    case False
    then obtain c where c: "sign = [c]" "c = CHR ''-'' \<or> c = CHR ''+''"
      using num by (auto simp: number_def)
    then have "\<not> isspace c" by (auto simp: isspace_def less_eq_char_def)
    from that [of c "d # ds @ rest"] skip_white_run [OF ws this, of "d # ds @ rest"] c show ?thesis
      by (auto simp: strtoi_sign_def deref_def)
  qed
qed

lemma and_power_2: "w AND 2 ^ k = (if bit w k then 2 ^ k else 0)" for w :: u32
  by (rule bit_word_eqI) (auto simp: bit_simps)

lemma or_16: "base OR 16 = 16 \<longleftrightarrow> base = 0 \<or> base = 16" for base :: u32
proof
  assume "base OR 16 = 16"
  moreover have "base AND (base OR 16) = base" by (rule bit_word_eqI) (auto simp: bit_simps)
  ultimately have "base AND 16 = base" by simp
  moreover have "base AND 16 = (if bit base 4 then 16 else 0)"
    using and_power_2 [of base 4] by simp
  ultimately show "base = 0 \<or> base = 16" by (auto split: if_splits)
qed auto

lemma strtoi_base_plain:
  assumes num: "number base sign (d # ds) rest" and base: "base \<noteq> 0" "base \<le> 36"
  shows "strtoi_base base d (ds @ rest) = (base, None, d, ds @ rest)"
proof (cases "base = 16")
  case False
  then show ?thesis using base by (auto simp: strtoi_base_def or_16)
next
  case True
  have "TOLOWER (ccode (deref (ds @ rest))) \<noteq> 120"
  proof (cases "ds @ rest")
    case Nil
    then show ?thesis by (simp add: deref_def TOLOWER_def)
  next
    case (Cons e es)
    have "e \<noteq> CHR ''x'' \<and> e \<noteq> CHR ''X''"
    proof (cases ds)
      case Nil
      then show ?thesis using num Cons True by (auto simp: number_def)
    next
      case (Cons e' ds')
      then have "is_digit 16 e" using num \<open>ds @ rest = e # es\<close> True by (auto simp: number_def)
      then have "dval e < 16" using is_digit_iff [of 16 e] by simp
      then show ?thesis by (auto simp: dval_def less_eq_char_def)
    qed
    then show ?thesis using Cons by (simp add: deref_def TOLOWER_x)
  qed
  then show ?thesis using True by (simp add: strtoi_base_def)
qed

section \<open>Properties\<close>

text \<open>Saturation to \<open>long\<close>, with the error it raises.\<close>

definition clamp_long :: "int \<Rightarrow> int \<times> strtoi_errno option" where
  "clamp_long v =
     (if v < - (2 ^ 63) then (- (2 ^ 63), Some ERANGE)
      else if v > 2 ^ 63 - 1 then (2 ^ 63 - 1, Some ERANGE) else (v, None))"

abbreviation neg_if :: "string \<Rightarrow> int \<Rightarrow> int" where
  "neg_if sign v \<equiv> (if sign = ''-'' then - v else v)"

lemma good_base: "2 \<le> b \<Longrightarrow> b \<le> 36 \<Longrightarrow> \<not> bad_base (int b) \<and> unat (word_of_int (int b) :: u32) = b
    \<and> (0 :: u32) < word_of_int (int b) \<and> (word_of_int (int b) :: u32) \<le> 36"
  by (simp add: bad_base_def word_less_nat_alt word_le_nat_alt word_unat_eq_iff unat_of_nat)

lemma limits: "unat LONG_MAX = 2 ^ 63 - 1" "unat (LONG_MAX + 1) = 2 ^ 63" "sint LONG_MAX = 2 ^ 63 - 1"
  "sint (LONG_MAX + 1) = - (2 ^ 63)"
  by (simp_all add: LONG_MAX_def)

lemma sint_word_64: "- (2 ^ 63) \<le> s \<Longrightarrow> s < 2 ^ 63 \<Longrightarrow> sint (word_of_int s :: u64) = s"
  by (simp add: signed_of_int signed_take_bit_int_eq_self)

lemma word_of_unat: "unat v = n \<Longrightarrow> v = word_of_int (int n)" for v :: u64
  by (metis of_int_of_nat_eq unat_eq_nat_uint word_nat_cases uint_nat word_of_int_uint)

lemma number_setup:
  assumes ws: "\<forall>c \<in> set ws. isspace c" and b: "2 \<le> b" "b \<le> 36"
    and num: "number (word_of_int (int b)) sign ds rest"
  obtains d ds' i s where "ds = d # ds'" and "0 < (word_of_int (int b) :: u32)" "(word_of_int (int b) :: u32) \<le> 36"
    and "\<forall>c \<in> set (d # ds'). is_digit (word_of_int (int b)) c"
      "rest = [] \<or> \<not> is_digit (word_of_int (int b)) (hd rest)"
    and "skip_white (ws @ sign @ ds @ rest) = (i, s)" "strtoi_sign i s = (sign = ''-'', d, ds' @ rest)"
    and "strtoi_base (word_of_int (int b)) d (ds' @ rest) = (word_of_int (int b), None, d, ds' @ rest)"
proof -
  let ?base = "word_of_int (int b) :: u32"
  have base: "0 < ?base" "?base \<noteq> 0" "?base \<le> 36" using good_base [OF b] by (auto simp: word_less_nat_alt)
  obtain d ds' where ds: "ds = d # ds'" using num by (cases ds) (auto simp: number_def)
  have dig: "\<forall>c \<in> set (d # ds'). is_digit ?base c" "rest = [] \<or> \<not> is_digit ?base (hd rest)"
    using num by (auto simp: number_def ds)
  obtain i s where pre: "skip_white (ws @ sign @ ds @ rest) = (i, s)"
    "strtoi_sign i s = (sign = ''-'', d, ds' @ rest)"
    using number_prefix [OF ws num [unfolded ds] base(3)] unfolding ds by blast
  show thesis
    by (rule that [OF ds base(1,3) dig pre strtoi_base_plain [OF num [unfolded ds] base(2,3)]])
qed

lemma strtol_main:
  assumes ws: "\<forall>c \<in> set ws. isspace c" and b: "2 \<le> b" "b \<le> 36"
    and num: "number (word_of_int (int b)) sign ds rest"
  shows "strtol (ws @ sign @ ds @ rest) (int b) =
    (let (v, e) = clamp_long (neg_if sign (int (num_val b ds))) in (v, rest, e))"
proof -
  let ?base = "word_of_int (int b) :: u32"
  note base = good_base [OF b]
  obtain d ds' i s where ds: "ds = d # ds'" and base': "0 < ?base" "?base \<le> 36"
    and dig: "\<forall>c \<in> set (d # ds'). is_digit ?base c" "rest = [] \<or> \<not> is_digit ?base (hd rest)"
    and pre: "skip_white (ws @ sign @ ds @ rest) = (i, s)"
      "strtoi_sign i s = (sign = ''-'', d, ds' @ rest)"
    and plain: "strtoi_base ?base d (ds' @ rest) = (?base, None, d, ds' @ rest)"
    by (rule number_setup [OF assms])
  show ?thesis
  proof (cases "sign = ''-''")
    case True
    obtain val oflow where v: "strtoi_loop (step_signed ?base (LONG_MAX + 1)) ?base 0 False
        (ws @ sign @ ds @ rest) d (ds' @ rest) = (val, oflow, rest)"
      "oflow = (2 ^ 63 < num_val b ds)" "\<not> oflow \<Longrightarrow> unat val = num_val b ds"
      using neg.loop_value [OF base'(1,2) dig, of "ws @ sign @ ds @ rest"] base
      by (auto simp: limits ds)
    have "sint (- val) = - int (num_val b ds)" if "\<not> oflow"
      using word_of_unat [OF v(3) [OF that]] sint_word_64 [of "- int (num_val b ds)"] v(2) that by simp
    then show ?thesis using True base pre plain v
      by (auto simp: strtol_def Let_def clamp_long_def limits)
  next
    case False
    obtain val oflow where v: "strtoi_loop (step_signed ?base LONG_MAX) ?base 0 False
        (ws @ sign @ ds @ rest) d (ds' @ rest) = (val, oflow, rest)"
      "oflow = (2 ^ 63 - 1 < num_val b ds)" "\<not> oflow \<Longrightarrow> unat val = num_val b ds"
      using pos.loop_value [OF base'(1,2) dig, of "ws @ sign @ ds @ rest"] base
      by (auto simp: limits ds)
    have "sint val = int (num_val b ds)" if "\<not> oflow"
      using word_of_unat [OF v(3) [OF that]] sint_word_64 [of "int (num_val b ds)"] v(2) that by simp
    then show ?thesis using False base pre plain v
      by (auto simp: strtol_def Let_def clamp_long_def limits)
  qed
qed

text \<open>
  C26: after white space and an optional sign, \<open>strtol\<close> reads all digits of the
  base, returns their value saturated to \<open>long\<close> with \<open>ERANGE\<close> when it does not
  fit, and sets the end pointer after the last digit.
\<close>

theorem strtol_correct:
  assumes ws: "\<forall>c \<in> set ws. isspace c" and b: "2 \<le> b" "b \<le> 36"
    and num: "number (word_of_int (int b)) sign ds rest"
  shows "strtol (ws @ sign @ ds @ rest) (int b) =
    (let (v, e) = clamp_long (neg_if sign (int (num_val b ds))) in (v, rest, e))"
  by (rule strtol_main [OF assms])


definition dec_limit :: string where "dec_limit = ''9223372036854775808''"

theorem strtol_correct_witness:
  "strtol ''  -9223372036854775808!'' 10 = (- (2 ^ 63), ''!'', None)
   \<and> strtol ''9223372036854775808!'' 10 = (2 ^ 63 - 1, ''!'', Some ERANGE)"
proof -
  have dig: "\<forall>c \<in> set dec_limit. is_digit 10 c" "\<not> is_digit 10 CHR ''!''" by code_simp+
  have len: "length dec_limit = 19" "dec_limit \<noteq> []" by (simp_all add: dec_limit_def)
  have num: "number (word_of_int (int 10)) ''-'' dec_limit ''!''" "number (word_of_int (int 10)) [] dec_limit ''!''"
    unfolding number_def using dig len by simp_all
  have val: "num_val 10 dec_limit = 2 ^ 63" by (simp add: num_val_def dec_limit_def dval_def less_eq_char_def)
  have ws: "\<forall>c \<in> set ''  ''. isspace c" "\<forall>c \<in> set []. isspace c" by code_simp+
  from strtol_correct [OF ws(1) _ _ num(1)] strtol_correct [OF ws(2) _ _ num(2)] show ?thesis
    by (simp add: val clamp_long_def) (simp add: dec_limit_def)
qed

lemma strtoul_main:
  assumes ws: "\<forall>c \<in> set ws. isspace c" and b: "2 \<le> b" "b \<le> 36"
    and num: "number (word_of_int (int b)) sign ds rest"
  shows "strtoul (ws @ sign @ ds @ rest) (int b) =
    (if 2 ^ 64 \<le> num_val b ds then (- 1, rest, Some ERANGE)
     else (word_of_int (neg_if sign (int (num_val b ds))), rest, None))"
proof -
  let ?base = "word_of_int (int b) :: u32"
  note base = good_base [OF b]
  obtain d ds' i s where ds: "ds = d # ds'" and base': "0 < ?base" "?base \<le> 36"
    and dig: "\<forall>c \<in> set (d # ds'). is_digit ?base c" "rest = [] \<or> \<not> is_digit ?base (hd rest)"
    and pre: "skip_white (ws @ sign @ ds @ rest) = (i, s)"
      "strtoi_sign i s = (sign = ''-'', d, ds' @ rest)"
    and plain: "strtoi_base ?base d (ds' @ rest) = (?base, None, d, ds' @ rest)"
    by (rule number_setup [OF assms])
  obtain val oflow where v: "strtoi_loop (step_unsigned ?base) ?base 0 False
      (ws @ sign @ ds @ rest) d (ds' @ rest) = (val, oflow, rest)"
    "oflow = (2 ^ 64 - 1 < num_val b ds)" "\<not> oflow \<Longrightarrow> unat val = num_val b ds"
    using uns.loop_value [OF base'(1,2) dig, of "ws @ sign @ ds @ rest"] base
    by (auto simp: ds)
  have "val = word_of_int (int (num_val b ds))" if "\<not> oflow"
    using word_of_unat [OF v(3) [OF that]] .
  then show ?thesis using base pre plain v by (auto simp: strtoul_def Let_def)
qed

text \<open>
  \<open>strtoul\<close> reads the same numbers, negates modulo 2^64 after a minus sign,
  and returns \<open>ULONG_MAX\<close> with \<open>ERANGE\<close> when the digits do not fit.
\<close>

theorem strtoul_correct:
  assumes ws: "\<forall>c \<in> set ws. isspace c" and b: "2 \<le> b" "b \<le> 36"
    and num: "number (word_of_int (int b)) sign ds rest"
  shows "strtoul (ws @ sign @ ds @ rest) (int b) =
    (if 2 ^ 64 \<le> num_val b ds then (- 1, rest, Some ERANGE)
     else (word_of_int (neg_if sign (int (num_val b ds))), rest, None))"
  by (rule strtoul_main [OF assms])

theorem strtoul_correct_witness: "strtoul ''-5x'' 10 = (- 5, ''x'', None)"
proof -
  have dig: "\<forall>c \<in> set ''5''. is_digit 10 c" "\<not> is_digit 10 CHR ''x''" by code_simp+
  have num: "number (word_of_int (int 10)) ''-'' ''5'' ''x''"
    unfolding number_def using dig by simp
  have "num_val 10 ''5'' = 5" by (simp add: num_val_def dval_def less_eq_char_def)
  with strtoul_correct [OF _ _ _ num, of "[]"] show ?thesis by simp
qed

text \<open>
  With an impossible base \<open>strtol\<close> fails with \<open>EINVAL\<close>, without digits it
  returns zero, and in both cases the end pointer is the start of the string;
  base zero is decided by the prefix: \<open>0x\<close>, \<open>0\<close> or neither.
\<close>

definition auto_base :: "string \<Rightarrow> int" where
  "auto_base s =
     (case skip_white s of (i, t) \<Rightarrow> case strtoi_sign i t of (_, i, t) \<Rightarrow>
        if i \<noteq> CHR ''0'' then 10
        else if deref t = CHR ''x'' \<or> deref t = CHR ''X'' then 16 else 8)"

theorem strtol_no_number:
  "(bad_base ibase \<longrightarrow> strtol nptr ibase = (0, nptr, Some EINVAL)) \<and>
   (2 \<le> b \<longrightarrow> b \<le> 36 \<longrightarrow> skip_white nptr = (i, t) \<longrightarrow> strtoi_sign i t = (sg, d, u) \<longrightarrow>
      \<not> is_digit (word_of_int (int b)) d \<longrightarrow> strtol nptr (int b) = (0, nptr, None)) \<and>
   strtol nptr 0 = strtol nptr (auto_base nptr)"
proof (intro conjI impI)
  show "bad_base ibase \<Longrightarrow> strtol nptr ibase = (0, nptr, Some EINVAL)" by (simp add: strtol_def)
next
  assume b: "2 \<le> b" "b \<le> 36" and pre: "skip_white nptr = (i, t)" "strtoi_sign i t = (sg, d, u)"
    and nd: "\<not> is_digit (word_of_int (int b)) d"
  note base = good_base [OF b]
  have "d \<noteq> CHR ''0''" using nd base by (auto simp: digit_0)
  then have "strtoi_base (word_of_int (int b)) d u = (word_of_int (int b), None, d, u)"
    using base by (auto simp: strtoi_base_def)
  then show "strtol nptr (int b) = (0, nptr, None)"
    using base pre nd by (simp add: strtol_def Let_def strtoi_loop.simps not_less)
next
  obtain i t where 1: "skip_white nptr = (i, t)" by fastforce
  obtain sg d u where 2: "strtoi_sign i t = (sg, d, u)" by (cases "strtoi_sign i t") auto
  have "strtoi_base 0 d u = strtoi_base (word_of_int (auto_base nptr)) d u"
    "\<not> bad_base 0" "\<not> bad_base (auto_base nptr)"
    using 1 2 by (auto simp: auto_base_def strtoi_base_def TOLOWER_x or_16 bad_base_def)
  then show "strtol nptr 0 = strtol nptr (auto_base nptr)"
    using 1 2 by (simp add: strtol_def Let_def)
qed

theorem strtol_no_number_witness:
  "strtol '' +q'' 10 = (0, '' +q'', None) \<and> strtol ''7'' 37 = (0, ''7'', Some EINVAL)
   \<and> strtol ''0x1F'' 0 = strtol ''0x1F'' 16"
proof -
  have "bad_base 37" "skip_white '' +q'' = (CHR ''+'', ''q'')" "strtoi_sign CHR ''+'' ''q'' = (False, CHR ''q'', [])"
    "\<not> is_digit (word_of_int (int 10)) CHR ''q''" "auto_base ''0x1F'' = 16" by code_simp+
  with strtol_no_number [of 37 "''7''"] strtol_no_number [of _ "'' +q''" 10] strtol_no_number [of _ "''0x1F''"]
  show ?thesis by fastforce
qed

end
