(* ===== verification/Malloc.thy ===== *)
theory Malloc
  imports MemCopy MemFill
begin

text \<open>
  The heap allocator of \<^verbatim>\<open>src/libc/stdlib\<close> (\<^verbatim>\<open>local-malloc.h\<close>, \<^verbatim>\<open>malloc.c\<close>, \<^verbatim>\<open>free.c\<close>,
  \<^verbatim>\<open>realloc.c\<close>, \<^verbatim>\<open>calloc.c\<close>, \<^verbatim>\<open>memalign.c\<close> and the wrappers around them) over the fallback
  \<open>sbrk\<close> of \<^verbatim>\<open>src/libos/fallback/sbrk.c\<close>, in the default build: no small buckets, freed
  memory not cleared, errors reported through \<open>errno\<close>.

  The heap lives in the byte memory of \<open>CMem\<close>. A chunk is named by the address of its
  storage; the eight bytes in front of it hold its size, whose lowest bit is set while
  the chunk is free, and the first eight bytes of a free chunk hold the address of the
  next free one. The free list is therefore a linked list inside the memory the
  allocator hands out. Every operation returns \<open>None\<close> where the machine refuses an access or the
  walk over the list never ends.
\<close>

section \<open>State\<close>

datatype heap_errno = ENOMEM | EINVAL

record heap =
  hmem :: mem
  free_list :: addr
  sbrk_start :: addr
  sbrk_top :: addr
  brk :: addr
  heap_start :: addr
  heap_end :: addr
  errno :: "heap_errno option"

definition set_errno :: "heap_errno \<Rightarrow> heap \<Rightarrow> heap" where
  "set_errno e h = h\<lparr>errno := Some e\<rparr>"

section \<open>The system break\<close>

text \<open>The error value \<^verbatim>\<open>(void *)-1\<close> is \<open>None\<close>.\<close>

definition sbrk :: "heap \<Rightarrow> int \<Rightarrow> heap \<times> addr option" where
  "sbrk h incr =
     (if incr < 0 then
        (if int (brk h) - int (heap_start h) < - incr then (set_errno ENOMEM h, None)
         else (h\<lparr>brk := nat (int (brk h) + incr)\<rparr>, Some (brk h)))
      else
        (if int (heap_end h) - int (brk h) < incr then (set_errno ENOMEM h, None)
         else (h\<lparr>brk := nat (int (brk h) + incr)\<rparr>, Some (brk h))))"

section \<open>Chunks\<close>

definition MALLOC_CHUNK_ALIGN :: u64 where "MALLOC_CHUNK_ALIGN = 16"
definition MALLOC_HEAD_SIZE :: u64 where "MALLOC_HEAD_SIZE = 8"
definition MALLOC_CHUNK_SIZE :: u64 where "MALLOC_CHUNK_SIZE = 8"

definition align_up :: "u64 \<Rightarrow> u64 \<Rightarrow> u64" where
  "align_up x a = (x + (a - 1)) AND NOT (a - 1)"

definition align_ptr :: "addr \<Rightarrow> u64 \<Rightarrow> addr" where
  "align_ptr p a = unat (align_up (of_nat p) a)"

definition MALLOC_CHUNK_MIN :: u64 where
  "MALLOC_CHUNK_MIN = align_up (MALLOC_CHUNK_SIZE + MALLOC_HEAD_SIZE) MALLOC_CHUNK_ALIGN"

definition MALLOC_CHUNK_MAX :: u64 where
  "MALLOC_CHUNK_MAX = - 1 - 2 * max MALLOC_CHUNK_SIZE MALLOC_CHUNK_ALIGN"

definition MALLOC_ALLOC_MAX :: u64 where
  "MALLOC_ALLOC_MAX = MALLOC_CHUNK_MAX - MALLOC_HEAD_SIZE"

definition size_ref :: "addr \<Rightarrow> addr" where
  "size_ref c = c - unat MALLOC_HEAD_SIZE"

definition load_size :: "heap \<Rightarrow> addr \<Rightarrow> u64 option" where
  "load_size h c = load64 (hmem h) (size_ref c)"

definition set_size :: "heap \<Rightarrow> addr \<Rightarrow> u64 \<Rightarrow> heap option" where
  "set_size h c n = do { m \<leftarrow> store64 (hmem h) (size_ref c) n; Some (h\<lparr>hmem := m\<rparr>) }"

definition mark_free :: "heap \<Rightarrow> addr \<Rightarrow> heap option" where
  "mark_free h c = do { s \<leftarrow> load_size h c; set_size h c (s OR 1) }"

definition mark_busy :: "heap \<Rightarrow> addr \<Rightarrow> heap option" where
  "mark_busy h c = do { s \<leftarrow> load_size h c; set_size h c (s AND NOT 1) }"

definition is_free :: "heap \<Rightarrow> addr \<Rightarrow> bool option" where
  "is_free h c = do { s \<leftarrow> load_size h c; Some (s AND 1 \<noteq> 0) }"

definition size_of :: "heap \<Rightarrow> addr \<Rightarrow> u64 option" where
  "size_of h c = do { s \<leftarrow> load_size h c; Some (s AND NOT 1) }"

text \<open>\<open>*_size_ref(c) += n\<close>\<close>

definition add_size :: "heap \<Rightarrow> addr \<Rightarrow> u64 \<Rightarrow> heap option" where
  "add_size h c n = do { s \<leftarrow> load_size h c; set_size h c (s + n) }"

text \<open>\<open>_check_busy\<close>: whether the chunk is in use; a free one sets \<open>errno\<close>.\<close>

definition check_busy :: "heap \<Rightarrow> addr \<Rightarrow> (heap \<times> bool) option" where
  "check_busy h c = do { f \<leftarrow> is_free h c; Some (if f then (set_errno ENOMEM h, False) else (h, True)) }"

definition blob_to_chunk :: "addr \<Rightarrow> addr" where
  "blob_to_chunk b = b + unat MALLOC_HEAD_SIZE"

definition chunk_to_blob :: "addr \<Rightarrow> addr" where
  "chunk_to_blob c = c - unat MALLOC_HEAD_SIZE"

text \<open>\<open>chunk_end\<close> adds the stored word with its flag bit, \<open>chunk_after\<close> the size without it.\<close>

definition chunk_end :: "heap \<Rightarrow> addr \<Rightarrow> addr option" where
  "chunk_end h c = do { s \<leftarrow> load_size h c; Some (size_ref c + unat s) }"

definition chunk_after :: "heap \<Rightarrow> addr \<Rightarrow> addr option" where
  "chunk_after h c = do { s \<leftarrow> size_of h c; Some (c + unat s) }"

definition chunk_size :: "u64 \<Rightarrow> u64" where
  "chunk_size malloc_size =
     max MALLOC_CHUNK_MIN (align_up (malloc_size + MALLOC_HEAD_SIZE) MALLOC_CHUNK_ALIGN)"

definition malloc_size :: "u64 \<Rightarrow> u64" where
  "malloc_size n = n - MALLOC_HEAD_SIZE"

definition chunk_usable :: "heap \<Rightarrow> addr \<Rightarrow> u64 option" where
  "chunk_usable h c = do { s \<leftarrow> size_of h c; Some (malloc_size s) }"

definition next_of :: "heap \<Rightarrow> addr \<Rightarrow> addr option" where
  "next_of h c = do { w \<leftarrow> load64 (hmem h) c; Some (unat w) }"

definition set_next :: "heap \<Rightarrow> addr \<Rightarrow> addr \<Rightarrow> heap option" where
  "set_next h c n = do { m \<leftarrow> store64 (hmem h) c (of_nat n); Some (h\<lparr>hmem := m\<rparr>) }"

text \<open>A \<^verbatim>\<open>chunk_t **\<close> of the list walks: the address of the list head or of a \<open>next\<close> field.\<close>

datatype slot = Free_list | Next addr

fun get_slot :: "heap \<Rightarrow> slot \<Rightarrow> addr option" where
  "get_slot h Free_list = Some (free_list h)"
| "get_slot h (Next c) = next_of h c"

fun put_slot :: "heap \<Rightarrow> slot \<Rightarrow> addr \<Rightarrow> heap option" where
  "put_slot h Free_list v = Some (h\<lparr>free_list := v\<rparr>)"
| "put_slot h (Next c) v = set_next h c v"

section \<open>Freeing\<close>

text \<open>
  How the walk of \<open>free\<close> ends: at the place to insert (the slot and the chunk it holds), at
  the chunk itself, or at a chunk that ends where the freed one begins.
\<close>

datatype place = Insert slot addr | Double_free | Merge addr

partial_function (option) free_walk :: "heap \<Rightarrow> slot \<Rightarrow> addr \<Rightarrow> place option" where
  "free_walk h p p_to_free = do {
     c \<leftarrow> get_slot h p;
     if c = NULL then Some (Insert p c)
     else if p_to_free \<le> c then Some (if p_to_free = c then Double_free else Insert p c)
     else do {
       e \<leftarrow> chunk_after h c;
       if e = p_to_free then Some (Merge c) else free_walk h (Next c) p_to_free } }"

text \<open>The code from the label \<open>no_insert\<close> on.\<close>

definition merge_next :: "heap \<Rightarrow> addr \<Rightarrow> addr \<Rightarrow> heap option" where
  "merge_next h p_to_free c = do {
     e \<leftarrow> chunk_after h p_to_free;
     if e = c then do {
       n \<leftarrow> size_of h c;
       h \<leftarrow> add_size h p_to_free n;
       x \<leftarrow> next_of h c;
       set_next h p_to_free x }
     else Some h }"

text \<open>What follows the walk.\<close>

definition free_link :: "heap \<Rightarrow> addr \<Rightarrow> place \<Rightarrow> heap option" where
  "free_link h p_to_free w =
     (case w of
        Double_free \<Rightarrow> Some (set_errno ENOMEM h)
      | Insert p c \<Rightarrow> do {
          h \<leftarrow> set_next h p_to_free c;
          h \<leftarrow> put_slot h p p_to_free;
          merge_next h p_to_free c }
      | Merge c \<Rightarrow> do {
          n \<leftarrow> size_of h p_to_free;
          h \<leftarrow> add_size h c n;
          x \<leftarrow> next_of h c;
          merge_next h c x })"

definition malloc_free :: "heap \<Rightarrow> addr \<Rightarrow> heap option" where
  "malloc_free h p_to_free =
     (if p_to_free = NULL then Some h else do {
        (h, busy) \<leftarrow> check_busy h p_to_free;
        if \<not> busy then Some h else do {
          h \<leftarrow> set_next h p_to_free NULL;
          h \<leftarrow> mark_free h p_to_free;
          w \<leftarrow> free_walk h Free_list p_to_free;
          free_link h p_to_free w } })"

definition make_free_chunk :: "heap \<Rightarrow> addr \<Rightarrow> u64 \<Rightarrow> heap option" where
  "make_free_chunk h c n = do { h \<leftarrow> set_size h c n; malloc_free h c }"

section \<open>Allocating\<close>

definition malloc_sbrk_aligned :: "heap \<Rightarrow> u64 \<Rightarrow> heap \<times> addr option" where
  "malloc_sbrk_aligned h s =
     (if sint s < 0 then (h, None)
      else case sbrk h (sint s) of
        (h, None) \<Rightarrow> (h, None)
      | (h, Some p) \<Rightarrow>
          let h = h\<lparr>sbrk_top := p + unat s\<rparr>;
              align_p = chunk_to_blob (align_ptr (p + unat MALLOC_HEAD_SIZE) MALLOC_CHUNK_ALIGN);
              start = (\<lambda>h. if sbrk_start h = NULL then h\<lparr>sbrk_start := align_p\<rparr> else h)
          in if align_p \<noteq> p then
               (case sbrk h (int align_p - int p) of
                  (h, None) \<Rightarrow> (h, None)
                | (h, Some extra) \<Rightarrow>
                    if extra \<noteq> p + unat s then (h, None)
                    else (start (h\<lparr>sbrk_top := nat (int extra + (int align_p - int p))\<rparr>), Some align_p))
             else (start h, Some align_p))"

definition malloc_grow_chunk :: "heap \<Rightarrow> addr \<Rightarrow> u64 \<Rightarrow> (heap \<times> bool) option" where
  "malloc_grow_chunk h c new_size = do {
     chunk_e \<leftarrow> chunk_end h c;
     if chunk_e \<noteq> sbrk_top h then Some (h, False) else do {
       s \<leftarrow> size_of h c;
       let asz = max MALLOC_CHUNK_MIN (new_size - s);
       (case malloc_sbrk_aligned h asz of
          (h, Some b) \<Rightarrow>
            if b = chunk_e then do { h \<leftarrow> add_size h c asz; Some (h, True) }
            else do { h \<leftarrow> make_free_chunk h (blob_to_chunk b) asz; Some (h, False) }
        | (h, None) \<Rightarrow> Some (h, False)) } }"

text \<open>The chunk found for the request is taken off the list, its tail split off when large enough.\<close>

definition take_chunk :: "heap \<Rightarrow> slot \<Rightarrow> addr \<Rightarrow> u64 \<Rightarrow> u64 \<Rightarrow> heap option" where
  "take_chunk h p c sz alloc_size = (
     let rem = sz - alloc_size in
     if rem \<ge> MALLOC_CHUNK_MIN then do {
       let s = c + unat alloc_size;
       h \<leftarrow> set_size h c alloc_size;
       h \<leftarrow> set_size h s rem;
       h \<leftarrow> mark_free h s;
       n \<leftarrow> next_of h c;
       h \<leftarrow> set_next h s n;
       put_slot h p s }
     else do { n \<leftarrow> next_of h c; put_slot h p n })"

partial_function (option) malloc_walk :: "heap \<Rightarrow> slot \<Rightarrow> u64 \<Rightarrow> (heap \<times> addr) option" where
  "malloc_walk h p alloc_size = do {
     c \<leftarrow> get_slot h p;
     if c = NULL then Some (h, NULL)
     else do {
       sz \<leftarrow> size_of h c;
       if sz \<ge> alloc_size then do { h \<leftarrow> take_chunk h p c sz alloc_size; Some (h, c) }
       else do {
         n \<leftarrow> next_of h c;
         (h, grown) \<leftarrow> (if n = NULL then malloc_grow_chunk h c alloc_size else Some (h, False));
         if grown then do { n \<leftarrow> next_of h c; h \<leftarrow> put_slot h p n; Some (h, c) }
         else malloc_walk h (Next c) alloc_size } } }"

text \<open>
  The part of \<open>malloc\<close> after the search: fresh memory when nothing was found, then the
  chunk is marked busy and its storage cleared.
\<close>

definition malloc_finish :: "heap \<Rightarrow> addr \<Rightarrow> u64 \<Rightarrow> (heap \<times> addr) option" where
  "malloc_finish h c alloc_size = do {
     h \<leftarrow> mark_busy h c;
     (m, _) \<leftarrow> memset (hmem h) c 0 (unat (alloc_size - MALLOC_HEAD_SIZE));
     Some (h\<lparr>hmem := m\<rparr>, c) }"

definition malloc :: "heap \<Rightarrow> u64 \<Rightarrow> (heap \<times> addr) option" where
  "malloc h s =
     (if s > MALLOC_ALLOC_MAX then Some (set_errno ENOMEM h, NULL)
      else do {
        let alloc_size = chunk_size s;
        (h, c) \<leftarrow> malloc_walk h Free_list alloc_size;
        if c = NULL then
          (case malloc_sbrk_aligned h alloc_size of
             (h, None) \<Rightarrow> Some (set_errno ENOMEM h, NULL)
           | (h, Some b) \<Rightarrow> do {
               let c = blob_to_chunk b;
               h \<leftarrow> set_size h c alloc_size;
               malloc_finish h c alloc_size })
        else malloc_finish h c alloc_size })"

section \<open>Resizing and aligned allocation\<close>

text \<open>The walk of \<open>realloc\<close>: the slot of the free chunk at \<open>chunk_e\<close>, if the list reaches it.\<close>

partial_function (option) realloc_walk :: "heap \<Rightarrow> slot \<Rightarrow> addr \<Rightarrow> addr \<Rightarrow> (slot \<times> addr) option option" where
  "realloc_walk h p p_to_realloc chunk_e = do {
     r \<leftarrow> get_slot h p;
     if r = NULL then Some None
     else if r = chunk_e then Some (Some (p, r))
     else if p_to_realloc < r then Some None
     else realloc_walk h (Next r) p_to_realloc chunk_e }"

definition realloc_grow :: "heap \<Rightarrow> addr \<Rightarrow> u64 \<Rightarrow> u64 \<Rightarrow> (heap \<times> u64) option" where
  "realloc_grow h p_to_realloc old_size new_size = do {
     chunk_e \<leftarrow> chunk_end h p_to_realloc;
     (h, grown) \<leftarrow> malloc_grow_chunk h p_to_realloc new_size;
     if grown then do {
       (m, _) \<leftarrow> memset (hmem h) chunk_e 0 (unat (new_size - old_size));
       Some (h\<lparr>hmem := m\<rparr>, new_size) }
     else do {
       w \<leftarrow> realloc_walk h Free_list p_to_realloc chunk_e;
       (case w of
          None \<Rightarrow> Some (h, old_size)
        | Some (p, r) \<Rightarrow> do {
            r_size \<leftarrow> size_of h r;
            n \<leftarrow> next_of h r;
            h \<leftarrow> put_slot h p n;
            (m, _) \<leftarrow> memset (hmem h) r 0 (unat r_size);
            let h = h\<lparr>hmem := m\<rparr>;
            let old_size = old_size + r_size;
            h \<leftarrow> set_size h p_to_realloc old_size;
            Some (h, old_size) }) } }"

definition realloc :: "heap \<Rightarrow> addr \<Rightarrow> u64 \<Rightarrow> (heap \<times> addr) option" where
  "realloc h ptr sz =
     (if ptr = NULL then malloc h sz
      else if sz = 0 then do { h \<leftarrow> malloc_free h ptr; Some (h, NULL) }
      else if sz > MALLOC_ALLOC_MAX then Some (set_errno ENOMEM h, NULL)
      else do {
        (h, busy) \<leftarrow> check_busy h ptr;
        if \<not> busy then Some (h, NULL) else do {
          let new_size = chunk_size sz;
          old_size \<leftarrow> size_of h ptr;
          (h, old_size) \<leftarrow> (if new_size > old_size then realloc_grow h ptr old_size new_size
                            else Some (h, old_size));
          if new_size \<le> old_size then do {
            let extra = old_size - new_size;
            h \<leftarrow> (if extra \<ge> MALLOC_CHUNK_MIN then do {
                     h \<leftarrow> set_size h ptr new_size;
                     a \<leftarrow> chunk_after h ptr;
                     make_free_chunk h a extra }
                   else Some h);
            Some (h, ptr) }
          else do {
            (h, new) \<leftarrow> malloc h sz;
            if new = NULL then Some (h, NULL) else do {
              (m, _) \<leftarrow> memcpy (hmem h) new ptr (unat (malloc_size old_size));
              h \<leftarrow> malloc_free (h\<lparr>hmem := m\<rparr>) ptr;
              Some (h, new) } } } })"

text \<open>\<open>UP_POT\<close> yields an exponent: the first of 4 to 10 whose power of two is at least its argument.\<close>

definition UP_POT :: "u64 \<Rightarrow> u64" where
  "UP_POT x = (if x \<le> 16 then 4 else if x \<le> 32 then 5 else if x \<le> 64 then 6 else if x \<le> 128 then 7
     else if x \<le> 256 then 8 else if x \<le> 512 then 9 else if x \<le> 1024 then 10 else 0)"

text \<open>The piece in front of the aligned address is freed; the result is the chunk that begins there.\<close>

definition memalign_front :: "heap \<Rightarrow> addr \<Rightarrow> u64 \<Rightarrow> (heap \<times> addr) option" where
  "memalign_front h allocated align = (
     let aligned_p = align_ptr allocated align;
         offset = (of_nat (aligned_p - allocated) :: u64)
     in if offset \<noteq> 0 then
          let (aligned_p, offset) =
            (if offset < MALLOC_CHUNK_MIN then (aligned_p + unat align, offset + align)
             else (aligned_p, offset))
          in do {
            n \<leftarrow> size_of h allocated;
            h \<leftarrow> set_size h aligned_p (n - offset);
            h \<leftarrow> make_free_chunk h allocated offset;
            Some (h, aligned_p) }
        else Some (h, allocated))"

text \<open>The piece behind the requested size is freed when it is large enough for a chunk.\<close>

definition memalign_back :: "heap \<Rightarrow> addr \<Rightarrow> u64 \<Rightarrow> heap option" where
  "memalign_back h chunk_p s = do {
     n \<leftarrow> size_of h chunk_p;
     let offset = n - s;
     if offset \<ge> MALLOC_CHUNK_MIN then do {
       h \<leftarrow> add_size h chunk_p (- offset);
       a \<leftarrow> chunk_after h chunk_p;
       make_free_chunk h a offset }
     else Some h }"

definition memalign :: "heap \<Rightarrow> u64 \<Rightarrow> u64 \<Rightarrow> (heap \<times> addr) option" where
  "memalign h align s =
     (if align AND (align - 1) \<noteq> 0 then Some (set_errno EINVAL h, NULL)
      else let align = max align (UP_POT MALLOC_CHUNK_MIN) in
      if align > MALLOC_ALLOC_MAX \<or> s > MALLOC_ALLOC_MAX - align then Some (set_errno ENOMEM h, NULL)
      else let s = chunk_size s; size_with_padding = s + align + MALLOC_CHUNK_MIN in do {
        (h, allocated) \<leftarrow> malloc h size_with_padding;
        if allocated = NULL then Some (h, NULL) else do {
          (h, chunk_p) \<leftarrow> memalign_front h allocated align;
          h \<leftarrow> memalign_back h chunk_p s;
          Some (h, chunk_p) } })"

definition mul_overflow :: "u64 \<Rightarrow> u64 \<Rightarrow> bool \<times> u64" where
  "mul_overflow a b =
     (if a = 0 \<or> b = 0 then False else a > - 1 div b \<or> b > - 1 div a, a * b)"

definition calloc :: "heap \<Rightarrow> u64 \<Rightarrow> u64 \<Rightarrow> (heap \<times> addr) option" where
  "calloc h n elem = (case mul_overflow n elem of (ov, bytes) \<Rightarrow>
     if ov then Some (set_errno ENOMEM h, NULL) else malloc h bytes)"

definition reallocarray :: "heap \<Rightarrow> addr \<Rightarrow> u64 \<Rightarrow> u64 \<Rightarrow> (heap \<times> addr) option" where
  "reallocarray h optr nmemb sz = (case mul_overflow nmemb sz of (ov, bytes) \<Rightarrow>
     if ov then Some (set_errno ENOMEM h, NULL) else realloc h optr bytes)"

definition reallocf :: "heap \<Rightarrow> addr \<Rightarrow> u64 \<Rightarrow> (heap \<times> addr) option" where
  "reallocf h ptr sz = do {
     (h, nptr) \<leftarrow> realloc h ptr sz;
     h \<leftarrow> (if nptr = NULL \<and> ptr \<noteq> NULL then malloc_free h ptr else Some h);
     Some (h, nptr) }"

text \<open>The result code and, on success, the value stored through \<open>memptr\<close>.\<close>

definition posix_memalign :: "heap \<Rightarrow> u64 \<Rightarrow> u64 \<Rightarrow> (heap \<times> (heap_errno + addr)) option" where
  "posix_memalign h align sz =
     (if align AND (align - 1) \<noteq> 0 \<or> align mod 8 \<noteq> 0 \<or> align = 0 then Some (h, Inl EINVAL)
      else do {
        (h, mem) \<leftarrow> memalign h align sz;
        Some (h, if mem = NULL then Inl ENOMEM else Inr mem) })"

definition malloc_usable_size :: "heap \<Rightarrow> addr \<Rightarrow> u64 option" where
  "malloc_usable_size h ptr = chunk_usable h ptr"

record mallinfo_t =
  arena :: u64
  ordblks :: u64
  fordblks :: u64
  uordblks :: u64

partial_function (option) mallinfo_walk :: "heap \<Rightarrow> addr \<Rightarrow> u64 \<Rightarrow> u64 \<Rightarrow> (u64 \<times> u64) option" where
  "mallinfo_walk h pf blks free_size =
     (if pf = NULL then Some (blks, free_size)
      else do {
        n \<leftarrow> size_of h pf;
        x \<leftarrow> next_of h pf;
        mallinfo_walk h x (blks + 1) (free_size + n) })"

definition mallinfo :: "heap \<Rightarrow> mallinfo_t option" where
  "mallinfo h = do {
     let total_size = (if sbrk_start h = NULL then 0
                       else if sbrk_top h = NULL then - 1
                       else of_nat (sbrk_top h) - of_nat (sbrk_start h));
     (blks, free_size) \<leftarrow> mallinfo_walk h (free_list h) 0 0;
     Some \<lparr>arena = total_size, ordblks = blks, fordblks = free_size, uordblks = total_size - free_size\<rparr> }"

declare free_walk.simps [code] malloc_walk.simps [code] realloc_walk.simps [code] mallinfo_walk.simps [code]

end
