(* ===== verification/MallocHeap.thy ===== *)
theory MallocHeap
  imports Malloc
begin

text \<open>
  Facts about the heap as the allocator sees it: words and flag bits in byte memory, rounding,
  the shape of chunks and of the chain of free chunks, what a step leaves alone (\<open>touches\<close>), and the merge
  of a chunk with the free chunk behind it.
\<close>

section \<open>Words in memory\<close>

abbreviation put64 :: "mem \<Rightarrow> addr \<Rightarrow> u64 \<Rightarrow> mem" where
  "put64 m a w \<equiv> put_bytes m a (word_to_bytes 8 w)"

lemma load_bytes_agree:
  "(\<And>x. a \<le> x \<Longrightarrow> x < a + n \<Longrightarrow> m' x = m x) \<Longrightarrow> load_bytes m' a n = load_bytes m a n"
  by (induction n arbitrary: a) (simp_all add: load8_def)

lemma load64_agree: "(\<And>x. a \<le> x \<Longrightarrow> x < a + 8 \<Longrightarrow> m' x = m x) \<Longrightarrow> load64 m' a = load64 m a"
  unfolding load64_def by (subst load_bytes_agree [of a 8 m' m]) (assumption | rule refl)+

lemma load64_put_same: "a mod 8 = 0 \<Longrightarrow> load64 (put64 m a w) a = Some w"
  using load64_at [OF bytes_at_put_same, of "word_to_bytes 8 w" a m] by (simp add: word_of_to_bytes)

lemma load64_put_other: "b + 8 \<le> a \<or> a + 8 \<le> b \<Longrightarrow> load64 (put64 m a w) b = load64 m b"
  by (rule load64_agree) (auto simp: put_bytes_apply)

lemma put64_other: "x < a \<or> a + 8 \<le> x \<Longrightarrow> put64 m a w x = m x"
  by (auto simp: put_bytes_apply)

lemma mapped_put64: "mapped (put64 m a w) b n \<longleftrightarrow> mapped m b n \<or> mapped (put64 m a w) b n"
  by (auto intro: mapped_put_bytes)

subsection \<open>Flag bits\<close>

lemma even_of_nat64: "even n \<Longrightarrow> even (of_nat n :: u64)"
  by simp

lemma flag_or: "even (w :: u64) \<Longrightarrow> w OR 1 = w + 1"
  by (simp add: or_one_eq)

lemma flag_and: "w AND 1 = of_bool (odd (w :: u64))"
  by (simp add: and_one_eq mod2_eq_if)

lemma flag_clear: "(w :: u64) AND - 2 = w - of_bool (odd w)"
proof -
  have "(w AND NOT 1) + (w AND 1) = w"
    by (subst disjunctive_add) (auto simp: bit_simps bit_eq_iff)
  then have "(w AND - 2) + (w AND 1) = w" by simp
  then show ?thesis by (simp add: and_one_eq mod2_eq_if eq_diff_eq split: if_splits)
qed

lemma unat_of_nat64: "n < 2 ^ 63 \<Longrightarrow> unat (of_nat n :: u64) = n"
  by (simp add: unat_of_nat)

lemma unat_of_nat64_1: "n < 2 ^ 63 \<Longrightarrow> unat (of_nat n + 1 :: u64) = n + 1"
  using unat_of_nat64 [of n] by (subst unat_add_lem [THEN iffD1]) simp_all

subsection \<open>Rounding up\<close>

lemma align_up_pow:
  assumes "k < 64" "unat x + 2 ^ k \<le> 2 ^ 64"
  shows "unat (align_up x (2 ^ k)) = (unat x + (2 ^ k - 1)) div 2 ^ k * 2 ^ k"
proof -
  have m: "(2 ^ k - 1 :: u64) = mask k" by (simp add: mask_eq_decr_exp)
  have "(2::nat) ^ k < 2 ^ 64" using assms(1) by (rule power_strict_increasing) simp
  then have "unat (of_nat (2 ^ k - 1) :: u64) = 2 ^ k - 1" by (simp only: unat_of_nat) simp
  then have u: "unat (mask k :: u64) = 2 ^ k - 1" by (simp add: of_nat_diff flip: m)
  have sum: "unat (x + mask k) = unat x + (2 ^ k - 1)"
    using assms(2) by (subst unat_add_lem [THEN iffD1]) (simp_all add: u)
  have "unat (y AND NOT (mask k)) = unat y div 2 ^ k * 2 ^ k" for y :: u64
  proof -
    have "y AND NOT (mask k) = push_bit k (drop_bit k y)"
      by (rule bit_word_eqI) (auto simp: bit_simps)
    moreover have y: "unat y < 2 ^ 64" using unsigned_less [of y, where 'a = nat] by simp
    then have "unat y div 2 ^ k * 2 ^ k < 2 ^ 64"
      by (rule le_less_trans [OF div_times_less_eq_dividend])
    moreover have "unat (push_bit k (drop_bit k y)) = take_bit 64 (push_bit k (drop_bit k (unat y)))"
      using y by (simp add: unsigned_push_bit_eq unsigned_drop_bit_eq take_bit_nat_eq_self)
    ultimately show ?thesis
      by (simp only: push_bit_eq_mult drop_bit_eq_div take_bit_nat_eq_self)
  qed
  then show ?thesis by (simp add: align_up_def m sum)
qed

section \<open>The shape of the heap\<close>

text \<open>
  A chunk is the address of its storage and its size, header included; it covers the bytes from
  eight before its address on. The arena is the memory the break moves in.
\<close>

type_synonym chunk = "addr \<times> nat"

definition extent :: "chunk \<Rightarrow> addr set" where
  "extent x = {fst x - 8 ..< fst x - 8 + snd x}"

definition arena_ok :: "heap \<Rightarrow> bool" where
  "arena_ok h \<longleftrightarrow> 0 < heap_start h \<and> heap_start h \<le> brk h \<and> brk h \<le> heap_end h \<and> heap_end h < 2 ^ 62
     \<and> mapped (hmem h) (heap_start h) (heap_end h - heap_start h)"

definition chunk_ok :: "heap \<Rightarrow> chunk \<Rightarrow> bool" where
  "chunk_ok h x \<longleftrightarrow> heap_start h + 8 \<le> fst x \<and> fst x mod 16 = 0 \<and> snd x mod 16 = 0 \<and> 16 \<le> snd x
     \<and> fst x + snd x \<le> brk h + 8"

definition apart :: "chunk \<Rightarrow> chunk \<Rightarrow> bool" where
  "apart x y \<longleftrightarrow> fst x + snd x \<le> fst y \<or> fst y + snd y \<le> fst x"

text \<open>The free list from a slot on: each chunk with its flagged size and its successor.\<close>

fun chain :: "heap \<Rightarrow> slot \<Rightarrow> chunk list \<Rightarrow> bool" where
  "chain h p [] \<longleftrightarrow> get_slot h p = Some NULL"
| "chain h p ((c, n) # fs) \<longleftrightarrow>
     get_slot h p = Some c \<and> load_size h c = Some (of_nat n + 1) \<and> chain h (Next c) fs"

text \<open>The list is in address order and has no two neighbours left to merge.\<close>

definition gaps :: "chunk list \<Rightarrow> bool" where
  "gaps fs \<longleftrightarrow> sorted_wrt (\<lambda>x y. fst x + snd x < fst y) fs"

lemmas shape = arena_ok_def chunk_ok_def apart_def

lemma mapped_chunk:
  "arena_ok h \<Longrightarrow> chunk_ok h (c, n) \<Longrightarrow> c - 8 \<le> a \<Longrightarrow> a + k \<le> c - 8 + n \<Longrightarrow> mapped (hmem h) a k"
  by (auto simp: shape intro: mapped_sub)

lemma mod16: "(c::nat) mod 16 = 0 \<Longrightarrow> c mod 8 = 0" "(c::nat) mod 16 = 0 \<Longrightarrow> (c - 8) mod 8 = 0"
  "(c::nat) mod 16 = 0 \<Longrightarrow> even c"
  by presburger+

lemma mod16_add: "a mod 16 = 0 \<Longrightarrow> b mod 16 = 0 \<Longrightarrow> (a + b) mod 16 = (0::nat)"
  by presburger

lemma chunk_ok_less: "arena_ok h \<Longrightarrow> chunk_ok h (c, n) \<Longrightarrow> c < 2 ^ 63 \<and> n < 2 ^ 63 \<and> 8 < c \<and> 16 \<le> n \<and> even n"
  by (simp add: shape mod16)

subsection \<open>The primitives on a well-placed chunk\<close>

lemma head_size: "unat MALLOC_HEAD_SIZE = 8"
  by (simp add: MALLOC_HEAD_SIZE_def)

lemma chunk_min: "MALLOC_CHUNK_MIN = 16"
  by code_simp

lemma set_size_eq:
  assumes "arena_ok h" "chunk_ok h (c, n)"
  shows "set_size h c w = Some (h\<lparr>hmem := put64 (hmem h) (c - 8) w\<rparr>)"
  using mapped_chunk [OF assms, of "c - 8" 8] assms(2)
  by (simp add: set_size_def size_ref_def head_size store64_eq shape mod16)

lemma set_next_eq:
  assumes "arena_ok h" "chunk_ok h (c, n)"
  shows "set_next h c a = Some (h\<lparr>hmem := put64 (hmem h) c (of_nat a)\<rparr>)"
proof -
  have "mapped (hmem h) c 8"
    using assms(2) by (intro mapped_chunk [OF assms]) (auto simp: shape)
  then show ?thesis using assms(2) by (simp add: set_next_def store64_eq shape mod16)
qed

lemma load_size_eq: "load_size h c = load64 (hmem h) (c - 8)"
  by (simp add: load_size_def size_ref_def head_size)

lemma size_of_free: "load_size h c = Some (of_nat n + 1) \<Longrightarrow> even n \<Longrightarrow> size_of h c = Some (of_nat n)"
  by (simp add: size_of_def flag_clear)

lemma size_of_busy: "load_size h c = Some (of_nat n) \<Longrightarrow> even n \<Longrightarrow> size_of h c = Some (of_nat n)"
  by (simp add: size_of_def flag_clear)

lemma chunk_after_free:
  "load_size h c = Some (of_nat n + 1) \<Longrightarrow> even n \<Longrightarrow> n < 2 ^ 63 \<Longrightarrow> chunk_after h c = Some (c + n)"
  by (simp add: chunk_after_def size_of_free unat_of_nat64)

lemma chunk_after_busy:
  "load_size h c = Some (of_nat n) \<Longrightarrow> even n \<Longrightarrow> n < 2 ^ 63 \<Longrightarrow> chunk_after h c = Some (c + n)"
  by (simp add: chunk_after_def size_of_busy unat_of_nat64)

subsection \<open>Framing\<close>

text \<open>\<open>touches h h' S\<close>: the step changes memory inside \<open>S\<close> and at most the head of the free list besides.\<close>

definition touches :: "heap \<Rightarrow> heap \<Rightarrow> addr set \<Rightarrow> bool" where
  "touches h h' S \<longleftrightarrow> brk h' = brk h \<and> heap_start h' = heap_start h \<and> heap_end h' = heap_end h
     \<and> sbrk_top h' = sbrk_top h \<and> sbrk_start h' = sbrk_start h \<and> errno h' = errno h
     \<and> (\<forall>a. a \<notin> S \<longrightarrow> hmem h' a = hmem h a) \<and> (\<forall>a. hmem h a \<noteq> None \<longrightarrow> hmem h' a \<noteq> None)"

lemma touches_refl [simp]: "touches h h S"
  by (simp add: touches_def)

lemma touches_trans: "touches h h' S \<Longrightarrow> touches h' h'' T \<Longrightarrow> S \<subseteq> U \<Longrightarrow> T \<subseteq> U \<Longrightarrow> touches h h'' U"
  by (auto simp: touches_def subset_iff) metis

lemma touches_mono: "touches h h' S \<Longrightarrow> S \<subseteq> T \<Longrightarrow> touches h h' T"
  by (auto simp: touches_def)

lemma touches_ok:
  assumes "touches h h' S"
  shows "arena_ok h \<Longrightarrow> arena_ok h'" "chunk_ok h' x = chunk_ok h x"
  using assms by (auto simp: shape mapped_def touches_def)

lemma touches_put64:
  assumes "mapped (hmem h) a 8"
  shows "touches h (h\<lparr>hmem := put64 (hmem h) a w\<rparr>) {a ..< a + 8}"
  using assms by (auto simp: touches_def put_bytes_apply)

lemma touches_size:
  assumes "arena_ok h" "chunk_ok h (c, n)"
  shows "touches h (h\<lparr>hmem := put64 (hmem h) (c - 8) w\<rparr>) {c - 8 ..< c}"
proof -
  have "8 \<le> c" "mapped (hmem h) (c - 8) 8"
    using assms(2) by (auto simp: shape intro!: mapped_chunk [OF assms])
  then show ?thesis using touches_put64 [of h "c - 8" w] by simp
qed

lemma touches_next:
  assumes "arena_ok h" "chunk_ok h (c, n)"
  shows "touches h (h\<lparr>hmem := put64 (hmem h) c w\<rparr>) {c ..< c + 8}"
  using assms(2) by (intro touches_put64 mapped_chunk [OF assms]) (auto simp: shape)

lemma set_size_ok:
  assumes "arena_ok h" "chunk_ok h (c, n)"
  obtains h' where "set_size h c w = Some h'" "load_size h' c = Some w" "touches h h' {c - 8 ..< c}"
    "free_list h' = free_list h"
proof
  show "set_size h c w = Some (h\<lparr>hmem := put64 (hmem h) (c - 8) w\<rparr>)" by (rule set_size_eq [OF assms])
  show "load_size (h\<lparr>hmem := put64 (hmem h) (c - 8) w\<rparr>) c = Some w"
    using assms by (simp add: load_size_eq load64_put_same mod16 shape)
qed (simp_all add: touches_size [OF assms])

lemma set_next_ok:
  assumes "arena_ok h" "chunk_ok h (c, n)" "a < 2 ^ 63"
  obtains h' where "set_next h c a = Some h'" "next_of h' c = Some a" "touches h h' {c ..< c + 8}"
    "free_list h' = free_list h"
proof
  show "set_next h c a = Some (h\<lparr>hmem := put64 (hmem h) c (of_nat a)\<rparr>)" by (rule set_next_eq [OF assms(1,2)])
  show "next_of (h\<lparr>hmem := put64 (hmem h) c (of_nat a)\<rparr>) c = Some a"
    using assms by (simp add: next_of_def load64_put_same mod16 shape unat_of_nat)
qed (simp_all add: touches_next [OF assms(1,2)])

lemma touches_free_list [simp]: "touches h (h\<lparr>free_list := v\<rparr>) S"
  by (simp add: touches_def)

lemma load_size_frame:
  "touches h h' S \<Longrightarrow> (\<And>a. a \<in> S \<Longrightarrow> a < c - 8 \<or> c \<le> a) \<Longrightarrow> 8 \<le> c \<Longrightarrow> load_size h' c = load_size h c"
  unfolding load_size_eq by (rule load64_agree) (fastforce simp: touches_def)

lemma next_of_frame:
  "touches h h' S \<Longrightarrow> (\<And>a. a \<in> S \<Longrightarrow> a < c \<or> c + 8 \<le> a) \<Longrightarrow> next_of h' c = next_of h c"
  unfolding next_of_def by (subst load64_agree [of c "hmem h'" "hmem h"]) (fastforce simp: touches_def)+

lemma chain_frame:
  assumes "chain h p fs" "touches h h' S" "get_slot h' q = get_slot h p"
    and "\<forall>x \<in> set fs. 8 \<le> fst x \<and> (\<forall>a \<in> S. a < fst x - 8 \<or> fst x + 8 \<le> a)"
  shows "chain h' q fs"
  using assms
proof (induction fs arbitrary: p q)
  case Nil
  then show ?case by simp
next
  case (Cons x fs)
  obtain c n where x: "x = (c, n)" by (cases x)
  have c: "8 \<le> c" "\<forall>a \<in> S. a < c - 8 \<or> c + 8 \<le> a" using Cons.prems(4) by (auto simp: x)
  have "load_size h' c = load_size h c"
    using c by (intro load_size_frame [OF Cons.prems(2)]) force+
  moreover have n: "next_of h' c = next_of h c"
    using c by (intro next_of_frame [OF Cons.prems(2)]) force
  moreover have "chain h' (Next c) fs"
    using Cons.prems(1,4) n by (intro Cons.IH [OF _ Cons.prems(2), of "Next c"]) (auto simp: x)
  ultimately show ?case using Cons.prems(1,3) by (simp add: x)
qed

subsection \<open>Freeing on the list of chunks\<close>

definition coalesce :: "chunk \<Rightarrow> chunk list \<Rightarrow> chunk list" where
  "coalesce x fs = (case fs of [] \<Rightarrow> [x]
     | y # r \<Rightarrow> if fst x + snd x = fst y then (fst x, snd x + snd y) # r else x # fs)"

fun insert_free :: "chunk \<Rightarrow> chunk list \<Rightarrow> chunk list" where
  "insert_free x [] = [x]"
| "insert_free x (y # r) =
     (if fst x < fst y then coalesce x (y # r)
      else if fst y + snd y = fst x then coalesce (fst y, snd y + snd x) r
      else y # insert_free x r)"

text \<open>Where the list of a slot begins.\<close>

fun hd_addr :: "chunk list \<Rightarrow> addr" where
  "hd_addr [] = NULL"
| "hd_addr ((c, n) # fs) = c"

lemma chain_slot: "chain h p fs \<Longrightarrow> get_slot h p = Some (hd_addr fs)"
  by (cases fs rule: hd_addr.cases) auto

lemma merge_next_ok:
  assumes h: "arena_ok h" "chunk_ok h (c, n)" "load_size h c = Some (of_nat n + 1)"
    and fs: "chain h (Next c) fs" "\<And>d k. (d, k) \<in> set fs \<Longrightarrow> chunk_ok h (d, k) \<and> c + n \<le> d"
  shows "\<exists>h' n' fs'. merge_next h c (hd_addr fs) = Some h' \<and> coalesce (c, n) fs = (c, n') # fs'
    \<and> load_size h' c = Some (of_nat n' + 1) \<and> chain h' (Next c) fs' \<and> touches h h' {c - 8 ..< c + 8}
    \<and> free_list h' = free_list h"
proof -
  have n: "even n" "n < 2 ^ 63" and c: "c mod 16 = 0" "8 < c"
    using h(2) chunk_ok_less [OF h(1,2)] by (auto simp: shape)
  note after = chunk_after_free [OF h(3) n]
  show ?thesis
  proof (cases "\<exists>k r. fs = (c + n, k) # r")
    case False
    then have "hd_addr fs \<noteq> c + n" "coalesce (c, n) fs = (c, n) # fs"
      using c(2) by (cases fs rule: hd_addr.cases; auto simp: coalesce_def)+
    then show ?thesis using h(3) fs(1) after by (simp add: merge_next_def)
  next
    case True
    then obtain k r where f: "fs = (c + n, k) # r" by blast
    have k: "chunk_ok h (c + n, k)" "even k"
      using fs(2) [of "c + n" k] chunk_ok_less [OF h(1)] by (auto simp: f)
    have d: "(c + n) mod 16 = 0" "8 \<le> c + n" using k by (auto simp: shape)
    have d: "c + n < 2 ^ 63" "8 \<le> c + n" using chunk_ok_less [OF h(1) k(1)] by auto
    have sz: "size_of h (c + n) = Some (of_nat k)"
      using fs(1) k(2) by (intro size_of_free) (auto simp: f)
    obtain h1 where h1: "set_size h c (of_nat n + 1 + of_nat k) = Some h1"
      "load_size h1 c = Some (of_nat n + 1 + of_nat k)" "touches h h1 {c - 8 ..< c}" "free_list h1 = free_list h"
      by (rule set_size_ok [OF h(1,2)])
    have "next_of h1 (c + n) = next_of h (c + n)" by (rule next_of_frame [OF h1(3)]) auto
    then have r: "next_of h1 (c + n) = Some (hd_addr r)"
      using fs(1) chain_slot [of h "Next (c + n)" r] by (simp add: f)
    have "hd_addr r < 2 ^ 63"
      using fs(2) chunk_ok_less [OF h(1)] by (cases r rule: hd_addr.cases) (auto simp: f)
    then obtain h2 where h2: "set_next h1 c (hd_addr r) = Some h2" "next_of h2 c = Some (hd_addr r)"
      "touches h1 h2 {c ..< c + 8}" "free_list h2 = free_list h1"
      using set_next_ok [OF touches_ok(1) [OF h1(3) h(1)] touches_ok(2) [OF h1(3), THEN iffD2, OF h(2)]]
      by blast
    have t: "touches h h2 {c - 8 ..< c + 8}" by (rule touches_trans [OF h1(3) h2(3)]) auto
    have "load_size h2 c = load_size h1 c" using c(2) by (intro load_size_frame [OF h2(3)]) auto
    then have "load_size h2 c = Some (of_nat (n + k) + 1)" using h1(2) by (simp add: ac_simps)
    moreover have "merge_next h c (hd_addr fs) = Some h2"
      by (simp add: merge_next_def after f sz add_size_def h(3) h1(1) r h2(1))
    moreover have "chain h2 (Next c) r"
    proof (rule chain_frame [OF _ t])
      show "chain h (Next (c + n)) r" using fs(1) by (simp add: f)
      show "get_slot h2 (Next c) = get_slot h (Next (c + n))"
        using h2(2) r \<open>next_of h1 (c + n) = next_of h (c + n)\<close> by simp
      show "\<forall>x\<in>set r. 8 \<le> fst x \<and> (\<forall>a\<in>{c - 8..<c + 8}. a < fst x - 8 \<or> fst x + 8 \<le> a)"
        using fs(2) h(2) by (fastforce simp: f shape)
    qed
    ultimately show ?thesis
      using t h1(4) h2(4) by (intro exI [of _ h2] exI [of _ "n + k"] exI [of _ r]) (simp add: f coalesce_def)
  qed
qed

end
