(* ===== verification/MallocFree.thy ===== *)
theory MallocFree
  imports MallocHeap
begin

text \<open>
  \<open>free\<close>: the walk to the place of the chunk and the link there implement \<open>insert_free\<close>, the ordered
  insertion that joins neighbours; the heap invariant; freeing keeps it.
\<close>

text \<open>A slot in front of all the chunks the walk still has to see.\<close>

fun slot_before :: "heap \<Rightarrow> slot \<Rightarrow> chunk list \<Rightarrow> bool" where
  "slot_before h Free_list xs \<longleftrightarrow> True"
| "slot_before h (Next c) xs \<longleftrightarrow> (\<exists>n. chunk_ok h (c, n)) \<and> (\<forall>x \<in> set xs. c + 16 \<le> fst x)"

fun slot_extent :: "slot \<Rightarrow> addr set" where
  "slot_extent Free_list = {}"
| "slot_extent (Next c) = {c ..< c + 8}"

lemma put_slot_ok:
  assumes "arena_ok h" "slot_before h p xs" "a < 2 ^ 63"
  obtains h' where "put_slot h p a = Some h'" "get_slot h' p = Some a" "touches h h' (slot_extent p)"
    "p \<noteq> Free_list \<longrightarrow> free_list h' = free_list h"
proof (cases p)
  case Free_list
  then show ?thesis by (intro that [of "h\<lparr>free_list := a\<rparr>"]) simp_all
next
  case (Next c)
  then obtain n where "chunk_ok h (c, n)" using assms(2) by auto
  then show ?thesis using set_next_ok [OF assms(1) _ assms(3)] that Next by (metis get_slot.simps(2) put_slot.simps(2) slot_extent.simps(2))
qed

lemma get_slot_frame:
  assumes "touches h h' S" "p \<noteq> Free_list \<Longrightarrow> \<forall>a \<in> S. a \<notin> slot_extent p" "p = Free_list \<Longrightarrow> free_list h' = free_list h"
  shows "get_slot h' p = get_slot h p"
  using assms by (cases p) (auto intro!: next_of_frame simp: not_le)

definition free_ok :: "heap \<Rightarrow> slot \<Rightarrow> chunk \<Rightarrow> chunk list \<Rightarrow> heap \<Rightarrow> bool" where
  "free_ok h p x fs h' \<longleftrightarrow> chain h' p (insert_free x fs)
     \<and> touches h h' (slot_extent p \<union> extent x \<union> (\<Union>y \<in> set fs. extent y))
     \<and> (p \<noteq> Free_list \<longrightarrow> free_list h' = free_list h)
     \<and> (\<exists>m. even m \<and> load_size h' (fst x) = Some (of_nat m + 1))"

lemma free_insert_before:
  assumes h: "arena_ok h" "chunk_ok h (c, n)" "load_size h c = Some (of_nat n + 1)"
    and fs: "chain h p fs" "\<forall>y \<in> set fs. chunk_ok h y \<and> c + n \<le> fst y"
    and p: "slot_before h p ((c, n) # fs)"
  shows "\<exists>h'. free_link h c (Insert p (hd_addr fs)) = Some h' \<and> free_ok h p (c, n) fs h'"
proof -
  have hd: "hd_addr fs < 2 ^ 63"
    using fs(2) by (cases fs rule: hd_addr.cases) (auto dest: chunk_ok_less [OF h(1)])
  have c: "c < 2 ^ 63" "8 < c" "16 \<le> n" using chunk_ok_less [OF h(1,2)] by auto
  obtain h1 where h1: "set_next h c (hd_addr fs) = Some h1" "next_of h1 c = Some (hd_addr fs)"
    "touches h h1 {c ..< c + 8}" "free_list h1 = free_list h" by (rule set_next_ok [OF h(1,2) hd])
  have p1: "slot_before h1 p ((c, n) # fs)" using p touches_ok(2) [OF h1(3)] by (cases p) auto
  obtain h2 where h2: "put_slot h1 p c = Some h2" "get_slot h2 p = Some c" "touches h1 h2 (slot_extent p)"
    "p \<noteq> Free_list \<longrightarrow> free_list h2 = free_list h1"
    by (rule put_slot_ok [OF touches_ok(1) [OF h1(3) h(1)] p1 c(1)])
  have t: "touches h h2 ({c ..< c + 8} \<union> slot_extent p)" by (rule touches_trans [OF h1(3) h2(3)]) auto
  have sp: "a + 8 < c" if "a \<in> slot_extent p" for a using p that by (cases p) auto
  have "load_size h2 c = load_size h c" using c(2) sp by (intro load_size_frame [OF t]) force+
  then have l2: "load_size h2 c = Some (of_nat n + 1)" using h(3) by simp
  have "next_of h2 c = next_of h1 c" using sp by (intro next_of_frame [OF h2(3)]) force
  then have "chain h2 (Next c) fs"
    using h1(2) chain_slot [OF fs(1)] fs(2) sp c(3) h(2)
    by (intro chain_frame [OF fs(1) t]) (fastforce simp: shape)+
  moreover have "chunk_ok h2 (d, k) \<and> c + n \<le> d" if "(d, k) \<in> set fs" for d k
    using fs(2) that touches_ok(2) [OF t] by auto
  ultimately obtain h3 n' fs' where h3: "merge_next h2 c (hd_addr fs) = Some h3" "coalesce (c, n) fs = (c, n') # fs'"
    "load_size h3 c = Some (of_nat n' + 1)" "chain h3 (Next c) fs'" "touches h2 h3 {c - 8 ..< c + 8}"
    "free_list h3 = free_list h2"
    using merge_next_ok [OF touches_ok(1) [OF t h(1)] _ l2] touches_ok(2) [OF t] h(2) by blast
  have "get_slot h3 p = get_slot h2 p"
    using sp h3(6) by (intro get_slot_frame [OF h3(5)]) fastforce+
  moreover have "insert_free (c, n) fs = (c, n') # fs'"
    using fs(2) h3(2) c(3) by (cases fs) (auto simp: coalesce_def)
  moreover have "touches h h3 (slot_extent p \<union> extent (c, n) \<union> (\<Union>y \<in> set fs. extent y))"
    using c by (intro touches_trans [OF t h3(5)]) (auto simp: extent_def)
  moreover have "even n'"
    using h3(2) fs(2) h(2) by (cases fs) (auto simp: coalesce_def chunk_ok_def mod16 split: if_splits)
  then have "\<exists>m. even m \<and> load_size h3 c = Some (of_nat m + 1)" using h3(3) by blast
  ultimately have "free_ok h p (c, n) fs h3"
    using h2(2,4) h3(3,4,6) h1(4) by (simp add: free_ok_def)
  moreover have "free_link h c (Insert p (hd_addr fs)) = Some h3"
    by (simp add: free_link_def h1(1) h2(1) h3(1))
  ultimately show ?thesis by blast
qed

lemma free_merge_prev:
  assumes h: "arena_ok h" "chunk_ok h (c, n)" "load_size h c = Some (of_nat n + 1)"
    and d: "chunk_ok h (d, k)" "d + k = c" "chain h p ((d, k) # fs)"
    and fs: "\<forall>y \<in> set fs. chunk_ok h y \<and> c + n \<le> fst y"
    and p: "slot_before h p ((d, k) # fs)"
  shows "\<exists>h'. free_link h c (Merge d) = Some h' \<and> free_ok h p (c, n) ((d, k) # fs) h'"
proof -
  have dk: "chain h (Next d) fs" "load_size h d = Some (of_nat k + 1)" "get_slot h p = Some d" using d(3) by auto
  have n: "even n" "8 < d" "16 \<le> k" "16 \<le> n" "d < c"
    using chunk_ok_less [OF h(1,2)] chunk_ok_less [OF h(1) d(1)] d(2) by auto
  obtain h1 where h1: "set_size h d (of_nat k + 1 + of_nat n) = Some h1"
    "load_size h1 d = Some (of_nat k + 1 + of_nat n)" "touches h h1 {d - 8 ..< d}" "free_list h1 = free_list h"
    by (rule set_size_ok [OF h(1) d(1)])
  have l1: "load_size h1 d = Some (of_nat (k + n) + 1)" using h1(2) by (simp add: ac_simps)
  have nx: "next_of h1 d = next_of h d" by (rule next_of_frame [OF h1(3)]) auto
  have "chain h1 (Next d) fs"
    using fs nx n d(2) by (intro chain_frame [OF dk(1) h1(3)]) (fastforce simp: shape)+
  moreover have "(k + n) mod 16 = 0" using d(1) h(2) by (simp add: shape mod16_add)
  then have "chunk_ok h1 (d, k + n)"
    using d(1,2) h(2) unfolding touches_ok(2) [OF h1(3)] by (simp add: shape)
  moreover have "chunk_ok h1 (e, j) \<and> d + (k + n) \<le> e" if "(e, j) \<in> set fs" for e j
    using fs that d(2) touches_ok(2) [OF h1(3)] by auto
  ultimately obtain h3 n' fs' where h3: "merge_next h1 d (hd_addr fs) = Some h3" "coalesce (d, k + n) fs = (d, n') # fs'"
    "load_size h3 d = Some (of_nat n' + 1)" "chain h3 (Next d) fs'" "touches h1 h3 {d - 8 ..< d + 8}"
    "free_list h3 = free_list h1"
    using merge_next_ok [OF touches_ok(1) [OF h1(3) h(1)] _ l1] by blast
  have t: "touches h h3 {d - 8 ..< d + 8}" by (rule touches_trans [OF h1(3) h3(5)]) auto
  have "get_slot h3 p = get_slot h p"
    using p h3(6) h1(4) by (intro get_slot_frame [OF t]) (cases p; fastforce)+
  moreover have "insert_free (c, n) ((d, k) # fs) = (d, n') # fs'" using h3(2) n(5) d(2) by simp
  moreover have "touches h h3 (slot_extent p \<union> extent (c, n) \<union> (\<Union>y \<in> set ((d, k) # fs). extent y))"
    using n by (intro touches_mono [OF t]) (auto simp: extent_def)
  moreover have "load_size h3 c = load_size h c"
    using n d(2) by (intro load_size_frame [OF t]) auto
  then have "\<exists>m. even m \<and> load_size h3 c = Some (of_nat m + 1)" using h(3) n(1) by auto
  ultimately have "free_ok h p (c, n) ((d, k) # fs) h3"
    using dk(3) h3(3,4,6) h1(4) by (simp add: free_ok_def)
  moreover have "free_link h c (Merge d) = Some h3"
    using dk(1) nx size_of_free [OF h(3) n(1)] chain_slot [OF dk(1)]
    by (simp add: free_link_def add_size_def dk(2) h1(1) h3(1))
  ultimately show ?thesis by blast
qed

lemma free_insert_ok:
  assumes h: "arena_ok h" "chunk_ok h (c, n)" "load_size h c = Some (of_nat n + 1)"
    and fs: "chain h p fs" "gaps fs" "\<forall>y \<in> set fs. chunk_ok h y \<and> apart (c, n) y"
    and p: "slot_before h p ((c, n) # fs)"
  shows "\<exists>h'. do { w \<leftarrow> free_walk h p c; free_link h c w } = Some h' \<and> free_ok h p (c, n) fs h'"
  using fs p
proof (induction fs arbitrary: p)
  case Nil
  have "free_walk h p c = Some (Insert p (hd_addr []))" using Nil by (subst free_walk.simps) simp
  then show ?case using free_insert_before [OF h Nil(1) _ Nil(4)] by simp
next
  case (Cons x fs)
  obtain d k where x: "x = (d, k)" by (cases x)
  have c: "16 \<le> n" "8 < c" using chunk_ok_less [OF h(1,2)] by auto
  have d: "chunk_ok h (d, k)" "apart (c, n) (d, k)" "get_slot h p = Some d" "load_size h d = Some (of_nat k + 1)"
    "chain h (Next d) fs" using Cons.prems by (auto simp: x)
  have k: "even k" "k < 2 ^ 63" "16 \<le> k" "8 < d"
    using chunk_ok_less [OF h(1) d(1)] by auto
  have after: "\<forall>y \<in> set fs. d + k < fst y" using Cons.prems(2) by (auto simp: gaps_def x)
  consider (before) "c < d" | (merge) "d + k = c" | (later) "d + k < c"
    using d(2) k(3) c(1) by (cases "d + k = c"; cases "c < d") (auto simp: apart_def)
  then show ?case
  proof cases
    case before
    then have "c + n \<le> d" using d(2) k(3) by (auto simp: apart_def)
    then have "\<forall>y \<in> set (x # fs). chunk_ok h y \<and> c + n \<le> fst y" using Cons.prems(3) after by (fastforce simp: x)
    moreover have "free_walk h p c = Some (Insert p (hd_addr (x # fs)))"
      using before d(3) k(4) by (subst free_walk.simps) (simp add: x)
    ultimately show ?thesis using free_insert_before [OF h Cons.prems(1) _ Cons.prems(4)] by simp
  next
    case merge
    have "free_walk h p c = Some (Merge d)"
      using merge d(3) k by (subst free_walk.simps) (simp add: chunk_after_free [OF d(4)])
    moreover have "\<forall>y \<in> set fs. chunk_ok h y \<and> c + n \<le> fst y"
      using after merge Cons.prems(3) c(1) by (force simp: apart_def)
    moreover have "slot_before h p ((d, k) # fs)" using Cons.prems(4) by (cases p) (auto simp: x)
    ultimately show ?thesis using free_merge_prev [OF h d(1) merge] Cons.prems(1) by (simp add: x)
  next
    case later
    have step: "free_walk h p c = free_walk h (Next d) c"
      using later d(3) k by (subst free_walk.simps) (simp add: chunk_after_free [OF d(4)])
    have "slot_before h (Next d) ((c, n) # fs)" using d(1) after later k(3) by (force simp: x)
    then obtain h' where h': "do { w \<leftarrow> free_walk h (Next d) c; free_link h c w } = Some h'"
      "free_ok h (Next d) (c, n) fs h'"
      using Cons.IH [of "Next d"] Cons.prems(2,3) d(5) by (auto simp: gaps_def)
    let ?S = "slot_extent (Next d) \<union> extent (c, n) \<union> (\<Union>y \<in> set fs. extent y)"
    have t: "touches h h' ?S" and fl: "free_list h' = free_list h" and ch: "chain h' (Next d) (insert_free (c, n) fs)"
      using h'(2) by (auto simp: free_ok_def)
    have far: "d \<le> a" if "a \<in> ?S" for a
      using that later after k(3) by (fastforce simp: extent_def)
    have "load_size h' d = load_size h d"
      using far k(4) by (intro load_size_frame [OF t]) auto
    moreover have "get_slot h' p = get_slot h p"
    proof (rule get_slot_frame [OF t])
      show "\<forall>a\<in>?S. a \<notin> slot_extent p" if "p \<noteq> Free_list"
        using Cons.prems(4) far that by (cases p) (fastforce simp: x)+
    qed (use fl in simp)
    moreover have "touches h h' (slot_extent p \<union> extent (c, n) \<union> (\<Union>y \<in> set (x # fs). extent y))"
      using k by (intro touches_mono [OF t]) (auto simp: extent_def x)
    moreover have "\<exists>m. even m \<and> load_size h' c = Some (of_nat m + 1)" using h'(2) by (simp add: free_ok_def)
    ultimately have "free_ok h p (c, n) (x # fs) h'"
      using ch d(3,4) later fl by (simp add: free_ok_def x)
    then show ?thesis using h'(1) step by auto
  qed
qed

text \<open>Whatever holds of the chunks and survives joining two neighbours holds of the new list.\<close>

lemma coalesce_closed:
  assumes "\<And>a b. P a \<Longrightarrow> P b \<Longrightarrow> fst a + snd a = fst b \<Longrightarrow> P (fst a, snd a + snd b)"
    and "P x" "\<forall>y \<in> set fs. P y"
  shows "\<forall>y \<in> set (coalesce x fs). P y"
  using assms(2,3) assms(1) [OF assms(2)] by (cases fs) (simp_all add: coalesce_def)

lemma insert_free_closed:
  assumes join: "\<And>a b. P a \<Longrightarrow> P b \<Longrightarrow> fst a + snd a = fst b \<Longrightarrow> P (fst a, snd a + snd b)"
    and x: "P x"
  shows "\<forall>y \<in> set fs. P y \<Longrightarrow> \<forall>y \<in> set (insert_free x fs). P y"
proof (induction fs)
  case Nil
  then show ?case using x by simp
next
  case (Cons y fs)
  have "\<forall>z \<in> set (coalesce x (y # fs)). P z"
    by (rule coalesce_closed [where P = P]) (use join x Cons.prems in simp_all)
  moreover have "\<forall>z \<in> set (coalesce (fst y, snd y + snd x) fs). P z" if "fst y + snd y = fst x"
    by (rule coalesce_closed [where P = P]) (use join [of y x] join x that Cons.prems in simp_all)
  ultimately show ?case using Cons by auto
qed

lemma insert_free_ends:
  "\<forall>z \<in> set (insert_free x fs). (\<exists>w \<in> insert x (set fs). fst z = fst w)
     \<and> (\<exists>w \<in> insert x (set fs). fst z + snd z = fst w + snd w)"
proof (rule insert_free_closed [where P = "\<lambda>z. (\<exists>w \<in> insert x (set fs). fst z = fst w)
     \<and> (\<exists>w \<in> insert x (set fs). fst z + snd z = fst w + snd w)"])
  fix a b :: chunk
  assume "fst a + snd a = fst b"
  then have "fst a + (snd a + snd b) = fst b + snd b" by simp
  moreover assume "(\<exists>w \<in> insert x (set fs). fst a = fst w) \<and> (\<exists>w \<in> insert x (set fs). fst a + snd a = fst w + snd w)"
    and "(\<exists>w \<in> insert x (set fs). fst b = fst w) \<and> (\<exists>w \<in> insert x (set fs). fst b + snd b = fst w + snd w)"
  ultimately show "(\<exists>w \<in> insert x (set fs). fst (fst a, snd a + snd b) = fst w)
    \<and> (\<exists>w \<in> insert x (set fs). fst (fst a, snd a + snd b) + snd (fst a, snd a + snd b) = fst w + snd w)"
    by (simp only: fst_conv snd_conv)
qed auto

lemma insert_free_sum: "sum_list (map snd (insert_free x fs)) = snd x + sum_list (map snd fs)"
  by (induction fs) (auto simp: coalesce_def split: list.splits)

lemma gaps_Cons: "gaps (x # fs) \<longleftrightarrow> (\<forall>y \<in> set fs. fst x + snd x < fst y) \<and> gaps fs"
  by (simp add: gaps_def)

lemma gaps_coalesce:
  "gaps fs \<Longrightarrow> \<forall>y \<in> set fs. fst x + snd x \<le> fst y \<and> 0 < snd y \<Longrightarrow> gaps (coalesce x fs)"
  by (cases fs) (fastforce simp: coalesce_def gaps_Cons split: if_splits)+

lemma gaps_insert_free:
  "gaps fs \<Longrightarrow> \<forall>y \<in> set fs. 0 < snd y \<and> apart x y \<Longrightarrow> 0 < snd x \<Longrightarrow> gaps (insert_free x fs)"
proof (induction fs)
  case Nil
  then show ?case by (simp add: gaps_def)
next
  case (Cons y fs)
  note ap = Cons.prems(2) [unfolded apart_def]
  have g: "\<forall>z \<in> set fs. fst y + snd y < fst z" "gaps fs" using Cons.prems(1) by (auto simp: gaps_Cons)
  consider "fst x < fst y" | "fst y + snd y = fst x" | "fst y + snd y < fst x"
    using ap Cons.prems(3) by fastforce
  then show ?case
  proof cases
    case 1
    then have "\<forall>z \<in> set (y # fs). fst x + snd x \<le> fst z \<and> 0 < snd z" using ap g(1) by fastforce
    then show ?thesis using 1 gaps_coalesce [OF Cons.prems(1)] by simp
  next
    case 2
    then have "\<forall>z \<in> set fs. fst x + snd x \<le> fst z \<and> 0 < snd z" using ap g(1) by fastforce
    then have "\<forall>z \<in> set fs. fst (fst y, snd y + snd x) + snd (fst y, snd y + snd x) \<le> fst z \<and> 0 < snd z"
      using 2 by (simp add: add.assoc [symmetric])
    then show ?thesis using 2 ap Cons.prems(3) gaps_coalesce [OF g(2)] by simp
  next
    case 3
    then have "gaps (insert_free x fs)" using Cons by (simp add: gaps_Cons)
    then show ?thesis using 3 g(1) insert_free_ends [of x fs] by (fastforce simp: gaps_Cons)
  qed
qed

lemma apart_join:
  "apart z (c, n) \<Longrightarrow> apart z (c + n, k) \<Longrightarrow> 0 < snd z \<Longrightarrow> apart z (c, n + k)"
  by (auto simp: apart_def)

lemma apart_insert_free:
  assumes "apart z x" "\<forall>y \<in> set fs. apart z y" "0 < snd z"
  shows "\<forall>y \<in> set (insert_free x fs). apart z y"
proof (rule insert_free_closed [where P = "apart z"])
  show "apart z a \<Longrightarrow> apart z b \<Longrightarrow> fst a + snd a = fst b \<Longrightarrow> apart z (fst a, snd a + snd b)" for a b
    using apart_join [of z "fst a" "snd a" "snd b"] assms(3) by simp
qed (use assms in auto)

lemma chunk_ok_join: "chunk_ok h (c, n) \<Longrightarrow> chunk_ok h (c + n, k) \<Longrightarrow> chunk_ok h (c, n + k)"
  by (simp add: chunk_ok_def mod16_add)

lemma chunk_ok_insert_free:
  assumes "chunk_ok h x" "\<forall>y \<in> set fs. chunk_ok h y"
  shows "\<forall>y \<in> set (insert_free x fs). chunk_ok h y"
proof (rule insert_free_closed [where P = "chunk_ok h"])
  show "chunk_ok h a \<Longrightarrow> chunk_ok h b \<Longrightarrow> fst a + snd a = fst b \<Longrightarrow> chunk_ok h (fst a, snd a + snd b)" for a b
    using chunk_ok_join [of h "fst a" "snd a" "snd b"] by simp
qed (use assms in auto)

section \<open>The heap invariant\<close>

text \<open>
  \<open>heap_inv h fs L\<close>: the free list holds exactly the chunks \<open>fs\<close>, in address order and with
  gaps between them; the chunks \<open>L\<close> are in use and carry an unflagged size; no two chunks overlap.
  The last clause keeps the flagged end of a free chunk away from the top of the last extension.
\<close>

definition top_ok :: "addr \<Rightarrow> chunk set \<Rightarrow> bool" where
  "top_ok t X \<longleftrightarrow> even t \<or> (\<forall>x \<in> X. fst x + snd x + 1 < t + 8)"

definition heap_inv :: "heap \<Rightarrow> chunk list \<Rightarrow> chunk set \<Rightarrow> bool" where
  "heap_inv h fs L \<longleftrightarrow> arena_ok h \<and> chain h Free_list fs \<and> gaps fs
     \<and> (\<forall>x \<in> set fs \<union> L. chunk_ok h x)
     \<and> (\<forall>x \<in> L. load_size h (fst x) = Some (of_nat (snd x)))
     \<and> (\<forall>x \<in> L. \<forall>y \<in> set fs \<union> L. x \<noteq> y \<longrightarrow> apart x y)
     \<and> top_ok (sbrk_top h) (set fs \<union> L)"

lemma top_ok_ends:
  assumes "top_ok t X" "\<And>z. z \<in> Y \<Longrightarrow> \<exists>w \<in> X. fst z + snd z \<le> fst w + snd w"
  shows "top_ok t Y"
proof (cases "even t")
  case False
  have "fst z + snd z + 1 < t + 8" if z: "z \<in> Y" for z
  proof -
    obtain w where w: "w \<in> X" "fst z + snd z \<le> fst w + snd w" using assms(2) [OF z] by blast
    then have "fst w + snd w + 1 < t + 8" using assms(1) False by (simp add: top_ok_def)
    then show ?thesis using w(2) by simp
  qed
  then show ?thesis by (simp add: top_ok_def)
qed (simp add: top_ok_def)

lemma heap_invD:
  assumes "heap_inv h fs L"
  shows "arena_ok h" "chain h Free_list fs" "gaps fs"
    "\<And>x. x \<in> L \<Longrightarrow> load_size h (fst x) = Some (of_nat (snd x))"
    "\<And>x y. x \<in> L \<Longrightarrow> y \<in> set fs \<union> L \<Longrightarrow> x \<noteq> y \<Longrightarrow> apart x y"
    "top_ok (sbrk_top h) (set fs \<union> L)"
  using assms by (simp_all add: heap_inv_def)

lemma heap_invI:
  assumes "arena_ok h" "chain h Free_list fs" "gaps fs" "\<forall>x \<in> set fs. chunk_ok h x" "\<forall>x \<in> L. chunk_ok h x"
    "\<forall>x \<in> L. load_size h (fst x) = Some (of_nat (snd x))" "\<forall>x \<in> L. \<forall>y \<in> set fs. apart x y"
    "\<And>x y. x \<in> L \<Longrightarrow> y \<in> L \<Longrightarrow> x \<noteq> y \<Longrightarrow> apart x y" "top_ok (sbrk_top h) (set fs \<union> L)"
  shows "heap_inv h fs L"
  using assms unfolding heap_inv_def by (simp add: ball_Un)

lemma inv_chunk:
  assumes "heap_inv h fs L" "x \<in> set fs \<union> L"
  shows "chunk_ok h x" "8 < fst x" "16 \<le> snd x" "even (snd x)" "fst x < 2 ^ 63" "snd x < 2 ^ 63"
proof -
  show ok: "chunk_ok h x" using assms by (simp add: heap_inv_def)
  then show "8 < fst x" "16 \<le> snd x" "even (snd x)" "fst x < 2 ^ 63" "snd x < 2 ^ 63"
    using chunk_ok_less [OF heap_invD(1) [OF assms(1)], of "fst x" "snd x"] by simp_all
qed

lemma chain_loads: "chain h p fs \<Longrightarrow> (c, n) \<in> set fs \<Longrightarrow> load_size h c = Some (of_nat n + 1)"
  by (induction fs arbitrary: p) auto

lemma live_not_free: "heap_inv h fs L \<Longrightarrow> x \<in> L \<Longrightarrow> x \<notin> set fs"
  using chain_loads [OF heap_invD(2), of h fs L "fst x" "snd x"] heap_invD(4) [of h fs L x] by auto

lemma apart_extent: "apart x y \<Longrightarrow> 8 \<le> fst x \<Longrightarrow> 8 \<le> fst y \<Longrightarrow> extent x \<inter> extent y = {}"
  by (auto simp: apart_def extent_def)

text \<open>The chunks in use are untouched by a step that stays within other chunks.\<close>

lemma live_frame:
  assumes inv: "heap_inv h fs L" and t: "touches h h' S" and M: "M \<subseteq> L" "\<forall>x \<in> M. extent x \<inter> S = {}"
  shows "\<forall>x \<in> M. load_size h' (fst x) = Some (of_nat (snd x))"
proof
  fix x assume x: "x \<in> M"
  then have "x \<in> L" using M(1) by blast
  note ok = inv_chunk(2,3) [OF inv, of x] heap_invD(4) [OF inv this]
  have "load_size h' (fst x) = load_size h (fst x)"
  proof (rule load_size_frame [OF t])
    show "a < fst x - 8 \<or> fst x \<le> a" if "a \<in> S" for a
    proof -
      have "a \<notin> extent x" using M(2) x that by blast
      then show ?thesis using ok \<open>x \<in> L\<close> by (auto simp: extent_def)
    qed
  qed (use ok \<open>x \<in> L\<close> in simp)
  then show "load_size h' (fst x) = Some (of_nat (snd x))" using ok(3) by simp
qed

lemma touches_top: "touches h h' S \<Longrightarrow> sbrk_top h' = sbrk_top h"
  by (simp add: touches_def)

definition free_extent :: "chunk list \<Rightarrow> addr set" where
  "free_extent fs = (\<Union>y \<in> set fs. extent y)"

lemma check_busy_live: "load_size h c = Some (of_nat n) \<Longrightarrow> even n \<Longrightarrow> check_busy h c = Some (h, True)"
  by (simp add: check_busy_def is_free_def flag_and)

lemma check_busy_free: "load_size h c = Some (of_nat n + 1) \<Longrightarrow> even n \<Longrightarrow> check_busy h c = Some (set_errno ENOMEM h, False)"
  by (simp add: check_busy_def is_free_def flag_and)

lemma live_extents:
  assumes "heap_inv h fs L" "x \<in> L"
  shows "extent x \<inter> free_extent fs = {}" "\<And>y. y \<in> L \<Longrightarrow> y \<noteq> x \<Longrightarrow> extent y \<inter> extent x = {}"
proof -
  have ap: "extent x \<inter> extent y = {}" if "y \<in> set fs \<union> L" "y \<noteq> x" for y
    using that assms(2) inv_chunk(2) [OF assms(1), of x] inv_chunk(2) [OF assms(1), of y]
    by (intro apart_extent heap_invD(5) [OF assms(1)]) auto
  show "extent x \<inter> free_extent fs = {}"
    using ap live_not_free [OF assms] by (fastforce simp: free_extent_def)
  show "extent y \<inter> extent x = {}" if "y \<in> L" "y \<noteq> x" for y
    using ap [of y] that by auto
qed

lemma malloc_free_live:
  assumes inv: "heap_inv h fs L" and x: "(c, n) \<in> L"
  obtains h' where "malloc_free h c = Some h'" "heap_inv h' (insert_free (c, n) fs) (L - {(c, n)})"
    "touches h h' (extent (c, n) \<union> free_extent fs)" "\<exists>m. even m \<and> load_size h' c = Some (of_nat m + 1)"
proof -
  note ar = heap_invD(1) [OF inv] and ch = heap_invD(2) [OF inv] and g = heap_invD(3) [OF inv]
    and ok = inv_chunk(1) [OF inv]
  have ld: "load_size h c = Some (of_nat n)" using heap_invD(4) [OF inv x] by simp
  have okc: "chunk_ok h (c, n)" using ok x by blast
  note c = chunk_ok_less [OF ar okc]
  have ap: "\<forall>y \<in> set fs. apart (c, n) y" using heap_invD(5) [OF inv x] live_not_free [OF inv x] by blast
  have fr: "\<forall>y \<in> set fs. 8 \<le> fst y \<and> (\<forall>a \<in> {c - 8 ..< c + 8}. a < fst y - 8 \<or> fst y + 8 \<le> a)"
    using ap inv_chunk(2,3) [OF inv] c by (fastforce simp: apart_def)
  obtain h1 where h1: "set_next h c NULL = Some h1" "touches h h1 {c ..< c + 8}" "free_list h1 = free_list h"
    using set_next_ok [OF ar okc, of NULL] by auto
  have l1: "load_size h1 c = Some (of_nat n)" using load_size_frame [OF h1(2), of c] c ld by auto
  obtain h2 where h2: "set_size h1 c (of_nat n + 1) = Some h2" "load_size h2 c = Some (of_nat n + 1)"
    "touches h1 h2 {c - 8 ..< c}" "free_list h2 = free_list h1"
    using set_size_ok [OF touches_ok(1) [OF h1(2) ar]] touches_ok(2) [OF h1(2)] okc by blast
  have m: "mark_free h1 c = Some h2" using l1 c h2(1) by (simp add: mark_free_def flag_or)
  have t2: "touches h h2 {c - 8 ..< c + 8}" by (rule touches_trans [OF h1(2) h2(3)]) auto
  have ch2: "chain h2 Free_list fs"
    using fr h1(3) h2(4) by (intro chain_frame [OF ch t2]) simp_all
  have "\<forall>y \<in> set fs. chunk_ok h2 y \<and> apart (c, n) y" using ok ap touches_ok(2) [OF t2] by simp
  then obtain h3 where h3: "do { w \<leftarrow> free_walk h2 Free_list c; free_link h2 c w } = Some h3"
      "free_ok h2 Free_list (c, n) fs h3"
    using free_insert_ok [OF touches_ok(1) [OF t2 ar] _ h2(2) ch2 g] okc touches_ok(2) [OF t2] by auto
  then have ch3: "chain h3 Free_list (insert_free (c, n) fs)" and t3: "touches h2 h3 (extent (c, n) \<union> free_extent fs)"
    and flag: "\<exists>m. even m \<and> load_size h3 c = Some (of_nat m + 1)"
    by (auto simp: free_ok_def free_extent_def)
  have t: "touches h h3 (extent (c, n) \<union> free_extent fs)"
    using c by (intro touches_trans [OF t2 t3]) (auto simp: extent_def)
  have big: "\<forall>y \<in> set fs \<union> L. 16 \<le> snd y \<and> 8 < fst y" using inv_chunk(2,3) [OF inv] by blast
  show thesis
  proof (rule that [OF _ _ t flag])
    show "malloc_free h c = Some h3"
      using c by (simp add: malloc_free_def check_busy_live [OF ld] h1(1) m h3(1))
    show "heap_inv h3 (insert_free (c, n) fs) (L - {(c, n)})"
    proof (rule heap_invI)
    show "\<forall>x \<in> L - {(c, n)}. load_size h3 (fst x) = Some (of_nat (snd x))"
      using live_extents(1) [OF inv] live_extents(2) [OF inv x] by (intro live_frame [OF inv t]) blast+
    show "\<forall>x \<in> L - {(c, n)}. \<forall>y \<in> set (insert_free (c, n) fs). apart x y"
    proof
      fix y assume y: "y \<in> L - {(c, n)}"
      then have "apart y (c, n)" "\<forall>z \<in> set fs. apart y z" "0 < snd y"
        using heap_invD(5) [OF inv, of y] x live_not_free [OF inv, of y] inv_chunk(3) [OF inv, of y] by auto
      then show "\<forall>z \<in> set (insert_free (c, n) fs). apart y z" by (rule apart_insert_free)
    qed
    show "\<forall>y \<in> set (insert_free (c, n) fs). chunk_ok h3 y"
      unfolding touches_ok(2) [OF t] using ok x by (intro chunk_ok_insert_free) auto
    show "gaps (insert_free (c, n) fs)"
      using ap inv_chunk(3) [OF inv] c by (intro gaps_insert_free [OF g]) fastforce+
    show "top_ok (sbrk_top h3) (set (insert_free (c, n) fs) \<union> (L - {(c, n)}))"
    unfolding touches_top [OF t]
    proof (rule top_ok_ends [OF heap_invD(6) [OF inv]])
      fix z assume "z \<in> set (insert_free (c, n) fs) \<union> (L - {(c, n)})"
      then have "\<exists>w \<in> set fs \<union> L. fst z + snd z = fst w + snd w"
        using x insert_free_ends [of "(c, n)" fs] by blast
      then show "\<exists>w \<in> set fs \<union> L. fst z + snd z \<le> fst w + snd w" by (blast intro: eq_imp_le)
    qed
    show "\<forall>y \<in> L - {(c, n)}. chunk_ok h3 y" unfolding touches_ok(2) [OF t] using ok by blast
    qed (use ch3 touches_ok(1) [OF t ar] heap_invD(5) [OF inv] in auto)
  qed
qed

section \<open>Accounting for memory\<close>

text \<open>
  The bytes of the chunks on the free list, and with them those of the chunks in use: the memory the allocator
  manages.  A step loses no memory when everything managed before is managed after it, and so is
  what it took from \<open>sbrk\<close>, provided the break was aligned: the bytes skipped to align it are never used.
\<close>

definition free_bytes :: "heap \<Rightarrow> addr set" where
  "free_bytes h = (\<Union>fs \<in> {fs. chain h Free_list fs \<and> (\<forall>x \<in> set fs. chunk_ok h x)}. free_extent fs)"

definition managed :: "heap \<Rightarrow> chunk set \<Rightarrow> addr set" where
  "managed h L = free_bytes h \<union> (\<Union>x \<in> L. extent x)"

definition no_loss :: "heap \<Rightarrow> chunk set \<Rightarrow> heap \<Rightarrow> chunk set \<Rightarrow> bool" where
  "no_loss h L h' L' \<longleftrightarrow> managed h L \<subseteq> managed h' L' \<and>
     (brk h mod 16 = 8 \<longrightarrow> brk h' mod 16 = 8 \<and> {brk h ..< brk h'} \<subseteq> managed h' L')"

lemma chain_unique:
  assumes "arena_ok h"
  shows "chain h p fs \<Longrightarrow> chain h p gs \<Longrightarrow> \<forall>x \<in> set fs \<union> set gs. chunk_ok h x \<Longrightarrow> fs = gs"
proof (induction fs arbitrary: p gs)
  case Nil
  then show ?case using chunk_ok_less [OF assms] by (cases gs) fastforce+
next
  case (Cons x fs)
  obtain c n where x: "x = (c, n)" by (cases x)
  have c: "c \<noteq> NULL" "n < 2 ^ 63" using Cons.prems(3) chunk_ok_less [OF assms, of c n] by (auto simp: x)
  then obtain m gs' where gs: "gs = (c, m) # gs'" using Cons.prems(1,2) by (cases gs) (auto simp: x)
  have "m < 2 ^ 63" using Cons.prems(3) chunk_ok_less [OF assms, of c m] by (auto simp: gs)
  moreover have "(of_nat n :: u64) = of_nat m" using Cons.prems(1,2) by (simp add: x gs)
  ultimately have "n = m" using c(2) unat_of_nat64 by (metis less_imp_le_nat)
  moreover have "fs = gs'" using Cons.prems by (intro Cons.IH [of "Next c"]) (auto simp: x gs)
  ultimately show ?case by (simp add: x gs)
qed

lemma free_bytes_eq: "heap_inv h fs L \<Longrightarrow> free_bytes h = free_extent fs"
  unfolding free_bytes_def using chain_unique [OF heap_invD(1), of h fs L Free_list fs] heap_invD(2) [of h fs L] inv_chunk(1) [of h fs L]
  by blast

lemma managed_eq: "heap_inv h fs L \<Longrightarrow> managed h L = (\<Union>x \<in> set fs \<union> L. extent x)"
  by (simp add: managed_def free_bytes_eq free_extent_def)

lemma no_loss_refl [simp]: "no_loss h L h L"
  by (simp add: no_loss_def)

lemma no_loss_trans:
  assumes "no_loss h L h1 L1" "no_loss h1 L1 h2 L2"
  shows "no_loss h L h2 L2"
proof -
  have "{brk h ..< brk h2} \<subseteq> {brk h ..< brk h1} \<union> {brk h1 ..< brk h2}" by auto
  then show ?thesis using assms unfolding no_loss_def by blast
qed

lemma no_loss_same_brk:
  assumes "heap_inv h fs L" "heap_inv h' fs' L'" "brk h' = brk h"
    and "(\<Union>x \<in> set fs \<union> L. extent x) \<subseteq> (\<Union>x \<in> set fs' \<union> L'. extent x)"
  shows "no_loss h L h' L'"
  using assms by (simp add: no_loss_def managed_eq)

lemma extent_join: "fst a + snd a = fst b \<Longrightarrow> 8 \<le> fst a \<Longrightarrow> extent (fst a, snd a + snd b) = extent a \<union> extent b"
  by (auto simp: extent_def)

lemma coalesce_extent:
  "8 \<le> fst x \<Longrightarrow> free_extent (coalesce x fs) = extent x \<union> free_extent fs"
  by (cases fs) (auto simp: coalesce_def free_extent_def extent_join)

lemma insert_free_extent:
  "\<forall>y \<in> insert x (set fs). 8 \<le> fst y \<Longrightarrow> free_extent (insert_free x fs) = extent x \<union> free_extent fs"
proof (induction fs)
  case Nil
  then show ?case by (simp add: free_extent_def)
next
  case (Cons y fs)
  have "free_extent (coalesce (fst y, snd y + snd x) fs) = extent y \<union> extent x \<union> free_extent fs" if "fst y + snd y = fst x"
    using Cons.prems extent_join [OF that] by (simp add: coalesce_extent)
  then show ?case using Cons coalesce_extent [of x "y # fs"] by (auto simp: free_extent_def)
qed

lemma no_loss_free:
  assumes inv: "heap_inv h fs L" and x: "x \<in> L" and h': "heap_inv h' (insert_free x fs) (L - {x})" "brk h' = brk h"
  shows "no_loss h L h' (L - {x})"
proof (rule no_loss_same_brk [OF inv h'])
  have "8 \<le> fst y" if "y \<in> insert x (set fs)" for y using inv_chunk(2) [OF inv, of y] x that by auto
  then have "\<forall>y \<in> insert x (set fs). 8 \<le> fst y" by blast
  from insert_free_extent [OF this]
  have "(\<Union>y \<in> set (insert_free x fs). extent y) = extent x \<union> (\<Union>y \<in> set fs. extent y)" by (simp add: free_extent_def)
  then show "(\<Union>y \<in> set fs \<union> L. extent y) \<subseteq> (\<Union>y \<in> set (insert_free x fs) \<union> (L - {x}). extent y)" by auto
qed

lemma no_loss_split:
  assumes inv: "heap_inv h fs L" and x: "x \<in> L" and h': "heap_inv h' (insert_free t fs) (insert y (L - {x}))" "brk h' = brk h"
    and e: "extent x \<subseteq> extent t \<union> extent y" "8 \<le> fst t"
  shows "no_loss h L h' (insert y (L - {x}))"
proof (rule no_loss_same_brk [OF inv h'])
  have "8 \<le> fst z" if "z \<in> insert t (set fs)" for z using inv_chunk(2) [OF inv, of z] e(2) that by auto
  then have "\<forall>z \<in> insert t (set fs). 8 \<le> fst z" by blast
  from insert_free_extent [OF this]
  have u: "(\<Union>z \<in> set (insert_free t fs). extent z) = extent t \<union> (\<Union>z \<in> set fs. extent z)" by (simp add: free_extent_def)
  have "B \<subseteq> X \<union> C \<Longrightarrow> X \<subseteq> T \<union> Y \<Longrightarrow> A \<union> B \<subseteq> (T \<union> A) \<union> (Y \<union> C)" for A B C T X Y :: "addr set" by blast
  note sets = this [OF _ e(1)]
  show "(\<Union>z \<in> set fs \<union> L. extent z) \<subseteq> (\<Union>z \<in> set (insert_free t fs) \<union> insert y (L - {x}). extent z)"
    unfolding UN_Un UN_insert u by (rule sets) auto
qed

lemma touches_brk: "touches h h' S \<Longrightarrow> brk h' = brk h"
  by (simp add: touches_def)

end
