(* ===== verification/MallocAlloc.thy ===== *)
theory MallocAlloc
  imports MallocFree
begin

text \<open>
  \<open>malloc\<close>: the walk over the free chunks implements \<open>first_fit\<close>, the extension through \<open>sbrk\<close> yields an
  aligned chunk above all others, and both ways keep the heap invariant.
\<close>

section \<open>Allocating\<close>

text \<open>First fit on the list of chunks: the chunk taken and the list that stays.\<close>

fun first_fit :: "nat \<Rightarrow> chunk list \<Rightarrow> (addr \<times> chunk list) option" where
  "first_fit k [] = None"
| "first_fit k ((c, n) # fs) =
     (if k \<le> n then Some (c, if k + 16 \<le> n then (c + k, n - k) # fs else fs)
      else map_option (\<lambda>(d, r). (d, (c, n) # r)) (first_fit k fs))"

definition fits :: "nat \<Rightarrow> bool" where
  "fits k \<longleftrightarrow> k mod 16 = 0 \<and> 16 \<le> k"

lemma grow_free_dead:
  assumes "load_size h c = Some (of_nat n + 1)" "n < 2 ^ 63" "c - 8 + (n + 1) \<noteq> sbrk_top h"
  shows "malloc_grow_chunk h c sz = Some (h, False)"
  using assms by (simp add: malloc_grow_chunk_def chunk_end_def size_ref_def head_size unat_of_nat64_1)

lemma mod16_diff: "a mod 16 = 0 \<Longrightarrow> b mod 16 = 0 \<Longrightarrow> (a - b) mod 16 = (0::nat)"
  by presburger

lemma take_chunk_ok:
  assumes h: "arena_ok h" "chunk_ok h (c, n)" "chain h p ((c, n) # fs)"
    and fs: "\<forall>y \<in> set fs. chunk_ok h y \<and> c + n \<le> fst y" and p: "slot_before h p ((c, n) # fs)"
    and a: "fits (unat a)" "unat a \<le> n"
  obtains h' where "take_chunk h p c (of_nat n) a = Some h'"
    "chain h' p (if unat a + 16 \<le> n then (c + unat a, n - unat a) # fs else fs)"
    "load_size h' c = Some a \<or> load_size h' c = Some (a + 1)"
    "touches h h' (slot_extent p \<union> extent (c, n))" "p \<noteq> Free_list \<longrightarrow> free_list h' = free_list h"
proof -
  note c = chunk_ok_less [OF h(1,2)]
  have ld: "load_size h c = Some (of_nat n + 1)" and ch: "chain h (Next c) fs" using h(3) by auto
  have sp: "x + 8 < c" if "x \<in> slot_extent p" for x using p that by (cases p) auto
  have hd: "hd_addr fs < 2 ^ 63" using fs by (cases fs rule: hd_addr.cases) (auto dest: chunk_ok_less [OF h(1)])
  have far: "\<forall>y \<in> set fs. 8 \<le> fst y \<and> (\<forall>x \<in> S. x < fst y - 8 \<or> fst y + 8 \<le> x)"
    if "\<And>x. x \<in> S \<Longrightarrow> x + 8 < c + n" for S
    using fs that by (fastforce simp: chunk_ok_def)
  have rem: "unat (of_nat n - a) = n - unat a"
    using a(2) c unat_sub [of a "of_nat n"] by (simp add: word_le_nat_alt unat_of_nat64)
  show thesis
  proof (cases "unat a + 16 \<le> n")
    case False
    then have big: "\<not> (of_nat n - a \<ge> MALLOC_CHUNK_MIN)"
      by (simp add: word_le_nat_alt rem chunk_min)
    have n: "n = unat a"
    proof -
      have "n mod 16 = 0" "unat a mod 16 = 0" using h(2) a(1) by (auto simp: fits_def shape)
      then show ?thesis using a(2) False by presburger
    qed
    obtain h1 where h1: "put_slot h p (hd_addr fs) = Some h1" "get_slot h1 p = Some (hd_addr fs)"
      "touches h h1 (slot_extent p)" "p \<noteq> Free_list \<longrightarrow> free_list h1 = free_list h"
      by (rule put_slot_ok [OF h(1) p hd])
    have "chain h1 p fs"
      using sp far [of "slot_extent p"] c h1(2) chain_slot [OF ch] by (intro chain_frame [OF ch h1(3)]) force+
    moreover have "load_size h1 c = load_size h c"
      using sp c by (intro load_size_frame [OF h1(3)]) force+
    moreover have "take_chunk h p c (of_nat n) a = Some h1"
      using big chain_slot [OF ch] h1(1) by (simp add: take_chunk_def)
    ultimately show ?thesis
      using that [of h1] False h1(4) touches_mono [OF h1(3)] ld n by (simp add: Un_upper1)
  next
    case True
    let ?s = "c + unat a"
    let ?r = "n - unat a"
    have big: "of_nat n - a \<ge> MALLOC_CHUNK_MIN" using True by (simp add: word_le_nat_alt rem chunk_min)
    have r: "of_nat n - a = of_nat ?r" using a(2) by (simp add: of_nat_diff)
    have k: "16 \<le> unat a" "unat a mod 16 = 0" "n mod 16 = 0" using a(1) h(2) by (auto simp: fits_def shape)
    have "?s mod 16 = 0" "?r mod 16 = 0" using k h(2) a(2) by (auto simp: shape mod16_add mod16_diff)
    then have oks: "chunk_ok h (?s, ?r)" using h(2) True a(2) by (simp add: shape)
    note s = chunk_ok_less [OF h(1) oks]
    obtain h1 where h1: "set_size h c a = Some h1" "load_size h1 c = Some a" "touches h h1 {c - 8 ..< c}"
      "free_list h1 = free_list h" by (rule set_size_ok [OF h(1,2)])
    obtain h2 where h2: "set_size h1 ?s (of_nat ?r) = Some h2" "load_size h2 ?s = Some (of_nat ?r)"
      "touches h1 h2 {?s - 8 ..< ?s}" "free_list h2 = free_list h1"
      using set_size_ok [OF touches_ok(1) [OF h1(3) h(1)]] touches_ok(2) [OF h1(3)] oks by metis
    have t2: "touches h h2 ({c - 8 ..< c} \<union> {?s - 8 ..< ?s})" by (rule touches_trans [OF h1(3) h2(3)]) auto
    obtain h3 where h3: "set_size h2 ?s (of_nat ?r + 1) = Some h3" "load_size h3 ?s = Some (of_nat ?r + 1)"
      "touches h2 h3 {?s - 8 ..< ?s}" "free_list h3 = free_list h2"
      using set_size_ok [OF touches_ok(1) [OF t2 h(1)]] touches_ok(2) [OF t2] oks by metis
    have t3: "touches h h3 ({c - 8 ..< c} \<union> {?s - 8 ..< ?s})" by (rule touches_trans [OF t2 h3(3)]) auto
    have nx: "next_of h3 c = Some (hd_addr fs)"
      using next_of_frame [OF t3, of c] chain_slot [OF ch] k(1) by fastforce
    obtain h4 where h4: "set_next h3 ?s (hd_addr fs) = Some h4" "next_of h4 ?s = Some (hd_addr fs)"
      "touches h3 h4 {?s ..< ?s + 8}" "free_list h4 = free_list h3"
      using set_next_ok [OF touches_ok(1) [OF t3 h(1)] _ hd] touches_ok(2) [OF t3] oks by metis
    have t4: "touches h h4 ({c - 8 ..< c} \<union> {?s - 8 ..< ?s + 8})" by (rule touches_trans [OF t3 h4(3)]) auto
    have "slot_before h4 p ((c, n) # fs)" using p touches_ok(2) [OF t4] by (cases p) auto
    then obtain h5 where h5: "put_slot h4 p ?s = Some h5" "get_slot h5 p = Some ?s"
      "touches h4 h5 (slot_extent p)" "p \<noteq> Free_list \<longrightarrow> free_list h5 = free_list h4"
      using put_slot_ok [OF touches_ok(1) [OF t4 h(1)]] s by metis
    have t5: "touches h h5 ({c - 8 ..< c} \<union> {?s - 8 ..< ?s + 8} \<union> slot_extent p)"
      by (rule touches_trans [OF t4 h5(3)]) auto
    have "next_of h5 ?s = next_of h4 ?s" using sp by (intro next_of_frame [OF h5(3)]) fastforce
    then have "chain h5 (Next ?s) fs"
      using sp True c h4(2) chain_slot [OF ch] by (intro chain_frame [OF ch t5] far) fastforce+
    moreover have "touches h3 h5 ({?s ..< ?s + 8} \<union> slot_extent p)" by (rule touches_trans [OF h4(3) h5(3)]) auto
    then have "load_size h5 ?s = load_size h3 ?s" using sp s by (intro load_size_frame) fastforce+
    moreover have "touches h1 h3 {?s - 8 ..< ?s}" by (rule touches_trans [OF h2(3) h3(3)]) auto
    then have "touches h1 h4 {?s - 8 ..< ?s + 8}" by (rule touches_trans [OF _ h4(3)]) auto
    then have "touches h1 h5 ({?s - 8 ..< ?s + 8} \<union> slot_extent p)" by (rule touches_trans [OF _ h5(3)]) auto
    then have "load_size h5 c = load_size h1 c" using sp k c by (intro load_size_frame) fastforce+
    moreover have "take_chunk h p c (of_nat n) a = Some h5"
      using big nx s h2(2) by (simp add: take_chunk_def r h1(1) h2(1) mark_free_def flag_or h3(1) h4(1) h5(1))
    moreover have "touches h h5 (slot_extent p \<union> extent (c, n))"
      using True c k by (intro touches_mono [OF t5]) (auto simp: extent_def)
    ultimately show ?thesis
      using that [of h5] True h1 h2(4) h3 h4(4) h5 by simp
  qed
qed

lemma malloc_walk_ok:
  assumes h: "arena_ok h" and a: "fits (unat a)"
  shows "chain h p fs \<Longrightarrow> gaps fs \<Longrightarrow> \<forall>y \<in> set fs. chunk_ok h y \<and> fst y - 8 + (snd y + 1) \<noteq> sbrk_top h
    \<Longrightarrow> slot_before h p fs \<Longrightarrow>
    (case first_fit (unat a) fs of None \<Rightarrow> malloc_walk h p a = Some (h, NULL)
     | Some (c, fs') \<Rightarrow> \<exists>h'. malloc_walk h p a = Some (h', c) \<and> chain h' p fs'
         \<and> (load_size h' c = Some a \<or> load_size h' c = Some (a + 1))
         \<and> touches h h' (slot_extent p \<union> free_extent fs) \<and> (p \<noteq> Free_list \<longrightarrow> free_list h' = free_list h))"
proof (induction fs arbitrary: p)
  case Nil
  then show ?case by (subst malloc_walk.simps) simp
next
  case (Cons x fs)
  obtain c n where x: "x = (c, n)" by (cases x)
  have c: "chunk_ok h (c, n)" "get_slot h p = Some c" "load_size h c = Some (of_nat n + 1)" "chain h (Next c) fs"
    "c - 8 + (n + 1) \<noteq> sbrk_top h" and g: "\<forall>y \<in> set fs. c + n < fst y" "gaps fs"
    using Cons.prems by (auto simp: x gaps_Cons)
  note n = chunk_ok_less [OF h c(1)]
  have sz: "size_of h c = Some (of_nat n)" "of_nat n \<ge> a \<longleftrightarrow> unat a \<le> n"
    using c(3) n by (simp_all add: size_of_free word_le_nat_alt unat_of_nat64)
  show ?case
  proof (cases "unat a \<le> n")
    case True
    have after: "\<forall>y \<in> set fs. chunk_ok h y \<and> c + n \<le> fst y" using Cons.prems(3) g(1) by fastforce
    obtain h' where h': "take_chunk h p c (of_nat n) a = Some h'"
      "chain h' p (if unat a + 16 \<le> n then (c + unat a, n - unat a) # fs else fs)"
      "load_size h' c = Some a \<or> load_size h' c = Some (a + 1)"
      "touches h h' (slot_extent p \<union> extent (c, n))" "p \<noteq> Free_list \<longrightarrow> free_list h' = free_list h"
      by (rule take_chunk_ok [OF h c(1) _ after _ a True]) (use Cons.prems(1,4) in \<open>simp_all only: x\<close>)
    have "malloc_walk h p a = Some (h', c)"
      using True n by (subst malloc_walk.simps) (simp add: c(2) sz h'(1))
    moreover have "touches h h' (slot_extent p \<union> free_extent (x # fs))"
      by (rule touches_mono [OF h'(4)]) (auto simp: free_extent_def x)
    ultimately show ?thesis using True h' by (auto simp: x)
  next
    case False
    have grow: "malloc_grow_chunk h c a = Some (h, False)"
      using c(5) n by (intro grow_free_dead [OF c(3)]) simp_all
    have step: "malloc_walk h p a = malloc_walk h (Next c) a"
      using False n chain_slot [OF c(4)] by (subst malloc_walk.simps) (simp add: c(2) sz grow)
    have sb: "slot_before h (Next c) fs" using c(1) g(1) n by fastforce
    note IH = Cons.IH [OF c(4) g(2) _ sb]
    show ?thesis
    proof (cases "first_fit (unat a) fs")
      case None
      then show ?thesis using IH Cons.prems(3) False step by (simp add: x)
    next
      case (Some r)
      obtain d fs' where r: "r = (d, fs')" by (cases r)
      obtain h' where h': "malloc_walk h (Next c) a = Some (h', d)" "chain h' (Next c) fs'"
        "load_size h' d = Some a \<or> load_size h' d = Some (a + 1)"
        "touches h h' ({c ..< c + 8} \<union> free_extent fs)" "free_list h' = free_list h"
        using IH Cons.prems(3) by (auto simp: Some r)
      have far: "c \<le> y" if "y \<in> {c ..< c + 8} \<union> free_extent fs" for y
        using that g(1) n by (fastforce simp: free_extent_def extent_def)
      have "load_size h' c = load_size h c"
        using far n by (intro load_size_frame [OF h'(4)]) auto
      moreover have "get_slot h' p = get_slot h p"
      proof (rule get_slot_frame [OF h'(4)])
        show "\<forall>y \<in> {c ..< c + 8} \<union> free_extent fs. y \<notin> slot_extent p" if "p \<noteq> Free_list"
          using Cons.prems(4) far that by (cases p) (fastforce simp: x)+
      qed (use h'(5) in simp)
      moreover have "touches h h' (slot_extent p \<union> free_extent (x # fs))"
        using n by (intro touches_mono [OF h'(4)]) (auto simp: free_extent_def extent_def x)
      ultimately show ?thesis
        using h' c(2,3) False by (simp add: x Some r step)
    qed
  qed
qed

subsection \<open>Extending the heap\<close>

definition grows :: "heap \<Rightarrow> heap \<Rightarrow> bool" where
  "grows h h' \<longleftrightarrow> hmem h' = hmem h \<and> free_list h' = free_list h \<and> heap_start h' = heap_start h
     \<and> heap_end h' = heap_end h \<and> brk h \<le> brk h' \<and> brk h' \<le> heap_end h"

lemma sbrk_up:
  assumes "brk h \<le> heap_end h"
  shows "sbrk h (int n) = (if brk h + n \<le> heap_end h then (h\<lparr>brk := brk h + n\<rparr>, Some (brk h)) else (set_errno ENOMEM h, None))"
  using assms by (auto simp: sbrk_def nat_int_add)

lemma sint_small64:
  assumes "unat (s :: u64) < 2 ^ 63"
  shows "sint s = int (unat s)"
proof -
  have "uint s < 2 ^ 63" using assms of_nat_less_iff [of "unat s" "2 ^ 63", where 'a = int] by simp
  then have "signed_take_bit 63 (uint s) = uint s"
    using uint_ge_0 [of s] by (intro signed_take_bit_int_eq_self) linarith+
  then show ?thesis by (simp add: sint_uint)
qed

lemma sint_nonneg64: "sint (s :: u64) < 0 \<longleftrightarrow> 2 ^ 63 \<le> unat s"
proof
  show "2 ^ 63 \<le> unat s" if "sint s < 0"
    using that sint_small64 [of s] by (cases "unat s < 2 ^ 63") auto
  show "sint s < 0" if "2 ^ 63 \<le> unat s"
  proof (rule ccontr)
    assume "\<not> sint s < 0"
    moreover have "sint s < 2 ^ 63" using sint_lt [of s] by simp
    moreover have "uint s = sint s mod 2 ^ 64"
      using uint_word_of_int [of "sint s", where 'a = 64] by simp
    ultimately have "int (unat s) < 2 ^ 63" unfolding uint_nat [of s] by simp
    then show False using that of_nat_less_iff [of "unat s" "2 ^ 63", where 'a = int] by simp
  qed
qed

lemma round_up16:
  "p \<le> (p + 23) div 16 * 16 - 8" "(p + 23) div 16 * 16 - 8 < p + 16" "((p + 23) div 16 * 16 - 8) mod 16 = (8::nat)"
proof -
  obtain q where q: "(p + 23) div 16 = Suc q" by (cases "(p + 23) div 16") auto
  have "16 * Suc q \<le> p + 23" "p + 23 < 16 * Suc q + 16" unfolding q [symmetric] by linarith+
  moreover have "Suc q * 16 - 8 = 16 * q + 8" by simp
  ultimately show "p \<le> (p + 23) div 16 * 16 - 8" "(p + 23) div 16 * 16 - 8 < p + 16"
    "((p + 23) div 16 * 16 - 8) mod 16 = 8" unfolding q by simp_all
qed

lemma aligned_gap: "(p + d) mod 16 = 8 \<Longrightarrow> p mod 16 = 8 \<Longrightarrow> d < 16 \<Longrightarrow> d = (0::nat)"
proof -
  assume a: "(p + d) mod 16 = 8" "p mod 16 = 8" "d < 16"
  then have "(8 + d) mod 16 = 8" by (metis mod_add_left_eq)
  then show "d = 0" using a(3) by (cases "d < 8") (simp_all add: le_mod_geq)
qed

lemma sbrk_aligned_ok:
  assumes h: "arena_ok h" and a: "fits (unat a)" and r: "malloc_sbrk_aligned h a = (h', r)"
  shows "grows h h' \<and> (case r of
     None \<Rightarrow> (sbrk_top h' = sbrk_top h \<or> brk h + 16 \<le> sbrk_top h') \<and> heap_end h < brk h + unat a + 15
       \<and> (brk h mod 16 = 8 \<longrightarrow> brk h' = brk h)
   | Some b \<Rightarrow> brk h \<le> b \<and> b < brk h + 16 \<and> b mod 16 = 8 \<and> b + unat a = brk h' \<and> sbrk_top h' = brk h' \<and> errno h' = errno h)"
proof (cases "unat a < 2 ^ 63")
  case False
  then show ?thesis using r h by (simp add: malloc_sbrk_aligned_def sint_nonneg64 grows_def arena_ok_def)
next
  case True
  let ?p = "brk h"
  let ?b = "align_ptr (?p + 8) 16 - 8"
  have p: "?p \<le> heap_end h" "heap_end h < 2 ^ 62" using h by (auto simp: arena_ok_def)
  have "unat (of_nat (?p + 8) :: u64) = ?p + 8" using p by (intro unat_of_nat64) simp
  then have al: "align_ptr (?p + 8) 16 = (?p + 23) div 16 * 16"
    using align_up_pow [of 4 "of_nat (?p + 8)"] p by (simp add: align_ptr_def)
  have b: "?p \<le> ?b" "?b < ?p + 16" "?b mod 16 = 8"
    unfolding al by (rule round_up16)+
  have s: "sint a = int (unat a)" by (rule sint_small64 [OF True])
  have n: "\<not> sint a < 0" unfolding sint_nonneg64 using True by simp
  have hp: "unat MALLOC_HEAD_SIZE = 8" "MALLOC_CHUNK_ALIGN = 16" by (simp_all add: head_size MALLOC_CHUNK_ALIGN_def)
  have k: "16 \<le> unat a" using a by (simp add: fits_def)
  note def = r [unfolded malloc_sbrk_aligned_def chunk_to_blob_def hp, unfolded s sbrk_up [OF p(1)], simplified n if_False]
  show ?thesis
  proof (cases "?p + unat a \<le> heap_end h")
    case False
    then show ?thesis using def k p by (auto simp: grows_def set_errno_def)
  next
    case fit: True
    show ?thesis
    proof (cases "?b = ?p")
      case True
      then show ?thesis using def fit b k by (auto simp: grows_def Let_def split: if_splits)
    next
      case False
      then obtain d where d: "?b = ?p + d" "0 < d" "d < 16" using b(1,2) by (metis add_less_cancel_left le_Suc_ex nat_neq_iff not_less0 add.right_neutral)
      have "?p mod 16 \<noteq> 8" using b(3) aligned_gap [of ?p d] d by auto
      then have nal: "?p mod 16 = 8 \<longleftrightarrow> False" by simp
      have i: "int (?p + d) - int ?p = int d" "nat (int x + int d) = x + d" for x by (simp_all add: nat_int_add)
      show ?thesis using def [unfolded eqTrueI [OF fit] if_True prod.case option.case Let_def, unfolded d(1) i] b [unfolded d(1)] fit k d(2,3) p nal
        by (cases "?p + unat a + d \<le> heap_end h") (auto simp: grows_def Let_def sbrk_up set_errno_def i)
    qed
  qed
qed

definition within :: "chunk \<Rightarrow> chunk \<Rightarrow> bool" where
  "within z w \<longleftrightarrow> fst w \<le> fst z \<and> fst z + snd z \<le> fst w + snd w"

lemma within_apart: "within z w \<Longrightarrow> apart y w \<Longrightarrow> apart y z"
  by (auto simp: within_def apart_def)

lemma within_extent: "within z w \<Longrightarrow> 8 \<le> fst w \<Longrightarrow> extent z \<subseteq> extent w"
  by (auto simp: within_def extent_def)

lemma within_refl [simp]: "within z z"
  by (simp add: within_def)

lemma first_fit_within:
  assumes "first_fit k fs = Some (c, fs')" "z \<in> insert (c, k) (set fs')"
  shows "\<exists>w \<in> set fs. within z w"
  using assms
proof (induction fs arbitrary: fs')
  case (Cons x fs)
  obtain d n where x: "x = (d, n)" by (cases x)
  show ?case
  proof (cases "k \<le> n")
    case True
    have "within (c, k) x" "within (c + k, n - k) x" if "d = c" using that True by (auto simp: within_def x)
    then show ?thesis using Cons.prems True by (auto simp: x split: if_splits intro: bexI [of _ z])
  next
    case False
    then obtain r where r: "first_fit k fs = Some (c, r)" "fs' = (d, n) # r"
      using Cons.prems(1) by (auto simp: x)
    then show ?thesis using Cons.IH [OF r(1)] Cons.prems(2) by (auto simp: x)
  qed
qed simp

lemma first_fit_ok:
  assumes "first_fit k fs = Some (c, fs')" "gaps fs" "\<forall>y \<in> set fs. chunk_ok h y" "fits k"
  shows "chunk_ok h (c, k) \<and> gaps fs' \<and> (\<forall>y \<in> set fs'. chunk_ok h y \<and> apart (c, k) y)"
  using assms(1-3)
proof (induction fs arbitrary: fs')
  case (Cons x fs)
  obtain d n where x: "x = (d, n)" by (cases x)
  have g: "gaps fs" "\<forall>y \<in> set fs. d + n < fst y" using Cons.prems(2) by (auto simp: gaps_Cons x)
  have ok: "chunk_ok h (d, n)" "\<forall>y \<in> set fs. chunk_ok h y" using Cons.prems(3) by (auto simp: x)
  show ?case
  proof (cases "k \<le> n")
    case True
    have k: "k mod 16 = 0" "16 \<le> k" using assms(4) by (auto simp: fits_def)
    have "chunk_ok h (d, k)" using ok(1) k True by (auto simp: chunk_ok_def)
    moreover have "chunk_ok h (d + k, n - k)" if "k + 16 \<le> n"
      using ok(1) k that by (simp add: chunk_ok_def mod16_add mod16_diff)
    moreover have "\<forall>y \<in> set fs. d + k \<le> fst y" using g(2) True by fastforce
    ultimately show ?thesis
      using Cons.prems(1) True g ok(2) by (auto simp: x apart_def gaps_Cons split: if_splits)
  next
    case False
    then obtain r where r: "first_fit k fs = Some (c, r)" "fs' = (d, n) # r"
      using Cons.prems(1) by (auto simp: x)
    have "\<exists>w \<in> set fs. within z w" if "z \<in> insert (c, k) (set r)" for z using first_fit_within [OF r(1) that] .
    then have "\<forall>z \<in> insert (c, k) (set r). d + n < fst z" using g(2) by (fastforce simp: within_def)
    then show ?thesis using Cons.IH [OF r(1) g(1) ok(2)] ok(1) by (auto simp: r(2) gaps_Cons apart_def)
  qed
qed simp

text \<open>What first fit takes and what it leaves make up the free memory.\<close>

lemma first_fit_extent:
  assumes "first_fit k fs = Some (c, fs')" "\<forall>y \<in> set fs. chunk_ok h y" "fits k"
  shows "free_extent fs \<subseteq> extent (c, k) \<union> free_extent fs'"
  using assms(1,2)
proof (induction fs arbitrary: fs')
  case (Cons x fs)
  obtain d n where x: "x = (d, n)" by (cases x)
  show ?case
  proof (cases "k \<le> n")
    case True
    have d: "8 \<le> d" "n mod 16 = 0" "k mod 16 = 0" using Cons.prems(2) assms(3) by (auto simp: x chunk_ok_def fits_def)
    have "n = k" if "\<not> k + 16 \<le> n" using that True d(2,3) mod16_diff [of n k] by (auto elim!: dvdE)
    moreover have "extent (d, n) \<subseteq> extent (d, k) \<union> extent (d + k, n - k)" using d(1) by (auto simp: extent_def)
    ultimately show ?thesis using Cons.prems(1) True by (auto simp: x free_extent_def split: if_splits)
  next
    case False
    then obtain r where r: "first_fit k fs = Some (c, r)" "fs' = (d, n) # r"
      using Cons.prems(1) by (auto simp: x)
    then show ?thesis using Cons.IH [OF r(1)] Cons.prems(2) by (auto simp: x free_extent_def)
  qed
qed simp

lemma chain_cong: "hmem h' = hmem h \<Longrightarrow> free_list h' = free_list h \<Longrightarrow> chain h' p fs = chain h p fs"
proof (induction fs arbitrary: p)
  case Nil
  then show ?case by (cases p) (simp_all add: next_of_def)
next
  case (Cons x fs)
  then show ?case by (cases x; cases p) (simp_all add: next_of_def load_size_def)
qed

lemma heap_inv_grows:
  assumes inv: "heap_inv h fs L" and g: "grows h h'" and top: "top_ok (sbrk_top h') (set fs \<union> L)"
  shows "heap_inv h' fs L"
proof (rule heap_invI)
  have ok: "chunk_ok h' x" if "chunk_ok h x" for x using g that by (auto simp: grows_def chunk_ok_def)
  show "\<forall>x \<in> set fs. chunk_ok h' x" "\<forall>x \<in> L. chunk_ok h' x" using ok inv_chunk(1) [OF inv] by auto
  show "arena_ok h'" using g heap_invD(1) [OF inv] by (auto simp: grows_def arena_ok_def)
  show "chain h' Free_list fs" using g heap_invD(2) [OF inv] chain_cong [of h' h] by (auto simp: grows_def)
  show "\<forall>x \<in> L. load_size h' (fst x) = Some (of_nat (snd x))"
    using heap_invD(4) [OF inv] g by (simp add: grows_def load_size_def)
  show "\<forall>x \<in> L. \<forall>y \<in> set fs. apart x y" using heap_invD(5) [OF inv] live_not_free [OF inv] by blast
qed (use heap_invD(3,5) [OF inv] top in auto)

lemma top_ok_high: "\<forall>x \<in> X. chunk_ok h x \<Longrightarrow> brk h + 16 \<le> t \<Longrightarrow> top_ok t X"
  by (fastforce simp: top_ok_def chunk_ok_def)

lemma malloc_finish_ok:
  assumes h: "arena_ok h" "chunk_ok h (c, unat a)" and ld: "load_size h c = Some a \<or> load_size h c = Some (a + 1)"
  obtains h' where "malloc_finish h c a = Some (h', c)" "load_size h' c = Some a"
    "bytes_at (hmem h') c (replicate (unat a - 8) 0)" "touches h h' (extent (c, unat a))" "free_list h' = free_list h"
proof -
  note c = chunk_ok_less [OF h]
  have ev: "even a"
  proof -
    have "a = of_nat (unat a)" by simp
    then show ?thesis using c even_of_nat64 by metis
  qed
  obtain h1 where h1: "set_size h c a = Some h1" "load_size h1 c = Some a" "touches h h1 {c - 8 ..< c}"
    "free_list h1 = free_list h" by (rule set_size_ok [OF h])
  have mb: "mark_busy h c = Some h1" using ld ev h1(1) by (auto simp: mark_busy_def flag_clear)
  have n: "unat (a - MALLOC_HEAD_SIZE) = unat a - 8"
    using c by (subst unat_sub) (simp_all add: word_le_nat_alt head_size)
  have m: "mapped (hmem h1) c (unat a - 8)"
    using touches_ok(1) [OF h1(3) h(1)] touches_ok(2) [OF h1(3)] h(2) c by (intro mapped_chunk [of h1 c "unat a"]) auto
  define h2 where "h2 = h1\<lparr>hmem := put_bytes (hmem h1) c (replicate (unat a - 8) 0)\<rparr>"
  have t2: "touches h1 h2 {c ..< c + (unat a - 8)}"
    using m by (auto simp: touches_def h2_def put_bytes_apply mapped_def)
  have "load_size h2 c = load_size h1 c" using c by (intro load_size_frame [OF t2]) auto
  moreover have "malloc_finish h c a = Some (h2, c)"
    using memset_fill [OF m, of 0] by (simp add: malloc_finish_def mb n h2_def)
  moreover have "touches h h2 (extent (c, unat a))"
    using c by (intro touches_trans [OF h1(3) t2]) (auto simp: extent_def)
  ultimately show thesis
    using that [of h2] h1(2,4) bytes_at_put_same [of "hmem h1" c "replicate (unat a - 8) 0"]
    by (simp add: h2_def)
qed

lemma alloc_max: "unat MALLOC_ALLOC_MAX = 2 ^ 64 - 41"
  by (simp add: MALLOC_ALLOC_MAX_def MALLOC_CHUNK_MAX_def MALLOC_CHUNK_SIZE_def MALLOC_CHUNK_ALIGN_def
      MALLOC_HEAD_SIZE_def max_def)

lemma chunk_size_ok:
  assumes "s \<le> MALLOC_ALLOC_MAX"
  shows "fits (unat (chunk_size s))" "unat s + 8 \<le> unat (chunk_size s)" "unat (chunk_size s) \<le> unat s + 23 \<or> unat (chunk_size s) = 16"
proof -
  have s: "unat s \<le> 2 ^ 64 - 41" using assms by (simp add: word_le_nat_alt alloc_max)
  have u: "unat (s + MALLOC_HEAD_SIZE) = unat s + 8"
    using s by (subst unat_add_lem [THEN iffD1]) (simp_all add: head_size)
  have v: "unat (align_up (s + MALLOC_HEAD_SIZE) MALLOC_CHUNK_ALIGN) = (unat s + 8 + 15) div 16 * 16"
    using align_up_pow [of 4 "s + MALLOC_HEAD_SIZE"] s unfolding u by (simp add: MALLOC_CHUNK_ALIGN_def)
  have "unat (chunk_size s) = max 16 ((unat s + 8 + 15) div 16 * 16)"
    by (simp add: chunk_size_def max_def word_le_nat_alt v chunk_min)
  moreover have "unat s + 8 \<le> (unat s + 8 + 15) div 16 * 16" "(unat s + 8 + 15) div 16 * 16 \<le> unat s + 23"
    by linarith+
  ultimately show "fits (unat (chunk_size s))" "unat s + 8 \<le> unat (chunk_size s)" "unat (chunk_size s) \<le> unat s + 23 \<or> unat (chunk_size s) = 16"
    by (auto simp: fits_def max_def)
qed

lemma inv_walk_pre:
  assumes inv: "heap_inv h fs L"
  shows "\<forall>y \<in> set fs. chunk_ok h y \<and> fst y - 8 + (snd y + 1) \<noteq> sbrk_top h"
proof
  fix y assume y: "y \<in> set fs"
  note ok = inv_chunk [OF inv, of y]
  have "even (fst y)" using ok(1) y by (simp add: chunk_ok_def mod16)
  then have "odd (fst y - 8 + (snd y + 1))" using ok(2,4) y by simp
  moreover have "fst y + snd y + 1 < sbrk_top h + 8" if "odd (sbrk_top h)"
    using heap_invD(6) [OF inv] that y by (auto simp: top_ok_def)
  moreover have "8 < fst y" using ok(2) y by simp
  ultimately have "fst y - 8 + (snd y + 1) \<noteq> sbrk_top h"
  proof (intro notI)
    assume e: "fst y - 8 + (snd y + 1) = sbrk_top h"
    then have "odd (sbrk_top h)" using \<open>odd (fst y - 8 + (snd y + 1))\<close> by simp
    then show False using \<open>odd (sbrk_top h) \<Longrightarrow> _\<close> e \<open>8 < fst y\<close> by simp
  qed
  then show "chunk_ok h y \<and> fst y - 8 + (snd y + 1) \<noteq> sbrk_top h" using ok(1) y by simp
qed

text \<open>A chunk carved out of a free one, and one at fresh memory, joins the chunks in use.\<close>

lemma heap_inv_add:
  assumes inv: "heap_inv h fs L" and h1: "arena_ok h1" "chain h1 Free_list fs1" "gaps fs1"
    and ok: "\<forall>y \<in> set fs1 \<union> L. chunk_ok h1 y" "chunk_ok h1 (c, n)" "\<forall>y \<in> set fs1. apart (c, n) y"
    and L: "\<forall>x \<in> L. load_size h1 (fst x) = Some (of_nat (snd x)) \<and> apart x (c, n) \<and> (\<forall>y \<in> set fs1. apart x y)"
    and top: "top_ok (sbrk_top h1) (insert (c, n) (set fs1 \<union> L))"
    and t: "touches h1 h2 (extent (c, n))" "free_list h2 = free_list h1" "load_size h2 c = Some (of_nat n)"
  shows "heap_inv h2 fs1 (insert (c, n) L)"
proof (rule heap_invI)
  have big: "8 \<le> fst x" "16 \<le> snd x" if "x \<in> set fs1 \<union> L" for x
    using ok(1) [THEN bspec, OF that] by (auto simp: chunk_ok_def)
  have e: "extent x \<inter> extent (c, n) = {}" if "x \<in> set fs1 \<union> L" for x
  proof (rule apart_extent)
    show "apart x (c, n)" using ok(3) L that by (auto simp: apart_def)
    show "8 \<le> fst x" "8 \<le> fst (c, n)" using big that ok(2) by (auto simp: chunk_ok_def)
  qed
  have e16: "\<forall>a \<in> extent (c, n). a < fst x - 8 \<or> fst x + 8 \<le> a" if "x \<in> set fs1 \<union> L" for x
  proof
    fix a assume "a \<in> extent (c, n)"
    then have "a \<notin> extent x" using e [OF that] by blast
    then show "a < fst x - 8 \<or> fst x + 8 \<le> a" using big [OF that] by (auto simp: extent_def)
  qed
  show "arena_ok h2" by (rule touches_ok(1) [OF t(1) h1(1)])
  show "chain h2 Free_list fs1"
    using e16 big t(2) by (intro chain_frame [OF h1(2) t(1)]) auto
  show "\<forall>x \<in> insert (c, n) L. load_size h2 (fst x) = Some (of_nat (snd x))"
  proof
    fix x assume "x \<in> insert (c, n) L"
    then consider "x = (c, n)" | "x \<in> L" by blast
    then show "load_size h2 (fst x) = Some (of_nat (snd x))"
    proof cases
      case 2
      have "load_size h2 (fst x) = load_size h1 (fst x)"
        using e16 [of x] big(1) [of x] 2 by (intro load_size_frame [OF t(1)]) force+
      then show ?thesis using L 2 by simp
    qed (use t(3) in simp)
  qed
  show "\<forall>x \<in> set fs1. chunk_ok h2 x" "\<forall>x \<in> insert (c, n) L. chunk_ok h2 x"
    using ok touches_ok(2) [OF t(1)] by auto
  show "\<forall>x \<in> insert (c, n) L. \<forall>y \<in> set fs1. apart x y" using L ok(3) by auto
  show "apart x y" if "x \<in> insert (c, n) L" "y \<in> insert (c, n) L" "x \<noteq> y" for x y
    using that L heap_invD(5) [OF inv] by (fastforce simp: apart_def)
  show "top_ok (sbrk_top h2) (set fs1 \<union> insert (c, n) L)"
    using top touches_top [OF t(1)] by simp
qed (rule h1(3))

definition same_data :: "heap \<Rightarrow> heap \<Rightarrow> addr set \<Rightarrow> bool" where
  "same_data h h' S \<longleftrightarrow> (\<forall>a. a \<notin> S \<longrightarrow> hmem h' a = hmem h a)"

lemma malloc_found:
  assumes inv: "heap_inv h fs L" and s: "s \<le> MALLOC_ALLOC_MAX"
    and ff: "first_fit (unat (chunk_size s)) fs = Some (c, fs')"
  obtains h' where "malloc h s = Some (h', c)" "heap_inv h' fs' (insert (c, unat (chunk_size s)) L)"
    "bytes_at (hmem h') c (replicate (unat (chunk_size s) - 8) 0)" "touches h h' (free_extent fs)"
    "extent (c, unat (chunk_size s)) \<subseteq> free_extent fs" "no_loss h L h' (insert (c, unat (chunk_size s)) L)"
proof -
  let ?a = "chunk_size s"
  note fit = chunk_size_ok(1) [OF s] and D = heap_invD [OF inv]
  obtain h1 where h1: "malloc_walk h Free_list ?a = Some (h1, c)" "chain h1 Free_list fs'"
    "load_size h1 c = Some ?a \<or> load_size h1 c = Some (?a + 1)" "touches h h1 (free_extent fs)"
    using malloc_walk_ok [OF D(1) fit D(2,3) inv_walk_pre [OF inv]] ff by auto
  have fs: "\<forall>y \<in> set fs. chunk_ok h y" using inv_chunk(1) [OF inv] by blast
  note ffo = first_fit_ok [OF ff D(3) fs fit]
  note ok1 = touches_ok(1) [OF h1(4) D(1)] touches_ok(2) [OF h1(4)]
  have okc: "chunk_ok h1 (c, unat ?a)" using ffo ok1(2) by simp
  have c: "c \<noteq> 0" using chunk_ok_less [OF ok1(1) okc] by simp
  obtain h2 where h2: "malloc_finish h1 c ?a = Some (h2, c)" "load_size h2 c = Some ?a"
    "bytes_at (hmem h2) c (replicate (unat ?a - 8) 0)" "touches h1 h2 (extent (c, unat ?a))" "free_list h2 = free_list h1"
    by (rule malloc_finish_ok [OF ok1(1) okc h1(3)])
  have sub: "\<exists>w \<in> set fs. within z w" if "z \<in> insert (c, unat ?a) (set fs')" for z
    using first_fit_within [OF ff that] .
  have ext: "extent (c, unat ?a) \<subseteq> free_extent fs"
    using sub [of "(c, unat ?a)"] within_extent inv_chunk(2) [OF inv] by (fastforce simp: free_extent_def)
  have inv2: "heap_inv h2 fs' (insert (c, unat ?a) L)"
  proof (rule heap_inv_add [OF inv ok1(1) h1(2)])
    have "load_size h1 (fst x) = Some (of_nat (snd x))" if "x \<in> L" for x
      using live_frame [OF inv h1(4), of L] live_extents(1) [OF inv] that by blast
    moreover have "apart x y" if x: "x \<in> L" and y: "y \<in> insert (c, unat ?a) (set fs')" for x y
    proof -
      obtain w where w: "w \<in> set fs" "within y w" using sub [OF y] by blast
      then have "apart x w" using D(5) [OF x, of w] live_not_free [OF inv x] by blast
      then show ?thesis by (rule within_apart [OF w(2)])
    qed
    ultimately show "\<forall>x \<in> L. load_size h1 (fst x) = Some (of_nat (snd x)) \<and> apart x (c, unat ?a) \<and> (\<forall>y \<in> set fs'. apart x y)"
      by blast
    show "\<forall>y \<in> set fs' \<union> L. chunk_ok h1 y" using ffo ok1(2) inv_chunk(1) [OF inv] by auto
    show "top_ok (sbrk_top h1) (insert (c, unat ?a) (set fs' \<union> L))"
      unfolding touches_top [OF h1(4)]
    proof (rule top_ok_ends [OF D(6)])
      show "\<exists>w \<in> set fs \<union> L. fst z + snd z \<le> fst w + snd w" if "z \<in> insert (c, unat ?a) (set fs' \<union> L)" for z
        using sub [of z] that unfolding within_def by blast
    qed
  qed (use ffo okc h2 in auto)
  have t: "touches h h2 (free_extent fs)" by (rule touches_trans [OF h1(4) h2(4)]) (use ext in auto)
  have "no_loss h L h2 (insert (c, unat ?a) L)"
    using first_fit_extent [OF ff fs fit] touches_brk [OF t]
    by (intro no_loss_same_brk [OF inv inv2]) (auto simp: free_extent_def)
  moreover have "malloc h s = Some (h2, c)"
    using s c by (simp add: malloc_def not_less h1(1) h2(1))
  ultimately show thesis using that inv2 t h2(3) ext by blast
qed

lemma fresh_chunk:
  assumes inv: "heap_inv h fs L" and a: "fits (unat a)" and r: "malloc_sbrk_aligned h a = (h1, Some b)"
  shows "heap_inv h1 fs L" "chunk_ok h1 (b + 8, unat a)" "\<forall>x \<in> set fs \<union> L. apart x (b + 8, unat a)"
    "grows h h1" "even (sbrk_top h1)" "errno h1 = errno h"
proof -
  note D = heap_invD [OF inv]
  have b: "grows h h1" "brk h \<le> b" "b mod 16 = 8" "b + unat a = brk h1" "sbrk_top h1 = brk h1" "errno h1 = errno h"
    using sbrk_aligned_ok [OF D(1) a r] by auto
  have e: "even (sbrk_top h1)"
  proof -
    have "even b" using b(3) by presburger
    moreover have "even (unat a)" using a by (simp add: fits_def mod16)
    ultimately show ?thesis using b(4,5) by (metis even_add)
  qed
  show "heap_inv h1 fs L" using e by (intro heap_inv_grows [OF inv b(1)]) (simp add: top_ok_def)
  have "(b + 8) mod 16 = 0" using b(3) by presburger
  then show "chunk_ok h1 (b + 8, unat a)"
    using a b D(1) by (simp add: chunk_ok_def fits_def arena_ok_def grows_def)
  show "\<forall>x \<in> set fs \<union> L. apart x (b + 8, unat a)"
    using inv_chunk(1) [OF inv] b(2) by (fastforce simp: chunk_ok_def apart_def)
  show "grows h h1" "even (sbrk_top h1)" "errno h1 = errno h" using b e by auto
qed

text \<open>Memory taken from an aligned break begins at the break.\<close>

lemma no_loss_sbrk:
  assumes inv: "heap_inv h fs L" and a: "fits (unat a)" and r: "malloc_sbrk_aligned h a = (h1, Some b)"
    and h': "heap_inv h' fs' L'" "brk h' = brk h1"
    and e: "(\<Union>x \<in> set fs \<union> L. extent x) \<subseteq> (\<Union>x \<in> set fs' \<union> L'. extent x)"
      "extent (b + 8, unat a) \<subseteq> (\<Union>x \<in> set fs' \<union> L'. extent x)"
  shows "no_loss h L h' L'"
proof -
  have b: "brk h \<le> b" "b < brk h + 16" "b mod 16 = 8" "b + unat a = brk h1"
    using sbrk_aligned_ok [OF heap_invD(1) [OF inv] a r] by auto
  have "brk h' mod 16 = 8 \<and> {brk h ..< brk h'} = extent (b + 8, unat a)" if al: "brk h mod 16 = 8"
  proof -
    obtain d where d: "b = brk h + d" using b(1) le_Suc_ex by blast
    have "d = 0" using aligned_gap [of "brk h" d] b(2,3) al d by simp
    then have "{brk h ..< brk h'} = extent (b + 8, unat a)" using d b(4) h'(2) by (simp add: extent_def)
    moreover have "brk h' mod 16 = 8" using b(3,4) a h'(2) mod_add_right_eq [of b "unat a" 16] by (simp add: fits_def)
    ultimately show ?thesis by blast
  qed
  then show ?thesis using e inv h' by (simp add: no_loss_def managed_eq)
qed

lemma sbrk_failed:
  assumes inv: "heap_inv h fs L" and a: "fits (unat a)" and r: "malloc_sbrk_aligned h a = (h1, None)"
  shows "heap_inv h1 fs L" "grows h h1" "heap_end h < brk h + unat a + 15" "no_loss h L h1 L"
proof -
  note D = heap_invD [OF inv]
  have b: "grows h h1" "sbrk_top h1 = sbrk_top h \<or> brk h + 16 \<le> sbrk_top h1" "heap_end h < brk h + unat a + 15"
    using sbrk_aligned_ok [OF D(1) a r] by auto
  have "top_ok (sbrk_top h1) (set fs \<union> L)"
    using b(2) D(6) top_ok_high [of "set fs \<union> L" h "sbrk_top h1"] inv_chunk(1) [OF inv] by auto
  then show inv1: "heap_inv h1 fs L" by (rule heap_inv_grows [OF inv b(1)])
  have "brk h mod 16 = 8 \<longrightarrow> brk h1 = brk h" using sbrk_aligned_ok [OF D(1) a r] by simp
  then show "no_loss h L h1 L" using inv inv1 by (auto simp: no_loss_def managed_eq)
qed (use sbrk_aligned_ok [OF heap_invD(1) [OF inv] a r] in auto)

lemma set_errno_inv: "heap_inv h fs L \<Longrightarrow> heap_inv (set_errno e h) fs L"
proof -
  assume inv: "heap_inv h fs L"
  have "grows h (set_errno e h)" using heap_invD(1) [OF inv] by (simp add: grows_def set_errno_def arena_ok_def)
  then show ?thesis using heap_invD(6) [OF inv] by (intro heap_inv_grows [OF inv]) (simp_all add: set_errno_def)
qed

lemma no_loss_errno: "heap_inv h fs L \<Longrightarrow> no_loss h L (set_errno e h) L"
  by (rule no_loss_same_brk [OF _ set_errno_inv]) (auto simp: set_errno_def)

lemma malloc_fresh:
  assumes inv: "heap_inv h fs L" and s: "s \<le> MALLOC_ALLOC_MAX"
    and ff: "first_fit (unat (chunk_size s)) fs = None" and r: "malloc_sbrk_aligned h (chunk_size s) = (h1, Some b)"
  obtains h' where "malloc h s = Some (h', b + 8)" "heap_inv h' fs (insert (b + 8, unat (chunk_size s)) L)"
    "bytes_at (hmem h') (b + 8) (replicate (unat (chunk_size s) - 8) 0)"
    "\<forall>x \<in> L. extent x \<inter> extent (b + 8, unat (chunk_size s)) = {}"
    "same_data h h' (extent (b + 8, unat (chunk_size s)))" "errno h' = errno h"
    "no_loss h L h' (insert (b + 8, unat (chunk_size s)) L)"
proof -
  let ?a = "chunk_size s" and ?c = "b + 8"
  note fit = chunk_size_ok(1) [OF s]
  note fr = fresh_chunk [OF inv fit r] and D = heap_invD [OF inv]
  note D1 = heap_invD [OF fr(1)]
  have walk: "malloc_walk h Free_list ?a = Some (h, NULL)"
    using malloc_walk_ok [OF D(1) fit D(2,3) inv_walk_pre [OF inv]] ff by auto
  obtain h2 where h2: "set_size h1 ?c ?a = Some h2" "load_size h2 ?c = Some ?a" "touches h1 h2 {?c - 8 ..< ?c}"
    "free_list h2 = free_list h1" by (rule set_size_ok [OF D1(1) fr(2)])
  have okc: "chunk_ok h2 (?c, unat ?a)" using touches_ok(2) [OF h2(3)] fr(2) by simp
  obtain h3 where h3: "malloc_finish h2 ?c ?a = Some (h3, ?c)" "load_size h3 ?c = Some ?a"
    "bytes_at (hmem h3) ?c (replicate (unat ?a - 8) 0)" "touches h2 h3 (extent (?c, unat ?a))" "free_list h3 = free_list h2"
    using malloc_finish_ok [OF touches_ok(1) [OF h2(3) D1(1)] okc] h2(2) by blast
  have t: "touches h1 h3 (extent (?c, unat ?a))"
    using fit by (intro touches_trans [OF h2(3) h3(4)]) (auto simp: extent_def fits_def)
  have inv3: "heap_inv h3 fs (insert (?c, unat ?a) L)"
  proof (rule heap_inv_add [OF fr(1) D1(1-3)])
    show "\<forall>x \<in> L. load_size h1 (fst x) = Some (of_nat (snd x)) \<and> apart x (?c, unat ?a) \<and> (\<forall>y \<in> set fs. apart x y)"
      using D1(4,5) fr(3) live_not_free [OF fr(1)] by (metis UnI1 UnI2)
    show "\<forall>y \<in> set fs. apart (?c, unat ?a) y" using fr(3) by (auto simp: apart_def)
    show "top_ok (sbrk_top h1) (insert (?c, unat ?a) (set fs \<union> L))" using fr(5) by (simp add: top_ok_def)
  qed (use inv_chunk(1) [OF fr(1)] fr(2) t h2(4) h3(2,5) in auto)
  have "no_loss h L h3 (insert (?c, unat ?a) L)"
    using touches_brk [OF t] by (intro no_loss_sbrk [OF inv fit r inv3]) auto
  moreover have "malloc h s = Some (h3, ?c)"
    using s by (simp add: malloc_def not_less walk r blob_to_chunk_def head_size h2(1) h3(1))
  moreover have "same_data h h3 (extent (?c, unat ?a))" "errno h3 = errno h"
    using t fr(4,6) by (auto simp: same_data_def touches_def grows_def)
  moreover have "\<forall>x \<in> L. extent x \<inter> extent (?c, unat ?a) = {}"
  proof
    show "extent x \<inter> extent (?c, unat ?a) = {}" if "x \<in> L" for x
      using that fr(3) inv_chunk(2) [OF inv, of x] by (intro apart_extent) auto
  qed
  ultimately show thesis using that inv3 h3(3) by blast
qed

text \<open>All outcomes of \<open>malloc\<close> on a well-formed heap.\<close>

definition malloc_result :: "heap \<Rightarrow> chunk list \<Rightarrow> chunk set \<Rightarrow> u64 \<Rightarrow> heap \<Rightarrow> addr \<Rightarrow> chunk list \<Rightarrow> bool" where
  "malloc_result h fs L s h' c fs' \<longleftrightarrow>
     (if c = NULL then heap_inv h' fs L \<and> fs' = fs \<and> hmem h' = hmem h \<and> errno h' = Some ENOMEM \<and> no_loss h L h' L
      else heap_inv h' fs' (insert (c, unat (chunk_size s)) L) \<and> errno h' = errno h
        \<and> no_loss h L h' (insert (c, unat (chunk_size s)) L)
        \<and> bytes_at (hmem h') c (replicate (unat (chunk_size s) - 8) 0)
        \<and> (\<forall>x \<in> L. extent x \<inter> extent (c, unat (chunk_size s)) = {} \<and> (\<forall>a \<in> extent x. hmem h' a = hmem h a)))"

lemma malloc_total:
  assumes inv: "heap_inv h fs L"
  shows "\<exists>h' c fs'. malloc h s = Some (h', c) \<and> malloc_result h fs L s h' c fs'"
proof (cases "s \<le> MALLOC_ALLOC_MAX")
  case False
  then have "malloc h s = Some (set_errno ENOMEM h, NULL)" by (simp add: malloc_def not_le)
  moreover have "malloc_result h fs L s (set_errno ENOMEM h) NULL fs"
    using set_errno_inv [OF inv] no_loss_errno [OF inv] by (simp add: malloc_result_def set_errno_def)
  ultimately show ?thesis by blast
next
  case s: True
  let ?k = "unat (chunk_size s)"
  note fit = chunk_size_ok(1) [OF s] and D = heap_invD [OF inv]
  have nz: "c \<noteq> NULL" if "heap_inv h' fs' (insert (c, ?k) L)" for h' fs' c
    using inv_chunk(2) [OF that, of "(c, ?k)"] by simp
  show ?thesis
  proof (cases "first_fit ?k fs")
    case (Some r)
    then obtain c fs' where "first_fit ?k fs = Some (c, fs')" by (cases r) auto
    from malloc_found [OF inv s this] obtain h' where h': "malloc h s = Some (h', c)" "heap_inv h' fs' (insert (c, ?k) L)"
      "bytes_at (hmem h') c (replicate (?k - 8) 0)" "touches h h' (free_extent fs)" "extent (c, ?k) \<subseteq> free_extent fs"
      "no_loss h L h' (insert (c, ?k) L)" by blast
    have "\<forall>x \<in> L. extent x \<inter> extent (c, ?k) = {} \<and> (\<forall>a \<in> extent x. hmem h' a = hmem h a)"
      using live_extents(1) [OF inv] h'(4,5) unfolding touches_def by blast
    then have "malloc_result h fs L s h' c fs'"
      using h' nz [OF h'(2)] by (simp add: malloc_result_def touches_def)
    then show ?thesis using h'(1) by blast
  next
    case None
    obtain h1 r where r: "malloc_sbrk_aligned h (chunk_size s) = (h1, r)" by (cases "malloc_sbrk_aligned h (chunk_size s)")
    show ?thesis
    proof (cases r)
      case (Some b)
      from malloc_fresh [OF inv s None r [unfolded Some]] obtain h' where h': "malloc h s = Some (h', b + 8)"
        "heap_inv h' fs (insert (b + 8, ?k) L)" "bytes_at (hmem h') (b + 8) (replicate (?k - 8) 0)"
        "\<forall>x \<in> L. extent x \<inter> extent (b + 8, ?k) = {}" "same_data h h' (extent (b + 8, ?k))" "errno h' = errno h"
        "no_loss h L h' (insert (b + 8, ?k) L)" by blast
      have "\<forall>x \<in> L. \<forall>a \<in> extent x. hmem h' a = hmem h a" using h'(4,5) unfolding same_data_def by blast
      then have "malloc_result h fs L s h' (b + 8) fs" using h' by (simp add: malloc_result_def)
      then show ?thesis using h'(1) by blast
    next
      case n: None
      note f = sbrk_failed [OF inv fit r [unfolded n]]
      have "malloc_walk h Free_list (chunk_size s) = Some (h, NULL)"
        using malloc_walk_ok [OF D(1) fit D(2,3) inv_walk_pre [OF inv]] None by auto
      then have "malloc h s = Some (set_errno ENOMEM h1, NULL)"
        using s r n by (simp add: malloc_def not_less)
      moreover have "malloc_result h fs L s (set_errno ENOMEM h1) NULL fs"
        using f(2) set_errno_inv [OF f(1)] no_loss_trans [OF f(4) no_loss_errno [OF f(1), of ENOMEM]]
        by (simp add: malloc_result_def set_errno_def grows_def)
      ultimately show ?thesis by blast
    qed
  qed
qed

end
