(* ===== verification/MallocResize.thy ===== *)
theory MallocResize
  imports MallocAlloc
begin

text \<open>
  \<open>realloc\<close> and \<open>memalign\<close>: growing in place at the top of the heap, splitting off the tail or the front of a
  chunk in use, moving a block, and aligned blocks.
\<close>

section \<open>Resizing\<close>

lemma apart_sym: "apart x y \<longleftrightarrow> apart y x"
  by (auto simp: apart_def)

lemma inv_apart: "heap_inv h fs L \<Longrightarrow> x \<in> L \<Longrightarrow> y \<in> set fs \<Longrightarrow> apart x y"
  using heap_invD(5) live_not_free by (metis UnI1)

lemma heap_inv_subset:
  assumes inv: "heap_inv h fs L" and M: "M \<subseteq> L"
  shows "heap_inv h fs M"
proof (rule heap_invI)
  note D = heap_invD [OF inv]
  show "\<forall>x \<in> M. \<forall>y \<in> set fs. apart x y" using inv_apart [OF inv] M by blast
  show "top_ok (sbrk_top h) (set fs \<union> M)" by (rule top_ok_ends [OF D(6)]) (use M in blast)
  show "apart x y" if "x \<in> M" "y \<in> M" "x \<noteq> y" for x y using D(5) that M by blast
qed (use heap_invD [OF inv] inv_chunk(1) [OF inv] M in auto)

text \<open>A chunk in use is given another size.\<close>

lemma heap_inv_resize:
  assumes inv: "heap_inv h fs L" and x: "(c, n) \<in> L"
    and k: "chunk_ok h (c, k)" "\<forall>y \<in> set fs \<union> (L - {(c, n)}). apart y (c, k)"
    and top: "top_ok (sbrk_top h) (insert (c, k) (set fs \<union> L))"
    and t: "touches h h' (extent (c, k))" "free_list h' = free_list h" "load_size h' c = Some (of_nat k)"
  shows "heap_inv h' fs (insert (c, k) (L - {(c, n)}))"
proof (rule heap_inv_add [OF heap_inv_subset [OF inv, of "L - {(c, n)}"]])
  note D = heap_invD [OF inv]
  show "\<forall>y \<in> L - {(c, n)}. load_size h (fst y) = Some (of_nat (snd y)) \<and> apart y (c, k) \<and> (\<forall>z \<in> set fs. apart y z)"
    using D(4,5) k(2) live_not_free [OF inv] by (metis DiffD1 UnI1 UnI2)
  show "top_ok (sbrk_top h) (insert (c, k) (set fs \<union> (L - {(c, n)})))"
    by (rule top_ok_ends [OF top]) blast
qed (use heap_invD [OF inv] k t inv_chunk(1) [OF inv] in \<open>auto simp: apart_def\<close>)

text \<open>Writing to the storage of a chunk in use leaves the heap well-formed.\<close>

lemma heap_inv_data:
  assumes inv: "heap_inv h fs L" and x: "(c, n) \<in> L"
    and t: "touches h h' {c ..< c - 8 + n}" "free_list h' = free_list h"
  shows "heap_inv h' fs L"
proof -
  note c = inv_chunk [OF inv, of "(c, n)"]
  have "heap_inv h' fs (insert (c, n) (L - {(c, n)}))"
  proof (rule heap_inv_resize [OF inv x])
    have "load_size h' c = load_size h c" using c x by (intro load_size_frame [OF t(1)]) auto
    then show "load_size h' c = Some (of_nat n)" using heap_invD(4) [OF inv x] by simp
    show "\<forall>y \<in> set fs \<union> (L - {(c, n)}). apart y (c, n)"
      using heap_invD(5) [OF inv] inv_apart [OF inv x] x apart_sym by blast
    show "top_ok (sbrk_top h) (insert (c, n) (set fs \<union> L))"
      by (rule top_ok_ends [OF heap_invD(6) [OF inv]]) (use x in blast)
    show "touches h h' (extent (c, n))" using c x by (intro touches_mono [OF t(1)]) (auto simp: extent_def)
  qed (use c x t in auto)
  then show ?thesis using x by (simp add: insert_absorb)
qed

lemma no_loss_data:
  assumes "heap_inv h fs L" "heap_inv h' fs L" "touches h h' S"
  shows "no_loss h L h' L"
  using touches_brk [OF assms(3)] by (intro no_loss_same_brk [OF assms(1,2)]) auto

lemma make_free_chunk_ok:
  assumes inv: "heap_inv h fs L" and c: "chunk_ok h (c, n)" "\<forall>x \<in> set fs \<union> L. apart x (c, n)"
    and top: "top_ok (sbrk_top h) (insert (c, n) (set fs \<union> L))"
  obtains h' where "make_free_chunk h c (of_nat n) = Some h'" "heap_inv h' (insert_free (c, n) fs) L"
    "touches h h' (extent (c, n) \<union> free_extent fs)"
proof -
  note D = heap_invD [OF inv]
  obtain h1 where h1: "set_size h c (of_nat n) = Some h1" "load_size h1 c = Some (of_nat n)"
    "touches h h1 {c - 8 ..< c}" "free_list h1 = free_list h" by (rule set_size_ok [OF D(1) c(1)])
  have t: "touches h h1 (extent (c, n))"
    using chunk_ok_less [OF D(1) c(1)] by (intro touches_mono [OF h1(3)]) (auto simp: extent_def)
  have inv1: "heap_inv h1 fs (insert (c, n) L)"
  proof (rule heap_inv_add [OF inv D(1-3)])
    show "\<forall>x \<in> L. load_size h (fst x) = Some (of_nat (snd x)) \<and> apart x (c, n) \<and> (\<forall>y \<in> set fs. apart x y)"
      using D(4) c(2) inv_apart [OF inv] by blast
    show "\<forall>y \<in> set fs. apart (c, n) y" using c(2) apart_sym by blast
  qed (use inv_chunk(1) [OF inv] c(1) top t h1(2,4) in auto)
  obtain h2 where h2: "malloc_free h1 c = Some h2" "heap_inv h2 (insert_free (c, n) fs) (insert (c, n) L - {(c, n)})"
    "touches h1 h2 (extent (c, n) \<union> free_extent fs)"
    by (rule malloc_free_live [OF inv1 insertI1])
  have "\<not> apart (c, n) (c, n)" using chunk_ok_less [OF D(1) c(1)] by (simp add: apart_def)
  then have "(c, n) \<notin> L" using c(2) by blast
  then have "insert (c, n) L - {(c, n)} = L" by simp
  then show thesis
    using that [of h2] h2 h1(1) touches_trans [OF t h2(3)] by (simp add: make_free_chunk_def)
qed

lemma realloc_walk_none:
  assumes "e mod 16 = 8"
  shows "chain h p fs \<Longrightarrow> \<forall>y \<in> set fs. chunk_ok h y \<Longrightarrow> realloc_walk h p c e = Some None"
proof (induction fs arbitrary: p)
  case Nil
  then show ?case by (subst realloc_walk.simps) simp
next
  case (Cons x fs)
  obtain d n where x: "x = (d, n)" by (cases x)
  have d: "d mod 16 = 0" "chain h (Next d) fs" "get_slot h p = Some d" using Cons.prems by (auto simp: x chunk_ok_def)
  then have "d \<noteq> e" using assms by auto
  then show ?case using Cons.IH [OF d(2)] Cons.prems(2) d(3)
    by (subst realloc_walk.simps) (cases "d = 0"; simp)
qed

definition keeps :: "heap \<Rightarrow> heap \<Rightarrow> chunk set \<Rightarrow> bool" where
  "keeps h h' L \<longleftrightarrow> (\<forall>x \<in> L. \<forall>a \<in> extent x. hmem h' a = hmem h a)"

lemma keeps_refl [simp]: "keeps h h L"
  by (simp add: keeps_def)

lemma keeps_trans: "keeps h h' L \<Longrightarrow> keeps h' h'' M \<Longrightarrow> M \<subseteq> L \<Longrightarrow> keeps h h'' M"
  by (auto simp: keeps_def subset_iff)

lemma keeps_subset: "keeps h h' L \<Longrightarrow> M \<subseteq> L \<Longrightarrow> keeps h h' M"
  by (auto simp: keeps_def)

lemma keeps_touches: "touches h h' S \<Longrightarrow> \<forall>x \<in> L. extent x \<inter> S = {} \<Longrightarrow> keeps h h' L"
  by (force simp: keeps_def touches_def)

lemma keeps_grows: "grows h h' \<Longrightarrow> keeps h h' L"
  by (simp add: keeps_def grows_def)

text \<open>Enlarging a chunk in use: in place, or not at all.\<close>

lemma grow_live:
  assumes inv: "heap_inv h fs L" and x: "(c, n) \<in> L" and a: "fits (unat a)" "n < unat a"
  obtains (grown) h' where "malloc_grow_chunk h c a = Some (h', True)"
      "heap_inv h' fs (insert (c, unat a) (L - {(c, n)}))"
      "\<And>b. b \<notin> {c - 8 ..< c} \<Longrightarrow> hmem h' b = hmem h b" "no_loss h L h' (insert (c, unat a) (L - {(c, n)}))"
    | (not_grown) h' fs' where "malloc_grow_chunk h c a = Some (h', False)" "heap_inv h' fs' L" "keeps h h' L"
      "no_loss h L h' L"
proof -
  note D = heap_invD [OF inv]
  have n: "chunk_ok h (c, n)" "8 < c" "16 \<le> n" "even n" "n < 2 ^ 63" "n mod 16 = 0"
    using inv_chunk [OF inv, of "(c, n)"] x by (auto simp: chunk_ok_def)
  have ld: "load_size h c = Some (of_nat n)" using D(4) [OF x] by simp
  have e: "chunk_end h c = Some (c - 8 + n)" using ld n by (simp add: chunk_end_def size_ref_def head_size unat_of_nat64)
  let ?a = "max MALLOC_CHUNK_MIN (a - of_nat n)"
  have d: "unat (a - of_nat n) = unat a - n"
    using a(2) n(5) by (subst unat_sub) (simp_all add: word_le_nat_alt unat_of_nat64)
  have k: "16 \<le> unat a - n" "(unat a - n) mod 16 = 0"
    using a n(6) mod16_diff [of "unat a" n] by (auto simp: fits_def elim!: dvdE)
  then have a': "?a = a - of_nat n" by (simp add: max_def word_le_nat_alt d chunk_min)
  have fit: "fits (unat ?a)" using k by (simp add: a' d fits_def)
  note sz = size_of_busy [OF ld n(4)]
  show thesis
  proof (cases "c - 8 + n = sbrk_top h")
    case False
    then show thesis using inv by (intro not_grown [of h fs]) (simp_all add: malloc_grow_chunk_def e)
  next
    case True
    obtain h1 r where r: "malloc_sbrk_aligned h ?a = (h1, r)" by (cases "malloc_sbrk_aligned h ?a")
    show thesis
    proof (cases r)
      case None
      note f = sbrk_failed [OF inv fit r [unfolded None]]
      have "malloc_grow_chunk h c a = Some (h1, False)"
        using True r None by (simp add: malloc_grow_chunk_def e sz)
      then show thesis using not_grown f(1,4) keeps_grows [OF f(2)] by blast
    next
      case (Some b)
      note f = fresh_chunk [OF inv fit r [unfolded Some]]
      note D1 = heap_invD [OF f(1)]
      show thesis
      proof (cases "b = c - 8 + n")
        case False
        have "top_ok (sbrk_top h1) (insert (b + 8, unat ?a) (set fs \<union> L))" using f(5) by (simp add: top_ok_def)
        then obtain h2 where h2: "make_free_chunk h1 (b + 8) (of_nat (unat ?a)) = Some h2"
          "heap_inv h2 (insert_free (b + 8, unat ?a) fs) L" "touches h1 h2 (extent (b + 8, unat ?a) \<union> free_extent fs)"
          using make_free_chunk_ok [OF f(1,2,3)] by blast
        have "extent y \<inter> (extent (b + 8, unat ?a) \<union> free_extent fs) = {}" if "y \<in> L" for y
          using live_extents(1) [OF f(1) that] f(3) that inv_chunk(2) [OF f(1), of y]
          by (simp add: Int_Un_distrib apart_extent)
        then have "keeps h h2 L"
          using keeps_grows [OF f(4)] keeps_touches [OF h2(3), of L] keeps_trans by blast
        moreover have "malloc_grow_chunk h c a = Some (h2, False)"
          using True r Some False h2(1) by (simp add: malloc_grow_chunk_def e sz blob_to_chunk_def head_size)
        moreover have "8 \<le> fst y" if "y \<in> insert (b + 8, unat ?a) (set fs)" for y
          using inv_chunk(2) [OF inv, of y] that by auto
        then have "\<forall>y \<in> insert (b + 8, unat ?a) (set fs). 8 \<le> fst y" by blast
        from insert_free_extent [OF this] have "no_loss h L h2 L"
          using touches_brk [OF h2(3)] by (intro no_loss_sbrk [OF inv fit r [unfolded Some] h2(2)]) (auto simp: free_extent_def)
        ultimately show thesis using not_grown h2(2) by blast
      next
        case b: True
        have sum: "of_nat n + ?a = a" "n + unat ?a = unat a" using a(2) by (simp_all add: a' d)
        have c8: "b + 8 = c + n" using b n(2) by simp
        have okk: "chunk_ok h1 (c, unat a)"
          using chunk_ok_join [of h1 c n "unat ?a"] inv_chunk(1) [OF f(1), of "(c, n)"] x f(2) by (simp add: c8 sum(2))
        obtain h2 where h2: "set_size h1 c a = Some h2" "load_size h2 c = Some a" "touches h1 h2 {c - 8 ..< c}"
          "free_list h2 = free_list h1" by (rule set_size_ok [OF D1(1) okk])
        have inv2: "heap_inv h2 fs (insert (c, unat a) (L - {(c, n)}))"
        proof (rule heap_inv_resize [OF f(1) x okk])
          show "\<forall>y \<in> set fs \<union> (L - {(c, n)}). apart y (c, unat a)"
          proof
            fix y assume y: "y \<in> set fs \<union> (L - {(c, n)})"
            then have "apart y (c, n)" using x D(5) inv_apart [OF inv x] apart_sym by blast
            moreover have "apart y (c + n, unat ?a)" using f(3) y unfolding c8 by blast
            moreover have "0 < snd y" using inv_chunk(3) [OF inv, of y] y by auto
            ultimately show "apart y (c, unat a)" using apart_join [of y c n "unat ?a"] by (simp add: sum(2))
          qed
          show "top_ok (sbrk_top h1) (insert (c, unat a) (set fs \<union> L))" using f(5) by (simp add: top_ok_def)
          show "touches h1 h2 (extent (c, unat a))"
            using n(2,3) a(2) by (intro touches_mono [OF h2(3)]) (auto simp: extent_def)
        qed (use h2 in auto)
        have ext: "extent (c, n) \<subseteq> extent (c, unat a)" "extent (b + 8, unat ?a) \<subseteq> extent (c, unat a)"
          using n(2) b sum(2) by (auto simp: extent_def)
        have "no_loss h L h2 (insert (c, unat a) (L - {(c, n)}))"
          using touches_brk [OF h2(3)] ext by (intro no_loss_sbrk [OF inv fit r [unfolded Some] inv2]) blast+
        moreover have "load_size h1 c = Some (of_nat n)" using D1(4) [OF x] by simp
        then have "malloc_grow_chunk h c a = Some (h2, True)"
          using True r Some b h2(1) sum(1) by (simp add: malloc_grow_chunk_def e sz add_size_def)
        moreover have "hmem h2 y = hmem h y" if "y \<notin> {c - 8 ..< c}" for y
          using h2(3) f(4) that by (simp add: touches_def grows_def)
        ultimately show thesis using grown inv2 by blast
      qed
    qed
  qed
qed

lemma bytes_at_agree:
  "bytes_at m p xs \<Longrightarrow> (\<And>a. p \<le> a \<Longrightarrow> a < p + length xs \<Longrightarrow> m' a = m a) \<Longrightarrow> bytes_at m' p xs"
  by (simp add: bytes_at_iff)

lemma bytes_at_keeps:
  assumes "keeps h h' L" "(c, n) \<in> L" "bytes_at (hmem h) c xs" "length xs \<le> n - 8" "8 \<le> c"
  shows "bytes_at (hmem h') c xs"
  using assms by (intro bytes_at_agree [OF assms(3)]) (force simp: keeps_def extent_def)

text \<open>What \<open>realloc\<close> makes of the contents: cut, or padded with zeros.\<close>

definition resized :: "nat \<Rightarrow> u8 list \<Rightarrow> u8 list" where
  "resized k xs = take k xs @ replicate (k - length xs) 0"

definition realloc_result :: "heap \<Rightarrow> chunk set \<Rightarrow> chunk \<Rightarrow> u8 list \<Rightarrow> nat \<Rightarrow> heap \<Rightarrow> addr \<Rightarrow> chunk list \<Rightarrow> bool" where
  "realloc_result h L x xs k h' p fs' \<longleftrightarrow>
     (if p = NULL then heap_inv h' fs' L \<and> keeps h h' L \<and> errno h' = Some ENOMEM \<and> no_loss h L h' L
      else heap_inv h' fs' (insert (p, k) (L - {x})) \<and> no_loss h L h' (insert (p, k) (L - {x})) \<and> keeps h h' (L - {x}) \<and> (p, k) \<notin> L - {x}
        \<and> bytes_at (hmem h') p (resized (k - 8) xs))"

lemma one_block:
  assumes "heap_inv h fs L" "(c, n) \<in> L" shows "(c, k) \<notin> L - {(c, n)}"
proof
  assume k: "(c, k) \<in> L - {(c, n)}"
  then have "extent (c, k) \<inter> extent (c, n) = {}" using live_extents(2) [OF assms, of "(c, k)"] by auto
  moreover have "16 \<le> n" "16 \<le> k" using inv_chunk(3) [OF assms(1), of "(c, n)"] inv_chunk(3) [OF assms(1), of "(c, k)"] assms(2) k by auto
  ultimately show False by (auto simp: extent_def)
qed

text \<open>Splitting the tail off a chunk in use and freeing it.\<close>

lemma split_tail:
  assumes inv: "heap_inv h fs L" and x: "(c, n) \<in> L" and k: "fits k" "k + 16 \<le> n"
  obtains h1 h2 where "set_size h c (of_nat k) = Some h1" "chunk_after h1 c = Some (c + k)"
    "make_free_chunk h1 (c + k) (of_nat (n - k)) = Some h2"
    "heap_inv h2 (insert_free (c + k, n - k) fs) (insert (c, k) (L - {(c, n)}))"
    "touches h h2 ({c - 8 ..< c} \<union> extent (c + k, n - k) \<union> free_extent fs)"
proof -
  note D = heap_invD [OF inv]
  let ?t = "(c + k, n - k)"
  have n: "chunk_ok h (c, n)" "8 < c" "16 \<le> n" "n < 2 ^ 63" "n mod 16 = 0" and k16: "k mod 16 = 0" "16 \<le> k"
    using inv_chunk [OF inv, of "(c, n)"] x k by (auto simp: chunk_ok_def fits_def)
  have oks: "chunk_ok h (c, k)" "chunk_ok h ?t"
    using n(1) k16 k by (simp_all add: chunk_ok_def mod16_add mod16_diff)
  have w: "within (c, k) (c, n)" "within ?t (c, n)" using k by (auto simp: within_def)
  have ap: "apart y (c, n)" if "y \<in> set fs \<union> (L - {(c, n)})" for y
    using that D(5) [of y "(c, n)"] x inv_apart [OF inv x] apart_sym by blast
  obtain h1 where h1: "set_size h c (of_nat k) = Some h1" "load_size h1 c = Some (of_nat k)"
    "touches h h1 {c - 8 ..< c}" "free_list h1 = free_list h" by (rule set_size_ok [OF D(1) oks(1)])
  have top: "top_ok (sbrk_top h) (insert (c, k) (insert ?t (set fs \<union> L)))"
  proof (rule top_ok_ends [OF D(6)])
    fix z assume "z \<in> insert (c, k) (insert ?t (set fs \<union> L))"
    then have "\<exists>w \<in> set fs \<union> L. within z w" using x w within_refl by blast
    then show "\<exists>w \<in> set fs \<union> L. fst z + snd z \<le> fst w + snd w" unfolding within_def by blast
  qed
  have inv1: "heap_inv h1 fs (insert (c, k) (L - {(c, n)}))"
  proof (rule heap_inv_resize [OF inv x oks(1)])
    show "\<forall>y \<in> set fs \<union> (L - {(c, n)}). apart y (c, k)" using ap within_apart [OF w(1)] by blast
    show "top_ok (sbrk_top h) (insert (c, k) (set fs \<union> L))" by (rule top_ok_ends [OF top]) blast
    show "touches h h1 (extent (c, k))" using n k16 by (intro touches_mono [OF h1(3)]) (auto simp: extent_def)
  qed (use h1 in auto)
  have apt: "\<forall>y \<in> set fs \<union> insert (c, k) (L - {(c, n)}). apart y ?t"
    using ap within_apart [OF w(2)] by (auto simp: apart_def)
  have ok1: "chunk_ok h1 ?t" using oks(2) touches_ok(2) [OF h1(3)] by simp
  have top1: "top_ok (sbrk_top h1) (insert ?t (set fs \<union> insert (c, k) (L - {(c, n)})))"
    unfolding touches_top [OF h1(3)] by (rule top_ok_ends [OF top]) blast
  obtain h2 where h2: "make_free_chunk h1 (c + k) (of_nat (n - k)) = Some h2"
    "heap_inv h2 (insert_free ?t fs) (insert (c, k) (L - {(c, n)}))" "touches h1 h2 (extent ?t \<union> free_extent fs)"
    by (rule make_free_chunk_ok [OF inv1 ok1 apt top1])
  have "touches h h2 ({c - 8 ..< c} \<union> extent ?t \<union> free_extent fs)" by (rule touches_trans [OF h1(3) h2(3)]) auto
  moreover have "chunk_after h1 c = Some (c + k)"
    using chunk_after_busy [OF h1(2)] k16 k n(4) by (simp add: mod16)
  ultimately show thesis using that h1(1) h2(1,2) by blast
qed

lemma realloc_shrink:
  assumes inv: "heap_inv h fs L" and x: "(c, n) \<in> L" and xs: "bytes_at (hmem h) c xs" "length xs = n - 8"
    and s: "s \<le> MALLOC_ALLOC_MAX" "s \<noteq> 0" "unat (chunk_size s) \<le> n"
  shows "\<exists>h' fs'. realloc h c s = Some (h', c) \<and> realloc_result h L (c, n) xs (unat (chunk_size s)) h' c fs'"
proof -
  let ?k = "unat (chunk_size s)"
  note D = heap_invD [OF inv] and ic = inv_chunk [OF inv, of "(c, n)"]
  have n: "chunk_ok h (c, n)" "8 < c" "16 \<le> n" "even n" "n < 2 ^ 63" "n mod 16 = 0"
    using ic x by (auto simp: chunk_ok_def)
  have k: "?k mod 16 = 0" "16 \<le> ?k" using chunk_size_ok(1) [OF s(1)] by (auto simp: fits_def)
  have ld: "load_size h c = Some (of_nat n)" using D(4) [OF x] by simp
  note cb = check_busy_live [OF ld n(4)] and sz = size_of_busy [OF ld n(4)]
  have cmp: "\<not> chunk_size s > of_nat n" "chunk_size s \<le> of_nat n" using s(3) n(5) by (simp_all add: word_le_nat_alt word_less_nat_alt unat_of_nat64)
  have ex: "unat (of_nat n - chunk_size s) = n - ?k"
    using s(3) n(5) by (subst unat_sub) (simp_all add: word_le_nat_alt unat_of_nat64)
  show ?thesis
  proof (cases "?k + 16 \<le> n")
    case False
    have "n = ?k" using False s(3) k n(6) mod16_diff [of n ?k] by (auto elim!: dvdE)
    then have "realloc_result h L (c, n) xs ?k h c fs"
      using n(2) inv x xs by (simp add: realloc_result_def resized_def insert_absorb)
    moreover have "\<not> MALLOC_CHUNK_MIN \<le> of_nat n - chunk_size s"
      using ex False by (simp add: word_le_nat_alt chunk_min)
    then have "realloc h c s = Some (h, c)" using s n(2) cmp leD [OF s(1)] by (simp add: realloc_def cb sz)
    ultimately show ?thesis by blast
  next
    case True
    let ?t = "(c + ?k, n - ?k)"
    obtain h1 h2 where h: "set_size h c (of_nat ?k) = Some h1" "chunk_after h1 c = Some (c + ?k)"
      "make_free_chunk h1 (c + ?k) (of_nat (n - ?k)) = Some h2"
      "heap_inv h2 (insert_free ?t fs) (insert (c, ?k) (L - {(c, n)}))"
      "touches h h2 ({c - 8 ..< c} \<union> extent ?t \<union> free_extent fs)"
      by (rule split_tail [OF inv x chunk_size_ok(1) [OF s(1)] True])
    note t = h(5)
    have w: "within ?t (c, n)" using s(3) by (simp add: within_def)
    have sub: "{c - 8 ..< c} \<subseteq> extent (c, n)" "extent ?t \<subseteq> extent (c, n)" using n(3) within_extent [OF w] n(2)
      by (auto simp: extent_def)
    have "extent y \<inter> ({c - 8 ..< c} \<union> extent ?t \<union> free_extent fs) = {}" if "y \<in> L - {(c, n)}" for y
      using live_extents(1) [OF inv, of y] live_extents(2) [OF inv x, of y] that sub by blast
    then have keep: "keeps h h2 (L - {(c, n)})" by (intro keeps_touches [OF t]) blast
    have xs': "bytes_at (hmem h2) c (take (?k - 8) xs)"
    proof (rule bytes_at_agree)
      show "bytes_at (hmem h) c (take (?k - 8) xs)"
        using xs(1) bytes_at_append [of "hmem h" c "take (?k - 8) xs" "drop (?k - 8) xs"] by simp
      show "hmem h2 a = hmem h a" if "c \<le> a" "a < c + length (take (?k - 8) xs)" for a
      proof -
        have "a \<in> extent (c, n)" "a \<notin> extent ?t" using that xs(2) n(2) s(3) by (auto simp: extent_def)
        then have "a \<notin> {c - 8 ..< c} \<union> extent ?t \<union> free_extent fs"
          using live_extents(1) [OF inv x] that(1) by auto
        then show ?thesis using t by (simp add: touches_def)
      qed
    qed
    have "of_nat n - chunk_size s = of_nat (n - ?k)" using s(3) by (simp add: of_nat_diff)
    moreover have "MALLOC_CHUNK_MIN \<le> of_nat n - chunk_size s" using ex True by (simp add: word_le_nat_alt chunk_min)
    ultimately have "realloc h c s = Some (h2, c)"
      using s n(2) cmp leD [OF s(1)] h(1-3) by (simp add: realloc_def cb sz)
    moreover have "extent (c, n) \<subseteq> extent ?t \<union> extent (c, ?k)" using n(2) by (auto simp: extent_def)
    then have "no_loss h L h2 (insert (c, ?k) (L - {(c, n)}))"
      using n(2) touches_brk [OF t] by (intro no_loss_split [OF inv x h(4)]) simp_all
    then have "realloc_result h L (c, n) xs ?k h2 c (insert_free ?t fs)"
      using n(2) h(4) keep xs' xs(2) s(3) one_block [OF inv x] by (simp add: realloc_result_def resized_def)
    ultimately show ?thesis by blast
  qed
qed

lemma live_grows_place:
  assumes inv: "heap_inv h fs L" and x: "(c, n) \<in> L" and xs: "bytes_at (hmem h) c xs" "length xs = n - 8"
    and a: "fits (unat a)" "n < unat a"
    and g: "malloc_grow_chunk h c a = Some (h1, True)" "heap_inv h1 fs (insert (c, unat a) (L - {(c, n)}))"
      "\<And>b. b \<notin> {c - 8 ..< c} \<Longrightarrow> hmem h1 b = hmem h b" "no_loss h L h1 (insert (c, unat a) (L - {(c, n)}))"
  shows "\<exists>h'. realloc_grow h c (of_nat n) a = Some (h', a) \<and> realloc_result h L (c, n) xs (unat a) h' c fs"
proof -
  have n: "8 < c" "16 \<le> n" "even n" "n < 2 ^ 63"
    using inv_chunk [OF inv, of "(c, n)"] x by auto
  have ld: "load_size h c = Some (of_nat n)" using heap_invD(4) [OF inv x] by simp
  let ?e = "c - 8 + n" and ?k = "unat a"
  have e: "chunk_end h c = Some ?e" using ld n by (simp add: chunk_end_def size_ref_def head_size unat_of_nat64)
  have d: "unat (a - of_nat n) = ?k - n"
    using a(2) n(4) by (subst unat_sub) (simp_all add: word_le_nat_alt unat_of_nat64)
  have ck: "chunk_ok h1 (c, ?k)" using inv_chunk(1) [OF g(2), of "(c, ?k)"] by simp
  have m: "mapped (hmem h1) ?e (?k - n)"
    using n a(2) by (intro mapped_chunk [OF heap_invD(1) [OF g(2)] ck]) auto
  define h2 where "h2 = h1\<lparr>hmem := put_bytes (hmem h1) ?e (replicate (?k - n) 0)\<rparr>"
  have t: "touches h1 h2 {?e ..< c - 8 + ?k}"
    using m a(2) by (auto simp: touches_def h2_def put_bytes_apply mapped_def)
  have r: "realloc_grow h c (of_nat n) a = Some (h2, a)"
    using memset_fill [OF m, of 0] by (simp add: realloc_grow_def e g(1) d h2_def)
  have "touches h1 h2 {c ..< c - 8 + ?k}" using n by (intro touches_mono [OF t]) auto
  then have inv2: "heap_inv h2 fs (insert (c, ?k) (L - {(c, n)}))"
    by (rule heap_inv_data [OF g(2) insertI1]) (simp add: h2_def)
  have "hmem h2 b = hmem h b" if "y \<in> L - {(c, n)}" "b \<in> extent y" for y b
  proof -
    have "extent y \<inter> extent (c, n) = {}" using live_extents(2) [OF inv x] that(1) by blast
    moreover have "extent y \<inter> extent (c, ?k) = {}" if "y \<noteq> (c, ?k)"
      using live_extents(2) [OF g(2), of "(c, ?k)" y] that \<open>y \<in> L - {(c, n)}\<close> by blast
    moreover have "y \<noteq> (c, ?k)"
      using calculation(1) n a(2) by (auto simp: extent_def)
    ultimately show ?thesis using that(2) t g(3) [of b] n(1,2) unfolding touches_def extent_def by fastforce
  qed
  then have "keeps h h2 (L - {(c, n)})" by (simp add: keeps_def)
  moreover have "bytes_at (hmem h2) c (xs @ replicate (?k - n) 0)"
  proof -
    have "bytes_at (hmem h2) c xs"
      using t g(3) xs(2) n by (intro bytes_at_agree [OF xs(1)]) (auto simp: touches_def)
    moreover have "bytes_at (hmem h2) ?e (replicate (?k - n) 0)"
      using bytes_at_put_same [of "hmem h1" ?e "replicate (?k - n) 0"] by (simp add: h2_def)
    moreover have "?e = c + length xs" using xs(2) n by simp
    ultimately show ?thesis by (simp add: bytes_at_append)
  qed
  moreover have "resized (?k - 8) xs = xs @ replicate (?k - n) 0" using xs(2) a(2) n(2) by (simp add: resized_def)
  ultimately have "realloc_result h L (c, n) xs ?k h2 c fs"
    using n(1) inv2 one_block [OF inv x] no_loss_trans [OF g(4) no_loss_data [OF g(2) inv2 t]] by (simp add: realloc_result_def)
  then show ?thesis using r by blast
qed

lemma malloc_resultD:
  assumes "malloc_result h fs L s h' p fs'" "p \<noteq> NULL"
  shows "heap_inv h' fs' (insert (p, unat (chunk_size s)) L)" "errno h' = errno h" "keeps h h' L"
    "bytes_at (hmem h') p (replicate (unat (chunk_size s) - 8) 0)" "x \<in> L \<Longrightarrow> extent x \<inter> extent (p, unat (chunk_size s)) = {}"
    "no_loss h L h' (insert (p, unat (chunk_size s)) L)"
  using assms by (auto simp: malloc_result_def keeps_def)

lemma extent_apart: "extent x \<inter> extent y = {} \<Longrightarrow> 8 \<le> fst x \<Longrightarrow> 8 \<le> fst y \<Longrightarrow> 0 < snd x \<Longrightarrow> 0 < snd y \<Longrightarrow> apart x y"
proof (rule ccontr)
  assume e: "extent x \<inter> extent y = {}" and "8 \<le> fst x" "8 \<le> fst y" "0 < snd x" "0 < snd y" and "\<not> apart x y"
  then have "max (fst x) (fst y) - 8 \<in> extent x \<inter> extent y" by (auto simp: apart_def extent_def max_def)
  then show False using e by simp
qed

text \<open>The block moves: fresh storage, a copy of the old contents, and the old block is freed.\<close>

lemma realloc_move:
  assumes inv: "heap_inv h fs L" and x: "(c, n) \<in> L" and xs: "bytes_at (hmem h) c xs" "length xs = n - 8"
    and k: "n < unat (chunk_size s)" and m: "malloc_result h fs L s h1 p fs1" "p \<noteq> NULL"
  shows "\<exists>h2 h3 fs3. memcpy (hmem h1) p c (n - 8) = Some (h2, p) \<and> malloc_free (h1\<lparr>hmem := h2\<rparr>) c = Some h3
    \<and> realloc_result h L (c, n) xs (unat (chunk_size s)) h3 p fs3"
proof -
  let ?k = "unat (chunk_size s)"
  note M = malloc_resultD [OF m]
  have n: "8 < c" "16 \<le> n" using inv_chunk [OF inv, of "(c, n)"] x by auto
  have p: "8 < p" "16 \<le> ?k" "chunk_ok h1 (p, ?k)" using inv_chunk [OF M(1), of "(p, ?k)"] by auto
  have ap: "apart (c, n) (p, ?k)" using M(5) [OF x] n p by (intro extent_apart) auto
  have xs1: "bytes_at (hmem h1) c xs" using n xs(2) by (intro bytes_at_keeps [OF M(3) x xs(1)]) auto
  have mp: "mapped (hmem h1) p (length xs)"
    using xs(2) k p by (intro mapped_chunk [OF heap_invD(1) [OF M(1)] p(3)]) auto
  define h2 where "h2 = h1\<lparr>hmem := put_bytes (hmem h1) p xs\<rparr>"
  have cp: "memcpy (hmem h1) p c (n - 8) = Some (hmem h2, p)"
  proof -
    have "p + length xs \<le> c \<or> c + length xs \<le> p" using ap xs(2) k by (auto simp: apart_def)
    then show ?thesis
      using memcpy_blit [OF mp bytes_at_mapped [OF xs1]] put_bytes_blit [OF xs1] xs(2) by (simp add: h2_def)
  qed
  have t2: "touches h1 h2 {p ..< p - 8 + ?k}"
    using mp xs(2) k p n by (auto simp: touches_def h2_def put_bytes_apply mapped_def)
  have inv2: "heap_inv h2 fs1 (insert (p, ?k) L)"
    by (rule heap_inv_data [OF M(1) insertI1 t2]) (simp add: h2_def)
  obtain h3 where h3: "malloc_free h2 c = Some h3" "heap_inv h3 (insert_free (c, n) fs1) (insert (p, ?k) L - {(c, n)})"
    "touches h2 h3 (extent (c, n) \<union> free_extent fs1)"
    using malloc_free_live [OF inv2, of c n] x by blast
  have "insert (p, ?k) L - {(c, n)} = insert (p, ?k) (L - {(c, n)})" using k by auto
  note inv3 = h3(2) [unfolded this]
  have "no_loss h2 (insert (p, ?k) L) h3 (insert (p, ?k) L - {(c, n)})"
    using x touches_brk [OF h3(3)] by (intro no_loss_free [OF inv2 _ h3(2)]) auto
  from no_loss_trans [OF no_loss_trans [OF M(6) no_loss_data [OF M(1) inv2 t2]] this]
  have loss: "no_loss h L h3 (insert (p, ?k) (L - {(c, n)}))"
    using \<open>insert (p, ?k) L - {(c, n)} = insert (p, ?k) (L - {(c, n)})\<close> by simp
  have far: "extent y \<inter> (extent (c, n) \<union> free_extent fs1) = {}" if "y \<in> insert (p, ?k) (L - {(c, n)})" for y
    using live_extents(1) [OF inv2, of y] live_extents(2) [OF inv2, of "(c, n)" y] x that k by blast
  have k2: "keeps h1 h2 L"
    using M(5) p t2 by (intro keeps_touches [OF t2]) (fastforce simp: extent_def)
  have "keeps h2 h3 (insert (p, ?k) (L - {(c, n)}))" using far by (intro keeps_touches [OF h3(3)]) blast
  then have keep: "keeps h2 h3 (L - {(c, n)})" "keeps h2 h3 {(p, ?k)}" by (auto intro: keeps_subset)
  have "keeps h h3 (L - {(c, n)})" by (rule keeps_trans [OF keeps_trans [OF M(3) k2] keep(1)]) auto
  moreover have "bytes_at (hmem h3) p (resized (?k - 8) xs)"
  proof -
    have r: "resized (?k - 8) xs = xs @ replicate (?k - n) 0" using xs(2) k n(2) by (simp add: resized_def)
    have z: "replicate (?k - 8) (0::u8) = replicate (n - 8) 0 @ replicate (?k - n) 0"
      using k n(2) by (simp add: replicate_add [symmetric])
    have "bytes_at (hmem h2) p (xs @ replicate (?k - n) 0)"
      using M(4) xs(2) bytes_at_put_same [of "hmem h1" p xs] bytes_at_put_other [of "p + length xs" "replicate (?k - n) 0" p xs "hmem h1"]
      unfolding z by (simp add: bytes_at_append h2_def)
    then show ?thesis using p k n(2) xs(2) unfolding r
      by (intro bytes_at_keeps [OF keep(2), of p ?k]) auto
  qed
  moreover have "(p, ?k) \<notin> L" using M(5) [of "(p, ?k)"] p by (auto simp: extent_def)
  ultimately have "realloc_result h L (c, n) xs ?k h3 p (insert_free (c, n) fs1)"
    using inv3 m(2) loss by (simp add: realloc_result_def)
  then show ?thesis using cp h3(1) by (auto simp: h2_def)
qed

lemma realloc_total:
  assumes inv: "heap_inv h fs L" and x: "(c, n) \<in> L" and xs: "bytes_at (hmem h) c xs" "length xs = n - 8"
    and s: "s \<noteq> 0"
  shows "\<exists>h' p fs'. realloc h c s = Some (h', p) \<and> realloc_result h L (c, n) xs (unat (chunk_size s)) h' p fs'"
proof (cases "s \<le> MALLOC_ALLOC_MAX")
  case False
  have "8 < c" using inv_chunk [OF inv, of "(c, n)"] x by auto
  then have "realloc h c s = Some (set_errno ENOMEM h, NULL)" using False s by (simp add: realloc_def not_le)
  moreover have "realloc_result h L (c, n) xs (unat (chunk_size s)) (set_errno ENOMEM h) NULL fs"
    using set_errno_inv [OF inv] no_loss_errno [OF inv] by (simp add: realloc_result_def keeps_def set_errno_def)
  ultimately show ?thesis by blast
next
  case le: True
  show ?thesis
  proof (cases "unat (chunk_size s) \<le> n")
    case True
    then show ?thesis using realloc_shrink [OF inv x xs le s] by blast
  next
    case False
    let ?k = "unat (chunk_size s)"
    have n: "8 < c" "16 \<le> n" "even n" "n < 2 ^ 63" "c mod 16 = 0" "n mod 16 = 0"
      using inv_chunk [OF inv, of "(c, n)"] x by (auto simp: chunk_ok_def)
    have ld: "load_size h c = Some (of_nat n)" using heap_invD(4) [OF inv x] by simp
    note cb = check_busy_live [OF ld n(3)] and sz = size_of_busy [OF ld n(3)]
    have cmp: "chunk_size s > of_nat n" "\<not> chunk_size s \<le> of_nat n"
      using False n(4) by (simp_all add: word_le_nat_alt word_less_nat_alt unat_of_nat64)
    have gt: "n < ?k" using False by simp
    note start = realloc_def leD [OF le] s cb sz cmp
    show ?thesis
    proof (cases rule: grow_live [OF inv x chunk_size_ok(1) [OF le] gt, case_names grown not_grown])
      case (grown h1)
      from live_grows_place [OF inv x xs chunk_size_ok(1) [OF le] gt grown] obtain h2 where
        "realloc_grow h c (of_nat n) (chunk_size s) = Some (h2, chunk_size s)" "realloc_result h L (c, n) xs ?k h2 c fs"
        by blast
      moreover have "\<not> MALLOC_CHUNK_MIN \<le> (0 :: u64)" by (simp add: chunk_min)
      ultimately show ?thesis using n(1) by (auto simp: start)
    next
      case (not_grown h1 fs1)
      have "realloc_walk h1 Free_list c (c - 8 + n) = Some None"
      proof (rule realloc_walk_none)
        obtain i j where "c = 16 * i" "n = 16 * j" using n(5,6) by (auto simp: mod_eq_0_iff_dvd dvd_def)
        moreover obtain i' where "i = Suc i'" using n(1) calculation by (cases i) auto
        ultimately have "c - 8 + n = 8 + 16 * (i' + j)" by simp
        then show "(c - 8 + n) mod 16 = 8" by (simp only: mod_mult_self2) simp
        show "\<forall>y \<in> set fs1. chunk_ok h1 y" using inv_chunk(1) [OF not_grown(2)] by blast
      qed (rule heap_invD(2) [OF not_grown(2)])
      then have rg: "realloc_grow h c (of_nat n) (chunk_size s) = Some (h1, of_nat n)"
        using ld n by (simp add: realloc_grow_def chunk_end_def size_ref_def head_size unat_of_nat64 not_grown(1))
      obtain h2 p fs2 where m: "malloc h1 s = Some (h2, p)" "malloc_result h1 fs1 L s h2 p fs2"
        using malloc_total [OF not_grown(2)] by blast
      show ?thesis
      proof (cases "p = NULL")
        case True
        then have "realloc h c s = Some (h2, NULL)" using n(1) rg m(1) by (simp add: start)
        moreover have "realloc_result h L (c, n) xs ?k h2 NULL fs1"
          using m(2) True not_grown(3) no_loss_trans [OF not_grown(4)] by (simp add: realloc_result_def malloc_result_def keeps_def)
        ultimately show ?thesis by blast
      next
        case False
        have xs1: "bytes_at (hmem h1) c xs" using n xs(2) by (intro bytes_at_keeps [OF not_grown(3) x xs(1)]) auto
        obtain m2 h3 fs3 where r: "memcpy (hmem h2) p c (n - 8) = Some (m2, p)" "malloc_free (h2\<lparr>hmem := m2\<rparr>) c = Some h3"
          "realloc_result h1 L (c, n) xs ?k h3 p fs3"
          using realloc_move [OF not_grown(2) x xs1 xs(2) gt m(2) False] by blast
        have "unat (malloc_size (of_nat n)) = n - 8"
          unfolding malloc_size_def using n by (subst unat_sub) (simp_all add: word_le_nat_alt head_size unat_of_nat64)
        then have "realloc h c s = Some (h3, p)" using n(1) rg m(1) False r(1,2) by (simp add: start)
        moreover have "realloc_result h L (c, n) xs ?k h3 p fs3"
          using r(3) not_grown(3) False keeps_trans [of h h1 L h3 "L - {(c, n)}"] no_loss_trans [OF not_grown(4)]
          by (simp add: realloc_result_def)
        ultimately show ?thesis by blast
      qed
    qed
  qed
qed

section \<open>Aligned allocation\<close>

text \<open>The first address of the alignment at or above a chunk address.\<close>

lemma align_ptr_ok:
  assumes p: "p mod 16 = 0" "p < 2 ^ 63" and j: "j < 64"
  shows "align_ptr p (2 ^ j) mod 2 ^ j = 0" "p \<le> align_ptr p (2 ^ j)" "align_ptr p (2 ^ j) < p + 2 ^ j"
    "(align_ptr p (2 ^ j) - p) mod 16 = 0"
proof -
  have u: "unat (of_nat p :: u64) = p" by (rule unat_of_nat64 [OF p(2)])
  have "(2::nat) ^ j \<le> 2 ^ 63" using j by (intro power_increasing) auto
  then have e: "align_ptr p (2 ^ j) = (p + (2 ^ j - 1)) div 2 ^ j * 2 ^ j"
    using align_up_pow [OF j, of "of_nat p"] p(2) by (simp add: align_ptr_def u)
  show "align_ptr p (2 ^ j) mod 2 ^ j = 0" by (simp add: e)
  have q: "p + (2 ^ j - 1) = align_ptr p (2 ^ j) + (p + (2 ^ j - 1)) mod 2 ^ j"
    unfolding e by (simp only: div_mult_mod_eq)
  moreover have "(p + (2 ^ j - 1)) mod 2 ^ j < 2 ^ j" by simp
  ultimately show le: "p \<le> align_ptr p (2 ^ j)" and "align_ptr p (2 ^ j) < p + 2 ^ j" by linarith+
  show "(align_ptr p (2 ^ j) - p) mod 16 = 0"
  proof (cases "4 \<le> j")
    case True
    then have "(16::nat) dvd 2 ^ j" using le_imp_power_dvd [of 4 j "2::nat"] by simp
    then have "16 dvd align_ptr p (2 ^ j)" unfolding e by (rule dvd_mult)
    then show ?thesis using mod16_diff [OF _ p(1)] by (simp add: mod_eq_0_iff_dvd)
  next
    case False
    then have "(2::nat) ^ j dvd 16" using le_imp_power_dvd [of j 4 "2::nat"] by simp
    then have "2 ^ j dvd p" using p(1) by (meson dvd_trans mod_0_imp_dvd)
    then obtain i where i: "p = 2 ^ j * i" by (elim dvdE)
    have d: "(p + (2 ^ j - 1)) div 2 ^ j = i" unfolding i by (subst div_mult_self4) simp_all
    have "align_ptr p (2 ^ j) = p" unfolding e d by (simp add: i mult.commute)
    then show ?thesis by simp
  qed
qed

text \<open>Giving the front of a chunk in use back, its rest staying in use.\<close>

lemma split_front:
  assumes inv: "heap_inv h fs L" and x: "(c, n) \<in> L" and o: "fits d" "d + 16 \<le> n"
  obtains h1 h2 where "set_size h (c + d) (of_nat (n - d)) = Some h1" "make_free_chunk h1 c (of_nat d) = Some h2"
    "heap_inv h2 (insert_free (c, d) fs) (insert (c + d, n - d) (L - {(c, n)}))"
    "touches h h2 (extent (c, n) \<union> free_extent fs)"
proof -
  note D = heap_invD [OF inv]
  let ?q = "(c + d, n - d)"
  let ?L = "L - {(c, n)}"
  have n: "chunk_ok h (c, n)" "8 < c" "16 \<le> n" and d: "d mod 16 = 0" "16 \<le> d"
    using inv_chunk [OF inv, of "(c, n)"] x o by (auto simp: fits_def)
  have oks: "chunk_ok h (c, d)" "chunk_ok h ?q" using n(1) d o by (simp_all add: chunk_ok_def mod16_add mod16_diff)
  have w: "within (c, d) (c, n)" "within ?q (c, n)" using o by (auto simp: within_def)
  have ap: "apart y (c, n)" if "y \<in> set fs \<union> ?L" for y
    using that D(5) [of y "(c, n)"] x inv_apart [OF inv x] apart_sym by blast
  obtain h1 where h1: "set_size h (c + d) (of_nat (n - d)) = Some h1" "load_size h1 (c + d) = Some (of_nat (n - d))"
    "touches h h1 {c + d - 8 ..< c + d}" "free_list h1 = free_list h" by (rule set_size_ok [OF D(1) oks(2)])
  have top: "top_ok (sbrk_top h) (insert (c, d) (insert ?q (set fs \<union> L)))"
  proof (rule top_ok_ends [OF D(6)])
    fix z assume "z \<in> insert (c, d) (insert ?q (set fs \<union> L))"
    then have "\<exists>w \<in> set fs \<union> L. within z w" using x w within_refl by blast
    then show "\<exists>w \<in> set fs \<union> L. fst z + snd z \<le> fst w + snd w" unfolding within_def by blast
  qed
  have sub: "heap_inv h fs ?L" by (rule heap_inv_subset [OF inv]) blast
  have inv1: "heap_inv h1 fs (insert ?q ?L)"
  proof (rule heap_inv_add [OF sub D(1-3)])
    show "\<forall>y \<in> ?L. load_size h (fst y) = Some (of_nat (snd y)) \<and> apart y ?q \<and> (\<forall>z \<in> set fs. apart y z)"
      using D(4) ap within_apart [OF w(2)] inv_apart [OF inv] by blast
    show "\<forall>y \<in> set fs. apart ?q y" using ap within_apart [OF w(2)] apart_sym by blast
    show "top_ok (sbrk_top h) (insert ?q (set fs \<union> ?L))" by (rule top_ok_ends [OF top]) blast
    show "touches h h1 (extent ?q)" using d o n(2) by (intro touches_mono [OF h1(3)]) (auto simp: extent_def)
  qed (use inv_chunk(1) [OF inv] oks h1 in auto)
  have ok1: "chunk_ok h1 (c, d)" using oks(1) touches_ok(2) [OF h1(3)] by simp
  have ap1: "\<forall>y \<in> set fs \<union> insert ?q ?L. apart y (c, d)"
    using ap within_apart [OF w(1)] by (auto simp: apart_def)
  have top1: "top_ok (sbrk_top h1) (insert (c, d) (set fs \<union> insert ?q ?L))"
    unfolding touches_top [OF h1(3)] by (rule top_ok_ends [OF top]) blast
  obtain h2 where h2: "make_free_chunk h1 c (of_nat d) = Some h2" "heap_inv h2 (insert_free (c, d) fs) (insert ?q ?L)"
    "touches h1 h2 (extent (c, d) \<union> free_extent fs)" by (rule make_free_chunk_ok [OF inv1 ok1 ap1 top1])
  have "touches h h2 (extent (c, n) \<union> free_extent fs)"
    using d o n(2) by (intro touches_trans [OF h1(3) h2(3)]) (auto simp: extent_def)
  then show thesis using that h1(1) h2(1,2) by blast
qed

lemma memalign_back_ok:
  assumes inv: "heap_inv h fs L" and x: "(c, n) \<in> L" and k: "fits (unat s)" "unat s \<le> n"
  obtains h' fs' where "memalign_back h c s = Some h'" "heap_inv h' fs' (insert (c, unat s) (L - {(c, n)}))"
    "keeps h h' (L - {(c, n)})" "no_loss h L h' (insert (c, unat s) (L - {(c, n)}))"
proof -
  let ?k = "unat s"
  have n: "8 < c" "16 \<le> n" "even n" "n < 2 ^ 63" "n mod 16 = 0"
    using inv_chunk [OF inv, of "(c, n)"] x by (auto simp: chunk_ok_def)
  have ld: "load_size h c = Some (of_nat n)" using heap_invD(4) [OF inv x] by simp
  note sz = size_of_busy [OF ld n(3)]
  have ex: "unat (of_nat n - s) = n - ?k"
    using k(2) n(4) by (subst unat_sub) (simp_all add: word_le_nat_alt unat_of_nat64)
  show thesis
  proof (cases "?k + 16 \<le> n")
    case True
    let ?t = "(c + ?k, n - ?k)"
    obtain h1 h2 where h: "set_size h c (of_nat ?k) = Some h1" "chunk_after h1 c = Some (c + ?k)"
      "make_free_chunk h1 (c + ?k) (of_nat (n - ?k)) = Some h2"
      "heap_inv h2 (insert_free ?t fs) (insert (c, ?k) (L - {(c, n)}))"
      "touches h h2 ({c - 8 ..< c} \<union> extent ?t \<union> free_extent fs)"
      by (rule split_tail [OF inv x k(1) True])
    have "MALLOC_CHUNK_MIN \<le> of_nat n - s" using ex True by (simp add: word_le_nat_alt chunk_min)
    moreover have "of_nat n - s = of_nat (n - ?k)" using k(2) by (simp add: of_nat_diff)
    moreover have "of_nat n - of_nat (n - ?k) = (of_nat ?k :: u64)" using k(2) by (simp add: of_nat_diff)
    ultimately have "memalign_back h c s = Some h2"
      using h(1-3) by (simp add: memalign_back_def sz add_size_def ld Let_def)
    moreover have "{c - 8 ..< c} \<union> extent ?t \<subseteq> extent (c, n)" using n(1,2) k(2) by (auto simp: extent_def)
    then have "extent y \<inter> ({c - 8 ..< c} \<union> extent ?t \<union> free_extent fs) = {}" if "y \<in> L - {(c, n)}" for y
      using live_extents(1) [OF inv, of y] live_extents(2) [OF inv x, of y] that by blast
    then have "keeps h h2 (L - {(c, n)})" by (intro keeps_touches [OF h(5)]) blast
    moreover have "extent (c, n) \<subseteq> extent ?t \<union> extent (c, ?k)" using n(1) by (auto simp: extent_def)
    then have "no_loss h L h2 (insert (c, ?k) (L - {(c, n)}))"
      using n(1) touches_brk [OF h(5)] by (intro no_loss_split [OF inv x h(4)]) simp_all
    ultimately show thesis using that h(4) by blast
  next
    case False
    have "n = ?k" using False k n(5) mod16_diff [of n ?k] by (auto simp: fits_def elim!: dvdE)
    moreover have "\<not> MALLOC_CHUNK_MIN \<le> of_nat n - s" using ex False by (simp add: word_le_nat_alt chunk_min)
    then have "memalign_back h c s = Some h" by (simp add: memalign_back_def sz)
    ultimately show thesis using that [of h fs] inv x by (simp add: insert_absorb)
  qed
qed

lemma memalign_front_ok:
  assumes inv: "heap_inv h fs L" and x: "(p, n) \<in> L" and j: "j < 64" "2 ^ j + 16 \<le> n"
  obtains h' fs' q m where "memalign_front h p (2 ^ j) = Some (h', q)" "heap_inv h' fs' (insert (q, m) (L - {(p, n)}))"
    "keeps h h' (L - {(p, n)})" "q mod 2 ^ j = 0" "n < m + 2 ^ j" "q < p + 2 ^ j" "p \<le> q" "q + m = p + n"
    "no_loss h L h' (insert (q, m) (L - {(p, n)}))"
proof -
  have n: "8 < p" "16 \<le> n" "even n" "n < 2 ^ 63" "n mod 16 = 0" "p < 2 ^ 63" "p mod 16 = 0"
    using inv_chunk [OF inv, of "(p, n)"] x by (auto simp: chunk_ok_def)
  let ?q = "align_ptr p (2 ^ j)"
  let ?d = "?q - p"
  note al = align_ptr_ok [OF n(7,6) j(1)]
  have "(2::nat) ^ j \<le> 2 ^ 63" using j(1) by (intro power_increasing) auto
  then have u: "unat (of_nat ?d :: u64) = ?d" using al(2,3) by (intro unat_of_nat64) linarith
  show thesis
  proof (cases "?d = 0")
    case True
    then have "memalign_front h p (2 ^ j) = Some (h, p)" "?q = p" using al(2) by (simp_all add: memalign_front_def)
    then show thesis
      using that [of h p fs n] inv x al(1) by (simp add: insert_absorb)
  next
    case False
    then have d: "fits ?d" using al(4) by (auto simp: fits_def elim!: dvdE)
    have dn: "?d + 16 \<le> n" using al(2,3) j(2) by linarith
    have q: "p + ?d = ?q" using al(2) by simp
    obtain h1 h2 where h: "set_size h (p + ?d) (of_nat (n - ?d)) = Some h1" "make_free_chunk h1 p (of_nat ?d) = Some h2"
      "heap_inv h2 (insert_free (p, ?d) fs) (insert (p + ?d, n - ?d) (L - {(p, n)}))"
      "touches h h2 (extent (p, n) \<union> free_extent fs)"
      by (rule split_front [OF inv x d dn])
    have ld: "load_size h p = Some (of_nat n)" using heap_invD(4) [OF inv x] by simp
    note sz = size_of_busy [OF ld n(3)]
    have "(of_nat ?d :: u64) \<noteq> 0" using u False by auto
    moreover have "\<not> (of_nat ?d :: u64) < MALLOC_CHUNK_MIN"
      using d by (simp add: word_less_nat_alt u chunk_min fits_def)
    moreover have "of_nat n - of_nat ?d = (of_nat (n - ?d) :: u64)" using dn by (simp add: of_nat_diff)
    ultimately have "memalign_front h p (2 ^ j) = Some (h2, ?q)"
      using h(1,2) by (simp add: memalign_front_def sz q Let_def)
    moreover have "extent y \<inter> (extent (p, n) \<union> free_extent fs) = {}" if "y \<in> L - {(p, n)}" for y
      using live_extents(1) [OF inv, of y] live_extents(2) [OF inv x, of y] that by blast
    then have "keeps h h2 (L - {(p, n)})" by (intro keeps_touches [OF h(4)]) blast
    moreover have "extent (p, n) \<subseteq> extent (p, ?d) \<union> extent (p + ?d, n - ?d)" using n(1) by (auto simp: extent_def)
    then have "no_loss h L h2 (insert (p + ?d, n - ?d) (L - {(p, n)}))"
      using n(1) touches_brk [OF h(4)] by (intro no_loss_split [OF inv x h(3)]) simp_all
    ultimately show thesis
      using that [of h2 ?q "insert_free (p, ?d) fs" "n - ?d"] h(3) al(1-3) dn q by simp
  qed
qed

lemma pow2_words:
  assumes "j < 64"
  shows "unat (2 ^ j :: u64) = 2 ^ j" "(2 ^ j :: u64) AND (2 ^ j - 1) = 0"
proof -
  have "(2::nat) ^ j < 2 ^ 64" using assms by (rule power_strict_increasing) simp
  then have "unat (of_nat (2 ^ j) :: u64) = 2 ^ j" by (simp only: unat_of_nat) simp
  then show "unat (2 ^ j :: u64) = 2 ^ j" by simp
  have "(2 ^ j :: u64) AND mask j = 0" by (rule bit_word_eqI) (auto simp: bit_simps)
  then show "(2 ^ j :: u64) AND (2 ^ j - 1) = 0" by (simp add: mask_eq_decr_exp)
qed

lemma memalign_align:
  assumes "j < 64"
  shows "max (2 ^ j) (UP_POT MALLOC_CHUNK_MIN) = (2 ^ max j 2 :: u64)"
proof -
  have u: "UP_POT MALLOC_CHUNK_MIN = (2 ^ 2 :: u64)" by (simp add: UP_POT_def chunk_min)
  show ?thesis
  proof (cases "2 \<le> j")
    case True
    then have "(2::nat) ^ 2 \<le> 2 ^ j" by (rule power_increasing) simp
    then have "(2 ^ 2 :: u64) \<le> 2 ^ j" using pow2_words(1) [OF assms] pow2_words(1) [of 2] by (simp add: word_le_nat_alt)
    then show ?thesis unfolding u using True by (simp add: max_absorb1 max.absorb1)
  next
    case False
    then have "(2::nat) ^ j \<le> 2 ^ 2" by (intro power_increasing) auto
    then have "(2 ^ j :: u64) \<le> 2 ^ 2" using pow2_words(1) [OF assms] pow2_words(1) [of 2] by (simp add: word_le_nat_alt)
    then show ?thesis unfolding u using False by (simp add: max_absorb2 max.absorb2)
  qed
qed

definition memalign_result :: "heap \<Rightarrow> chunk set \<Rightarrow> nat \<Rightarrow> u64 \<Rightarrow> heap \<Rightarrow> addr \<Rightarrow> chunk list \<Rightarrow> bool" where
  "memalign_result h L j s h' q fs' \<longleftrightarrow> keeps h h' L \<and>
     (if q = NULL then heap_inv h' fs' L \<and> errno h' = Some ENOMEM \<and> no_loss h L h' L
      else heap_inv h' fs' (insert (q, unat (chunk_size s)) L) \<and> no_loss h L h' (insert (q, unat (chunk_size s)) L) \<and> q mod 2 ^ j = 0
        \<and> (\<forall>x \<in> L. extent x \<inter> extent (q, unat (chunk_size s)) = {}))"

lemma memalign_total:
  assumes inv: "heap_inv h fs L" and j: "j < 64"
  shows "\<exists>h' q fs'. memalign h (2 ^ j) s = Some (h', q) \<and> memalign_result h L j s h' q fs'"
proof -
  let ?j = "max j 2" and ?k = "unat (chunk_size s)"
  have jj: "?j < 64" using j by simp
  note def = memalign_def [of h "2 ^ j" s, unfolded memalign_align [OF j] pow2_words(2) [OF j]]
  have p63: "(2::nat) ^ ?j \<le> 2 ^ 63" using jj by (intro power_increasing) auto
  have a: "\<not> (2 ^ ?j :: u64) > MALLOC_ALLOC_MAX"
    using p63 by (simp add: word_less_nat_alt pow2_words(1) [OF jj] alloc_max)
  show ?thesis
  proof (cases "s > MALLOC_ALLOC_MAX - 2 ^ ?j")
    case True
    then have "memalign h (2 ^ j) s = Some (set_errno ENOMEM h, NULL)" by (simp add: def)
    moreover have "memalign_result h L j s (set_errno ENOMEM h) NULL fs"
      using set_errno_inv [OF inv] no_loss_errno [OF inv] by (simp add: memalign_result_def keeps_def set_errno_def)
    ultimately show ?thesis by blast
  next
    case False
    have s: "unat s + 2 ^ ?j \<le> 2 ^ 64 - 41"
      using False p63 by (simp add: word_less_nat_alt not_less unat_sub word_le_nat_alt pow2_words(1) [OF jj] alloc_max)
    then have le: "s \<le> MALLOC_ALLOC_MAX" by (simp add: word_le_nat_alt alloc_max)
    note k = chunk_size_ok [OF le]
    let ?w = "chunk_size s + 2 ^ ?j + MALLOC_CHUNK_MIN"
    have k16: "?k + 2 ^ ?j + 16 < 2 ^ 64" using k(3) s p63 by auto
    have w: "unat ?w = ?k + 2 ^ ?j + 16"
      using k16 by (simp add: unat_word_ariths pow2_words(1) [OF jj] chunk_min)
    obtain h1 p fs1 where m: "malloc h ?w = Some (h1, p)" "malloc_result h fs L ?w h1 p fs1"
      using malloc_total [OF inv] by blast
    have step: "memalign h (2 ^ j) s = (if p = NULL then Some (h1, NULL) else do {
          (h, chunk_p) \<leftarrow> memalign_front h1 p (2 ^ ?j);
          h \<leftarrow> memalign_back h chunk_p (chunk_size s);
          Some (h, chunk_p) })"
      using a False m(1) by (simp add: def)
    show ?thesis
    proof (cases "p = NULL")
      case True
      then have "memalign_result h L j s h1 NULL fs1"
        using m(2) by (simp add: memalign_result_def malloc_result_def keeps_def)
      then show ?thesis using step True by auto
    next
      case p: False
      let ?N = "unat (chunk_size ?w)"
      note M = malloc_resultD [OF m(2) p]
      have "?w \<le> MALLOC_ALLOC_MAX" using m(1) p by (auto simp: malloc_def not_le split: if_splits)
      from chunk_size_ok(2) [OF this] have N: "?k + 2 ^ ?j + 24 \<le> ?N" by (simp add: w)
      obtain h2 fs2 q n where f: "memalign_front h1 p (2 ^ ?j) = Some (h2, q)"
        "heap_inv h2 fs2 (insert (q, n) (insert (p, ?N) L - {(p, ?N)}))" "keeps h1 h2 (insert (p, ?N) L - {(p, ?N)})"
        "q mod 2 ^ ?j = 0" "?N < n + 2 ^ ?j" "q < p + 2 ^ ?j" "p \<le> q" "q + n = p + ?N"
        "no_loss h1 (insert (p, ?N) L) h2 (insert (q, n) (insert (p, ?N) L - {(p, ?N)}))"
        by (rule memalign_front_ok [OF M(1) insertI1 jj]) (use N in simp)
      have sub: "extent (q, i) \<subseteq> extent (p, ?N)" if "i \<le> n" for i using f(7,8) that by (auto simp: extent_def)
      have notL: "y \<notin> L" if "extent y \<subseteq> extent (p, ?N)" "0 < snd y" for y
      proof
        assume "y \<in> L"
        then have "extent y = {}" using M(5) [of y] that(1) by blast
        then show False using that(2) by (auto simp: extent_def)
      qed
      have k0: "0 < ?k" "?k \<le> n" using k(1) N f(5) by (auto simp: fits_def)
      have sets: "insert (p, ?N) L - {(p, ?N)} = L" "insert (q, n) L - {(q, n)} = L"
        using notL [of "(p, ?N)"] notL [of "(q, n)"] sub [of n] k0 N by auto
      obtain h3 fs3 where b: "memalign_back h2 q (chunk_size s) = Some h3"
        "heap_inv h3 fs3 (insert (q, ?k) L)" "keeps h2 h3 L"
        "no_loss h2 (insert (q, n) L) h3 (insert (q, ?k) L)"
        using memalign_back_ok [OF f(2) [unfolded sets(1)] insertI1 k(1) k0(2)] unfolding sets(2) by blast
      have "keeps h h3 L"
        using keeps_trans [OF keeps_trans [OF M(3) f(3) [unfolded sets(1)]] b(3)] by blast
      moreover have "q mod 2 ^ j = 0"
      proof -
        have "(2::nat) ^ j dvd 2 ^ ?j" by (rule le_imp_power_dvd) simp
        moreover have "2 ^ ?j dvd q" using f(4) by (rule mod_0_imp_dvd)
        ultimately show ?thesis by (meson dvd_trans dvd_imp_mod_0)
      qed
      moreover have "\<forall>x \<in> L. extent x \<inter> extent (q, ?k) = {}" using M(5) sub [OF k0(2)] by blast
      ultimately have "memalign_result h L j s h3 q fs3"
        using b(2) f(7) p no_loss_trans [OF no_loss_trans [OF M(6) f(9) [unfolded sets(1)]] b(4)]
        by (simp add: memalign_result_def)
      moreover have "memalign h (2 ^ j) s = Some (h3, q)" using step p f(1) b(1) by simp
      ultimately show ?thesis by blast
    qed
  qed
qed

end
