(* ===== verification/MallocSpec.thy ===== *)
theory MallocSpec
  imports MallocResize
begin

text \<open>
  What the allocator promises: the abstract heap it implements, the interface its callers rely on, the
  programs that use it, and the properties.
\<close>

section \<open>A small heap\<close>

text \<open>One block in use at 32, one free chunk at 64, and room above.\<close>

definition sample_heap :: heap where
  "sample_heap = \<lparr>hmem = put64 (put64 (put64 (put_bytes (\<lambda>_. None) 16 (replicate 1000 7)) 24 32) 56 49) 64 0,
     free_list = 64, sbrk_start = 24, sbrk_top = 104, brk = 104, heap_start = 16, heap_end = 1016, errno = None\<rparr>"

lemma sample_loads: "load_size sample_heap 32 = Some 32" "load_size sample_heap 64 = Some 49" "next_of sample_heap 64 = Some 0"
  by (simp_all add: sample_heap_def load_size_eq next_of_def load64_put_same load64_put_other)

lemma sample_inv: "heap_inv sample_heap [(64, 48)] {(32, 32)}"
proof (rule heap_invI)
  have "mapped (put_bytes (\<lambda>_. None) 16 (replicate 1000 7)) 16 1000" by (rule mapped_put_inside) simp_all
  then show "arena_ok sample_heap" by (simp add: sample_heap_def arena_ok_def mapped_put_bytes)
  have "free_list sample_heap = 64" by (simp add: sample_heap_def)
  then show "chain sample_heap Free_list [(64, 48)]" by (simp add: sample_loads)
qed (simp_all add: gaps_def chunk_ok_def apart_def top_ok_def sample_loads, simp_all add: sample_heap_def)

lemma sample_bytes: "bytes_at (hmem sample_heap) 32 (replicate 24 7)"
  by (simp add: sample_heap_def bytes_at_put_other) (simp add: bytes_at_iff put_bytes_apply)

section \<open>The abstract allocator\<close>

text \<open>
  An abstract heap is the list of its free chunks and the set of chunks in use. Freeing puts
  the chunk back in order and joins it with its neighbours; allocation is first fit, or a
  chunk above all others, or refused.
\<close>

type_synonym abs_heap = "chunk list \<times> chunk set"

definition abs_free :: "chunk \<Rightarrow> abs_heap \<Rightarrow> abs_heap" where
  "abs_free x A = (insert_free x (fst A), snd A - {x})"

definition abs_malloc :: "nat \<Rightarrow> abs_heap \<Rightarrow> addr \<Rightarrow> abs_heap \<Rightarrow> bool" where
  "abs_malloc k A c A' \<longleftrightarrow>
     (case first_fit k (fst A) of
        Some (d, r) \<Rightarrow> c = d \<and> A' = (r, insert (c, k) (snd A))
      | None \<Rightarrow> c = NULL \<and> A' = A
          \<or> c \<noteq> NULL \<and> (\<forall>x \<in> set (fst A) \<union> snd A. fst x + snd x \<le> c) \<and> A' = (fst A, insert (c, k) (snd A)))"

abbreviation heap_rel :: "heap \<Rightarrow> abs_heap \<Rightarrow> bool" where
  "heap_rel h A \<equiv> heap_inv h (fst A) (snd A)"

lemma malloc_abs:
  assumes inv: "heap_inv h fs L" and s: "s \<le> MALLOC_ALLOC_MAX"
  shows "\<exists>h' c A'. malloc h s = Some (h', c) \<and> abs_malloc (unat (chunk_size s)) (fs, L) c A' \<and> heap_rel h' A'
    \<and> (c = NULL \<longrightarrow> heap_end h < brk h + unat (chunk_size s) + 15)"
proof -
  let ?k = "unat (chunk_size s)"
  note fit = chunk_size_ok(1) [OF s] and D = heap_invD [OF inv]
  show ?thesis
  proof (cases "first_fit ?k fs")
    case (Some r)
    then obtain c fs' where r: "first_fit ?k fs = Some (c, fs')" by (cases r) auto
    obtain h' where h': "malloc h s = Some (h', c)" "heap_inv h' fs' (insert (c, ?k) L)"
      by (rule malloc_found [OF inv s r])
    have "c \<noteq> NULL" using inv_chunk(2) [OF h'(2), of "(c, ?k)"] by simp
    then show ?thesis using h' r
      by (intro exI [of _ h'] exI [of _ c] exI [of _ "(fs', insert (c, ?k) L)"]) (simp add: abs_malloc_def)
  next
    case None
    obtain h1 r where r: "malloc_sbrk_aligned h (chunk_size s) = (h1, r)" by (cases "malloc_sbrk_aligned h (chunk_size s)")
    show ?thesis
    proof (cases r)
      case (Some b)
      obtain h' where h': "malloc h s = Some (h', b + 8)" "heap_inv h' fs (insert (b + 8, ?k) L)"
        by (rule malloc_fresh [OF inv s None r [unfolded Some]])
      have "brk h \<le> b" using sbrk_aligned_ok [OF D(1) fit r] Some by simp
      then have "fst x + snd x \<le> b + 8" if "x \<in> set fs \<union> L" for x
        using inv_chunk(1) [OF inv that] by (simp add: chunk_ok_def)
      then show ?thesis using h' None
        by (intro exI [of _ h'] exI [of _ "b + 8"] exI [of _ "(fs, insert (b + 8, ?k) L)"]) (simp add: abs_malloc_def)
    next
      case n: None
      note f = sbrk_failed [OF inv fit r [unfolded n]]
      have "malloc_walk h Free_list (chunk_size s) = Some (h, NULL)"
        using malloc_walk_ok [OF D(1) fit D(2,3) inv_walk_pre [OF inv]] None by auto
      then have "malloc h s = Some (set_errno ENOMEM h1, NULL)" using s r n by (simp add: malloc_def not_less)
      then show ?thesis using set_errno_inv [OF f(1)] None f(3)
        by (intro exI [of _ "set_errno ENOMEM h1"] exI [of _ NULL] exI [of _ "(fs, L)"]) (simp add: abs_malloc_def)
    qed
  qed
qed

section \<open>Allocation functions\<close>

text \<open>
  What the callers of an allocation function rely on: it returns, it keeps the heap well-formed and the
  contents of the blocks in use, a block it hands out overlaps none of them, and no memory is lost.
\<close>

locale allocator =
  fixes alloc :: "heap \<Rightarrow> u64 \<Rightarrow> (heap \<times> addr) option"
  assumes alloc_ok: "heap_inv h fs L \<Longrightarrow> \<exists>h' c fs'. alloc h s = Some (h', c) \<and> keeps h h' L \<and>
    (if c = NULL then heap_inv h' fs' L \<and> errno h' = Some ENOMEM \<and> no_loss h L h' L
     else heap_inv h' fs' (insert (c, unat (chunk_size s)) L) \<and> no_loss h L h' (insert (c, unat (chunk_size s)) L)
       \<and> (\<forall>x \<in> L. extent x \<inter> extent (c, unat (chunk_size s)) = {}))"
begin

lemma new_block:
  assumes inv: "heap_inv h fs L" and a: "alloc h s = Some (h', c)" "c \<noteq> NULL"
  obtains fs' where "heap_inv h' fs' (insert (c, unat (chunk_size s)) L)" "keeps h h' L"
    "(c, unat (chunk_size s)) \<notin> L" "no_loss h L h' (insert (c, unat (chunk_size s)) L)"
proof -
  obtain fs' where r: "heap_inv h' fs' (insert (c, unat (chunk_size s)) L)" "keeps h h' L"
    "no_loss h L h' (insert (c, unat (chunk_size s)) L)" "\<forall>x \<in> L. extent x \<inter> extent (c, unat (chunk_size s)) = {}"
    using alloc_ok [OF inv, of s] a by auto
  have "extent (c, unat (chunk_size s)) \<noteq> {}"
    using inv_chunk(3) [OF r(1), of "(c, unat (chunk_size s))"] by (simp add: extent_def)
  then have "(c, unat (chunk_size s)) \<notin> L" using r(4) by blast
  then show thesis using that r(1-3) by blast
qed

lemma alloc_free:
  assumes inv: "heap_inv h fs L" and a: "alloc h s = Some (h', c)" "c \<noteq> NULL"
  shows "\<exists>h'' fs''. malloc_free h' c = Some h'' \<and> heap_inv h'' fs'' L \<and> keeps h h'' L \<and> no_loss h L h'' L"
proof -
  obtain fs' where n: "heap_inv h' fs' (insert (c, unat (chunk_size s)) L)" "keeps h h' L"
    "(c, unat (chunk_size s)) \<notin> L" "no_loss h L h' (insert (c, unat (chunk_size s)) L)" by (rule new_block [OF inv a])
  let ?x = "(c, unat (chunk_size s))"
  obtain h'' where f: "malloc_free h' c = Some h''" "heap_inv h'' (insert_free ?x fs') (insert ?x L - {?x})"
    "touches h' h'' (extent ?x \<union> free_extent fs')" by (rule malloc_free_live [OF n(1) insertI1])
  have "extent y \<inter> (extent ?x \<union> free_extent fs') = {}" if "y \<in> L" for y
    using live_extents(1) [OF n(1), of y] live_extents(2) [OF n(1), of ?x y] that n(3) by blast
  then have "keeps h h'' L" using keeps_trans [OF n(2) keeps_touches [OF f(3)], of L] by blast
  moreover have L: "insert ?x L - {?x} = L" using n(3) by simp
  moreover have "no_loss h L h'' L"
    using no_loss_trans [OF n(4) no_loss_free [OF n(1) insertI1 f(2) touches_brk [OF f(3)]]] unfolding L .
  ultimately show ?thesis using f(1,2) by auto
qed

lemma alloc_two:
  assumes inv: "heap_inv h fs L" and a: "alloc h s = Some (h1, c)" "c \<noteq> NULL" "alloc h1 t = Some (h2, d)" "d \<noteq> NULL"
  shows "c + unat (chunk_size s) \<le> d \<or> d + unat (chunk_size t) \<le> c"
proof -
  obtain fs1 where n: "heap_inv h1 fs1 (insert (c, unat (chunk_size s)) L)"
    by (rule new_block [OF inv a(1,2)])
  obtain fs2 where m: "heap_inv h2 fs2 (insert (d, unat (chunk_size t)) (insert (c, unat (chunk_size s)) L))"
    "(d, unat (chunk_size t)) \<notin> insert (c, unat (chunk_size s)) L"
    by (rule new_block [OF n a(3,4)])
  have "apart (c, unat (chunk_size s)) (d, unat (chunk_size t))"
    using m(2) by (intro heap_invD(5) [OF m(1)]) auto
  then show ?thesis by (simp add: apart_def)
qed

end

interpretation plain: allocator malloc
proof
  fix h fs L s
  assume inv: "heap_inv h fs L"
  obtain h' c fs' where r: "malloc h s = Some (h', c)" "malloc_result h fs L s h' c fs'"
    using malloc_total [OF inv] by blast
  have "keeps h h' L" using r(2) by (cases "c = NULL") (auto simp: malloc_result_def keeps_def)
  then show "\<exists>h' c fs'. malloc h s = Some (h', c) \<and> keeps h h' L \<and>
    (if c = NULL then heap_inv h' fs' L \<and> errno h' = Some ENOMEM \<and> no_loss h L h' L
     else heap_inv h' fs' (insert (c, unat (chunk_size s)) L) \<and> no_loss h L h' (insert (c, unat (chunk_size s)) L)
       \<and> (\<forall>x \<in> L. extent x \<inter> extent (c, unat (chunk_size s)) = {}))"
    using r by (auto simp: malloc_result_def split: if_splits)
qed

text \<open>\<open>memalign\<close> with the alignment of a cache line.\<close>

lemma memalign_allocator: "j < 64 \<Longrightarrow> allocator (\<lambda>h. memalign h (2 ^ j))"
proof
  fix h fs L s
  assume j: "j < 64" and inv: "heap_inv h fs L"
  obtain h' c fs' where r: "memalign h (2 ^ j) s = Some (h', c)" "memalign_result h L j s h' c fs'"
    using memalign_total [OF inv j] by blast
  then show "\<exists>h' c fs'. memalign h (2 ^ j) s = Some (h', c) \<and> keeps h h' L \<and>
    (if c = NULL then heap_inv h' fs' L \<and> errno h' = Some ENOMEM \<and> no_loss h L h' L
     else heap_inv h' fs' (insert (c, unat (chunk_size s)) L) \<and> no_loss h L h' (insert (c, unat (chunk_size s)) L)
       \<and> (\<forall>x \<in> L. extent x \<inter> extent (c, unat (chunk_size s)) = {}))"
    by (auto simp: memalign_result_def)
qed

interpretation cache_line: allocator "\<lambda>h. memalign h (2 ^ 6)"
  by (rule memalign_allocator) simp

section \<open>Programs that use the heap\<close>

text \<open>
  A step of a program: a call of the allocator, a write inside a block in use, or a call of
  \<open>sbrk\<close> for memory of its own. The second component of the state is the set of
  chunks the program holds.
\<close>

type_synonym heap_state = "heap \<times> chunk set"

inductive heap_step :: "heap_state \<Rightarrow> heap_state \<Rightarrow> bool" where
  malloc_step: "malloc h s = Some (h', c) \<Longrightarrow> c \<noteq> NULL \<Longrightarrow> heap_step (h, L) (h', insert (c, unat (chunk_size s)) L)"
| malloc_fails: "malloc h s = Some (h', NULL) \<Longrightarrow> heap_step (h, L) (h', L)"
| memalign_step: "j < 64 \<Longrightarrow> memalign h (2 ^ j) s = Some (h', c) \<Longrightarrow> c \<noteq> NULL \<Longrightarrow>
    heap_step (h, L) (h', insert (c, unat (chunk_size s)) L)"
| memalign_fails: "j < 64 \<Longrightarrow> memalign h (2 ^ j) s = Some (h', NULL) \<Longrightarrow> heap_step (h, L) (h', L)"
| realloc_step: "(c, n) \<in> L \<Longrightarrow> s \<noteq> 0 \<Longrightarrow> realloc h c s = Some (h', p) \<Longrightarrow> p \<noteq> NULL \<Longrightarrow>
    heap_step (h, L) (h', insert (p, unat (chunk_size s)) (L - {(c, n)}))"
| realloc_fails: "(c, n) \<in> L \<Longrightarrow> s \<noteq> 0 \<Longrightarrow> realloc h c s = Some (h', NULL) \<Longrightarrow> heap_step (h, L) (h', L)"
| free_step: "(c, n) \<in> L \<Longrightarrow> malloc_free h c = Some h' \<Longrightarrow> heap_step (h, L) (h', L - {(c, n)})"
| write_step: "(c, n) \<in> L \<Longrightarrow> c \<le> a \<Longrightarrow> a < c - 8 + n \<Longrightarrow> store8 (hmem h) a b = Some m \<Longrightarrow>
    heap_step (h, L) (h\<lparr>hmem := m\<rparr>, L)"
| sbrk_step: "0 \<le> incr \<Longrightarrow> sbrk h incr = (h', r) \<Longrightarrow> heap_step (h, L) (h', L)"

definition fresh_heap :: "heap \<Rightarrow> bool" where
  "fresh_heap h \<longleftrightarrow> arena_ok h \<and> free_list h = NULL \<and> sbrk_top h = NULL"

lemma fresh_inv: "fresh_heap h \<Longrightarrow> heap_inv h [] {}"
  by (simp add: fresh_heap_def heap_inv_def gaps_def top_ok_def)

lemma live_bytes:
  assumes "heap_inv h fs L" "(c, n) \<in> L"
  obtains xs where "bytes_at (hmem h) c xs" "length xs = n - 8"
proof -
  have "chunk_ok h (c, n)" "8 < c" "16 \<le> n" using inv_chunk [OF assms(1), of "(c, n)"] assms(2) by auto
  then have "mapped (hmem h) c (n - 8)" by (intro mapped_chunk [OF heap_invD(1) [OF assms(1)]]) auto
  then show thesis using mapped_obtain_bytes that by blast
qed

lemma heap_step_inv:
  assumes "heap_step S S'" "heap_inv (fst S) fs (snd S)"
  shows "\<exists>fs'. heap_inv (fst S') fs' (snd S')"
  using assms
proof (induction rule: heap_step.induct)
  case (malloc_step h s h' c L)
  then show ?case using malloc_total [of h fs L s] by (auto simp: malloc_result_def split: if_splits)
next
  case (malloc_fails h s h' L)
  then show ?case using malloc_total [of h fs L s] by (auto simp: malloc_result_def split: if_splits)
next
  case (memalign_step j h s h' c L)
  then show ?case using memalign_total [of h fs L j s] by (auto simp: memalign_result_def split: if_splits)
next
  case (memalign_fails j h s h' L)
  then show ?case using memalign_total [of h fs L j s] by (auto simp: memalign_result_def split: if_splits)
next
  case (realloc_step c n L s h h' p)
  then obtain xs where "bytes_at (hmem h) c xs" "length xs = n - 8" using live_bytes by force
  then show ?case using realloc_step realloc_total [of h fs L c n xs s]
    by (auto simp: realloc_result_def split: if_splits)
next
  case (realloc_fails c n L s h h')
  then obtain xs where "bytes_at (hmem h) c xs" "length xs = n - 8" using live_bytes by force
  then show ?case using realloc_fails realloc_total [of h fs L c n xs s]
    by (auto simp: realloc_result_def split: if_splits)
next
  case (free_step c n L h h')
  then obtain h'' where "malloc_free h c = Some h''" "heap_inv h'' (insert_free (c, n) fs) (L - {(c, n)})"
    using malloc_free_live [of h fs L c n] by (metis fst_conv snd_conv)
  then show ?case using free_step(2) by auto
next
  case (write_step c n L a h b m)
  have "m = (hmem h)(a \<mapsto> b)" using write_step.hyps(4) by (simp add: store8_def split: if_splits)
  then have t: "touches h (h\<lparr>hmem := m\<rparr>) {c ..< c - 8 + n}"
    using write_step.hyps(2,3) by (simp add: touches_def)
  have "heap_inv h fs L" using write_step.prems by simp
  from heap_inv_data [OF this write_step.hyps(1) t] show ?case by auto
next
  case (sbrk_step incr h h' r L)
  have "grows h h'" "sbrk_top h' = sbrk_top h"
    using sbrk_step heap_invD(1) [of h fs L] by (auto simp: grows_def sbrk_def set_errno_def arena_ok_def split: if_splits)
  then show ?case using sbrk_step heap_inv_grows [of h fs L h'] heap_invD(6) [of h fs L] by auto
qed

lemma heap_steps_inv:
  assumes "heap_step\<^sup>*\<^sup>* S S'" "heap_inv (fst S) fs (snd S)"
  shows "\<exists>fs'. heap_inv (fst S') fs' (snd S')"
  using assms by (induction rule: rtranclp_induct) (use heap_step_inv in blast)+

section \<open>Properties\<close>

text \<open>
  C1: however a program allocates, aligns, resizes, frees, writes inside its blocks and extends
  the break, starting from an untouched heap: the free list stays a list in address order of flagged
  chunks with gaps between them, the chunks in use are unflagged, aligned, inside the heap and
  overlap neither each other nor a free chunk.
\<close>

theorem heap_invariant:
  assumes "fresh_heap h0" and "heap_step\<^sup>*\<^sup>* (h0, {}) (h, L)"
  shows "\<exists>fs. heap_inv h fs L"
  using heap_steps_inv [OF assms(2)] fresh_inv [OF assms(1)] by auto

definition tiny_heap :: heap where
  "tiny_heap = \<lparr>hmem = put_bytes (\<lambda>_. None) 16 (replicate 200 0), free_list = 0, sbrk_start = 0, sbrk_top = 0,
     brk = 20, heap_start = 16, heap_end = 216, errno = None\<rparr>"

lemma tiny_fresh: "fresh_heap tiny_heap"
proof -
  have "mapped (put_bytes (\<lambda>_. None) 16 (replicate 200 0)) 16 200" by (rule mapped_put_inside) simp_all
  then show ?thesis by (simp add: fresh_heap_def tiny_heap_def arena_ok_def)
qed

theorem heap_invariant_witness:
  "\<exists>h c fs. malloc tiny_heap 10 = Some (h, c) \<and> c \<noteq> NULL \<and> heap_inv h fs {(c, unat (chunk_size 10))}"
proof -
  have "\<exists>h c A. malloc tiny_heap 10 = Some (h, c) \<and> abs_malloc (unat (chunk_size 10)) ([], {}) c A \<and> heap_rel h A
    \<and> (c = NULL \<longrightarrow> heap_end tiny_heap < brk tiny_heap + unat (chunk_size 10) + 15)"
    by (rule malloc_abs [OF fresh_inv [OF tiny_fresh]]) (simp add: word_le_nat_alt alloc_max)
  moreover have "unat (chunk_size 10) = 32" by code_simp
  ultimately obtain h c where m: "malloc tiny_heap 10 = Some (h, c)" "c \<noteq> NULL"
    by (auto simp: tiny_heap_def)
  have "heap_step\<^sup>*\<^sup>* (tiny_heap, {}) (h, {(c, unat (chunk_size 10))})"
    by (rule r_into_rtranclp) (rule malloc_step [OF m])
  from heap_invariant [OF tiny_fresh this] m show ?thesis by blast
qed

text \<open>
  C2: no walk over the free list runs forever and no access leaves the heap: in every state a
  program can reach, \<open>malloc\<close>, \<open>calloc\<close>, \<open>memalign\<close>, and \<open>free\<close> and \<open>realloc\<close> on any block
  it holds return.
\<close>

theorem heap_calls_return:
  assumes "fresh_heap h0" and "heap_step\<^sup>*\<^sup>* (h0, {}) (h, L)"
  shows "(\<forall>s. malloc h s \<noteq> None) \<and> (\<forall>n s. calloc h n s \<noteq> None) \<and> (\<forall>j s. j < 64 \<longrightarrow> memalign h (2 ^ j) s \<noteq> None)
    \<and> (\<forall>(c, n) \<in> L. malloc_free h c \<noteq> None \<and> (\<forall>s. realloc h c s \<noteq> None))"
proof -
  obtain fs where inv: "heap_inv h fs L"
    using heap_steps_inv [OF assms(2)] fresh_inv [OF assms(1)] by auto
  have m: "malloc h s \<noteq> None" for s using malloc_total [OF inv, of s] by auto
  have "malloc_free h c \<noteq> None \<and> realloc h c s \<noteq> None" if x: "(c, n) \<in> L" for c n s
  proof -
    have f: "malloc_free h c \<noteq> None" using malloc_free_live [OF inv x] by (metis option.distinct(1))
    obtain xs where "bytes_at (hmem h) c xs" "length xs = n - 8" by (rule live_bytes [OF inv x])
    then have "realloc h c s \<noteq> None" if "s \<noteq> 0" using realloc_total [OF inv x _ _ that] by fastforce
    moreover have "realloc h c 0 \<noteq> None" using f m by (cases "c = NULL") (auto simp: realloc_def)
    ultimately show ?thesis using f by auto
  qed
  moreover have "calloc h n s \<noteq> None" for n s using m by (simp add: calloc_def split: prod.splits)
  moreover have "memalign h (2 ^ j) s \<noteq> None" if "j < 64" for j s using memalign_total [OF inv that, of s] by auto
  ultimately show ?thesis using m by blast
qed

theorem heap_calls_return_witness: "malloc tiny_heap 10 \<noteq> None \<and> malloc tiny_heap 1000 \<noteq> None"
  using heap_calls_return [OF tiny_fresh rtranclp.rtrancl_refl] by blast

text \<open>
  C3: a block \<open>malloc\<close> hands out is aligned to 16, holds at least the bytes asked for, is cleared,
  overlaps no block in use, and the contents of those are as before; the heap stays well-formed.
\<close>

theorem malloc_block:
  assumes "heap_inv h fs L" and "malloc h s = Some (h', c)" and "c \<noteq> NULL"
  shows "c mod 16 = 0 \<and> unat s \<le> unat (chunk_size s) - 8
    \<and> bytes_at (hmem h') c (replicate (unat (chunk_size s) - 8) 0)
    \<and> (\<forall>x \<in> L. extent x \<inter> extent (c, unat (chunk_size s)) = {} \<and> (\<forall>a \<in> extent x. hmem h' a = hmem h a))
    \<and> (\<exists>fs'. heap_inv h' fs' (insert (c, unat (chunk_size s)) L))"
proof -
  obtain fs' where r: "malloc_result h fs L s h' c fs'" using malloc_total [OF assms(1), of s] assms(2) by auto
  note M = malloc_resultD [OF r assms(3)]
  have "s \<le> MALLOC_ALLOC_MAX" using assms(2,3) by (auto simp: malloc_def not_le split: if_splits)
  from chunk_size_ok(2) [OF this] have "unat s \<le> unat (chunk_size s) - 8" by simp
  moreover have "c mod 16 = 0" using inv_chunk(1) [OF M(1), of "(c, unat (chunk_size s))"] by (simp add: chunk_ok_def)
  ultimately show ?thesis using M r assms(3) by (auto simp: malloc_result_def)
qed

theorem malloc_block_witness:
  "\<exists>h c. malloc sample_heap 20 = Some (h, c) \<and> c \<noteq> NULL \<and> c mod 16 = 0
    \<and> bytes_at (hmem h) c (replicate (unat (chunk_size 20) - 8) 0)"
proof -
  have k: "unat (chunk_size 20) = 32" by code_simp
  have "\<exists>h c A. malloc sample_heap 20 = Some (h, c) \<and> abs_malloc (unat (chunk_size 20)) ([(64, 48)], {(32, 32)}) c A
    \<and> heap_rel h A \<and> (c = NULL \<longrightarrow> heap_end sample_heap < brk sample_heap + unat (chunk_size 20) + 15)"
    by (rule malloc_abs [OF sample_inv]) (simp add: word_le_nat_alt alloc_max)
  then obtain h c where "malloc sample_heap 20 = Some (h, c)" "c \<noteq> NULL"
    unfolding k by (auto simp: sample_heap_def)
  then show ?thesis using malloc_block [OF sample_inv] by blast
qed

text \<open>
  C4: \<open>malloc\<close> implements first fit on the list of free chunks: it hands out the front of the
  first free chunk that is large enough, keeps the rest of that chunk when it can hold a chunk, and
  otherwise hands out memory above everything, or nothing.
\<close>

theorem malloc_refines:
  assumes "heap_rel h A" and "s \<le> MALLOC_ALLOC_MAX"
  shows "\<exists>h' c A'. malloc h s = Some (h', c) \<and> abs_malloc (unat (chunk_size s)) A c A' \<and> heap_rel h' A'"
  using malloc_abs [OF assms] by (cases A) auto

theorem malloc_refines_witness:
  "\<exists>h'. malloc sample_heap 20 = Some (h', 64) \<and> heap_rel h' ([(96, 16)], {(64, 32), (32, 32)})"
proof -
  have k: "unat (chunk_size 20) = 32" by code_simp
  have "\<exists>h' c A'. malloc sample_heap 20 = Some (h', c) \<and> abs_malloc (unat (chunk_size 20)) ([(64, 48)], {(32, 32)}) c A' \<and> heap_rel h' A'"
    by (rule malloc_refines) (simp_all add: sample_inv word_le_nat_alt alloc_max)
  then show ?thesis unfolding k by (auto simp: abs_malloc_def)
qed

text \<open>
  C6: \<open>malloc\<close> does not fail while memory is left: it returns a block whenever some free chunk is
  large enough or the heap has room for the chunk above the break.
\<close>

theorem malloc_succeeds:
  assumes "heap_inv h fs L" and "s \<le> MALLOC_ALLOC_MAX"
    and "(\<exists>x \<in> set fs. unat (chunk_size s) \<le> snd x) \<or> brk h + unat (chunk_size s) + 15 \<le> heap_end h"
  shows "\<exists>h' c. malloc h s = Some (h', c) \<and> c \<noteq> NULL"
proof -
  obtain h' c A' where m: "malloc h s = Some (h', c)" "abs_malloc (unat (chunk_size s)) (fs, L) c A'"
    "c = NULL \<longrightarrow> heap_end h < brk h + unat (chunk_size s) + 15" "heap_rel h' A'"
    using malloc_abs [OF assms(1,2)] by blast
  have "first_fit k xs \<noteq> None" if "x \<in> set xs" "k \<le> snd x" for x k xs
    using that by (induction xs) auto
  then have "c \<noteq> NULL" if "\<exists>x \<in> set fs. unat (chunk_size s) \<le> snd x"
    using that m(2,4) inv_chunk(2) [of h' "fst A'" "snd A'" "(c, unat (chunk_size s))"]
    by (fastforce simp: abs_malloc_def split: option.splits)
  then show ?thesis using m(1,3) assms(3) by auto
qed

theorem malloc_succeeds_witness: "\<exists>h' c. malloc sample_heap 800 = Some (h', c) \<and> c \<noteq> NULL"
proof (rule malloc_succeeds [OF sample_inv])
  have "unat (chunk_size 800) = 816" by code_simp
  then show "(\<exists>x \<in> set [(64, 48)]. unat (chunk_size 800) \<le> snd x)
    \<or> brk sample_heap + unat (chunk_size 800) + 15 \<le> heap_end sample_heap" by (simp add: sample_heap_def)
qed (simp add: word_le_nat_alt alloc_max)

text \<open>
  C5: \<open>free\<close> puts the block back at its place in the list of free chunks, joined with the free
  chunks it touches on either side; the free memory grows by exactly the chunk, and no other block changes.
\<close>

theorem free_refines:
  assumes "heap_rel h A" and "(c, n) \<in> snd A"
  shows "\<exists>h'. malloc_free h c = Some h' \<and> heap_rel h' (abs_free (c, n) A) \<and> keeps h h' (snd A - {(c, n)})
    \<and> sum_list (map snd (fst (abs_free (c, n) A))) = n + sum_list (map snd (fst A))"
proof -
  obtain h' where h': "malloc_free h c = Some h'" "heap_inv h' (insert_free (c, n) (fst A)) (snd A - {(c, n)})"
    "touches h h' (extent (c, n) \<union> free_extent (fst A))"
    by (rule malloc_free_live [OF assms])
  have "extent y \<inter> (extent (c, n) \<union> free_extent (fst A)) = {}" if "y \<in> snd A - {(c, n)}" for y
    using live_extents(1) [OF assms(1), of y] live_extents(2) [OF assms, of y] that by blast
  then have "keeps h h' (snd A - {(c, n)})" by (intro keeps_touches [OF h'(3)]) blast
  then show ?thesis using h'(1,2) by (simp add: abs_free_def insert_free_sum)
qed

theorem free_refines_witness: "\<exists>h'. malloc_free sample_heap 32 = Some h' \<and> heap_rel h' ([(32, 80)], {})"
  using free_refines [of sample_heap "([(64, 48)], {(32, 32)})" 32 32] sample_inv by (auto simp: abs_free_def coalesce_def)

text \<open>
  C7: \<open>realloc\<close> of a block in use returns a block of the new size with the old contents, cut or
  padded with zeros, that overlaps no other block in use, and touches none of these; when it returns NULL, with \<open>ENOMEM\<close>, the old
  block is still in use and unchanged. No memory is lost: what the old block gives up is free again.
\<close>

theorem realloc_correct:
  assumes "heap_inv h fs L" and "(c, n) \<in> L" and "bytes_at (hmem h) c xs" and "length xs = n - 8" and "s \<noteq> 0"
  shows "\<exists>h' p fs'. realloc h c s = Some (h', p) \<and>
    (if p = NULL then heap_inv h' fs' L \<and> keeps h h' L \<and> errno h' = Some ENOMEM \<and> no_loss h L h' L
     else heap_inv h' fs' (insert (p, unat (chunk_size s)) (L - {(c, n)}))
       \<and> no_loss h L h' (insert (p, unat (chunk_size s)) (L - {(c, n)})) \<and> keeps h h' (L - {(c, n)})
       \<and> bytes_at (hmem h') p (resized (unat (chunk_size s) - 8) xs)
       \<and> (\<forall>y \<in> L - {(c, n)}. extent y \<inter> extent (p, unat (chunk_size s)) = {}))"
proof -
  obtain h' p fs' where r: "realloc h c s = Some (h', p)" "realloc_result h L (c, n) xs (unat (chunk_size s)) h' p fs'"
    using realloc_total [OF assms] by blast
  have "extent y \<inter> extent (p, unat (chunk_size s)) = {}" if "p \<noteq> NULL" "y \<in> L - {(c, n)}" for y
    using r(2) that live_extents(2) [of h' fs' "insert (p, unat (chunk_size s)) (L - {(c, n)})" "(p, unat (chunk_size s))" y]
    by (auto simp: realloc_result_def)
  then show ?thesis using r by (auto simp: realloc_result_def)
qed

theorem realloc_correct_witness:
  "\<exists>h' p fs'. realloc sample_heap 32 50 = Some (h', p) \<and>
    (if p = NULL then heap_inv h' fs' {(32, 32)} \<and> keeps sample_heap h' {(32, 32)} \<and> errno h' = Some ENOMEM
       \<and> no_loss sample_heap {(32, 32)} h' {(32, 32)}
     else heap_inv h' fs' (insert (p, unat (chunk_size 50)) ({(32, 32)} - {(32, 32)}))
       \<and> no_loss sample_heap {(32, 32)} h' (insert (p, unat (chunk_size 50)) ({(32, 32)} - {(32, 32)})) \<and> keeps sample_heap h' ({(32, 32)} - {(32, 32)})
       \<and> bytes_at (hmem h') p (resized (unat (chunk_size 50) - 8) (replicate 24 7))
       \<and> (\<forall>y \<in> {(32, 32)} - {(32, 32)}. extent y \<inter> extent (p, unat (chunk_size 50)) = {}))"
  by (rule realloc_correct [OF sample_inv _ sample_bytes]) simp_all

text \<open>
  For any power of two, \<open>memalign\<close> returns NULL with \<open>ENOMEM\<close> or a block aligned to it, of exactly the chunk
  size \<open>malloc\<close> would use, that overlaps no block in use; what it splits off in front and behind is free again.
\<close>

theorem memalign_correct:
  assumes "heap_inv h fs L" and "j < 64"
  shows "\<exists>h' q fs'. memalign h (2 ^ j) s = Some (h', q) \<and> keeps h h' L \<and>
    (if q = NULL then heap_inv h' fs' L \<and> errno h' = Some ENOMEM \<and> no_loss h L h' L
     else heap_inv h' fs' (insert (q, unat (chunk_size s)) L) \<and> no_loss h L h' (insert (q, unat (chunk_size s)) L)
       \<and> q mod 2 ^ j = 0
       \<and> (\<forall>x \<in> L. extent x \<inter> extent (q, unat (chunk_size s)) = {}))"
  using memalign_total [OF assms] by (simp add: memalign_result_def)

theorem memalign_correct_witness:
  "\<exists>h' q fs'. memalign sample_heap (2 ^ 7) 30 = Some (h', q) \<and> keeps sample_heap h' {(32, 32)} \<and>
    (if q = NULL then heap_inv h' fs' {(32, 32)} \<and> errno h' = Some ENOMEM \<and> no_loss sample_heap {(32, 32)} h' {(32, 32)}
     else heap_inv h' fs' (insert (q, unat (chunk_size 30)) {(32, 32)})
       \<and> no_loss sample_heap {(32, 32)} h' (insert (q, unat (chunk_size 30)) {(32, 32)}) \<and> q mod 2 ^ 7 = 0
       \<and> (\<forall>x \<in> {(32, 32)}. extent x \<inter> extent (q, unat (chunk_size 30)) = {}))"
  by (rule memalign_correct [OF sample_inv]) simp

text \<open>
  Freeing or resizing a chunk that is already free is refused with \<open>ENOMEM\<close> and changes nothing.
\<close>

theorem double_free:
  assumes "heap_inv h fs L" and "(c, n) \<in> set fs" and "s \<noteq> 0"
  shows "malloc_free h c = Some (set_errno ENOMEM h) \<and> realloc h c s = Some (set_errno ENOMEM h, NULL)"
proof -
  note ic = inv_chunk [OF assms(1), of "(c, n)"]
  have "load_size h c = Some (of_nat n + 1)" by (rule chain_loads [OF heap_invD(2) [OF assms(1)] assms(2)])
  then have "check_busy h c = Some (set_errno ENOMEM h, False)" using ic assms(2) by (intro check_busy_free) auto
  moreover have "c \<noteq> NULL" using ic assms(2) by auto
  ultimately show ?thesis using assms(3) by (simp add: malloc_free_def realloc_def)
qed

theorem double_free_witness:
  "malloc_free sample_heap 64 = Some (set_errno ENOMEM sample_heap)
   \<and> realloc sample_heap 64 5 = Some (set_errno ENOMEM sample_heap, NULL)"
  by (rule double_free [OF sample_inv]) simp_all

text \<open>
  \<open>reallocf\<close> with size zero frees the block twice: \<open>realloc\<close> already freed it and returned NULL, so
  the cleanup of the failure case runs too. The second call is caught by the free flag, but \<open>errno\<close>
  reports \<open>ENOMEM\<close> for a call that did what it was asked for.
\<close>

theorem reallocf_zero:
  assumes "heap_inv h fs L" and "(c, n) \<in> L"
  shows "\<exists>h'. malloc_free h c = Some h' \<and> reallocf h c 0 = Some (set_errno ENOMEM h', NULL)"
proof -
  obtain h' m where h': "malloc_free h c = Some h'" "even m" "load_size h' c = Some (of_nat m + 1)"
    using malloc_free_live [OF assms] by metis
  have c: "c \<noteq> NULL" using inv_chunk(2) [OF assms(1), of "(c, n)"] assms(2) by auto
  have "malloc_free h' c = Some (set_errno ENOMEM h')"
    using c by (simp add: malloc_free_def check_busy_free [OF h'(3,2)])
  then show ?thesis using h'(1) c by (simp add: reallocf_def realloc_def)
qed

theorem reallocf_zero_witness:
  "\<exists>h'. malloc_free sample_heap 32 = Some h' \<and> reallocf sample_heap 32 0 = Some (set_errno ENOMEM h', NULL)"
  by (rule reallocf_zero [OF sample_inv]) simp

text \<open>
  The last free chunk is never enlarged in place, although \<open>malloc\<close> tries to: the end
  it compares with the top of the heap includes the flag bit of the size, so the test fails for every free chunk.
\<close>

theorem malloc_never_grows:
  assumes "heap_inv h fs L" and "(c, n) \<in> set fs"
  shows "malloc_grow_chunk h c s = Some (h, False)"
proof (rule grow_free_dead)
  show "load_size h c = Some (of_nat n + 1)" by (rule chain_loads [OF heap_invD(2) [OF assms(1)] assms(2)])
  show "n < 2 ^ 63" using inv_chunk(6) [OF assms(1), of "(c, n)"] assms(2) by simp
  show "c - 8 + (n + 1) \<noteq> sbrk_top h" using inv_walk_pre [OF assms(1)] assms(2) by fastforce
qed

theorem malloc_never_grows_witness: "malloc_grow_chunk sample_heap 64 1000 = Some (sample_heap, False)"
  by (rule malloc_never_grows [OF sample_inv]) simp

text \<open>
  \<open>calloc\<close> and \<open>reallocarray\<close> refuse exactly the products that do not fit a \<^verbatim>\<open>size_t\<close>, and otherwise
  allocate the true product.
\<close>

theorem calloc_overflow:
  "calloc h n e = (if unat n * unat e < 2 ^ 64 then malloc h (of_nat (unat n * unat e)) else Some (set_errno ENOMEM h, NULL))
   \<and> reallocarray h p n e = (if unat n * unat e < 2 ^ 64 then realloc h p (of_nat (unat n * unat e)) else Some (set_errno ENOMEM h, NULL))"
proof -
  have ov: "fst (mul_overflow n e) \<longleftrightarrow> 2 ^ 64 \<le> unat n * unat e"
  proof -
    have top: "unat (- 1 :: u64) = 2 ^ 64 - 1" by (simp add: unsigned_minus_1_eq_mask mask_eq_exp_minus_1)
    have d: "- 1 div y < x \<longleftrightarrow> 2 ^ 64 \<le> unat x * unat y" if "y \<noteq> 0" for x y :: u64
    proof -
      have "0 < unat y" using that by (simp add: unat_gt_0)
      then have "(2 ^ 64 - 1) div unat y < unat x \<longleftrightarrow> 2 ^ 64 - 1 < unat x * unat y" by (rule div_less_iff_less_mult)
      then show ?thesis by (simp add: word_less_nat_alt unat_div top less_eq_Suc_le)
    qed
    show ?thesis by (auto simp: mul_overflow_def d mult.commute)
  qed
  have "n * e = of_nat (unat n * unat e)" by simp
  then show ?thesis using ov by (simp add: calloc_def reallocarray_def mul_overflow_def not_less)
qed

subsection \<open>Statistics and the POSIX entry point\<close>

lemma mallinfo_walk_ok:
  "chain h p fs \<Longrightarrow> get_slot h p = Some pf \<Longrightarrow> \<forall>y \<in> set fs. even (snd y) \<and> 0 < fst y \<Longrightarrow>
   mallinfo_walk h pf b t = Some (b + of_nat (length fs), t + of_nat (sum_list (map snd fs)))"
proof (induction fs arbitrary: p pf b t)
  case Nil
  then show ?case by (subst mallinfo_walk.simps) simp
next
  case (Cons x fs)
  obtain c n where x: "x = (c, n)" by (cases x)
  have c: "pf = c" "load_size h c = Some (of_nat n + 1)" "chain h (Next c) fs" "even n" "0 < c"
    using Cons.prems by (auto simp: x)
  have "next_of h c = Some (hd_addr fs)" using chain_slot [OF c(3)] by simp
  then show ?case
    using Cons.IH [OF c(3), of "hd_addr fs"] Cons.prems(3) c
    by (subst mallinfo_walk.simps) (simp add: size_of_free x algebra_simps)
qed

text \<open>\<open>mallinfo\<close> counts the free chunks and their bytes.\<close>

lemma mallinfo_counts:
  assumes "heap_inv h fs L"
  shows "\<exists>i. mallinfo h = Some i \<and> ordblks i = of_nat (length fs) \<and> fordblks i = of_nat (sum_list (map snd fs))
    \<and> uordblks i = arena i - fordblks i"
proof -
  have "\<forall>y \<in> set fs. even (snd y) \<and> 0 < fst y" using inv_chunk(2,4) [OF assms] by force
  from mallinfo_walk_ok [OF heap_invD(2) [OF assms] _ this, of "free_list h" 0 0] show ?thesis
    by (simp add: mallinfo_def Let_def)
qed

lemma usable_size:
  assumes "heap_inv h fs L" "(c, n) \<in> L"
  shows "malloc_usable_size h c = Some (of_nat (n - 8))"
proof -
  have n: "even n" "16 \<le> n" using inv_chunk(3,4) [OF assms(1), of "(c, n)"] assms(2) by auto
  have "size_of h c = Some (of_nat n)" using heap_invD(4) [OF assms] n by (intro size_of_busy) auto
  then show ?thesis
    using n by (simp add: malloc_usable_size_def chunk_usable_def malloc_size_def MALLOC_HEAD_SIZE_def of_nat_diff)
qed

lemma posix_memalign_ok:
  assumes "heap_inv h fs L" "3 \<le> j" "j < 64"
  shows "\<exists>h' r fs'. posix_memalign h (2 ^ j) s = Some (h', r) \<and> keeps h h' L \<and>
    (case r of Inl e \<Rightarrow> e = ENOMEM \<and> heap_inv h' fs' L
     | Inr q \<Rightarrow> heap_inv h' fs' (insert (q, unat (chunk_size s)) L) \<and> q mod 2 ^ j = 0)"
proof -
  obtain h' q fs' where m: "memalign h (2 ^ j) s = Some (h', q)" "memalign_result h L j s h' q fs'"
    using memalign_total [OF assms(1,3)] by blast
  have "(2::nat) ^ 3 dvd 2 ^ j" using assms(2) by (rule le_imp_power_dvd)
  then have "unat (2 ^ j mod 8 :: u64) = 0" by (simp add: unat_mod pow2_words(1) [OF assms(3)] dvd_imp_mod_0)
  then have "(2 ^ j mod 8 :: u64) = 0" by (rule unat_eq_zero [THEN iffD1])
  moreover have "unat (2 ^ j :: u64) \<noteq> 0" by (simp add: pow2_words(1) [OF assms(3)])
  then have "(2 ^ j :: u64) \<noteq> 0" using assms(3) by simp
  ultimately have "posix_memalign h (2 ^ j) s = Some (h', if q = NULL then Inl ENOMEM else Inr q)"
    using m(1) by (simp add: posix_memalign_def pow2_words(2) [OF assms(3)])
  then show ?thesis using m(2) by (auto simp: memalign_result_def)
qed

end
