(* ===== verification/TimeZone.thy ===== *)
theory TimeZone
  imports Calendar Strtol
begin

text \<open>
  Time zones of \<open>libc/time\<close>: \<open>tzset\<close> (parsing \<open>TZ\<close>), \<open>__tzcalc_limits\<close> (the
  changes to and from daylight saving time in a year), \<open>localtime_r\<close> and
  \<open>mktime\<close>.  The globals \<open>__tzinfo\<close>, \<open>timezone\<close>, \<open>daylight\<close> and the names are
  one record; the value of the environment variable is an argument.  The
  locks around the globals are not modelled.
\<close>

section \<open>The globals\<close>

record tzrule =
  r_ch :: char
  r_m :: int
  r_n :: int
  r_d :: int
  r_s :: int
  r_change :: int
  r_offset :: int

record tzstate =
  tz_north :: bool
  tz_year :: int
  tz_rule0 :: tzrule
  tz_rule1 :: tzrule
  tzname_std :: string
  tzname_dst :: string
  timezone :: int
  daylight :: bool

definition EPOCH_YEAR :: int where "EPOCH_YEAR = 1970"
definition EPOCH_WDAY :: int where "EPOCH_WDAY = 4"
definition EPOCH_YEARS_SINCE_LEAP :: int where "EPOCH_YEARS_SINCE_LEAP = 2"
definition EPOCH_YEARS_SINCE_CENTURY :: int where "EPOCH_YEARS_SINCE_CENTURY = 70"
definition EPOCH_YEARS_SINCE_LEAP_CENTURY :: int where "EPOCH_YEARS_SINCE_LEAP_CENTURY = 370"

lemmas epoch_consts =
  EPOCH_YEAR_def EPOCH_WDAY_def EPOCH_YEARS_SINCE_LEAP_def EPOCH_YEARS_SINCE_CENTURY_def
  EPOCH_YEARS_SINCE_LEAP_CENTURY_def

section \<open>\<open>__tzcalc_limits\<close>\<close>

text \<open>The days of the months before month \<open>m\<close>; the result is the sum and the final \<open>j\<close>.\<close>

function month_days :: "int list \<Rightarrow> int \<Rightarrow> int \<Rightarrow> int \<Rightarrow> (int \<times> int) option" where
  "month_days ip j m days =
     (if j < m then do { len \<leftarrow> arr_get ip (j - 1); month_days ip (j + 1) m (days + len) }
      else Some (days, j))"
  by auto
termination by (relation "measure (\<lambda>(_, j, m, _). nat (m - j))") auto

function last_week :: "int \<Rightarrow> int \<Rightarrow> int" where
  "last_week len m_day = (if m_day \<ge> len then last_week len (m_day - DAYSPERWEEK) else m_day)"
  by auto
termination by (relation "measure (\<lambda>(len, m_day). nat (m_day - len + 1))") (auto simp: DAYSPERWEEK_def)

declare month_days.simps [simp del] last_week.simps [simp del]

definition rule_days :: "int \<Rightarrow> int \<Rightarrow> tzrule \<Rightarrow> int option" where
  "rule_days year year_days r =
     (if r_ch r = CHR ''J'' then
        Some (year_days + r_d r + of_bool (isleap year \<and> r_d r \<ge> 60) - 1)
      else if r_ch r = CHR ''D'' then Some (year_days + r_d r)
      else do {
        let ip = month_lengths (isleap year);
        (days, j) \<leftarrow> month_days ip 1 (r_m r) year_days;
        let m_wday = cmod (EPOCH_WDAY + days) DAYSPERWEEK;
        let wday_diff = r_d r - m_wday;
        let wday_diff = (if wday_diff < 0 then wday_diff + DAYSPERWEEK else wday_diff);
        let m_day = (r_n r - 1) * DAYSPERWEEK + wday_diff;
        len \<leftarrow> arr_get ip (j - 1);
        Some (days + last_week len m_day) })"

definition limits_rule :: "int \<Rightarrow> int \<Rightarrow> tzrule \<Rightarrow> tzrule option" where
  "limits_rule year year_days r = do {
     days \<leftarrow> rule_days year year_days r;
     days \<leftarrow> ck32 days;
     Some (r\<lparr>r_change := days * SECSPERDAY + r_s r + r_offset r\<rparr>) }"

text \<open>The \<open>int\<close> product of the years overflows beyond the year 5885000: \<open>None\<close>.\<close>

definition tzcalc_limits :: "int \<Rightarrow> tzstate \<Rightarrow> (tzstate \<times> bool) option" where
  "tzcalc_limits year tz =
     (if year < EPOCH_YEAR then Some (tz, False)
      else do {
        let tz = tz\<lparr>tz_year := year\<rparr>;
        let years = year - EPOCH_YEAR;
        d365 \<leftarrow> ck32 (years * 365);
        year_days \<leftarrow> ck32 (d365 + cdiv (years - 1 + EPOCH_YEARS_SINCE_LEAP) 4
          - cdiv (years - 1 + EPOCH_YEARS_SINCE_CENTURY) 100
          + cdiv (years - 1 + EPOCH_YEARS_SINCE_LEAP_CENTURY) 400);
        r0 \<leftarrow> limits_rule year year_days (tz_rule0 tz);
        r1 \<leftarrow> limits_rule year year_days (tz_rule1 tz);
        let tz = tz\<lparr>tz_rule0 := r0, tz_rule1 := r1\<rparr>;
        Some (tz\<lparr>tz_north := r_change (tz_rule0 tz) < r_change (tz_rule1 tz)\<rparr>, True) })"

section \<open>\<open>localtime_r\<close>\<close>

text \<open>Which of the two rules is in force at time \<open>t\<close>.\<close>

definition dst_at :: "tzstate \<Rightarrow> int \<Rightarrow> bool" where
  "dst_at tz t =
     (if tz_north tz then t \<ge> r_change (tz_rule0 tz) \<and> t < r_change (tz_rule1 tz)
      else t \<ge> r_change (tz_rule0 tz) \<or> t < r_change (tz_rule1 tz))"

definition year_limits :: "int \<Rightarrow> tzstate \<Rightarrow> (tzstate \<times> bool) option" where
  "year_limits y tz = (if y = tz_year tz then Some (tz, True) else tzcalc_limits y tz)"

text \<open>The offset is taken off the clock, which may leave the hour out of range by a day.\<close>

definition shift_hms :: "int \<Rightarrow> tm \<Rightarrow> tm" where
  "shift_hms offset res =
     (let hours = cdiv offset SECSPERHOUR;
          offset = cmod offset SECSPERHOUR;
          mins = cdiv offset SECSPERMIN;
          secs = cmod offset SECSPERMIN;
          res = res\<lparr>tm_sec := tm_sec res - secs, tm_min := tm_min res - mins,
                    tm_hour := tm_hour res - hours\<rparr>;
          res = (if tm_sec res \<ge> SECSPERMIN
                 then res\<lparr>tm_min := tm_min res + 1, tm_sec := tm_sec res - SECSPERMIN\<rparr>
                 else if tm_sec res < 0
                 then res\<lparr>tm_min := tm_min res - 1, tm_sec := tm_sec res + SECSPERMIN\<rparr> else res)
      in if tm_min res \<ge> MINSPERHOUR
         then res\<lparr>tm_hour := tm_hour res + 1, tm_min := tm_min res - MINSPERHOUR\<rparr>
         else if tm_min res < 0
         then res\<lparr>tm_hour := tm_hour res - 1, tm_min := tm_min res + MINSPERHOUR\<rparr> else res)"

definition next_day :: "int list \<Rightarrow> tm \<Rightarrow> tm option" where
  "next_day ip res = do {
     let res = res\<lparr>tm_yday := tm_yday res + 1, tm_wday := tm_wday res + 1\<rparr>;
     let res = (if tm_wday res > 6 then res\<lparr>tm_wday := 0\<rparr> else res);
     let res = res\<lparr>tm_mday := tm_mday res + 1, tm_hour := tm_hour res - HOURSPERDAY\<rparr>;
     len \<leftarrow> arr_get ip (tm_mon res);
     if tm_mday res > len then do {
       let res = res\<lparr>tm_mday := tm_mday res - len, tm_mon := tm_mon res + 1\<rparr>;
       if tm_mon res = 12 then do {
         year \<leftarrow> ck32 (tm_year res + 1);
         Some (res\<lparr>tm_mon := 0, tm_year := year, tm_yday := 0\<rparr>)
       } else Some res
     } else Some res }"

definition prev_day :: "int list \<Rightarrow> tm \<Rightarrow> tm option" where
  "prev_day ip res = do {
     let res = res\<lparr>tm_yday := tm_yday res - 1, tm_wday := tm_wday res - 1\<rparr>;
     let res = (if tm_wday res < 0 then res\<lparr>tm_wday := 6\<rparr> else res);
     let res = res\<lparr>tm_mday := tm_mday res - 1, tm_hour := tm_hour res + 24\<rparr>;
     if tm_mday res = 0 then do {
       let res = res\<lparr>tm_mon := tm_mon res - 1\<rparr>;
       res \<leftarrow> (if tm_mon res < 0 then do {
                 year \<leftarrow> ck32 (tm_year res - 1);
                 base \<leftarrow> ck32 (year + YEAR_BASE);
                 Some (res\<lparr>tm_mon := 11, tm_year := year, tm_yday := 364 + of_bool (isleap base)\<rparr>)
               } else Some res);
       len \<leftarrow> arr_get ip (tm_mon res);
       Some (res\<lparr>tm_mday := len\<rparr>)
     } else Some res }"

definition shift_clock :: "int list \<Rightarrow> int \<Rightarrow> tm \<Rightarrow> tm option" where
  "shift_clock ip offset res =
     (let res = shift_hms offset res
      in if tm_hour res \<ge> HOURSPERDAY then next_day ip res
         else if tm_hour res < 0 then prev_day ip res else Some res)"

section \<open>\<open>tzset\<close>\<close>

definition TZNAME_MIN :: int where "TZNAME_MIN = 3"
definition TZNAME_MAX :: int where "TZNAME_MAX = 10"

definition default_tzrule :: tzrule where
  "default_tzrule = \<lparr>r_ch = CHR ''J'', r_m = 0, r_n = 0, r_d = 0, r_s = 0, r_change = 0, r_offset = 0\<rparr>"

definition zero_tzrule :: tzrule where
  "zero_tzrule = \<lparr>r_ch = CHR 0x00, r_m = 0, r_n = 0, r_d = 0, r_s = 0, r_change = 0, r_offset = 0\<rparr>"

text \<open>
  What \<open>sscanf\<close> stored: the short values in order, the last value of \<open>n\<close>, the
  string.  The count \<open>n\<close> keeps its old value when nothing was stored in it.
\<close>

definition shorts_of :: "store list \<Rightarrow> int list" where
  "shorts_of out = List.map_filter (\<lambda>st. case st of PutShort w \<Rightarrow> Some (uint w) | _ \<Rightarrow> None) out"

definition last_n :: "int \<Rightarrow> store list \<Rightarrow> int" where
  "last_n n out = foldl (\<lambda>n st. case st of PutInt w \<Rightarrow> sint w | _ \<Rightarrow> n) n out"

definition string_of :: "store list \<Rightarrow> string option" where
  "string_of out = (case out of PutString s # _ \<Rightarrow> Some s | _ \<Rightarrow> None)"

definition short_at :: "store list \<Rightarrow> nat \<Rightarrow> int \<Rightarrow> int" where
  "short_at out k dflt = (if k < length (shorts_of out) then shorts_of out ! k else dflt)"

text \<open>\<open>tzenv[n]\<close>: the terminator is the last character that may be read.\<close>

definition char_at :: "string \<Rightarrow> int \<Rightarrow> char option" where
  "char_at s n = (if 0 \<le> n \<and> n \<le> int (length s) then Some (deref (drop (nat n) s)) else None)"

text \<open>Advancing the pointer; beyond the terminator the next read is undefined.\<close>

definition skip_n :: "string \<Rightarrow> int \<Rightarrow> string option" where
  "skip_n s n = (if 0 \<le> n \<and> n \<le> int (length s) then Some (drop (nat n) s) else None)"

datatype 'a parsed = Bail | Go 'a

definition QUOTED :: string where "QUOTED = ''%11[-+0-9A-Za-z]%n''"
definition UNQUOTED :: string where "UNQUOTED = ''%11[A-Za-z]%n''"
definition HMS :: string where "HMS = ''%hu%n:%hu%n:%hu%n''"

definition hms_offset :: "store list \<Rightarrow> int \<Rightarrow> int" where
  "hms_offset out hh = short_at out 2 0 + SECSPERMIN * short_at out 1 0 + SECSPERHOUR * short_at out 0 hh"

definition tz_sign :: "string \<Rightarrow> int \<times> string" where
  "tz_sign tzenv =
     (if deref tzenv = CHR ''-'' then (- 1, tl tzenv)
      else if deref tzenv = CHR ''+'' then (1, tl tzenv) else (1, tzenv))"

text \<open>The standard name; the result is the name, \<open>n\<close> and the rest.\<close>

definition tz_std_name :: "string \<Rightarrow> (string \<times> string) parsed option" where
  "tz_std_name tzenv =
     (let quoted = (deref tzenv = CHR ''<'');
          tzenv = (if quoted then tl tzenv else tzenv);
          (r, out) = sscanf tzenv (if quoted then QUOTED else UNQUOTED);
          n = last_n 0 out
      in if r \<le> 0 \<or> n < TZNAME_MIN \<or> TZNAME_MAX < n then Some Bail
         else do {
           c \<leftarrow> char_at tzenv n;
           if quoted \<and> c \<noteq> CHR ''>'' then Some Bail
           else do {
             name \<leftarrow> string_of out;
             rest \<leftarrow> skip_n (if quoted then tl tzenv else tzenv) n;
             Some (Go (name, rest)) } })"

text \<open>
  The daylight name: \<open>Go None\<close> is no daylight time.  When the quoted scan
  fails on something other than \<open>>\<close> the code goes on with the \<open>n\<close> of the
  offset before it and with a name that was never stored.
\<close>

definition tz_dst_name :: "int \<Rightarrow> string \<Rightarrow> (string \<times> string) option parsed option" where
  "tz_dst_name n tzenv =
     (if deref tzenv = CHR ''<'' then
        (let tzenv = tl tzenv; (r, out) = sscanf tzenv QUOTED; n = last_n n out
         in if r \<le> 0 \<and> deref tzenv = CHR ''>'' then Some (Go None)
            else if n < TZNAME_MIN \<or> TZNAME_MAX < n then Some Bail
            else do {
              c \<leftarrow> char_at tzenv n;
              if c \<noteq> CHR ''>'' then Some Bail
              else do {
                name \<leftarrow> string_of out;
                rest \<leftarrow> skip_n (tl tzenv) n;
                Some (Go (Some (name, rest))) } })
      else
        (let (r, out) = sscanf tzenv UNQUOTED; n = last_n n out
         in if r \<le> 0 then Some (Go None)
            else if n < TZNAME_MIN \<or> TZNAME_MAX < n then Some Bail
            else do {
              name \<leftarrow> string_of out;
              rest \<leftarrow> skip_n tzenv n;
              Some (Go (Some (name, rest))) }))"

text \<open>One change-over rule, with its defaults.\<close>

definition tz_rule_date :: "nat \<Rightarrow> string \<Rightarrow> tzrule \<Rightarrow> (tzrule \<times> string) parsed option" where
  "tz_rule_date i tzenv r =
     (if deref tzenv = CHR ''M'' then
        (let (k, out) = sscanf tzenv ''M%hu%n.%hu%n.%hu%n'';
             m = short_at out 0 0; w = short_at out 1 0; d = short_at out 2 0
         in if k \<noteq> 3 \<or> m < 1 \<or> m > 12 \<or> w < 1 \<or> w > 5 \<or> d > 6 then Some Bail
            else do {
              rest \<leftarrow> skip_n tzenv (last_n 0 out);
              Some (Go (r\<lparr>r_ch := CHR ''M'', r_m := m, r_n := w, r_d := d\<rparr>, rest)) })
      else
        (let (ch, tzenv) = (if deref tzenv = CHR ''J'' then (CHR ''J'', tl tzenv) else (CHR ''D'', tzenv));
             (v, end_p, _) = strtoul tzenv 10;
             d = uint (ucast v :: u16)
         in Some (Go (if end_p = tzenv
              then (if i = 0 then r\<lparr>r_ch := CHR ''M'', r_m := 3, r_n := 2, r_d := 0\<rparr>
                    else r\<lparr>r_ch := CHR ''M'', r_m := 11, r_n := 1, r_d := 0\<rparr>)
              else r\<lparr>r_ch := ch, r_d := d\<rparr>, end_p))))"

definition tz_rule_time :: "string \<Rightarrow> tzrule \<Rightarrow> (tzrule \<times> string) parsed option" where
  "tz_rule_time tzenv r =
     (if deref tzenv = CHR ''/'' then
        (let (k, out) = sscanf tzenv ''/%hu%n:%hu%n:%hu%n''
         in if k \<le> 0 then Some Bail
            else do {
              rest \<leftarrow> skip_n tzenv (last_n 0 out);
              Some (Go (r\<lparr>r_s := hms_offset out 2\<rparr>, rest)) })
      else Some (Go (r\<lparr>r_s := SECSPERHOUR * 2\<rparr>, tzenv)))"

definition tz_rule :: "nat \<Rightarrow> string \<Rightarrow> tzrule \<Rightarrow> (tzrule \<times> string) parsed option" where
  "tz_rule i tzenv r = do {
     let tzenv = (if deref tzenv = CHR '','' then tl tzenv else tzenv);
     p \<leftarrow> tz_rule_date i tzenv r;
     case p of Bail \<Rightarrow> Some Bail | Go (r, tzenv) \<Rightarrow> tz_rule_time tzenv r }"

text \<open>
  The daylight half of \<open>TZ\<close>, after the offset of standard time in \<open>r0\<close>: the
  name, its offset (one hour ahead by default) and the two rules.
\<close>

definition tz_dst_part :: "tzrule \<Rightarrow> int \<Rightarrow> string \<Rightarrow> (string \<times> tzrule \<times> tzrule) option parsed option" where
  "tz_dst_part r0 n tzenv = do {
     p \<leftarrow> tz_dst_name n tzenv;
     case p of Bail \<Rightarrow> Some Bail
     | Go None \<Rightarrow> Some (Go None)
     | Go (Some (dst, tzenv)) \<Rightarrow> do {
         let (sign, tzenv) = tz_sign tzenv;
         let (k, out) = sscanf tzenv HMS;
         let r1 = zero_tzrule\<lparr>r_offset :=
           (if k \<le> 0 then r_offset r0 - 3600 else sign * hms_offset out 0)\<rparr>;
         tzenv \<leftarrow> skip_n tzenv (last_n 0 out);
         p \<leftarrow> tz_rule 0 tzenv r0;
         case p of Bail \<Rightarrow> Some Bail
         | Go (r0, tzenv) \<Rightarrow> do {
             p \<leftarrow> tz_rule 1 tzenv r1;
             case p of Bail \<Rightarrow> Some Bail
             | Go (r1, _) \<Rightarrow> Some (Go (Some (dst, r0, r1))) } } }"

text \<open>The whole of \<open>TZ\<close>: the standard name and rule, and the daylight part if there is one.\<close>

definition tz_parse :: "string \<Rightarrow> (string \<times> tzrule \<times> (string \<times> tzrule \<times> tzrule) option) parsed option" where
  "tz_parse tzenv = do {
     let tzenv = (if deref tzenv = CHR '':'' then tl tzenv else tzenv);
     p \<leftarrow> tz_std_name tzenv;
     case p of Bail \<Rightarrow> Some Bail
     | Go (std, tzenv) \<Rightarrow> do {
         let (sign, tzenv) = tz_sign tzenv;
         let (k, out) = sscanf tzenv HMS;
         if k < 1 then Some Bail else do {
           let r0 = zero_tzrule\<lparr>r_offset := sign * hms_offset out 0\<rparr>;
           let n = last_n 0 out;
           tzenv \<leftarrow> skip_n tzenv n;
           p \<leftarrow> tz_dst_part r0 n tzenv;
           case p of Bail \<Rightarrow> Some Bail | Go d \<Rightarrow> Some (Go (std, r0, d)) } } }"

definition tz_install :: "string \<Rightarrow> string \<Rightarrow> tzrule \<Rightarrow> tzrule \<Rightarrow> tzstate \<Rightarrow> tzstate option" where
  "tz_install std dst r0 r1 tz = do {
     let tz = tz\<lparr>tzname_std := std, tzname_dst := dst, tz_rule0 := r0, tz_rule1 := r1\<rparr>;
     (tz, _) \<leftarrow> tzcalc_limits (tz_year tz) tz;
     Some (tz\<lparr>timezone := r_offset r0, daylight := r_offset r0 \<noteq> r_offset r1\<rparr>) }"

definition tzset :: "string option \<Rightarrow> tzstate \<Rightarrow> tzstate option" where
  "tzset env tz = do {
     p \<leftarrow> (case env of None \<Rightarrow> Some Bail | Some tzenv \<Rightarrow> tz_parse tzenv);
     case p of
       Bail \<Rightarrow> tz_install ''GMT'' ''GMT'' default_tzrule default_tzrule tz
     | Go (std, r0, None) \<Rightarrow> tz_install std std r0 r0 tz
     | Go (std, _, Some (dst, r0, r1)) \<Rightarrow> tz_install std dst r0 r1 tz }"

text \<open>The globals as the program starts.\<close>

definition tz_init :: tzstate where
  "tz_init = \<lparr>tz_north = False, tz_year = 0, tz_rule0 = zero_tzrule, tz_rule1 = zero_tzrule,
     tzname_std = ''GMT'', tzname_dst = ''GMT'', timezone = 0, daylight = False\<rparr>"

section \<open>\<open>localtime_r\<close> and \<open>mktime\<close>\<close>

definition localtime_r :: "string option \<Rightarrow> int \<Rightarrow> tm \<Rightarrow> tzstate \<Rightarrow> (tm option \<times> tzstate) option" where
  "localtime_r env tim res tz =
     (case gmtime_r tim res of
        (_, False) \<Rightarrow> Some (None, tz)
      | (res, True) \<Rightarrow> do {
          year \<leftarrow> ck32 (tm_year res + YEAR_BASE);
          let ip = month_lengths (isleap year);
          tz \<leftarrow> tzset env tz;
          (isdst, tz) \<leftarrow>
            (if daylight tz then do {
               (tz, ok) \<leftarrow> year_limits year tz;
               Some (if ok then of_bool (dst_at tz tim) else - 1, tz)
             } else Some (0, tz));
          let res = res\<lparr>tm_isdst := isdst\<rparr>;
          let offset = (if tm_isdst res = 1 then r_offset (tz_rule1 tz) else r_offset (tz_rule0 tz));
          res \<leftarrow> shift_clock ip offset res;
          Some (Some res, tz) })"

text \<open>
  The correction of \<open>mktime\<close> when the caller's \<open>tm_isdst\<close> was wrong:
  \<open>diff\<close> seconds are added to the clock and to the time, and the day of the
  year follows the day of the month.
\<close>

definition dst_correct :: "int \<Rightarrow> tm \<Rightarrow> int \<Rightarrow> int \<Rightarrow> (tm \<times> int \<times> int) option" where
  "dst_correct diff tim_p tim days = do {
     let year = tm_year tim_p;
     sec \<leftarrow> ck32 (tm_sec tim_p + diff);
     let tim = tim + diff;
     let mday = tm_mday tim_p;
     (tim_p, _) \<leftarrow> validate_structure (tim_p\<lparr>tm_sec := sec\<rparr>);
     let mday = tm_mday tim_p - mday;
     if mday \<noteq> 0 then do {
       let mday = (if mday > 1 then - 1 else if mday < - 1 then 1 else mday);
       let days = days + mday;
       let tim_p = tim_p\<lparr>tm_yday := tm_yday tim_p + mday\<rparr>;
       if tm_yday tim_p < 0 then Some (tim_p\<lparr>tm_yday := DAYS_IN_YEAR (year - 1) - 1\<rparr>, tim, days)
       else if tm_yday tim_p > DAYS_IN_YEAR year - 1
       then Some (tim_p\<lparr>tm_yday := tm_yday tim_p - DAYS_IN_YEAR year\<rparr>, tim, days)
       else Some (tim_p, tim, days)
     } else Some (tim_p, tim, days) }"

definition mktime_dst :: "tm \<Rightarrow> int \<Rightarrow> int \<Rightarrow> tzstate \<Rightarrow> (tm \<times> int \<times> int \<times> int \<times> tzstate) option" where
  "mktime_dst tim_p tim days tz =
     (if \<not> daylight tz then Some (tim_p, tim, days, 0, tz)
      else do {
        y \<leftarrow> ck32 (tm_year tim_p + YEAR_BASE);
        let user_isdst = (if tm_isdst tim_p > 0 then 1 else tm_isdst tim_p);
        (tz, ok) \<leftarrow> year_limits y tz;
        if \<not> ok then Some (tim_p, tim, days, user_isdst, tz)
        else do {
          let startdst_dst = r_change (tz_rule0 tz) - r_offset (tz_rule1 tz);
          let startstd_dst = r_change (tz_rule1 tz) - r_offset (tz_rule1 tz);
          let startstd_std = r_change (tz_rule1 tz) - r_offset (tz_rule0 tz);
          if tim \<ge> startstd_std \<and> tim < startstd_dst then Some (tim_p, tim, days, user_isdst, tz)
          else do {
            let isdst = (if tz_north tz then tim \<ge> startdst_dst \<and> tim < startstd_std
                         else tim \<ge> startdst_dst \<or> tim < startstd_std);
            if user_isdst \<ge> 0 \<and> of_bool isdst \<noteq> user_isdst then do {
              let diff = r_offset (tz_rule0 tz) - r_offset (tz_rule1 tz);
              (tim_p, tim, days) \<leftarrow> dst_correct (if isdst then diff else - diff) tim_p tim days;
              Some (tim_p, tim, days, of_bool isdst, tz)
            } else Some (tim_p, tim, days, of_bool isdst, tz) } } })"

definition mktime :: "string option \<Rightarrow> tm \<Rightarrow> tzstate \<Rightarrow> (tm \<times> int \<times> errno option \<times> tzstate) option" where
  "mktime env tim_p tz = do {
     (tim_p, r) \<leftarrow> mktime_utc tim_p;
     case r of
       Inl e \<Rightarrow> Some (tim_p, - 1, Some e, tz)
     | Inr (tim, days) \<Rightarrow>
         if tim = - 1 then Some (tim_p, tim, None, tz)
         else do {
           tz \<leftarrow> tzset env tz;
           (tim_p, tim, days, isdst, tz) \<leftarrow> mktime_dst tim_p tim days tz;
           let offset = (if isdst = 1 then r_offset (tz_rule1 tz) else r_offset (tz_rule0 tz));
           if tim + offset < TIME_T_MIN \<or> tim + offset > TIME_T_MAX
           then Some (tim_p, - 1, Some EOVERFLOW, tz)
           else Some (set_tm_wday days (tim_p\<lparr>tm_isdst := isdst\<rparr>), tim + offset, None, tz) } }"

end
