(* ===== verification/LocalTime.thy ===== *)
theory LocalTime
  imports TimeZone
begin

text \<open>
  Correctness of the time zone functions of theory \<open>TimeZone\<close>.  The
  specification is the calendar of theory \<open>Calendar\<close>: \<open>is_rule_day\<close> says which
  day a rule names, \<open>isdst_at\<close> which offset is in force, \<open>applied_flag\<close> and
  \<open>stored_flag\<close> what \<open>mktime\<close> makes of the caller's flag.  The years below
  5800000 are those for which \<open>__tzcalc_limits\<close> does not overflow \<open>int\<close>.
\<close>

section \<open>Taking the offset off the clock\<close>

lemma cmod_sign:
  assumes "0 < b" shows "0 \<le> a \<Longrightarrow> 0 \<le> cmod a b" "a \<le> 0 \<Longrightarrow> cmod a b \<le> 0"
  using assms by (cases "a = 0"; simp add: cmod_nonneg cmod_neg)+

lemma cdiv_cmod_split:
  assumes "0 < b"
  shows "a = cdiv a b * b + cmod a b" "- b < cmod a b" "cmod a b < b"
  using cdiv_cmod [of a b] cmod_bound [OF assms, of a] by linarith+

lemma shift_hms_ok:
  fixes t :: tm and off
  assumes "tm_normal t"
  defines "r \<equiv> shift_hms off t"
  shows "tm_hour r * 3600 + tm_min r * 60 + tm_sec r = tm_hour t * 3600 + tm_min t * 60 + tm_sec t - off"
    and "0 \<le> tm_sec r \<and> tm_sec r < 60 \<and> 0 \<le> tm_min r \<and> tm_min r < 60"
    and "tm_mday r = tm_mday t \<and> tm_mon r = tm_mon t \<and> tm_year r = tm_year t \<and> tm_wday r = tm_wday t
      \<and> tm_yday r = tm_yday t \<and> tm_isdst r = tm_isdst t"
proof -
  define h where "h = cdiv off SECSPERHOUR"
  define o' where "o' = cmod off SECSPERHOUR"
  define mi where "mi = cdiv o' SECSPERMIN"
  define s where "s = cmod o' SECSPERMIN"
  have o: "off = h * 3600 + o'" "- 3600 < o'" "o' < 3600" and o': "o' = mi * 60 + s" "- 60 < s" "s < 60"
    using cdiv_cmod_split [of 3600 off] cdiv_cmod_split [of 60 o']
    by (simp_all add: h_def o'_def mi_def s_def time_consts)
  have mi: "- 60 < mi" "mi < 60"
    using o o' cmod_sign [of SECSPERMIN o', folded s_def] by (cases "0 \<le> o'"; simp add: time_consts)+
  define c where "c = (if tm_sec t - s \<ge> 60 then 1 else if tm_sec t - s < 0 then - 1 else (0::int))"
  define m where "m = tm_min t - mi + c"
  define d where "d = (if m \<ge> 60 then 1 else if m < 0 then - 1 else (0::int))"
  define t1 where "t1 = t\<lparr>tm_sec := tm_sec t - s, tm_min := tm_min t - mi, tm_hour := tm_hour t - h\<rparr>"
  define t2 where "t2 = (if tm_sec t1 \<ge> 60 then t1\<lparr>tm_min := tm_min t1 + 1, tm_sec := tm_sec t1 - 60\<rparr>
    else if tm_sec t1 < 0 then t1\<lparr>tm_min := tm_min t1 - 1, tm_sec := tm_sec t1 + 60\<rparr> else t1)"
  have t2: "t2 = t\<lparr>tm_sec := tm_sec t - s - 60 * c, tm_min := m, tm_hour := tm_hour t - h\<rparr>"
    by (simp add: t2_def t1_def c_def m_def)
  have "r = (let res = t1; res = (if tm_sec res \<ge> SECSPERMIN
      then res\<lparr>tm_min := tm_min res + 1, tm_sec := tm_sec res - SECSPERMIN\<rparr>
      else if tm_sec res < 0
      then res\<lparr>tm_min := tm_min res - 1, tm_sec := tm_sec res + SECSPERMIN\<rparr> else res)
    in if tm_min res \<ge> MINSPERHOUR
       then res\<lparr>tm_hour := tm_hour res + 1, tm_min := tm_min res - MINSPERHOUR\<rparr>
       else if tm_min res < 0
       then res\<lparr>tm_hour := tm_hour res - 1, tm_min := tm_min res + MINSPERHOUR\<rparr> else res)"
    unfolding t1_def s_def mi_def o'_def h_def r_def shift_hms_def Let_def by (rule refl)
  then have "r = (if tm_min t2 \<ge> 60 then t2\<lparr>tm_hour := tm_hour t2 + 1, tm_min := tm_min t2 - 60\<rparr>
    else if tm_min t2 < 0 then t2\<lparr>tm_hour := tm_hour t2 - 1, tm_min := tm_min t2 + 60\<rparr> else t2)"
    unfolding t2_def Let_def SECSPERMIN_def MINSPERHOUR_def .
  then have r: "r = t\<lparr>tm_sec := tm_sec t - s - 60 * c, tm_min := m - 60 * d, tm_hour := tm_hour t - h + d\<rparr>"
    unfolding t2 by (simp add: d_def)
  have f: "tm_sec r = tm_sec t - s - 60 * c" "tm_min r = m - 60 * d" "tm_hour r = tm_hour t - h + d"
    by (simp_all add: r)
  show "tm_hour r * 3600 + tm_min r * 60 + tm_sec r = tm_hour t * 3600 + tm_min t * 60 + tm_sec t - off"
    unfolding f m_def using o(1) o'(1) by (simp add: algebra_simps)
  have n: "0 \<le> tm_sec t" "tm_sec t < 60" "0 \<le> tm_min t" "tm_min t < 60"
    using assms(1) by (simp_all add: tm_normal_def)
  have c: "- 1 \<le> c" "c \<le> 1" "0 \<le> tm_sec r" "tm_sec r < 60" unfolding f c_def using n o'(2,3) by auto
  have "- 60 \<le> m" "m < 120" unfolding m_def using n mi c by linarith+
  then have "0 \<le> tm_min r" "tm_min r < 60" unfolding f d_def by auto
  with c show "0 \<le> tm_sec r \<and> tm_sec r < 60 \<and> 0 \<le> tm_min r \<and> tm_min r < 60" by blast
  show "tm_mday r = tm_mday t \<and> tm_mon r = tm_mon t \<and> tm_year r = tm_year t \<and> tm_wday r = tm_wday t
      \<and> tm_yday r = tm_yday t \<and> tm_isdst r = tm_isdst t"
    by (simp add: r)
qed

text \<open>A clock that is out of range by at most a day on a valid date.\<close>

definition tm_date :: "tm \<Rightarrow> bool" where
  "tm_date t \<longleftrightarrow> 0 \<le> tm_sec t \<and> tm_sec t < 60 \<and> 0 \<le> tm_min t \<and> tm_min t < 60 \<and>
     0 \<le> tm_mon t \<and> tm_mon t < 12 \<and> 1 \<le> tm_mday t \<and>
     tm_mday t \<le> month_len (tm_year t + 1900) (tm_mon t)"

lemma arr_get_month: "0 \<le> k \<Longrightarrow> k < 12 \<Longrightarrow> arr_get (month_lengths l) k = Some (month_lengths l ! nat k)"
  by (auto simp: arr_get_def month_lengths_def)

lemma wday_next:
  fixes d :: int
  assumes "w = (d + 4) mod 7"
  shows "(if w + 1 > 6 then 0 else w + 1) = (d + 1 + 4) mod 7"
    and "(if w - 1 < 0 then 6 else w - 1) = (d - 1 + 4) mod 7"
proof -
  obtain q where d: "d + 4 = w + 7 * q" using assms mult_div_mod_eq [of 7 "d + 4"] by (metis add.commute)
  have w: "0 \<le> w" "w < 7" using assms by simp_all
  have "d + 1 + 4 = w + 1 + 7 * q" "d - 1 + 4 = w - 1 + 7 * q" using d by simp_all
  then have m: "(d + 1 + 4) mod 7 = (w + 1) mod 7" "(d - 1 + 4) mod 7 = (w - 1) mod 7"
    by (simp_all only: mod_mult_self2)
  have "(w + 1) mod 7 = (if w + 1 > 6 then 0 else w + 1)"
  proof (cases "w = 6")
    case False
    then show ?thesis using w by (simp add: mod_pos_pos_trivial)
  qed simp
  moreover have "(w - 1) mod 7 = (if w - 1 < 0 then 6 else w - 1)"
  proof (cases "w = 0")
    case False
    then show ?thesis using w by (simp add: mod_pos_pos_trivial)
  qed simp
  ultimately show "(if w + 1 > 6 then 0 else w + 1) = (d + 1 + 4) mod 7"
    "(if w - 1 < 0 then 6 else w - 1) = (d - 1 + 4) mod 7" unfolding m by simp_all
qed

lemma next_day_ok:
  assumes "tm_date t" "tm_derived t" "24 \<le> tm_hour t" "tm_hour t < 48" "INT_MIN \<le> tm_year t" "tm_year t < INT_MAX"
  obtains r where "next_day (month_lengths (leap (tm_year t + 1900))) t = Some r"
    "tm_normal r" "tm_derived r" "tm_time r = tm_time t" "tm_isdst r = tm_isdst t"
proof -
  let ?Y = "tm_year t + 1900"
  define w where "w = (if tm_wday t + 1 > 6 then 0 else tm_wday t + 1)"
  note d = assms(1) [unfolded tm_date_def]
  have w: "w = (tm_days t + 1 + 4) mod 7"
    using wday_next(1) [of "tm_wday t" "tm_days t"] assms(2) unfolding w_def tm_derived_def by blast
  have yd: "tm_yday t = tm_days t - jan1 ?Y" using assms(2) by (simp add: tm_derived_def)
  have nd: "civil ?Y (tm_mon t) (tm_mday t + 1) = tm_days t + 1" by (simp add: civil_add tm_days_def)
  let ?t1 = "t\<lparr>tm_yday := tm_yday t + 1, tm_wday := w, tm_mday := tm_mday t + 1, tm_hour := tm_hour t - 24\<rparr>"
  have next_day: "next_day (month_lengths (leap ?Y)) t = (if tm_mday t + 1 > month_len ?Y (tm_mon t) then
      (if tm_mon t = 11 then Some (?t1\<lparr>tm_mday := 1, tm_mon := 0, tm_year := tm_year t + 1, tm_yday := 0\<rparr>)
       else Some (?t1\<lparr>tm_mday := 1, tm_mon := tm_mon t + 1\<rparr>)) else Some ?t1)"
    using d assms(5,6)
    by (cases t) (auto simp: next_day_def arr_get_month w_def HOURSPERDAY_def ck32_def range_defs)
  note unfold = tm_normal_def tm_derived_def tm_days_def tm_time_def
  show thesis
  proof (cases "tm_mday t + 1 > month_len ?Y (tm_mon t)")
    case False
    show thesis
      by (rule that [of ?t1], unfold next_day) (use False d assms(3,4) w yd nd in \<open>simp_all add: unfold\<close>)
  next
    case True
    then have md: "tm_mday t = month_len ?Y (tm_mon t)" using d by simp
    have nm: "civil ?Y (tm_mon t + 1) 1 = tm_days t + 1"
      using civil_next_month [of "tm_mon t" ?Y 1] d md nd by (simp add: add.commute)
    show thesis
    proof (cases "tm_mon t = 11")
      case mon: True
      have ny: "civil (?Y + 1) 0 1 = tm_days t + 1" using nm mon by (simp add: civil_year_end)
      then have j: "jan1 (?Y + 1) = tm_days t + 1" by (simp add: civil_in_year)
      have y: "tm_year t + 1 + 1900 = ?Y + 1" by simp
      let ?r = "?t1\<lparr>tm_mday := 1, tm_mon := 0, tm_year := tm_year t + 1, tm_yday := 0\<rparr>"
      have D: "tm_days ?r = tm_days t + 1" using ny y by (simp add: tm_days_def)
      have "tm_derived ?r" unfolding tm_derived_def D using j y w by simp
      moreover have "tm_time ?r = tm_time t" unfolding tm_time_def D by simp
      moreover have "tm_normal ?r" using d assms(3,4) by (simp add: tm_normal_def month_lengths_def)
      ultimately show thesis using that [of ?r] True mon by (simp add: next_day)
    next
      case mon: False
      let ?r = "?t1\<lparr>tm_mday := 1, tm_mon := tm_mon t + 1\<rparr>"
      have "28 \<le> month_len ?Y (tm_mon t + 1)" using month_len_bounds [of "tm_mon t + 1" ?Y] d mon by simp
      then have "tm_normal ?r" using d assms(3,4) mon by (simp add: tm_normal_def)
      moreover have D: "tm_days ?r = tm_days t + 1" using nm by (simp add: tm_days_def)
      have "tm_derived ?r" "tm_time ?r = tm_time t"
        unfolding tm_derived_def tm_time_def D using yd w by simp_all
      ultimately show thesis using that [of ?r] True mon by (simp add: next_day)
    qed
  qed
qed

lemma prev_day_ok:
  assumes "tm_date t" "tm_derived t" "- 24 \<le> tm_hour t" "tm_hour t < 0" "INT_MIN < tm_year t" "tm_year t \<le> INT_MAX - 1900"
  obtains r where "prev_day (month_lengths (leap (tm_year t + 1900))) t = Some r"
    "tm_normal r" "tm_derived r" "tm_time r = tm_time t" "tm_isdst r = tm_isdst t"
proof -
  let ?Y = "tm_year t + 1900"
  define w where "w = (if tm_wday t - 1 < 0 then 6 else tm_wday t - 1)"
  note d = assms(1) [unfolded tm_date_def]
  have w: "w = (tm_days t - 1 + 4) mod 7"
    using wday_next(2) [of "tm_wday t" "tm_days t"] assms(2) unfolding w_def tm_derived_def by blast
  have yd: "tm_yday t = tm_days t - jan1 ?Y" using assms(2) by (simp add: tm_derived_def)
  have nd: "civil ?Y (tm_mon t) (tm_mday t - 1) = tm_days t - 1"
    using civil_add [of ?Y "tm_mon t" "tm_mday t" "- 1"] by (simp add: tm_days_def)
  let ?t1 = "t\<lparr>tm_yday := tm_yday t - 1, tm_wday := w, tm_mday := tm_mday t - 1, tm_hour := tm_hour t + 24\<rparr>"
  have prev_day: "prev_day (month_lengths (leap ?Y)) t = (if tm_mday t = 1 then
      (if tm_mon t = 0 then Some (?t1\<lparr>tm_mday := 31, tm_mon := 11, tm_year := tm_year t - 1,
            tm_yday := 364 + of_bool (leap (?Y - 1))\<rparr>)
       else Some (?t1\<lparr>tm_mday := month_len ?Y (tm_mon t - 1), tm_mon := tm_mon t - 1\<rparr>)) else Some ?t1)"
    using d assms(5,6)
    by (cases t) (auto simp: prev_day_def arr_get_month w_def YEAR_BASE_def ck32_def range_defs
        arr_get_def month_lengths_def [of "leap _"])
  show thesis
  proof (cases "tm_mday t = 1")
    case False
    show thesis
      by (rule that [of ?t1], unfold prev_day)
         (use False d assms(3,4) w yd nd in \<open>simp_all add: tm_normal_def tm_derived_def tm_days_def tm_time_def\<close>)
  next
    case True
    show thesis
    proof (cases "tm_mon t = 0")
      case mon: True
      let ?r = "?t1\<lparr>tm_mday := 31, tm_mon := 11, tm_year := tm_year t - 1,
            tm_yday := 364 + of_bool (leap (?Y - 1))\<rparr>"
      have y: "tm_year t - 1 + 1900 = ?Y - 1" by simp
      have j: "tm_days t = jan1 ?Y" using True mon by (simp add: tm_days_def civil_in_year)
      have J: "jan1 ?Y = jan1 (?Y - 1) + 365 + of_bool (leap (?Y - 1))"
        using jan1_Suc [of "?Y - 1"] by (simp only: diff_add_cancel)
      have "month_start (?Y - 1) 11 = 334 + of_bool (leap (?Y - 1))"
        by (simp add: month_start_def month_lengths_def)
      then have D: "tm_days ?r = tm_days t - 1" using j J y by (simp add: tm_days_def civil_in_year)
      have "tm_derived ?r" unfolding tm_derived_def D using j J y w by simp
      moreover have "tm_time ?r = tm_time t" unfolding tm_time_def D by simp
      moreover have "tm_normal ?r" using d assms(3,4) by (simp add: tm_normal_def month_lengths_def)
      ultimately show thesis using that [of ?r] True mon by (simp add: prev_day)
    next
      case mon: False
      let ?r = "?t1\<lparr>tm_mday := month_len ?Y (tm_mon t - 1), tm_mon := tm_mon t - 1\<rparr>"
      have "28 \<le> month_len ?Y (tm_mon t - 1)" using month_len_bounds [of "tm_mon t - 1" ?Y] d mon by simp
      then have "tm_normal ?r" using d assms(3,4) mon by (simp add: tm_normal_def)
      moreover have "civil ?Y (tm_mon t - 1) (0 + month_len ?Y (tm_mon t - 1)) = tm_days t - 1"
        using civil_next_month [of "tm_mon t - 1" ?Y 0] d mon nd True by simp
      then have D: "tm_days ?r = tm_days t - 1" by (simp add: tm_days_def)
      have "tm_derived ?r" "tm_time ?r = tm_time t"
        unfolding tm_derived_def tm_time_def D using yd w by simp_all
      ultimately show thesis using that [of ?r] True mon by (simp add: prev_day)
    qed
  qed
qed

lemma shift_clock_ok:
  assumes "tm_normal t" "tm_derived t" "\<bar>off\<bar> \<le> 86400" "INT_MIN < tm_year t" "tm_year t \<le> INT_MAX - 1900"
  obtains r where "shift_clock (month_lengths (leap (tm_year t + 1900))) off t = Some r"
    "tm_normal r" "tm_derived r" "tm_time r = tm_time t - off" "tm_isdst r = tm_isdst t"
proof -
  define u where "u = shift_hms off t"
  note s = shift_hms_ok [OF assms(1), of off, folded u_def]
  have days: "tm_days u = tm_days t" using s(3) by (simp add: tm_days_def)
  have u: "tm_derived u" "tm_date u" "tm_time u = tm_time t - off"
    using s(1,2,3) assms(1,2) unfolding tm_derived_def tm_date_def tm_normal_def tm_time_def days by auto
  have h: "- 24 \<le> tm_hour u" "tm_hour u < 48"
    using s(1,2) assms(1,3) tm_normal_day(3,4) [OF assms(1)] by linarith+
  have y: "tm_year u = tm_year t" "tm_isdst u = tm_isdst t" using s(3) by simp_all
  consider "24 \<le> tm_hour u" | "tm_hour u < 0" | "0 \<le> tm_hour u" "tm_hour u < 24" by linarith
  then show thesis
  proof cases
    case 1
    have "tm_year t < INT_MAX" using assms(5) by (simp add: range_defs)
    then obtain r where "next_day (month_lengths (leap (tm_year t + 1900))) u = Some r"
      "tm_normal r" "tm_derived r" "tm_time r = tm_time u" "tm_isdst r = tm_isdst u"
      using next_day_ok [OF u(2,1) 1 h(2)] assms(4) y(1) by auto
    then show thesis using that [of r] 1 u(3) y(2)
      by (simp add: shift_clock_def Let_def u_def [symmetric] HOURSPERDAY_def)
  next
    case 2
    then obtain r where "prev_day (month_lengths (leap (tm_year t + 1900))) u = Some r"
      "tm_normal r" "tm_derived r" "tm_time r = tm_time u" "tm_isdst r = tm_isdst u"
      using prev_day_ok [OF u(2,1) h(1)] assms(4,5) y(1) by auto
    then show thesis using that [of r] 2 u(3) y(2)
      by (simp add: shift_clock_def Let_def u_def [symmetric] HOURSPERDAY_def)
  next
    case 3
    then have "tm_normal u" using u(2) by (simp add: tm_date_def tm_normal_def)
    then show thesis using that [of u] 3 u(1,3) y(2)
      by (simp add: shift_clock_def Let_def u_def [symmetric] HOURSPERDAY_def)
  qed
qed

section \<open>The days and times of the rules\<close>

definition is_rule_day :: "int \<Rightarrow> tzrule \<Rightarrow> int \<Rightarrow> bool" where
  "is_rule_day Y r D \<longleftrightarrow>
     (if r_ch r = CHR ''J'' then
        (\<exists>mon mday. 0 \<le> mon \<and> mon < 12 \<and> 1 \<le> mday \<and> mday \<le> month_len 1970 mon \<and>
           month_start 1970 mon + mday = r_d r \<and> D = civil Y mon mday)
      else if r_ch r = CHR ''D'' then D = jan1 Y + r_d r
      else (let first_day = civil Y (r_m r - 1) 1; last_day = first_day + month_len Y (r_m r - 1) - 1
            in (D + 4) mod 7 = r_d r \<and> first_day \<le> D \<and> D \<le> last_day \<and>
               (if r_n r = 5 then last_day < D + 7 else (D - first_day) div 7 = r_n r - 1)))"

text \<open>The rules a date can be computed for.\<close>

definition rule_ok :: "tzrule \<Rightarrow> bool" where
  "rule_ok r \<longleftrightarrow>
     (if r_ch r = CHR ''J'' then 1 \<le> r_d r \<and> r_d r \<le> 365
      else if r_ch r = CHR ''D'' then 0 \<le> r_d r \<and> r_d r \<le> 365
      else 1 \<le> r_m r \<and> r_m r \<le> 12 \<and> 1 \<le> r_n r \<and> r_n r \<le> 5 \<and> 0 \<le> r_d r \<and> r_d r \<le> 6)"

lemma year_days_jan1:
  assumes "1970 \<le> Y"
  shows "(Y - EPOCH_YEAR) * 365 + cdiv (Y - EPOCH_YEAR - 1 + EPOCH_YEARS_SINCE_LEAP) 4
          - cdiv (Y - EPOCH_YEAR - 1 + EPOCH_YEARS_SINCE_CENTURY) 100
          + cdiv (Y - EPOCH_YEAR - 1 + EPOCH_YEARS_SINCE_LEAP_CENTURY) 400 = jan1 Y"
proof -
  have "(Y - 1) div 4 = (Y - 1969) div 4 + 492" "(Y - 1) div 100 = (Y - 1901) div 100 + 19"
    "(Y - 1) div 400 = (Y - 1601) div 400 + 4"
    using div_mult_self3 [of 4 492 "Y - 1969"] div_mult_self3 [of 100 19 "Y - 1901"]
      div_mult_self3 [of 400 4 "Y - 1601"] by simp_all
  then show ?thesis using assms by (simp add: epoch_consts cdiv_nonneg jan1_def)
qed

lemma month_days_ok:
  assumes "0 \<le> k" "k \<le> 11"
  shows "month_days (month_lengths (leap Y)) 1 (k + 1) d = Some (d + month_start Y k, k + 1)"
proof -
  have "month_days (month_lengths (leap Y)) (j + 1) (k + 1) (d + month_start Y j) = Some (d + month_start Y k, k + 1)"
    if "0 \<le> j" "j \<le> k" for j
    using that
  proof (induction "nat (k - j)" arbitrary: j)
    case 0
    then show ?case by (simp add: month_days.simps)
  next
    case (Suc n)
    have "month_days (month_lengths (leap Y)) (j + 1 + 1) (k + 1) (d + month_start Y (j + 1))
      = Some (d + month_start Y k, k + 1)" using Suc by (intro Suc.hyps(1)) auto
    then show ?case using Suc assms
      by (subst month_days.simps) (auto simp: arr_get_month month_start_Suc add.assoc)
  qed
  from this [of 0] assms show ?thesis by simp
qed

lemma last_week_ok:
  assumes "28 \<le> len" "x < 35"
  shows "last_week len x = (if x < len then x else x - 7)"
  using assms by (simp add: last_week.simps [of len x] last_week.simps [of len "x - 7"] DAYSPERWEEK_def)

lemma month_start_leap_year:
  assumes "0 \<le> k" "k < 12" "\<not> leap X"
  shows "month_start Y k = month_start X k + of_bool (leap Y \<and> 1 < k)"
  using assms(1,2)
  by (cases rule: less_12_cases) (auto simp: month_start_def month_lengths_def assms(3))

lemma month_of_yday:
  assumes "0 \<le> d" "d < month_start Y n" "0 \<le> n" "n \<le> 12"
  obtains mon where "0 \<le> mon" "mon < n" "month_start Y mon \<le> d" "d < month_start Y mon + month_len Y mon"
  using assms
proof (induction "nat n" arbitrary: n thesis)
  case (Suc i)
  show ?case
  proof (cases "d < month_start Y (n - 1)")
    case True
    then show ?thesis using Suc by (auto intro: Suc.hyps(1) [of "n - 1"])
  next
    case False
    then show ?thesis using Suc.prems month_start_Suc [of "n - 1" Y] Suc.hyps(2)
      by (intro Suc.prems(1) [of "n - 1"]) auto
  qed
qed simp

lemma julian_day:
  assumes "1 \<le> d" "d \<le> 365"
  shows "\<exists>mon mday. 0 \<le> mon \<and> mon < 12 \<and> 1 \<le> mday \<and> mday \<le> month_len 1970 mon \<and>
           month_start 1970 mon + mday = d \<and> jan1 Y + d + of_bool (leap Y \<and> 60 \<le> d) - 1 = civil Y mon mday"
proof -
  have nl: "\<not> leap 1970" by (simp add: leap_def)
  obtain mon where mon: "0 \<le> mon" "mon < 12" "month_start 1970 mon \<le> d - 1"
    "d - 1 < month_start 1970 mon + month_len 1970 mon"
    using month_of_yday [of "d - 1" 1970 12] assms by (auto simp: month_start_12 nl)
  have "1 < mon \<longleftrightarrow> 60 \<le> d"
    using mon(1,2)
    by (cases rule: less_12_cases) (use mon(3,4) in \<open>auto simp: month_start_def month_lengths_def nl\<close>)
  then have "month_start Y mon = month_start 1970 mon + of_bool (leap Y \<and> 60 \<le> d)"
    using month_start_leap_year [OF mon(1,2) nl, of Y] by simp
  then show ?thesis using mon
    by (intro exI [of _ mon] exI [of _ "d - month_start 1970 mon"]) (simp add: civil_in_year)
qed

lemma rule_days_ok:
  assumes "rule_ok r" "1970 \<le> Y"
  obtains D where "rule_days Y (jan1 Y) r = Some D" "is_rule_day Y r D" "jan1 Y \<le> D" "D \<le> jan1 Y + 366"
proof -
  consider "r_ch r = CHR ''J''" | "r_ch r = CHR ''D''" | "r_ch r \<noteq> CHR ''J''" "r_ch r \<noteq> CHR ''D''" by blast
  then show thesis
  proof cases
    case 1
    then show thesis using julian_day [of "r_d r" Y] assms
      by (intro that [of "jan1 Y + r_d r + of_bool (leap Y \<and> 60 \<le> r_d r) - 1"])
         (simp_all add: rule_days_def is_rule_day_def rule_ok_def)
  next
    case 2
    then show thesis using assms by (intro that) (auto simp: rule_days_def is_rule_day_def rule_ok_def)
  next
    case 3
    define k where "k = r_m r - 1"
    define x where "x = civil Y k 1"
    define len where "len = month_len Y k"
    define w where "w = (if r_d r - (4 + x) mod 7 < 0 then r_d r - (4 + x) mod 7 + 7 else r_d r - (4 + x) mod 7)"
    define D where "D = last_week len ((r_n r - 1) * 7 + w)"
    have k: "0 \<le> k" "k < 12" and n: "1 \<le> r_n r" "r_n r \<le> 5" and d: "0 \<le> r_d r" "r_d r \<le> 6"
      using assms(1) 3 by (simp_all add: rule_ok_def k_def)
    have x: "x = jan1 Y + month_start Y k" using k by (simp add: x_def civil_in_year)
    have x0: "0 \<le> x" "jan1 Y \<le> x" "x + len \<le> jan1 Y + 366"
      using month_start_bounds [OF k, of Y] jan1_le_iff [of 1970 Y] assms(2)
      by (cases "leap Y"; simp add: x jan1_epoch len_def)+
    have len: "28 \<le> len" "len \<le> 31" using month_len_bounds [OF k, of Y] by (simp_all add: len_def)
    have w: "0 \<le> w" "w \<le> 6"
      using d pos_mod_bound [of 7 "4 + x"] pos_mod_sign [of 7 "4 + x"] unfolding w_def by (auto simp del: pos_mod_bound pos_mod_sign)
    have wday: "(x + w + 7 * q + 4) mod 7 = r_d r" for q
    proof -
      have "(x + w + 7 * q + 4) mod 7 = ((4 + x) mod 7 + w) mod 7" 

        using mod_mult_self2 [of "4 + x + w" 7 q] by (simp add: mod_simps add.commute add.left_commute add.assoc)
      also have "\<dots> = r_d r" using d by (cases "r_d r - (4 + x) mod 7 < 0") (simp_all add: w_def)
      finally show ?thesis .
    qed
    have run: "rule_days Y (jan1 Y) r = Some (x + D)"
      using 3 k x0 month_days_ok [of k Y "jan1 Y"] x
      by (simp add: rule_days_def k_def arr_get_month cmod_nonneg EPOCH_WDAY_def DAYSPERWEEK_def Let_def D_def w_def len_def)
    have D: "D = (if (r_n r - 1) * 7 + w < len then (r_n r - 1) * 7 + w else (r_n r - 2) * 7 + w)"
      using last_week_ok [OF len(1), of "(r_n r - 1) * 7 + w"] n w by (simp add: D_def)
    have n4: "(r_n r - 1) * 7 + w < len" if "r_n r \<noteq> 5" using that n w len by simp
    have "0 \<le> D" "D < len" "r_n r = 5 \<longrightarrow> len < 8 + D"
      using n w len by (auto simp: D)
    moreover have "(x + D + 4) mod 7 = r_d r"
      using wday [of "r_n r - 1"] wday [of "r_n r - 2"] by (simp add: D algebra_simps)
    moreover have "D div 7 = r_n r - 1" if "r_n r \<noteq> 5"
      using n4 [OF that] w by (simp add: D)
    ultimately have "is_rule_day Y r (x + D)"
      using 3 by (simp add: is_rule_day_def Let_def k_def [symmetric] x_def [symmetric] len_def [symmetric])
    then show thesis using that [OF run] x0 \<open>0 \<le> D\<close> \<open>D < len\<close> by simp
  qed
qed

lemma rule_days_change: "rule_days Y d (r\<lparr>r_change := c\<rparr>) = rule_days Y d r"
  by (simp add: rule_days_def)

lemma jan1_bound: "1970 \<le> Y \<Longrightarrow> Y < 5800000 \<Longrightarrow> 0 \<le> jan1 Y \<and> jan1 Y \<le> 2120000000"
  using jan1_le_iff [of 1970 Y] jan1_le_iff [of Y 5800000] by (simp add: jan1_epoch) (simp add: jan1_def)

text \<open>The time at which a rule takes effect in year \<open>Y\<close>.\<close>

definition change_at :: "int \<Rightarrow> tzrule \<Rightarrow> int" where
  "change_at Y r = the (rule_days Y (jan1 Y) r) * 86400 + r_s r + r_offset r"

text \<open>What the computation of the change days needs of a rule.\<close>

definition rule_wf :: "tzrule \<Rightarrow> bool" where
  "rule_wf r \<longleftrightarrow> 0 \<le> r_d r \<and> r_d r < 65536 \<and>
     (r_ch r \<noteq> CHR ''J'' \<longrightarrow> r_ch r \<noteq> CHR ''D'' \<longrightarrow>
        0 \<le> r_m r \<and> r_m r \<le> 12 \<and> 0 \<le> r_n r \<and> r_n r \<le> 5 \<and> r_d r \<le> 6)"

lemma rule_days_defined:
  assumes "rule_wf r" "1970 \<le> Y"
  obtains D where "rule_days Y (jan1 Y) r = Some D" "jan1 Y - 7 \<le> D" "D \<le> jan1 Y + 70000"
proof -
  consider "r_ch r = CHR ''J''" | "r_ch r = CHR ''D''" | "r_ch r \<noteq> CHR ''J''" "r_ch r \<noteq> CHR ''D''" by blast
  then show thesis
  proof cases
    case 3
    define k where "k = max 0 (r_m r - 1)"
    define x where "x = jan1 Y + month_start Y k"
    define len where "len = month_len Y k"
    define w where "w = (if r_d r - (4 + x) mod 7 < 0 then r_d r - (4 + x) mod 7 + 7 else r_d r - (4 + x) mod 7)"
    have k: "0 \<le> k" "k < 12" and n: "0 \<le> r_n r" "r_n r \<le> 5" and d: "0 \<le> r_d r" "r_d r \<le> 6"
      using assms(1) 3 by (simp_all add: rule_wf_def k_def)
    have x0: "0 \<le> x" "jan1 Y \<le> x" "x \<le> jan1 Y + 366"
      using month_start_bounds [OF k, of Y] month_len_bounds [OF k, of Y] jan1_le_iff [of 1970 Y] assms(2)
      by (cases "leap Y"; simp add: x_def jan1_epoch)+
    have len: "28 \<le> len" using month_len_bounds [OF k, of Y] by (simp add: len_def)
    have w: "0 \<le> w" "w \<le> 6"
      using d pos_mod_bound [of 7 "4 + x"] pos_mod_sign [of 7 "4 + x"] unfolding w_def by (auto simp del: pos_mod_bound pos_mod_sign)
    have "month_days (month_lengths (leap Y)) 1 (r_m r) (jan1 Y) = Some (x, k + 1)"
    proof (cases "r_m r = 0")
      case True
      then show ?thesis by (simp add: month_days.simps k_def x_def)
    next
      case False
      then show ?thesis using month_days_ok [of k Y "jan1 Y"] k assms(1) 3
        by (simp add: k_def x_def rule_wf_def max_def)
    qed
    then have "rule_days Y (jan1 Y) r = Some (x + last_week len ((r_n r - 1) * 7 + w))"
      using 3 k x0
      by (simp add: rule_days_def arr_get_month cmod_nonneg EPOCH_WDAY_def DAYSPERWEEK_def Let_def w_def len_def)
    then show thesis using that x0 n w last_week_ok [OF len, of "(r_n r - 1) * 7 + w"] len
      by (simp split: if_splits)
  qed (use assms in \<open>auto intro: that simp: rule_days_def rule_wf_def\<close>)
qed

lemma limits_rule_ok:
  assumes "rule_wf r" "1970 \<le> Y" "Y < 5800000"
  shows "limits_rule Y (jan1 Y) r = Some (r\<lparr>r_change := change_at Y r\<rparr>)"
proof -
  obtain D where D: "rule_days Y (jan1 Y) r = Some D" "jan1 Y - 7 \<le> D" "D \<le> jan1 Y + 70000"
    by (rule rule_days_defined [OF assms(1,2)])
  have "ck32 D = Some D" using D(2,3) jan1_bound [OF assms(2,3)] by (simp add: ck32_def range_defs)
  then show ?thesis using D by (simp add: change_at_def limits_rule_def time_consts)
qed

lemma change_at_day:
  assumes "rule_ok r" "1970 \<le> Y"
  obtains D where "change_at Y r = D * 86400 + r_s r + r_offset r" "is_rule_day Y r D"
  by (rule rule_days_ok [OF assms]) (simp add: change_at_def)

lemma change_at_upd [simp]: "change_at Y (r\<lparr>r_change := c\<rparr>) = change_at Y r"
  by (simp add: change_at_def rule_days_change)

lemma rule_ok_upd [simp]: "rule_ok (r\<lparr>r_change := c\<rparr>) = rule_ok r" "rule_wf (r\<lparr>r_change := c\<rparr>) = rule_wf r"
  by (simp_all add: rule_ok_def rule_wf_def)

lemma rule_ok_wf: "rule_ok r \<Longrightarrow> rule_wf r"
  by (auto simp: rule_ok_def rule_wf_def split: if_splits)

definition with_limits :: "int \<Rightarrow> tzstate \<Rightarrow> tzstate" where
  "with_limits Y tz =
     (let c0 = change_at Y (tz_rule0 tz); c1 = change_at Y (tz_rule1 tz)
      in tz\<lparr>tz_year := Y, tz_rule0 := (tz_rule0 tz)\<lparr>r_change := c0\<rparr>,
            tz_rule1 := (tz_rule1 tz)\<lparr>r_change := c1\<rparr>, tz_north := c0 < c1\<rparr>)"

lemma tzcalc_limits_ok:
  assumes "rule_wf (tz_rule0 tz)" "rule_wf (tz_rule1 tz)" "1970 \<le> Y" "Y < 5800000"
  shows "tzcalc_limits Y tz = Some (with_limits Y tz, True)"
proof -
  note l = limits_rule_ok [OF assms(1,3,4)] limits_rule_ok [OF assms(2,3,4)]
  define p where "p = (Y - EPOCH_YEAR) * 365"
  have p: "ck32 p = Some p" "ck32 (jan1 Y) = Some (jan1 Y)"
    using assms(3,4) jan1_bound [OF assms(3,4)] by (simp_all add: p_def ck32_def range_defs EPOCH_YEAR_def)
  have "\<not> Y < EPOCH_YEAR" using assms(3) by (simp add: EPOCH_YEAR_def)
  then show ?thesis
    using l unfolding tzcalc_limits_def Let_def p_def [symmetric]
    by (simp add: p year_days_jan1 [OF assms(3), folded p_def] with_limits_def Let_def)
qed

section \<open>The rules \<open>tzset\<close> accepts\<close>

text \<open>The names and rules a value of \<open>TZ\<close> stands for; \<open>None\<close> when parsing it is undefined.\<close>

definition zone :: "string option \<Rightarrow> (string \<times> string \<times> tzrule \<times> tzrule) option" where
  "zone env = do {
     p \<leftarrow> (case env of None \<Rightarrow> Some Bail | Some tzenv \<Rightarrow> tz_parse tzenv);
     Some (case p of
       Bail \<Rightarrow> (''GMT'', ''GMT'', default_tzrule, default_tzrule)
     | Go (std, r0, None) \<Rightarrow> (std, std, r0, r0)
     | Go (std, _, Some (dst, r0, r1)) \<Rightarrow> (std, dst, r0, r1)) }"

lemma tzset_zone:
  "tzset env tz = do { (std, dst, r0, r1) \<leftarrow> zone env; tz_install std dst r0 r1 tz }"
  by (auto simp: tzset_def zone_def split: option.splits parsed.splits Option.bind_splits)

lemma short_at_bounds:
  assumes "0 \<le> d" "d < 65536" shows "0 \<le> short_at out k d \<and> short_at out k d < 65536"
proof -
  have "x \<in> set (shorts_of out) \<Longrightarrow> 0 \<le> x \<and> x < 65536" for x
    using uint_lt2p [where 'a=16] unfolding shorts_of_def
    by (auto simp: List.map_filter_def split: store.splits)
  then show ?thesis using assms by (auto simp: short_at_def)
qed

lemma hms_offset_bounds: "0 \<le> hms_offset out h \<and> hms_offset out h < 2 ^ 28" if "0 \<le> h" "h < 65536"
  using short_at_bounds [of 0 out 1] short_at_bounds [of 0 out 2] short_at_bounds [OF that, of out 0]
  by (simp add: hms_offset_def time_consts)

text \<open>
  What \<open>tzset\<close> guarantees of a rule: the ranges of the parser, and offsets that fit \<open>int\<close>.  The day
  of a \<open>J\<close> or \<open>D\<close> rule is any 16-bit value, an \<open>M\<close> rule has its month, week and weekday
  in range, and a zone without daylight time has no date at all.
\<close>

definition rule_date :: "tzrule \<Rightarrow> bool" where
  "rule_date r \<longleftrightarrow>
     (if r_ch r = CHR ''J'' \<or> r_ch r = CHR ''D'' then r_m r = 0 \<and> r_n r = 0 \<and> 0 \<le> r_d r \<and> r_d r < 65536
      else if r_ch r = CHR ''M'' then 1 \<le> r_m r \<and> r_m r \<le> 12 \<and> 1 \<le> r_n r \<and> r_n r \<le> 5 \<and> 0 \<le> r_d r \<and> r_d r \<le> 6
      else r_ch r = CHR 0x00 \<and> r_m r = 0 \<and> r_n r = 0 \<and> r_d r = 0)"

definition rule_type :: "tzrule \<Rightarrow> bool" where
  "rule_type r \<longleftrightarrow> rule_date r \<and> 0 \<le> r_s r \<and> r_s r < 2 ^ 28 \<and> \<bar>r_offset r\<bar> \<le> 2 ^ 28 + 3600"

lemma rule_type_wf: "rule_type r \<Longrightarrow> rule_wf r"
  by (auto simp: rule_type_def rule_date_def rule_wf_def split: if_splits)

lemma tz_rule_type:
  assumes "tz_rule i tzenv r = Some (Go (r', rest))" "\<bar>r_offset r\<bar> \<le> 2 ^ 28 + 3600" "r_m r = 0" "r_n r = 0"
  shows "rule_type r' \<and> r_ch r' \<in> set ''JDM''"
proof -
  define e where "e = (if deref tzenv = CHR '','' then tl tzenv else tzenv)"
  obtain q e' where date: "tz_rule_date i e r = Some (Go (q, e'))" and time: "tz_rule_time e' q = Some (Go (r', rest))"
    using assms(1) by (auto simp: tz_rule_def e_def [symmetric] split: Option.bind_splits parsed.splits)
  have q: "rule_date q \<and> r_ch q \<in> set ''JDM'' \<and> r_offset q = r_offset r"
  proof (cases "deref e = CHR ''M''")
    case True
    obtain k out where k: "sscanf e ''M%hu%n.%hu%n.%hu%n'' = (k, out)" by fastforce
    show ?thesis using date True short_at_bounds [of 0 out 2]
      by (auto simp: tz_rule_date_def k Let_def rule_date_def split: if_splits Option.bind_splits)
  next
    case False
    obtain c b where d: "(if deref e = CHR ''J'' then (CHR ''J'', tl e) else (CHR ''D'', e)) = (c, b)"
      and c: "c = CHR ''J'' \<or> c = CHR ''D''" by (cases "deref e = CHR ''J''") auto
    obtain v end_p x where v: "strtoul b 10 = (v, end_p, x)" by (metis prod_cases3)
    have "q = (if end_p = b then (if i = 0 then r\<lparr>r_ch := CHR ''M'', r_m := 3, r_n := 2, r_d := 0\<rparr>
                    else r\<lparr>r_ch := CHR ''M'', r_m := 11, r_n := 1, r_d := 0\<rparr>)
              else r\<lparr>r_ch := c, r_d := uint (ucast v :: u16)\<rparr>)"
      using date False unfolding tz_rule_date_def d by (auto simp: v Let_def)
    then show ?thesis using uint_lt2p [of "ucast v :: u16"] assms(3,4) c
      by (auto simp: rule_date_def)
  qed
  have "r' = q\<lparr>r_s := r_s r'\<rparr> \<and> 0 \<le> r_s r' \<and> r_s r' < 2 ^ 28"
    using time hms_offset_bounds [of 2]
    by (auto simp: tz_rule_time_def time_consts split: if_splits prod.splits Option.bind_splits)
  then obtain s where "r' = q\<lparr>r_s := s\<rparr>" "0 \<le> s" "s < 2 ^ 28" by metis
  then show ?thesis using q assms(2) by (auto simp: rule_type_def rule_date_def)
qed

lemma zero_rule_type: "\<bar>x\<bar> \<le> 2 ^ 28 + 3600 \<Longrightarrow> rule_type (zero_tzrule\<lparr>r_offset := x\<rparr>)"
  by (simp add: rule_type_def rule_date_def zero_tzrule_def)

lemma tz_sign_bound:
  assumes "tz_sign e = (s, e')" shows "\<bar>s * hms_offset out 0\<bar> < 2 ^ 28"
  using assms hms_offset_bounds [of 0 out] by (auto simp: tz_sign_def split: if_splits)

lemma tz_dst_part_type:
  assumes "tz_dst_part (zero_tzrule\<lparr>r_offset := x\<rparr>) n e = Some (Go (Some (dst, q0, q1)))" "\<bar>x\<bar> < 2 ^ 28"
  shows "rule_type q0 \<and> rule_type q1 \<and> r_ch q0 \<in> set ''JDM'' \<and> r_ch q1 \<in> set ''JDM''"
proof -
  let ?r0 = "zero_tzrule\<lparr>r_offset := x\<rparr>"
  obtain e1 where dst: "tz_dst_name n e = Some (Go (Some (dst, e1)))"
    using assms(1) unfolding tz_dst_part_def
    by (auto split: Option.bind_splits parsed.splits option.splits prod.splits)
  obtain s e2 where s: "tz_sign e1 = (s, e2)" by fastforce
  obtain k out where k: "sscanf e2 HMS = (k, out)" by fastforce
  define r1 where "r1 = zero_tzrule\<lparr>r_offset := (if k \<le> 0 then r_offset ?r0 - 3600 else s * hms_offset out 0)\<rparr>"
  obtain e3 e4 e5 where q: "tz_rule 0 e3 ?r0 = Some (Go (q0, e4))" "tz_rule 1 e4 r1 = Some (Go (q1, e5))"
    using assms(1) unfolding tz_dst_part_def dst r1_def
    by (auto simp: s k Let_def split: Option.bind_splits parsed.splits)
  have "\<bar>x - 3600\<bar> \<le> 2 ^ 28 + 3600" using assms(2) by linarith
  then have "\<bar>r_offset r1\<bar> \<le> 2 ^ 28 + 3600" using tz_sign_bound [OF s, of out] by (simp add: r1_def)
  then show ?thesis
    using tz_rule_type [OF q(1)] tz_rule_type [OF q(2)] assms(2) by (simp add: r1_def zero_tzrule_def)
qed

lemma tz_parse_type:
  assumes "tz_parse tzenv = Some (Go (std, r0, d))"
  shows "rule_type r0"
    and "d = Some (dst, q0, q1) \<Longrightarrow> rule_type q0 \<and> rule_type q1 \<and> r_ch q0 \<in> set ''JDM'' \<and> r_ch q1 \<in> set ''JDM''"
proof -
  define e where "e = (if deref tzenv = CHR '':'' then tl tzenv else tzenv)"
  obtain e1 where std: "tz_std_name e = Some (Go (std, e1))"
    using assms by (auto simp: tz_parse_def e_def [symmetric] Let_def
        split: Option.bind_splits parsed.splits prod.splits if_splits)
  obtain s e2 where s: "tz_sign e1 = (s, e2)" by fastforce
  obtain k out where k: "sscanf e2 HMS = (k, out)" by fastforce
  obtain n e3 where r: "r0 = zero_tzrule\<lparr>r_offset := s * hms_offset out 0\<rparr>" "tz_dst_part r0 n e3 = Some (Go d)"
    using assms unfolding tz_parse_def e_def [symmetric]
    by (auto simp: std s k Let_def split: Option.bind_splits parsed.splits if_splits)
  note b = tz_sign_bound [OF s, of out]
  show "rule_type r0" unfolding r(1) using b by (intro zero_rule_type) simp
  show "rule_type q0 \<and> rule_type q1 \<and> r_ch q0 \<in> set ''JDM'' \<and> r_ch q1 \<in> set ''JDM''" if "d = Some (dst, q0, q1)"
    by (rule tz_dst_part_type [of "s * hms_offset out 0" n e3 dst]) (use r b that in auto)
qed

lemma zone_type:
  assumes "zone env = Some (std, dst, r0, r1)"
  shows "rule_type r0 \<and> rule_type r1"
proof -
  have d: "rule_type default_tzrule" by (simp add: rule_type_def rule_date_def default_tzrule_def)
  show ?thesis
  proof (cases env)
    case None
    then show ?thesis using assms d by (simp add: zone_def)
  next
    case (Some tzenv)
    then show ?thesis using assms d
      by (auto simp: zone_def split: Option.bind_splits parsed.splits option.splits prod.splits
          dest: tz_parse_type)
  qed
qed

section \<open>The state after \<open>tzset\<close>, and \<open>localtime_r\<close>\<close>

text \<open>The state after \<open>tzset\<close> with rules \<open>r0\<close> and \<open>r1\<close>; the limits are those of the cached year.\<close>

definition installed :: "tzrule \<Rightarrow> tzrule \<Rightarrow> tzstate \<Rightarrow> bool" where
  "installed r0 r1 tz \<longleftrightarrow>
     (tz_rule0 tz)\<lparr>r_change := 0\<rparr> = r0\<lparr>r_change := 0\<rparr> \<and> (tz_rule1 tz)\<lparr>r_change := 0\<rparr> = r1\<lparr>r_change := 0\<rparr> \<and>
     daylight tz = (r_offset r0 \<noteq> r_offset r1) \<and>
     (1970 \<le> tz_year tz \<longrightarrow> with_limits (tz_year tz) tz = tz)"

lemma rule_split: "(a :: tzrule)\<lparr>r_change := 0\<rparr> = b\<lparr>r_change := 0\<rparr> \<Longrightarrow> a = b\<lparr>r_change := r_change a\<rparr>"
  by (cases a; cases b) simp

lemma installedD:
  assumes "installed r0 r1 tz"
  shows "tz_rule0 tz = r0\<lparr>r_change := r_change (tz_rule0 tz)\<rparr>" "tz_rule1 tz = r1\<lparr>r_change := r_change (tz_rule1 tz)\<rparr>"
    "r_offset (tz_rule0 tz) = r_offset r0" "r_offset (tz_rule1 tz) = r_offset r1"
    "change_at Y (tz_rule0 tz) = change_at Y r0" "change_at Y (tz_rule1 tz) = change_at Y r1"
    "rule_wf (tz_rule0 tz) = rule_wf r0" "rule_wf (tz_rule1 tz) = rule_wf r1"
proof -
  show e: "tz_rule0 tz = r0\<lparr>r_change := r_change (tz_rule0 tz)\<rparr>" "tz_rule1 tz = r1\<lparr>r_change := r_change (tz_rule1 tz)\<rparr>"
    using assms by (auto simp: installed_def intro!: rule_split)
  show "r_offset (tz_rule0 tz) = r_offset r0" "r_offset (tz_rule1 tz) = r_offset r1"
    "change_at Y (tz_rule0 tz) = change_at Y r0" "change_at Y (tz_rule1 tz) = change_at Y r1"
    "rule_wf (tz_rule0 tz) = rule_wf r0" "rule_wf (tz_rule1 tz) = rule_wf r1"
    by (subst e, simp)+
qed

lemma with_limits_simps [simp]:
  "tz_year (with_limits Y tz) = Y" "daylight (with_limits Y tz) = daylight tz"
  "r_change (tz_rule0 (with_limits Y tz)) = change_at Y (tz_rule0 tz)"
  "r_change (tz_rule1 (with_limits Y tz)) = change_at Y (tz_rule1 tz)"
  "r_offset (tz_rule0 (with_limits Y tz)) = r_offset (tz_rule0 tz)"
  "r_offset (tz_rule1 (with_limits Y tz)) = r_offset (tz_rule1 tz)"
  "tz_north (with_limits Y tz) = (change_at Y (tz_rule0 tz) < change_at Y (tz_rule1 tz))"
  "with_limits Y (with_limits X tz) = with_limits Y tz"
  by (simp_all add: with_limits_def Let_def)

lemma tz_install_ok:
  assumes "rule_wf r0" "rule_wf r1" "tz_year tz < 5800000"
  obtains tz' where "tz_install std dst r0 r1 tz = Some tz'" "installed r0 r1 tz'" "tz_year tz' = tz_year tz"
    "tzname_std tz' = std" "tzname_dst tz' = dst" "timezone tz' = r_offset r0"
proof (cases "tz_year tz < 1970")
  case True
  then show thesis
    by (intro that [of "tz\<lparr>tzname_std := std, tzname_dst := dst, tz_rule0 := r0, tz_rule1 := r1,
          timezone := r_offset r0, daylight := r_offset r0 \<noteq> r_offset r1\<rparr>"])
       (simp_all add: tz_install_def tzcalc_limits_def EPOCH_YEAR_def installed_def)
next
  case False
  define t1 where "t1 = tz\<lparr>tzname_std := std, tzname_dst := dst, tz_rule0 := r0, tz_rule1 := r1\<rparr>"
  have "tzcalc_limits (tz_year tz) t1 = Some (with_limits (tz_year tz) t1, True)"
    using assms False by (intro tzcalc_limits_ok) (simp_all add: t1_def)
  then show thesis
    by (intro that [of "(with_limits (tz_year tz) t1)\<lparr>timezone := r_offset r0, daylight := r_offset r0 \<noteq> r_offset r1\<rparr>"])
       (simp_all add: tz_install_def t1_def installed_def with_limits_def Let_def)
qed

lemma tzset_ok:
  assumes "zone env = Some (std, dst, r0, r1)" "tz_year tz < 5800000"
  obtains tz' where "tzset env tz = Some tz'" "installed r0 r1 tz'" "tz_year tz' = tz_year tz"
    "tzname_std tz' = std" "tzname_dst tz' = dst" "timezone tz' = r_offset r0"
proof -
  have "rule_wf r0" "rule_wf r1" using zone_type [OF assms(1)] by (simp_all add: rule_type_wf)
  from tz_install_ok [OF this assms(2)] show thesis using that assms(1) by (auto simp: tzset_zone)
qed

lemma year_limits_ok:
  assumes "installed r0 r1 tz" "rule_wf r0" "rule_wf r1" "1970 \<le> Y" "Y < 5800000"
  shows "year_limits Y tz = Some (with_limits Y tz, True)"
  using assms tzcalc_limits_ok [of tz Y] installedD [OF assms(1)]
  by (auto simp: year_limits_def installed_def)

lemma year_limits_early:
  assumes "Y < 1970" "Y \<noteq> tz_year tz" shows "year_limits Y tz = Some (tz, False)"
  using assms by (simp add: year_limits_def tzcalc_limits_def EPOCH_YEAR_def)

definition in_dst :: "int \<Rightarrow> int \<Rightarrow> int \<Rightarrow> bool" where
  "in_dst c0 c1 t \<longleftrightarrow> (if c0 < c1 then c0 \<le> t \<and> t < c1 else c0 \<le> t \<or> t < c1)"

text \<open>The value of \<open>tm_isdst\<close> at time \<open>t\<close> of the UTC year \<open>Y\<close>.\<close>

definition isdst_at :: "tzrule \<Rightarrow> tzrule \<Rightarrow> int \<Rightarrow> int \<Rightarrow> int" where
  "isdst_at r0 r1 Y t =
     (if r_offset r0 = r_offset r1 then 0 else if Y < 1970 then - 1
      else of_bool (in_dst (change_at Y r0) (change_at Y r1) t))"

definition offset_of :: "tzrule \<Rightarrow> tzrule \<Rightarrow> int \<Rightarrow> int" where
  "offset_of r0 r1 isdst = (if isdst = 1 then r_offset r1 else r_offset r0)"

lemma installed_limits: "installed r0 r1 tz \<Longrightarrow> installed r0 r1 (with_limits Y tz)"
  by (auto simp: installed_def) (simp_all add: with_limits_def Let_def)

lemma tm_normal_year:
  assumes "tm_normal u" "jan1 Y \<le> tm_days u" "tm_days u < jan1 (Y + 1)"
  shows "tm_year u + 1900 = Y"
proof -
  have "jan1 (tm_year u + 1900) \<le> tm_days u \<and> tm_days u < jan1 (tm_year u + 1900 + 1)"
    using assms(1) unfolding tm_days_def tm_normal_def by (intro civil_year_bounds) auto
  then have "jan1 (tm_year u + 1900) < jan1 (Y + 1)" "jan1 Y < jan1 (tm_year u + 1900 + 1)"
    using assms(2,3) by linarith+
  then show ?thesis by (simp add: jan1_less_iff)
qed

lemma localtime_r_ok:
  assumes z: "zone env = Some (std, dst, r0, r1)"
    and o: "\<bar>r_offset r0\<bar> \<le> 86400" "\<bar>r_offset r1\<bar> \<le> 86400"
    and Y: "jan1 Y \<le> t div 86400" "t div 86400 < jan1 (Y + 1)" "INT_MIN + 1900 < Y" "Y < 5800000"
    and y: "tz_year tz < 5800000" "tz_year tz = Y \<Longrightarrow> 1970 \<le> Y"
  obtains r tz' where "localtime_r env t res tz = Some (Some r, tz')" "tm_normal r" "tm_derived r"
    "tm_isdst r = isdst_at r0 r1 Y t" "tm_time r = t - offset_of r0 r1 (tm_isdst r)"
    "installed r0 r1 tz'" "tz_year tz' = tz_year tz \<or> tz_year tz' = Y \<and> 1970 \<le> Y"
proof -
  have wf: "rule_wf r0" "rule_wf r1" using zone_type [OF z] by (simp_all add: rule_type_wf)
  have df: "day_fits (t div 86400)" using Y day_fits_iff [OF Y(1,2)] by (simp add: range_defs)
  obtain u where u: "gmtime_r t res = (u, True)" "tm_normal u" "tm_derived u" "tm_time u = t" "tm_isdst u = 0"
    using gmtime_r_cases [of t res] df by metis
  have uy: "tm_year u + 1900 = Y"
    using tm_normal_year [OF u(2), of Y] Y(1,2) tm_normal_day(1) [OF u(2)] u(4) by simp
  obtain t1 where t1: "tzset env tz = Some t1" "installed r0 r1 t1" "tz_year t1 = tz_year tz"
    using tzset_ok [OF z y(1)] by metis
  note i = installedD [OF t1(2)]
  obtain t2 where t2: "(if daylight t1 then do {
               (tz, ok) \<leftarrow> year_limits Y t1;
               Some (if ok then of_bool (dst_at tz t) else - 1, tz)
             } else Some (0, t1)) = Some (isdst_at r0 r1 Y t, t2)" "installed r0 r1 t2" "tz_year t2 = tz_year t1 \<or> tz_year t2 = Y \<and> 1970 \<le> Y"
  proof (cases "daylight t1")
    case False
    then show thesis using that [of t1] t1(2) by (simp add: isdst_at_def installed_def)
  next
    case d: True
    then have o: "r_offset r0 \<noteq> r_offset r1" using t1(2) by (simp add: installed_def)
    show thesis
    proof (cases "Y < 1970")
      case True
      then have "year_limits Y t1 = Some (t1, False)" using t1(3) y(2) by (intro year_limits_early) auto
      then show thesis using that [of t1] True d o t1 by (simp add: isdst_at_def)
    next
      case False
      then show thesis using that [of "with_limits Y t1"] d o year_limits_ok [OF t1(2) wf, of Y] Y(4) i installed_limits [OF t1(2)]
        by (simp add: isdst_at_def dst_at_def in_dst_def)
    qed
  qed
  define v where "v = u\<lparr>tm_isdst := isdst_at r0 r1 Y t\<rparr>"
  have v: "tm_normal v" "tm_derived v" "tm_time v = t" "tm_year v = tm_year u"
    using u by (simp_all add: v_def tm_normal_def tm_derived_def tm_time_def tm_days_def)
  define off where "off = offset_of r0 r1 (isdst_at r0 r1 Y t)"
  have "\<bar>off\<bar> \<le> 86400" using o by (simp add: off_def offset_of_def)
  then obtain r where r: "shift_clock (month_lengths (leap Y)) off v = Some r" "tm_normal r" "tm_derived r"
    "tm_time r = t - off" "tm_isdst r = isdst_at r0 r1 Y t"
    using shift_clock_ok [OF v(1,2), of off] Y(3,4) uy v by (auto simp: range_defs v_def)
  have "ck32 (tm_year u + YEAR_BASE) = Some Y" using uy Y by (simp add: ck32_def YEAR_BASE_def range_defs)
  then have "localtime_r env t res tz = Some (Some r, t2)"
    using r(1) t2(1) installedD [OF t2(2)]
    by (cases "isdst_at r0 r1 Y t = 1") (simp_all add: localtime_r_def u(1) t1(1) v_def off_def offset_of_def)
  then show thesis using that r t2 t1(3) by (simp add: off_def)
qed

section \<open>Correcting the clock in \<open>mktime\<close>\<close>

lemma date_unique:
  assumes "tm_normal a" "tm_normal b" "tm_days a = tm_days b"
  shows "tm_mday a = tm_mday b \<and> tm_mon a = tm_mon b \<and> tm_year a = tm_year b"
proof -
  let ?b = "b\<lparr>tm_sec := tm_sec a, tm_min := tm_min a, tm_hour := tm_hour a\<rparr>"
  have "tm_normal ?b" using assms(1,2) by (simp add: tm_normal_def)
  moreover have "tm_time a = tm_time ?b" using assms(3) by (simp add: tm_time_def tm_days_def)
  ultimately show ?thesis using tm_normal_unique [OF assms(1), of ?b] by simp
qed

text \<open>The day of the month on the next day.\<close>

lemma mday_step:
  assumes "tm_normal p" "tm_normal v" "tm_days v = tm_days p + 1"
  shows "tm_mday v = tm_mday p + 1 \<or> tm_mday v = 1 \<and> 28 \<le> tm_mday p"
proof -
  let ?Y = "tm_year p + 1900"
  note n = assms(1) [unfolded tm_normal_def]
  show ?thesis
  proof (cases "tm_mday p < month_len ?Y (tm_mon p)")
    case True
    let ?c = "p\<lparr>tm_mday := tm_mday p + 1\<rparr>"
    have "tm_normal ?c" using n True by (simp add: tm_normal_def)
    moreover have "tm_days ?c = tm_days p + 1" by (simp add: tm_days_def civil_add)
    ultimately show ?thesis using date_unique [OF assms(2), of ?c] assms(3) by simp
  next
    case False
    then have md: "tm_mday p = month_len ?Y (tm_mon p)" using n by simp
    define c where "c = (if tm_mon p = 11 then p\<lparr>tm_mday := 1, tm_mon := 0, tm_year := tm_year p + 1\<rparr>
      else p\<lparr>tm_mday := 1, tm_mon := tm_mon p + 1\<rparr>)"
    have len: "28 \<le> month_len ?Y (tm_mon p)" "tm_mon p \<noteq> 11 \<Longrightarrow> 28 \<le> month_len ?Y (tm_mon p + 1)"
      using month_len_bounds [of "tm_mon p" ?Y] month_len_bounds [of "tm_mon p + 1" ?Y] n by simp_all
    have "28 \<le> month_len X 0" for X by (simp add: month_lengths_def)
    then have "tm_normal c" using n len by (auto simp: c_def tm_normal_def intro: order_trans [of 1 28])
    moreover have y: "tm_year p + 1 + 1900 = ?Y + 1" by simp
    have "civil ?Y (tm_mon p) (1 + month_len ?Y (tm_mon p)) = tm_days p + 1"
      using md civil_add [of ?Y "tm_mon p" "tm_mday p" 1] by (simp add: tm_days_def add.commute)
    then have "civil ?Y (tm_mon p + 1) 1 = tm_days p + 1" using n by (simp add: civil_next_month)
    then have "tm_days c = tm_days p + 1"
      using civil_year_end [of ?Y 1] unfolding c_def tm_days_def by (cases "tm_mon p = 11") (simp_all add: y [symmetric])
    ultimately have "tm_mday v = tm_mday c" using date_unique [OF assms(2), of c] assms(3) by simp
    then show ?thesis using len md by (simp add: c_def)
  qed
qed

definition mday_roll :: "int \<Rightarrow> int" where
  "mday_roll d = (if d > 1 then - 1 else if d < - 1 then 1 else d)"

lemma mday_roll_ok:
  assumes "tm_normal p" "tm_normal v" "\<bar>tm_days v - tm_days p\<bar> \<le> 1"
  shows "mday_roll (tm_mday v - tm_mday p) = tm_days v - tm_days p"
proof -
  consider "tm_days v = tm_days p" | "tm_days v = tm_days p + 1" | "tm_days p = tm_days v + 1"
    using assms(3) by linarith
  then show ?thesis
  proof cases
    case 1
    then show ?thesis using date_unique [OF assms(2,1)] by (simp add: mday_roll_def)
  next
    case 2
    then show ?thesis using mday_step [OF assms(1,2)] by (auto simp: mday_roll_def)
  next
    case 3
    then show ?thesis using mday_step [OF assms(2,1)] by (auto simp: mday_roll_def)
  qed
qed

lemma dst_correct_ok:
  assumes "tm_normal p" "tm_yday p = tm_days p - jan1 (tm_year p + 1900)" "\<bar>diff\<bar> < 86400"
    "INT_MIN + 1 < tm_year p" "tm_year p < INT_MAX - 1"
  obtains r where "dst_correct diff p s (tm_days p) = Some (r, s + diff, tm_days r)"
    "tm_normal r" "tm_yday r = tm_days r - jan1 (tm_year r + 1900)" "tm_time r = tm_time p + diff"
    "tm_isdst r = tm_isdst p"
proof -
  let ?Y = "tm_year p + 1900"
  define q where "q = p\<lparr>tm_sec := tm_sec p + diff\<rparr>"
  have q: "tm_time q = tm_time p + diff" by (simp add: q_def tm_time_def tm_days_def)
  note n = assms(1) [unfolded tm_normal_def]
  have diff: "- 86400 < diff" "diff < 86400" using assms(3) by linarith+
  have ck: "ck32 (tm_sec p + diff) = Some (tm_sec p + diff)" using n diff by (simp add: ck32_def range_defs)
  have md: "tm_mday p \<le> 31" using n month_len_bounds [of "tm_mon p" ?Y] by simp
  define mi where "mi = tm_min p + (tm_sec p + diff) div 60"
  define ho where "ho = tm_hour p + mi div 60"
  have "- 1440 \<le> (tm_sec p + diff) div 60" "(tm_sec p + diff) div 60 \<le> 1440" using n diff by linarith+
  then have mi: "- 1440 \<le> mi" "mi < 1500" using n unfolding mi_def by linarith+
  then have "- 24 \<le> mi div 60" "mi div 60 < 25" by linarith+
  then have ho: "- 24 \<le> ho" "ho < 48" using n unfolding ho_def by linarith+
  then have "- 1 \<le> ho div 24" "ho div 24 < 2" by linarith+
  then have "carries_fit q" using n diff md mi ho assms(4,5)
    unfolding carries_fit_def q_def Let_def by (simp add: mi_def [symmetric] ho_def [symmetric] range_defs)
  moreover have fit: "day_fits (tm_time q div 86400)"
  proof -
    have "jan1 ?Y \<le> tm_days p \<and> tm_days p < jan1 (?Y + 1)"
      using n unfolding tm_days_def by (intro civil_year_bounds) auto
    moreover have "jan1 (INT_MIN + 1900) + 365 \<le> jan1 ?Y" "jan1 (?Y + 1) + 365 \<le> jan1 (INT_MAX + 1901)"
      using assms(4,5) by (intro jan1_mono; simp)+
    moreover have "\<bar>tm_time q div 86400 - tm_days p\<bar> \<le> 1"
      using q tm_normal_day [OF assms(1)] diff by linarith
    ultimately show ?thesis unfolding day_fits_def by linarith
  qed
  ultimately obtain v where v: "validate_structure q = Some (v, True)" "tm_normal v" "tm_time v = tm_time p + diff"
    "tm_isdst v = tm_isdst q" "tm_yday v = tm_yday q"
    using validate_structure_ok [of q] q by (metis (full_types))
  have d1: "\<bar>tm_days v - tm_days p\<bar> \<le> 1"
    using tm_normal_day [OF assms(1)] tm_normal_day [OF v(2)] v(3) assms(3) by linarith
  define e where "e = mday_roll (tm_mday v - tm_mday p)"
  have e: "e = tm_days v - tm_days p" unfolding e_def by (rule mday_roll_ok [OF assms(1) v(2) d1])
  define r where "r = v\<lparr>tm_yday := tm_days v - jan1 (tm_year v + 1900)\<rparr>"
  have yv: "jan1 (tm_year v + 1900) \<le> tm_days v \<and> tm_days v < jan1 (tm_year v + 1900 + 1)"
    using v(2) unfolding tm_days_def tm_normal_def by (intro civil_year_bounds) auto
  have yp: "jan1 ?Y \<le> tm_days p \<and> tm_days p < jan1 (?Y + 1)"
    using n unfolding tm_days_def by (intro civil_year_bounds) auto
  let ?yd = "tm_days v - jan1 ?Y"
  define yd where "yd = (if ?yd < 0 then DAYS_IN_YEAR (tm_year p - 1) - 1
    else if ?yd > DAYS_IN_YEAR (tm_year p) - 1 then ?yd - DAYS_IN_YEAR (tm_year p) else ?yd)"
  have jp: "DAYS_IN_YEAR (tm_year p) = jan1 (?Y + 1) - jan1 ?Y"
    "DAYS_IN_YEAR (tm_year p - 1) = jan1 ?Y - jan1 (?Y - 1)"
    using DAYS_IN_YEAR_jan1 [of "tm_year p"] DAYS_IN_YEAR_jan1 [of "tm_year p - 1"] by (simp_all add: algebra_simps)
  have r: "r = v\<lparr>tm_yday := yd\<rparr>"
  proof -
    consider "?yd < 0" | "jan1 (?Y + 1) \<le> tm_days v" | "jan1 ?Y \<le> tm_days v" "tm_days v < jan1 (?Y + 1)" by linarith
    then have "tm_days v - jan1 (tm_year v + 1900) = yd"
    proof cases
      case 1
      then have "jan1 (?Y - 1) \<le> tm_days v" "tm_days v < jan1 (?Y - 1 + 1)"
        using jan1_mono [of "?Y - 1" ?Y] d1 yp unfolding diff_add_cancel by linarith+
      then have y: "tm_year v + 1900 = ?Y - 1" by (rule tm_normal_year [OF v(2)])
      show ?thesis unfolding yd_def jp y using 1 d1 yp by auto
    next
      case 2
      then have "jan1 (?Y + 1) \<le> tm_days v" "tm_days v < jan1 (?Y + 1 + 1)"
        using jan1_mono [of "?Y + 1" "?Y + 1 + 1"] d1 yp by simp_all
      from tm_normal_year [OF v(2) this] 2 d1 yp show ?thesis by (simp add: yd_def jp)
    next
      case 3
      from tm_normal_year [OF v(2) this] 3 show ?thesis by (simp add: yd_def jp)
    qed
    then show ?thesis by (simp add: r_def)
  qed
  have "dst_correct diff p s (tm_days p) = Some (r, s + diff, tm_days v)"
  proof (cases "tm_mday v - tm_mday p = 0")
    case True
    then have "tm_days v = tm_days p" using e by (simp add: e_def mday_roll_def)
    moreover from this have "tm_year v = tm_year p" using date_unique [OF v(2) assms(1)] by simp
    moreover have "v\<lparr>tm_yday := tm_yday p\<rparr> = v" using v(5) by (cases v) (simp add: q_def)
    ultimately show ?thesis
      using True v(1) assms(2) by (simp add: dst_correct_def ck q_def [symmetric] r_def)
  next
    case False
    have "tm_yday v + e = ?yd" "tm_days p + e = tm_days v" using v(5) assms(2) e by (simp_all add: q_def)
    then show ?thesis
      using False v(1) unfolding dst_correct_def r yd_def
      by (simp add: ck q_def [symmetric] e_def [unfolded mday_roll_def, symmetric] Let_def)
  qed
  then show thesis
    using that [of r] v by (simp add: r_def tm_normal_def tm_time_def tm_days_def q_def)
qed

text \<open>
  Local standard time changes back at \<open>c1\<close>: in the hour that occurs twice the
  flag of the caller decides.
\<close>

definition twice :: "tzrule \<Rightarrow> tzrule \<Rightarrow> int \<Rightarrow> int \<Rightarrow> bool" where
  "twice r0 r1 L s \<longleftrightarrow> change_at L r1 - r_offset r0 \<le> s \<and> s < change_at L r1 - r_offset r1"

definition local_dst :: "tzrule \<Rightarrow> tzrule \<Rightarrow> int \<Rightarrow> int \<Rightarrow> bool" where
  "local_dst r0 r1 L s \<longleftrightarrow>
     (let from_t = change_at L r0 - r_offset r1; to_t = change_at L r1 - r_offset r0
      in if change_at L r0 < change_at L r1 then from_t \<le> s \<and> s < to_t else from_t \<le> s \<or> s < to_t)"

text \<open>
  What \<open>mktime\<close> makes of the local time \<open>s\<close> in year \<open>L\<close> and the flag \<open>f\<close> of the
  caller: the flag it stores, and the flag whose offset it applies.
\<close>

definition user_flag :: "int \<Rightarrow> int" where
  "user_flag f = (if f > 0 then 1 else f)"

definition stored_flag :: "tzrule \<Rightarrow> tzrule \<Rightarrow> int \<Rightarrow> int \<Rightarrow> int \<Rightarrow> int" where
  "stored_flag r0 r1 L s f =
     (if r_offset r0 = r_offset r1 then 0
      else if L < 1970 \<or> twice r0 r1 L s then user_flag f
      else of_bool (local_dst r0 r1 L s))"

definition applied_flag :: "tzrule \<Rightarrow> tzrule \<Rightarrow> int \<Rightarrow> int \<Rightarrow> int \<Rightarrow> int" where
  "applied_flag r0 r1 L s f =
     (if r_offset r0 \<noteq> r_offset r1 \<and> f \<ge> 0 then user_flag f else stored_flag r0 r1 L s f)"

lemma mktime_dst_ok:
  assumes i: "installed r0 r1 tz" "rule_wf r0" "rule_wf r1" and o: "\<bar>r_offset r0 - r_offset r1\<bar> < 86400"
    and p: "tm_normal p" "tm_yday p = tm_days p - jan1 (tm_year p + 1900)" "tm_time p = s"
    and L: "tm_year p + 1900 = L" "INT_MIN + 1902 < L" "L < 5800000" "tz_year tz = L \<Longrightarrow> 1970 \<le> L"
  obtains r tz' where "mktime_dst p s (tm_days p) tz = Some (r, s + offset_of r0 r1 (applied_flag r0 r1 L s (tm_isdst p))
        - offset_of r0 r1 (stored_flag r0 r1 L s (tm_isdst p)), tm_days r, stored_flag r0 r1 L s (tm_isdst p), tz')"
    "tm_normal r" "tm_yday r = tm_days r - jan1 (tm_year r + 1900)"
    "tm_time r = s + offset_of r0 r1 (applied_flag r0 r1 L s (tm_isdst p)) - offset_of r0 r1 (stored_flag r0 r1 L s (tm_isdst p))"
    "installed r0 r1 tz'" "applied_flag r0 r1 L s (tm_isdst p) = stored_flag r0 r1 L s (tm_isdst p) \<longrightarrow> r = p"
proof -
  let ?u = "user_flag (tm_isdst p)"
  have ck: "ck32 (tm_year p + YEAR_BASE) = Some L" using L by (simp add: ck32_def YEAR_BASE_def range_defs)
  show thesis
  proof (cases "r_offset r0 = r_offset r1")
    case True
    then have "\<not> daylight tz" using i(1) by (simp add: installed_def)
    then show thesis using that [of p tz] p i(1) True
      by (simp add: mktime_dst_def stored_flag_def applied_flag_def)
  next
    case d: False
    then have day: "daylight tz" using i(1) by (simp add: installed_def)
    show thesis
    proof (cases "L < 1970")
      case True
      then have "year_limits L tz = Some (tz, False)" using L(4) by (intro year_limits_early) auto
      then show thesis using that [of p tz] p i(1) True d day ck
        by (simp add: mktime_dst_def stored_flag_def applied_flag_def user_flag_def Let_def)
    next
      case False
      note yl = year_limits_ok [OF i, of L] and ins = installed_limits [OF i(1), of L] and e = installedD [OF i(1)]
      have yl: "year_limits L tz = Some (with_limits L tz, True)" using yl False L by simp
      have md: "mktime_dst p s (tm_days p) tz = (if twice r0 r1 L s then Some (p, s, tm_days p, ?u, with_limits L tz)
         else if ?u \<ge> 0 \<and> of_bool (local_dst r0 r1 L s) \<noteq> ?u then do {
            (r, tim, days) \<leftarrow> dst_correct (if local_dst r0 r1 L s then r_offset r0 - r_offset r1 else - (r_offset r0 - r_offset r1)) p s (tm_days p);
            Some (r, tim, days, of_bool (local_dst r0 r1 L s), with_limits L tz) }
         else Some (p, s, tm_days p, of_bool (local_dst r0 r1 L s), with_limits L tz))"
        using day ck yl e by (simp add: mktime_dst_def twice_def local_dst_def user_flag_def Let_def)
      consider "twice r0 r1 L s" | "\<not> twice r0 r1 L s" "?u < 0 \<or> of_bool (local_dst r0 r1 L s) = ?u"
        | "\<not> twice r0 r1 L s" "0 \<le> ?u" "of_bool (local_dst r0 r1 L s) \<noteq> ?u" by linarith
      then show thesis
      proof cases
        case 1
        then show thesis using that [of p "with_limits L tz"] md ins p d False
          by (auto simp: stored_flag_def applied_flag_def)
      next
        case 2
        then show thesis using that [of p "with_limits L tz"] md ins p d False
          by (auto simp: stored_flag_def applied_flag_def user_flag_def split: if_splits)
      next
        case 3
        define diff where "diff = (if local_dst r0 r1 L s then r_offset r0 - r_offset r1 else - (r_offset r0 - r_offset r1))"
        have "\<bar>diff\<bar> < 86400" "INT_MIN + 1 < tm_year p" "tm_year p < INT_MAX - 1"
          using o L by (simp_all add: diff_def range_defs abs_minus_commute)
        then obtain r where r: "dst_correct diff p s (tm_days p) = Some (r, s + diff, tm_days r)"
          "tm_normal r" "tm_yday r = tm_days r - jan1 (tm_year r + 1900)" "tm_time r = tm_time p + diff"
          "tm_isdst r = tm_isdst p"
          using dst_correct_ok [OF p(1,2)] by metis
        have u: "?u = of_bool (\<not> local_dst r0 r1 L s)" "0 \<le> tm_isdst p" using 3 by (auto simp: user_flag_def split: if_splits)
        have st: "stored_flag r0 r1 L s (tm_isdst p) = of_bool (local_dst r0 r1 L s)"
          "applied_flag r0 r1 L s (tm_isdst p) = of_bool (\<not> local_dst r0 r1 L s)"
          using 3 d False u by (simp_all add: stored_flag_def applied_flag_def)
        show thesis unfolding st
          by (rule that [of r "with_limits L tz", unfolded st])
             (use 3 r ins md p(3) in \<open>simp_all add: diff_def [symmetric], simp_all add: diff_def offset_of_def\<close>)
      qed
    qed
  qed
qed

lemma mktime_ok:
  assumes z: "zone env = Some (std, dst, r0, r1)"
    and o: "\<bar>r_offset r0\<bar> \<le> 86400" "\<bar>r_offset r1\<bar> \<le> 86400" "\<bar>r_offset r0 - r_offset r1\<bar> < 86400"
    and t: "carries_fit t" "tm_time t \<noteq> - 1"
    and L: "jan1 L \<le> tm_time t div 86400" "tm_time t div 86400 < jan1 (L + 1)" "INT_MIN + 1902 < L" "L < 5800000"
    and y: "tz_year tz < 5800000" "tz_year tz = L \<Longrightarrow> 1970 \<le> L"
  obtains t' tz' where "mktime env t tz = Some (t', tm_time t
        + offset_of r0 r1 (applied_flag r0 r1 L (tm_time t) (tm_isdst t)), None, tz')"
    "tm_normal t'" "tm_derived t'" "tm_isdst t' = stored_flag r0 r1 L (tm_time t) (tm_isdst t)"
    "tm_time t' = tm_time t + offset_of r0 r1 (applied_flag r0 r1 L (tm_time t) (tm_isdst t)) - offset_of r0 r1 (tm_isdst t')"
proof -
  let ?s = "tm_time t" and ?f = "tm_isdst t"
  have wf: "rule_wf r0" "rule_wf r1" using zone_type [OF z] by (simp_all add: rule_type_wf)
  have df: "day_fits (?s div 86400)" using L day_fits_iff [OF L(1,2)] by (simp add: range_defs)
  obtain p where p: "mktime_utc t = Some (p, Inr (?s, ?s div 86400))"
    "tm_normal p" "tm_time p = ?s" "tm_yday p = tm_days p - jan1 (tm_year p + 1900)" "tm_isdst p = ?f"
    using mktime_utc_ok [OF t(1) df] by metis
  have dp: "?s div 86400 = tm_days p" using tm_normal_day(1) [OF p(2)] p(3) by simp
  have py: "tm_year p + 1900 = L" using tm_normal_year [OF p(2)] L dp by simp
  obtain t1 where t1: "tzset env tz = Some t1" "installed r0 r1 t1" "tz_year t1 = tz_year tz"
    using tzset_ok [OF z y(1)] by metis
  obtain r t2 where r: "mktime_dst p ?s (tm_days p) t1 = Some (r, ?s + offset_of r0 r1 (applied_flag r0 r1 L ?s ?f)
        - offset_of r0 r1 (stored_flag r0 r1 L ?s ?f), tm_days r, stored_flag r0 r1 L ?s ?f, t2)"
    "tm_normal r" "tm_yday r = tm_days r - jan1 (tm_year r + 1900)"
    "tm_time r = ?s + offset_of r0 r1 (applied_flag r0 r1 L ?s ?f) - offset_of r0 r1 (stored_flag r0 r1 L ?s ?f)"
    "installed r0 r1 t2"
    using mktime_dst_ok [OF t1(2) wf o(3) p(2,4,3) py L(3,4)] t1(3) y(2) p(5) by metis
  let ?st = "stored_flag r0 r1 L ?s ?f" and ?ap = "offset_of r0 r1 (applied_flag r0 r1 L ?s ?f)"
  have so: "(if ?st = 1 then r_offset (tz_rule1 t2) else r_offset (tz_rule0 t2)) = offset_of r0 r1 ?st"
    using installedD [OF r(5)] by (simp add: offset_of_def)
  define t' where "t' = r\<lparr>tm_isdst := ?st, tm_wday := (tm_days r + 4) mod 7\<rparr>"
  have ab: "\<bar>?ap\<bar> \<le> 86400" using o by (simp add: offset_of_def)
  have "- 800000000000 \<le> ?s div 86400 \<and> ?s div 86400 \<le> 800000000000" by (rule day_fits_bounds [OF df])
  then have sb: "- 100000000000000000 \<le> ?s" "?s \<le> 100000000000000000" by linarith+
  have rng: "TIME_T_MIN \<le> ?s + ?ap" "?s + ?ap \<le> TIME_T_MAX" using sb ab by (simp_all add: range_defs)
  have "mktime env t tz = Some (t', ?s + ?ap, None, t2)"
    using t(2) rng by (simp add: mktime_def p(1) dp t1(1) r(1) so set_tm_wday_ok t'_def)
  moreover have "tm_normal t'" "tm_derived t'" "tm_time t' = tm_time r" "tm_isdst t' = ?st"
    using r(2,3) by (simp_all add: t'_def tm_normal_def tm_derived_def tm_time_def tm_days_def)
  ultimately show thesis using that r(4) by simp
qed

lemma dst_flags_agree:
  assumes "r_offset r1 \<le> r_offset r0" "1970 \<le> Y" "f = isdst_at r0 r1 Y t" "s = t - offset_of r0 r1 f"
  shows "stored_flag r0 r1 Y s f = f"
  using assms
  by (auto simp: isdst_at_def stored_flag_def twice_def local_dst_def in_dst_def offset_of_def user_flag_def
      Let_def of_bool_def split: if_splits)

lemma isdst_range: "isdst_at r0 r1 Y t \<in> {- 1, 0, 1}"
  by (simp add: isdst_at_def)

lemma applied_isdst:
  assumes "r_offset r0 = r_offset r1 \<or> 1970 \<le> Y \<or> L < 1970" "f = isdst_at r0 r1 Y t"
  shows "offset_of r0 r1 (applied_flag r0 r1 L s f) = offset_of r0 r1 f"
  using assms by (auto simp: applied_flag_def stored_flag_def user_flag_def isdst_at_def offset_of_def of_bool_def split: if_splits)

section \<open>Properties\<close>

text \<open>The year whose limits are cached: none, or one that \<open>__tzcalc_limits\<close> handled.\<close>

definition cache_ok :: "tzstate \<Rightarrow> bool" where
  "cache_ok tz \<longleftrightarrow> tz_year tz = 0 \<or> 1970 \<le> tz_year tz \<and> tz_year tz < 5800000"

text \<open>The offsets of a zone: at most a day, and less than a day apart.\<close>

definition offsets_ok :: "tzrule \<Rightarrow> tzrule \<Rightarrow> bool" where
  "offsets_ok r0 r1 \<longleftrightarrow>
     \<bar>r_offset r0\<bar> \<le> 86400 \<and> \<bar>r_offset r1\<bar> \<le> 86400 \<and> \<bar>r_offset r0 - r_offset r1\<bar> < 86400"

definition in_year :: "int \<Rightarrow> int \<Rightarrow> bool" where
  "in_year t Y \<longleftrightarrow> jan1 Y \<le> t div 86400 \<and> t div 86400 < jan1 (Y + 1)"

text \<open>
  C35: \<open>__tzcalc_limits\<close> computes, for every year from 1970 on that its \<open>int\<close>
  arithmetic can represent, the day each rule names (\<open>Jn\<close>: day \<open>n\<close> of a year
  without its leap day; \<open>n\<close>: day \<open>n\<close> of the year; \<open>Mm.n.d\<close>: the \<open>n\<close>-th, for 5
  the last, weekday \<open>d\<close> of month \<open>m\<close>) and stores the moment of the change,
  caches the year and sets the hemisphere.
\<close>

theorem tzcalc_limits_correct:
  assumes "rule_ok (tz_rule0 tz)" "rule_ok (tz_rule1 tz)" "1970 \<le> Y" "Y < 5800000"
  shows "\<exists>tz' D0 D1. tzcalc_limits Y tz = Some (tz', True) \<and> tz_year tz' = Y \<and>
    is_rule_day Y (tz_rule0 tz) D0 \<and>
    r_change (tz_rule0 tz') = D0 * 86400 + r_s (tz_rule0 tz) + r_offset (tz_rule0 tz) \<and>
    is_rule_day Y (tz_rule1 tz) D1 \<and>
    r_change (tz_rule1 tz') = D1 * 86400 + r_s (tz_rule1 tz) + r_offset (tz_rule1 tz) \<and>
    tz_north tz' = (r_change (tz_rule0 tz') < r_change (tz_rule1 tz'))"
proof -
  obtain D0 where "change_at Y (tz_rule0 tz) = D0 * 86400 + r_s (tz_rule0 tz) + r_offset (tz_rule0 tz)"
    "is_rule_day Y (tz_rule0 tz) D0" by (rule change_at_day [OF assms(1,3)])
  moreover obtain D1 where "change_at Y (tz_rule1 tz) = D1 * 86400 + r_s (tz_rule1 tz) + r_offset (tz_rule1 tz)"
    "is_rule_day Y (tz_rule1 tz) D1" by (rule change_at_day [OF assms(2,3)])
  moreover note tzcalc_limits_ok [OF rule_ok_wf [OF assms(1)] rule_ok_wf [OF assms(2)] assms(3,4)]
  ultimately show ?thesis by auto
qed

definition tz_new_york :: tzstate where
  "tz_new_york = \<lparr>tz_north = False, tz_year = 0,
     tz_rule0 = \<lparr>r_ch = CHR ''M'', r_m = 3, r_n = 2, r_d = 0, r_s = 7200, r_change = 0, r_offset = 18000\<rparr>,
     tz_rule1 = \<lparr>r_ch = CHR ''M'', r_m = 11, r_n = 1, r_d = 0, r_s = 7200, r_change = 0, r_offset = 14400\<rparr>,
     tzname_std = ''EST'', tzname_dst = ''EDT'', timezone = 18000, daylight = True\<rparr>"

theorem tzcalc_limits_correct_witness:
  "\<exists>tz' D. tzcalc_limits 2024 tz_new_york = Some (tz', True) \<and> r_change (tz_rule0 tz') = 1710054000
     \<and> is_rule_day 2024 (tz_rule0 tz_new_york) D \<and> D = civil 2024 2 10"
proof -
  have c: "rule_ok (tz_rule0 tz_new_york)" "rule_ok (tz_rule1 tz_new_york)" by code_simp+
  have run: "map_option (\<lambda>(tz, b). r_change (tz_rule0 tz)) (tzcalc_limits 2024 tz_new_york) = Some 1710054000"
    by code_simp
  have s: "r_s (tz_rule0 tz_new_york) = 7200" "r_offset (tz_rule0 tz_new_york) = 18000" "civil 2024 2 10 = 19792"
    by code_simp+
  from tzcalc_limits_correct [OF c, of 2024] run show ?thesis by (auto simp: s)
qed

text \<open>
  C36: whatever \<open>TZ\<close> holds, the rules \<open>tzset\<close> installs are well formed: an \<open>M\<close> rule has a month
  from 1 to 12, a week from 1 to 5 and a weekday from 0 to 6, a \<open>J\<close> or \<open>D\<close> rule a 16-bit day, any other rule
  no date; time and offset are within \<open>int\<close>; the cached year stays valid and \<open>timezone\<close> and \<open>daylight\<close> agree with
  the rules.
\<close>

theorem tzset_type:
  assumes "tzset env tz = Some tz'" "cache_ok tz"
  shows "rule_type (tz_rule0 tz') \<and> rule_type (tz_rule1 tz') \<and> cache_ok tz' \<and>
    timezone tz' = r_offset (tz_rule0 tz') \<and>
    daylight tz' = (r_offset (tz_rule0 tz') \<noteq> r_offset (tz_rule1 tz'))"
proof -
  obtain std dst r0 r1 where z: "zone env = Some (std, dst, r0, r1)"
    using assms(1) by (auto simp: tzset_zone split: Option.bind_splits)
  have y: "tz_year tz < 5800000" using assms(2) by (auto simp: cache_ok_def)
  have t: "installed r0 r1 tz'" "tz_year tz' = tz_year tz" "timezone tz' = r_offset r0"
    using tzset_ok [OF z y] assms(1) by auto
  note i = installedD [OF t(1)]
  have "rule_type (r\<lparr>r_change := c\<rparr>) = rule_type r" for r c by (simp add: rule_type_def rule_date_def)
  then have "rule_type (tz_rule0 tz')" "rule_type (tz_rule1 tz')"
    using zone_type [OF z] by (subst i(1) i(2); simp)+
  then show ?thesis using t i assms(2) by (simp add: cache_ok_def installed_def)
qed

lemma zone_new_york:
  "zone (Some ''EST5EDT,M3.2.0,M11.1.0'') = Some (''EST'', ''EDT'',
     \<lparr>r_ch = CHR ''M'', r_m = 3, r_n = 2, r_d = 0, r_s = 7200, r_change = 0, r_offset = 18000\<rparr>,
     \<lparr>r_ch = CHR ''M'', r_m = 11, r_n = 1, r_d = 0, r_s = 7200, r_change = 0, r_offset = 14400\<rparr>)"
  by code_simp

theorem tzset_type_witness:
  "\<exists>tz'. tzset (Some ''EST5EDT,M3.2.0,M11.1.0'') tz_init = Some tz' \<and> rule_type (tz_rule0 tz') \<and> daylight tz'
     \<and> timezone tz' = 18000"
proof -
  let ?env = "Some ''EST5EDT,M3.2.0,M11.1.0''"
  have c: "cache_ok tz_init" by (simp add: cache_ok_def tz_init_def)
  obtain tz' where t: "tzset ?env tz_init = Some tz'" "r_offset (tz_rule0 tz') = 18000" "r_offset (tz_rule1 tz') = 14400"
    by (simp add: tzset_zone zone_new_york tz_install_def tzcalc_limits_def tz_init_def EPOCH_YEAR_def)
  from tzset_type [OF t(1) c] t show ?thesis by simp
qed

lemma localtime_r_main:
  assumes "zone env = Some (std, dst, r0, r1)" "offsets_ok r0 r1" "cache_ok tz"
    "in_year t Y" "1 \<le> Y" "Y < 5800000"
  shows "\<exists>r tz'. localtime_r env t res tz = Some (Some r, tz') \<and> cache_ok tz' \<and>
    tm_normal r \<and> tm_derived r \<and> tm_isdst r = isdst_at r0 r1 Y t \<and>
    tm_time r = t - offset_of r0 r1 (tm_isdst r)"
proof -
  have c: "tz_year tz < 5800000" "tz_year tz = Y \<Longrightarrow> 1970 \<le> Y" using assms(3,5) by (auto simp: cache_ok_def)
  have o: "\<bar>r_offset r0\<bar> \<le> 86400" "\<bar>r_offset r1\<bar> \<le> 86400" using assms(2) by (simp_all add: offsets_ok_def)
  have Y: "jan1 Y \<le> t div 86400" "t div 86400 < jan1 (Y + 1)" "INT_MIN + 1900 < Y" "Y < 5800000"
    using assms(4-6) by (simp_all add: in_year_def range_defs)
  obtain r tz' where r: "localtime_r env t res tz = Some (Some r, tz')" "tm_normal r" "tm_derived r"
    "tm_isdst r = isdst_at r0 r1 Y t" "tm_time r = t - offset_of r0 r1 (tm_isdst r)"
    "installed r0 r1 tz'" "tz_year tz' = tz_year tz \<or> tz_year tz' = Y \<and> 1970 \<le> Y"
    by (rule localtime_r_ok [OF assms(1) o Y c])
  then have "cache_ok tz'" using assms(3,6) by (auto simp: cache_ok_def)
  then show ?thesis using r by blast
qed

text \<open>
  C32: for a zone whose offsets are at most a day, \<open>localtime_r\<close> returns
  normalised fields with right derived fields that denote the given time minus
  the offset in force, and \<open>tm_isdst\<close> tells which: \<open>-1\<close> before 1970, else
  whether the time lies between the changes of its year, in either hemisphere.
\<close>

theorem localtime_r_correct:
  assumes "zone env = Some (std, dst, r0, r1)" "offsets_ok r0 r1" "cache_ok tz"
    "in_year t Y" "1 \<le> Y" "Y < 5800000"
  shows "\<exists>r tz'. localtime_r env t res tz = Some (Some r, tz') \<and> cache_ok tz' \<and>
    tm_normal r \<and> tm_derived r \<and> tm_isdst r = isdst_at r0 r1 Y t \<and>
    tm_time r = t - offset_of r0 r1 (tm_isdst r)"
  by (rule localtime_r_main [OF assms])

theorem localtime_r_correct_witness:
  "\<exists>r tz'. localtime_r (Some ''EST5EDT,M3.2.0,M11.1.0'') 1710054000 tm0 tz_init = Some (Some r, tz')
     \<and> tm_isdst r = 1 \<and> tm_time r = 1710054000 - 14400 \<and> tm_normal r"
proof -
  let ?r0 = "\<lparr>r_ch = CHR ''M'', r_m = 3, r_n = 2, r_d = 0, r_s = 7200, r_change = 0, r_offset = 18000\<rparr>"
  let ?r1 = "\<lparr>r_ch = CHR ''M'', r_m = 11, r_n = 1, r_d = 0, r_s = 7200, r_change = 0, r_offset = 14400\<rparr>"
  have h: "offsets_ok ?r0 ?r1" "cache_ok tz_init" "in_year 1710054000 2024"
    "isdst_at ?r0 ?r1 2024 1710054000 = 1" by code_simp+
  from localtime_r_correct [OF zone_new_york h(1,2,3), of tm0] h(4) show ?thesis
    by (auto simp: offset_of_def)
qed

lemma mktime_main:
  assumes "zone env = Some (std, dst, r0, r1)" "offsets_ok r0 r1" "cache_ok tz"
    "carries_fit t" "tm_time t \<noteq> - 1" "in_year (tm_time t) L" "1 \<le> L" "L < 5800000"
  shows "\<exists>t' tz'. mktime env t tz = Some (t', tm_time t
        + offset_of r0 r1 (applied_flag r0 r1 L (tm_time t) (tm_isdst t)), None, tz') \<and>
    tm_normal t' \<and> tm_derived t' \<and> tm_isdst t' = stored_flag r0 r1 L (tm_time t) (tm_isdst t) \<and>
    tm_time t' = tm_time t + offset_of r0 r1 (applied_flag r0 r1 L (tm_time t) (tm_isdst t))
      - offset_of r0 r1 (tm_isdst t')"
proof -
  have c: "tz_year tz < 5800000" "tz_year tz = L \<Longrightarrow> 1970 \<le> L" using assms(3,7) by (auto simp: cache_ok_def)
  have o: "\<bar>r_offset r0\<bar> \<le> 86400" "\<bar>r_offset r1\<bar> \<le> 86400" "\<bar>r_offset r0 - r_offset r1\<bar> < 86400"
    using assms(2) by (simp_all add: offsets_ok_def)
  have L: "jan1 L \<le> tm_time t div 86400" "tm_time t div 86400 < jan1 (L + 1)" "INT_MIN + 1902 < L" "L < 5800000"
    using assms(6-8) by (simp_all add: in_year_def range_defs)
  show ?thesis by (rule mktime_ok [OF assms(1) o assms(4,5) L c]) blast+
qed

text \<open>
  C33: \<open>mktime\<close> returns the seconds the fields denote as local time: the offset
  is that of the caller's \<open>tm_isdst\<close> when it is not negative, and otherwise the
  one in force, where the hour that occurs twice counts as standard time; the
  structure is normalised, its derived fields are set, and with the
  \<open>tm_isdst\<close> stored it denotes the time returned.
\<close>

theorem mktime_correct:
  assumes "zone env = Some (std, dst, r0, r1)" "offsets_ok r0 r1" "cache_ok tz"
    "carries_fit t" "tm_time t \<noteq> - 1" "in_year (tm_time t) L" "1 \<le> L" "L < 5800000"
  shows "\<exists>t' tz'. mktime env t tz = Some (t', tm_time t
        + offset_of r0 r1 (applied_flag r0 r1 L (tm_time t) (tm_isdst t)), None, tz') \<and>
    tm_normal t' \<and> tm_derived t' \<and> tm_isdst t' = stored_flag r0 r1 L (tm_time t) (tm_isdst t) \<and>
    tm_time t' = tm_time t + offset_of r0 r1 (applied_flag r0 r1 L (tm_time t) (tm_isdst t))
      - offset_of r0 r1 (tm_isdst t')"
  by (rule mktime_main [OF assms])

definition tm_spring :: tm where
  "tm_spring = tm0\<lparr>tm_year := 124, tm_mon := 2, tm_mday := 10, tm_hour := 12, tm_isdst := 0\<rparr>"

theorem mktime_correct_witness:
  "\<exists>t' tz'. mktime (Some ''EST5EDT,M3.2.0,M11.1.0'') tm_spring tz_init = Some (t', 1710072000 + 18000, None, tz')
     \<and> tm_isdst t' = 1 \<and> tm_time t' = 1710072000 + 3600"
proof -
  let ?r0 = "\<lparr>r_ch = CHR ''M'', r_m = 3, r_n = 2, r_d = 0, r_s = 7200, r_change = 0, r_offset = 18000\<rparr>"
  let ?r1 = "\<lparr>r_ch = CHR ''M'', r_m = 11, r_n = 1, r_d = 0, r_s = 7200, r_change = 0, r_offset = 14400\<rparr>"
  have h: "offsets_ok ?r0 ?r1" "cache_ok tz_init" "carries_fit tm_spring" "tm_time tm_spring \<noteq> - 1"
    "in_year (tm_time tm_spring) 2024" by code_simp+
  have v: "tm_time tm_spring = 1710072000" "tm_isdst tm_spring = 0"
    "applied_flag ?r0 ?r1 2024 1710072000 0 = 0" "stored_flag ?r0 ?r1 2024 1710072000 0 = 1"
    by code_simp+
  from mktime_correct [OF zone_new_york h] show ?thesis by (auto simp: v offset_of_def)
qed

text \<open>
  C34: \<open>mktime\<close> inverts \<open>localtime_r\<close>, the hour that occurs twice included; in
  zones without daylight time, or with daylight time ahead of standard time and
  local and UTC year equal, the structure comes back unchanged.
\<close>

theorem mktime_localtime_roundtrip:
  assumes "zone env = Some (std, dst, r0, r1)" "offsets_ok r0 r1" "cache_ok tz"
    "in_year t Y" "2 \<le> Y" "Y < 5799999" "r_offset r0 = r_offset r1 \<or> Y \<noteq> 1969"
    "localtime_r env t res tz = Some (Some r, tz')" "tm_time r \<noteq> - 1"
  shows "\<exists>r' tz''. mktime env r tz' = Some (r', t, None, tz'') \<and>
    (r_offset r0 = r_offset r1 \<or> r_offset r1 \<le> r_offset r0 \<and> tm_year r + 1900 = Y \<and> 1970 \<le> Y \<longrightarrow> r' = r)"
proof -
  have Y: "1 \<le> Y" "Y < 5800000" using assms(5,6) by simp_all
  have r: "cache_ok tz'" "tm_normal r" "tm_derived r" "tm_isdst r = isdst_at r0 r1 Y t"
    "tm_time r = t - offset_of r0 r1 (tm_isdst r)"
    using localtime_r_main [OF assms(1-4) Y, of res] assms(8) by auto
  define L where "L = tm_year r + 1900"
  have inL: "in_year (tm_time r) L"
    using r(2) tm_normal_day(1) [OF r(2)] civil_year_bounds [of "tm_mon r" "tm_mday r" L]
    by (simp add: in_year_def L_def tm_days_def tm_normal_def)
  have "\<bar>offset_of r0 r1 (tm_isdst r)\<bar> \<le> 86400" using assms(2) by (simp add: offsets_ok_def offset_of_def)
  then have "\<bar>tm_time r div 86400 - t div 86400\<bar> \<le> 1" using r(5) by linarith
  then have "jan1 L < jan1 (Y + 1 + 1)" "jan1 (Y - 1) < jan1 (L + 1)"
    using inL assms(4) jan1_mono [of "Y + 1" "Y + 1 + 1"] jan1_mono [of "Y - 1" Y] unfolding in_year_def by linarith+
  then have L: "L \<le> Y + 1" "Y \<le> L + 1" by (simp_all add: jan1_less_iff)
  have "INT_MIN \<le> tm_year r" "tm_year r \<le> INT_MAX" using L assms(5,6) by (simp_all add: L_def range_defs)
  then have cf: "carries_fit r" by (rule tm_normal_carries [OF r(2)])
  have L2: "1 \<le> L" "L < 5800000" using L assms(5,6) by simp_all
  have ap: "offset_of r0 r1 (applied_flag r0 r1 L (tm_time r) (tm_isdst r)) = offset_of r0 r1 (tm_isdst r)"
    by (rule applied_isdst [OF _ r(4)]) (use assms(7) L in linarith)
  then have ret: "tm_time r + offset_of r0 r1 (applied_flag r0 r1 L (tm_time r) (tm_isdst r)) = t"
    using r(5) by simp
  obtain r' tz'' where m: "mktime env r tz' = Some (r', t, None, tz'')" "tm_normal r'" "tm_derived r'"
    "tm_isdst r' = stored_flag r0 r1 L (tm_time r) (tm_isdst r)"
    "tm_time r' = t - offset_of r0 r1 (tm_isdst r')"
    using mktime_main [OF assms(1,2) r(1) cf assms(9) inL L2] by (auto simp: ret)
  have "r' = r" if *: "r_offset r0 = r_offset r1 \<or> r_offset r1 \<le> r_offset r0 \<and> L = Y \<and> 1970 \<le> Y"
  proof -
    have "tm_isdst r' = tm_isdst r"
    proof (cases "r_offset r0 = r_offset r1")
      case True
      then show ?thesis using m(4) r(4) by (simp add: stored_flag_def isdst_at_def)
    next
      case False
      then show ?thesis using dst_flags_agree [of r1 r0 Y "tm_isdst r" t "tm_time r"] * m(4) r(4,5) by simp
    qed
    then show ?thesis using tm_derived_unique [OF m(2) r(2) _ m(3) r(3)] m(5) r(5) by simp
  qed
  then show ?thesis using m(1) by (auto simp: L_def)
qed

theorem mktime_localtime_roundtrip_witness:
  "\<exists>r tz' tz''. localtime_r (Some ''EST5EDT,M3.2.0,M11.1.0'') 1710054000 tm0 tz_init = Some (Some r, tz')
     \<and> mktime (Some ''EST5EDT,M3.2.0,M11.1.0'') r tz' = Some (r, 1710054000, None, tz'')"
proof -
  let ?r0 = "\<lparr>r_ch = CHR ''M'', r_m = 3, r_n = 2, r_d = 0, r_s = 7200, r_change = 0, r_offset = 18000\<rparr>"
  let ?r1 = "\<lparr>r_ch = CHR ''M'', r_m = 11, r_n = 1, r_d = 0, r_s = 7200, r_change = 0, r_offset = 14400\<rparr>"
  have h: "offsets_ok ?r0 ?r1" "cache_ok tz_init" "in_year 1710054000 2024" by code_simp+
  have d: "isdst_at ?r0 ?r1 2024 1710054000 = 1" by code_simp
  obtain r tz' where r: "localtime_r (Some ''EST5EDT,M3.2.0,M11.1.0'') 1710054000 tm0 tz_init = Some (Some r, tz')"
    "tm_normal r" "tm_time r = 1710039600"
    using localtime_r_main [OF zone_new_york h, of tm0] d by (auto simp: offset_of_def)
  have "jan1 2024 \<le> 1710039600 div 86400" "1710039600 div 86400 < jan1 (2024 + 1)" by code_simp+
  then have y: "tm_year r + 1900 = 2024"
    using tm_normal_year [OF r(2), of 2024] tm_normal_day(1) [OF r(2)] r(3) by simp
  from mktime_localtime_roundtrip [OF zone_new_york h _ _ _ r(1)] y r(1,3) show ?thesis by auto
qed

text \<open>
  C37: for the local time 1969-12-31 23:59:59 \<open>mktime\<close> takes the intermediate
  value \<open>-1\<close> for a failure: it returns \<open>-1\<close> in every zone, without the offset
  and without setting \<open>errno\<close>, and does not even read \<open>TZ\<close>.
\<close>

theorem mktime_minus_one:
  assumes "carries_fit t" "tm_time t = - 1"
  shows "\<exists>t'. mktime env t tz = Some (t', - 1, None, tz)"
proof -
  have df: "day_fits (tm_time t div 86400)"
    by (simp add: assms(2) day_fits_def jan1_def range_defs)
  obtain p where "mktime_utc t = Some (p, Inr (- 1, tm_time t div 86400))"
    using mktime_utc_ok [OF assms(1) df] assms(2) by metis
  then show ?thesis by (simp add: mktime_def)
qed

theorem mktime_minus_one_witness:
  "\<exists>t'. mktime (Some ''EST5'') tm_last_second tz_init = Some (t', - 1, None, tz_init)"
proof -
  have "carries_fit tm_last_second" "tm_time tm_last_second = - 1" by code_simp+
  then show ?thesis by (rule mktime_minus_one)
qed

text \<open>
  A quoted daylight name that is empty and not closed: the code goes on with the
  count of the offset before it and reads beyond the end of \<open>TZ\<close>.
\<close>

lemma tz_parse_undefined: "zone (Some ''ABC05:00<'') = None"
  by code_simp

text \<open>
  An offset beyond a day, which \<open>tzset\<close> accepts, leaves \<open>tm_hour\<close> out of range.
\<close>

lemma localtime_out_of_range:
  "map_option (\<lambda>(r, _). map_option tm_hour r) (localtime_r (Some ''ABC24:30'') 0 tm0 tz_init) = Some (Some (- 1))"
  by code_simp

end
