(* ===== verification/Printf.thy ===== *)
theory Printf
  imports Calendar Strtol CMem
begin

text \<open>
  Formatted output of \<open>libc/stdio\<close>: \<open>vfprintf.c\<close> with the files it includes, in
  the integer variant \<open>__i_vfprintf\<close> (no positional arguments, wide characters,
  \<open>%b\<close> or \<open>%n\<close>; floating conversions print \<open>*float*\<close>), and \<open>sprintf\<close>,
  \<open>snprintf\<close> and their \<open>va_list\<close> forms on string streams.

  The \<open>put\<close> function of the stream is an argument; it may fault (\<open>None\<close>) or
  report an error (\<open>False\<close>).  The variable arguments are a list, and reading one
  of the wrong type is undefined.  A conversion is modelled by the sequence of
  characters it hands to \<open>my_putc\<close>, which does nothing but count and call
  \<open>put\<close>, or leave through \<open>fail\<close>.  A format that ends inside a directive makes
  the code read past its terminator: \<open>None\<close>.
\<close>

section \<open>Digits: \<open>ultoa_invert.c\<close>\<close>

definition PRINTF_BUF_SIZE :: nat where "PRINTF_BUF_SIZE = 22"

text \<open>The digits in the order they are stored, least significant first; the buffer holds 22.\<close>

function ultoa_loop :: "u64 \<Rightarrow> u64 \<Rightarrow> u8 \<Rightarrow> nat \<Rightarrow> string option" where
  "ultoa_loop val base hex i =
     (if i \<ge> PRINTF_BUF_SIZE then None
      else let v = ucast (val mod base) :: u8;
               val = val div base;
               v = (if v > 9 then v + hex else v);
               v = v + 48
           in if val = 0 then Some [char_of (unat v)]
              else map_option (\<lambda>str. char_of (unat v) # str) (ultoa_loop val base hex (i + 1)))"
  by pat_completeness auto
termination by (relation "measure (\<lambda>(_, _, _, i). PRINTF_BUF_SIZE - i)") auto

declare ultoa_loop.simps [simp del]

definition ultoa_invert :: "u64 \<Rightarrow> int \<Rightarrow> string option" where
  "ultoa_invert val base =
     (let hex = word_of_int ((97 - 48 - 10 + 16) - base); base = base AND 31
      in ultoa_loop val (word_of_int base) hex 0)"

text \<open>
  The division of the targets whose \<open>long\<close> is shorter than the value: by
  shifts and one correction.
\<close>

definition udivmod10 :: "u64 \<Rightarrow> u64 \<times> u8" where
  "udivmod10 n =
     (let q = drop_bit 1 n + drop_bit 2 n;
          q = q + drop_bit 4 q;
          q = q + drop_bit 8 q;
          q = q + drop_bit 16 q;
          q = q + drop_bit 32 q;
          q = drop_bit 3 q;
          r = ucast (n - push_bit 1 (push_bit 2 q + q)) :: u8
      in if r > 9 then (q + 1, r - 10) else (q, r))"

definition udivmod :: "u64 \<Rightarrow> int \<Rightarrow> u64 \<times> u8" where
  "udivmod val base =
     (if base = 8 then (drop_bit 3 val, ucast (val AND 7))
      else if base = 16 then (drop_bit 4 val, ucast (val AND 15))
      else udivmod10 val)"

section \<open>Flags and arguments\<close>

record pflags =
  pf_zfill :: bool
  pf_plus :: bool
  pf_space :: bool
  pf_lpad :: bool
  pf_alt :: bool
  pf_width :: bool
  pf_prec :: bool
  pf_long :: bool
  pf_short :: bool
  pf_repd :: bool
  pf_negative :: bool

definition no_pflags :: pflags where
  "no_pflags = \<lparr>pf_zfill = False, pf_plus = False, pf_space = False, pf_lpad = False, pf_alt = False,
     pf_width = False, pf_prec = False, pf_long = False, pf_short = False, pf_repd = False,
     pf_negative = False\<rparr>"

text \<open>\<open>flags < FL_LONG\<close> and \<open>flags < FL_WIDTH\<close>: the bits are in the order of the format.\<close>

definition below_long :: "pflags \<Rightarrow> bool" where
  "below_long fl \<longleftrightarrow> \<not> pf_long fl \<and> \<not> pf_short fl \<and> \<not> pf_repd fl \<and> \<not> pf_negative fl"

definition below_width :: "pflags \<Rightarrow> bool" where
  "below_width fl \<longleftrightarrow> below_long fl \<and> \<not> pf_width fl \<and> \<not> pf_prec fl"

datatype varg = VInt u32 | VLong u64 | VString "string option" | VDouble

fun va_int :: "varg list \<Rightarrow> (u32 \<times> varg list) option" where
  "va_int (VInt x # ap) = Some (x, ap)"
| "va_int _ = None"

fun va_long :: "varg list \<Rightarrow> (u64 \<times> varg list) option" where
  "va_long (VLong x # ap) = Some (x, ap)"
| "va_long _ = None"

fun va_string :: "varg list \<Rightarrow> (string option \<times> varg list) option" where
  "va_string (VString s # ap) = Some (s, ap)"
| "va_string _ = None"

fun va_double :: "varg list \<Rightarrow> varg list option" where
  "va_double (VDouble # ap) = Some ap"
| "va_double _ = None"

definition arg_to_signed :: "pflags \<Rightarrow> varg list \<Rightarrow> (u64 \<times> varg list) option" where
  "arg_to_signed fl ap =
     (if pf_long fl then va_long ap
      else do {
        (x, ap) \<leftarrow> va_int ap;
        Some (if pf_short fl
              then (if pf_repd fl then scast (ucast x :: u8) else scast (ucast x :: u16))
              else scast x, ap) })"

definition arg_to_unsigned :: "pflags \<Rightarrow> varg list \<Rightarrow> (u64 \<times> varg list) option" where
  "arg_to_unsigned fl ap =
     (if pf_long fl then va_long ap
      else do {
        (x, ap) \<leftarrow> va_int ap;
        Some (if pf_short fl
              then (if pf_repd fl then ucast (ucast x :: u8) else ucast (ucast x :: u16))
              else ucast x, ap) })"

section \<open>Parsing a directive\<close>

text \<open>\<open>CHECK_INT_SIZES\<close>; \<open>intmax_t\<close>, \<open>size_t\<close> and \<open>ptrdiff_t\<close> are as long as \<open>long\<close>.\<close>

definition check_int_sizes :: "char \<Rightarrow> pflags \<Rightarrow> pflags option" where
  "check_int_sizes c fl =
     (if c = CHR ''l'' then Some (fl\<lparr>pf_repd := pf_repd fl \<or> pf_long fl, pf_long := True\<rparr>)
      else if c = CHR ''h'' then Some (fl\<lparr>pf_repd := pf_repd fl \<or> pf_short fl, pf_short := True\<rparr>)
      else if c = CHR ''L'' then Some (fl\<lparr>pf_repd := True, pf_long := True\<rparr>)
      else if c \<in> set ''jzt'' then Some (fl\<lparr>pf_long := True\<rparr>)
      else None)"

definition flag_char :: "char \<Rightarrow> pflags \<Rightarrow> pflags option" where
  "flag_char c fl =
     (if c = CHR ''0'' then Some (fl\<lparr>pf_zfill := True\<rparr>)
      else if c = CHR ''+'' then Some (fl\<lparr>pf_plus := True, pf_space := True\<rparr>)
      else if c = CHR '' '' then Some (fl\<lparr>pf_space := True\<rparr>)
      else if c = CHR ''-'' then Some (fl\<lparr>pf_lpad := True\<rparr>)
      else if c = CHR ''#'' then Some (fl\<lparr>pf_alt := True\<rparr>)
      else if c = CHR 0x27 then Some fl
      else None)"

text \<open>\<open>10 * width + c\<close>: a signed product, an unsigned sum, stored in an \<open>int\<close>.\<close>

definition add_digit :: "int \<Rightarrow> char \<Rightarrow> int option" where
  "add_digit width c = do {
     p \<leftarrow> ck32 (10 * width);
     Some (sint (word_of_int p + (of_char c - 48) :: u32)) }"

datatype dir_step = More pflags int int "varg list" | Done | Ret

definition dir_step :: "char \<Rightarrow> pflags \<Rightarrow> int \<Rightarrow> int \<Rightarrow> varg list \<Rightarrow> dir_step option" where
  "dir_step c fl width prec ap =
     (case (if below_width fl then flag_char c fl else None) of
        Some fl \<Rightarrow> Some (More fl width prec ap)
      | None \<Rightarrow>
          if below_long fl \<and> CHR ''0'' \<le> c \<and> c \<le> CHR ''9'' then
            (if pf_prec fl then do { prec \<leftarrow> add_digit prec c; Some (More fl width prec ap) }
             else do { width \<leftarrow> add_digit width c; Some (More (fl\<lparr>pf_width := True\<rparr>) width prec ap) })
          else if below_long fl \<and> c = CHR ''*'' then do {
            (x, ap) \<leftarrow> va_int ap;
            Some (if pf_prec fl then More fl width (sint x) ap
                  else More (fl\<lparr>pf_width := True\<rparr>) (sint x) prec ap) }
          else if below_long fl \<and> c = CHR ''.'' then
            Some (if pf_prec fl then Ret else More (fl\<lparr>pf_prec := True\<rparr>) width prec ap)
          else case check_int_sizes c fl of
                 Some fl \<Rightarrow> Some (More fl width prec ap)
               | None \<Rightarrow> Some Done)"

text \<open>The \<open>do\<close> loop over the directive; \<open>None\<close> inside is \<open>goto ret\<close>.\<close>

fun parse_dir ::
  "char \<Rightarrow> string \<Rightarrow> pflags \<Rightarrow> int \<Rightarrow> int \<Rightarrow> varg list
    \<Rightarrow> (char \<times> string \<times> pflags \<times> int \<times> int \<times> varg list) option option" where
  "parse_dir c fmt fl width prec ap = do {
     st \<leftarrow> dir_step c fl width prec ap;
     case st of
       Ret \<Rightarrow> Some None
     | Done \<Rightarrow> Some (Some (c, fmt, fl, width, prec, ap))
     | More fl width prec ap \<Rightarrow>
         (case fmt of
            [] \<Rightarrow> Some (Some (CHR 0x00, [], fl, width, prec, ap))
          | c # fmt \<Rightarrow> parse_dir c fmt fl width prec ap) }"

declare parse_dir.simps [simp del]

section \<open>The conversions\<close>

text \<open>\<open>while (i < n) { my_putc(c); i++; }\<close>, and counting down; the final counter is returned.\<close>

function fill :: "char \<Rightarrow> int \<Rightarrow> int \<Rightarrow> string \<times> int" where
  "fill c i n = (if i < n then let (cs, i) = fill c (i + 1) n in (c # cs, i) else ([], i))"
  by pat_completeness auto
termination by (relation "measure (\<lambda>(_, i, n). nat (n - i))") auto

function drain :: "char \<Rightarrow> int \<Rightarrow> int \<Rightarrow> string \<times> int" where
  "drain c i n = (if i > n then let (cs, i) = drain c (i - 1) n in (c # cs, i) else ([], i))"
  by pat_completeness auto
termination by (relation "measure (\<lambda>(_, i, n). nat (i - n))") auto

declare fill.simps [simp del] drain.simps [simp del]

text \<open>
  \<open>vfprintf_int.c\<close>.  \<open>int_value\<close> is its first part: the argument becomes a buffer
  of digits; \<open>None\<close> inside means that \<open>c\<close> is no conversion.
\<close>

definition int_digits :: "pflags \<Rightarrow> int \<Rightarrow> u64 \<Rightarrow> int \<Rightarrow> string option" where
  "int_digits fl prec x base =
     (if x = 0 \<and> pf_prec fl \<and> prec = 0 then Some [] else ultoa_invert x base)"

definition int_value ::
  "char \<Rightarrow> pflags \<Rightarrow> int \<Rightarrow> varg list \<Rightarrow> (char \<times> pflags \<times> string \<times> varg list) option option" where
  "int_value c fl prec ap =
     (if c = CHR ''d'' \<or> c = CHR ''i'' then do {
        (x_s, ap) \<leftarrow> arg_to_signed fl ap;
        let (x_s, fl) = (if sint x_s < 0 then (- x_s, fl\<lparr>pf_negative := True\<rparr>) else (x_s, fl));
        let fl = fl\<lparr>pf_alt := False\<rparr>;
        buf \<leftarrow> int_digits fl prec x_s 10;
        Some (Some (c, fl, buf, ap))
      } else
        (let spec = (if c = CHR ''u'' then Some (c, fl\<lparr>pf_alt := False\<rparr>, 10)
                     else if c = CHR ''o'' then Some (CHR 0x00, fl, 8)
                     else if c = CHR ''p'' then Some (CHR ''x'', fl\<lparr>pf_alt := True, pf_long := True\<rparr>, 16)
                     else if TOLOWER (of_char c) = 120 then Some (c, fl, (120 - of_char c) OR 16)
                     else None)
         in case spec of
              None \<Rightarrow> Some None
            | Some (c, fl, base) \<Rightarrow> do {
                let fl = fl\<lparr>pf_plus := False, pf_space := False\<rparr>;
                (x, ap) \<leftarrow> arg_to_unsigned fl ap;
                let fl = (if x = 0 then fl\<lparr>pf_alt := False\<rparr> else fl);
                buf \<leftarrow> int_digits fl prec x base;
                Some (Some (c, fl, buf, ap)) }))"

definition int_emit :: "char \<Rightarrow> pflags \<Rightarrow> string \<Rightarrow> int \<Rightarrow> int \<Rightarrow> (string \<times> int) option" where
  "int_emit c fl buf width prec = do {
     let buf_len = int (length buf);
     let (fl, len) =
       (if pf_prec fl
        then let fl = fl\<lparr>pf_zfill := False\<rparr>
             in if buf_len < prec then (if c = CHR 0x00 then fl\<lparr>pf_alt := False\<rparr> else fl, prec)
                else (fl, buf_len)
        else (fl, buf_len));
     len \<leftarrow> (if pf_alt fl then do {
               len \<leftarrow> ck32 (len + 1);
               if c \<noteq> CHR 0x00 then ck32 (len + 1) else Some len
             } else if pf_negative fl \<or> pf_plus fl \<or> pf_space fl then ck32 (len + 1)
             else Some len);
     let (prec, pad, len) =
       (if \<not> pf_lpad fl
        then let (prec, len) =
               (if pf_zfill fl
                then (if len < width then (buf_len + (width - len), width) else (buf_len, len))
                else (prec, len));
                 (pad, len) = fill CHR '' '' len width
             in (prec, pad, len)
        else (prec, [], len));
     let width = width - len;
     let lead = (if pf_alt fl then CHR ''0'' # (if c \<noteq> CHR 0x00 then [c] else [])
                 else if pf_negative fl \<or> pf_plus fl \<or> pf_space fl
                 then [if pf_negative fl then CHR ''-'' else if pf_plus fl then CHR ''+'' else CHR '' '']
                 else []);
     let (zeros, prec) = drain CHR ''0'' prec buf_len;
     Some (pad @ lead @ zeros @ rev buf, width) }"

text \<open>From \<open>str_lpad\<close> on: the counted string \<open>pnt\<close>; the second component is the width left.\<close>

definition str_lpad :: "pflags \<Rightarrow> int \<Rightarrow> string \<Rightarrow> string \<times> int" where
  "str_lpad fl width pnt =
     (let size = length pnt;
          (pad, width) = (if \<not> pf_lpad fl then drain CHR '' '' width (int size) else ([], width));
          width = sint (ucast (word_of_int width - of_nat size :: u64) :: u32)
      in (pad @ pnt, width))"

definition conv_str :: "pflags \<Rightarrow> int \<Rightarrow> int \<Rightarrow> varg list \<Rightarrow> ((string \<times> int) \<times> varg list) option" where
  "conv_str fl width prec ap = do {
     (pnt, ap) \<leftarrow> va_string ap;
     let pnt = (case pnt of None \<Rightarrow> ''(null)'' | Some s \<Rightarrow> s);
     let pnt = (if pf_prec fl then take (nat prec) pnt else pnt);
     Some (str_lpad fl width pnt, ap) }"

definition conv_char :: "pflags \<Rightarrow> int \<Rightarrow> varg list \<Rightarrow> ((string \<times> int) \<times> varg list) option" where
  "conv_char fl width ap = do {
     (x, ap) \<leftarrow> va_int ap;
     Some (str_lpad (fl\<lparr>pf_prec := False\<rparr>) width [char_of (unat (ucast x :: u8))], ap) }"

text \<open>One directive: the characters put, without the tail when the code \<open>continue\<close>s.\<close>

definition directive :: "char \<Rightarrow> pflags \<Rightarrow> int \<Rightarrow> int \<Rightarrow> varg list \<Rightarrow> (string \<times> varg list) option" where
  "directive c fl width prec ap = do {
     let (prec, fl) = (if prec < 0 then (0, fl\<lparr>pf_prec := False\<rparr>) else (prec, fl));
     (width, fl) \<leftarrow> (if width < 0 then do { w \<leftarrow> ck32 (- width); Some (w, fl\<lparr>pf_lpad := True\<rparr>) }
                     else Some (width, fl));
     let lc = TOLOWER (of_char c);
     if (101 \<le> lc \<and> lc \<le> 103) \<or> lc = 97 then do {
       ap \<leftarrow> va_double ap;
       let (out, width) = str_lpad fl width ''*float*'';
       Some (out @ fst (drain CHR '' '' width 0), ap)
     } else if c = CHR ''c'' then do {
       ((out, width), ap) \<leftarrow> conv_char fl width ap;
       Some (out @ fst (drain CHR '' '' width 0), ap)
     } else if c = CHR ''s'' then do {
       ((out, width), ap) \<leftarrow> conv_str fl width prec ap;
       Some (out @ fst (drain CHR '' '' width 0), ap)
     } else do {
       v \<leftarrow> int_value c fl prec ap;
       case v of
         None \<Rightarrow> Some ([CHR ''%'', c], ap)
       | Some (c, fl, buf, ap) \<Rightarrow> do {
           (out, width) \<leftarrow> int_emit c fl buf width prec;
           Some (out @ fst (drain CHR '' '' width 0), ap) } } }"

section \<open>\<open>vfprintf\<close>\<close>

type_synonym 's put = "char \<Rightarrow> 's \<Rightarrow> ('s \<times> bool) option"

text \<open>\<open>my_putc\<close> on each character; the first component is \<open>False\<close> after \<open>goto fail\<close>.\<close>

fun put_all :: "'s put \<Rightarrow> string \<Rightarrow> 's \<Rightarrow> int \<Rightarrow> (bool \<times> 's \<times> int) option" where
  "put_all put [] s stream_len = Some (True, s, stream_len)"
| "put_all put (c # cs) s stream_len = do {
     stream_len \<leftarrow> ck32 (stream_len + 1);
     (s, ok) \<leftarrow> put c s;
     if ok then put_all put cs s stream_len else Some (False, s, stream_len) }"

lemma parse_dir_shorter:
  "parse_dir c fmt fl width prec ap = Some (Some (c', fmt', r)) \<Longrightarrow> length fmt' \<le> length fmt"
proof (induction c fmt fl width prec ap rule: parse_dir.induct)
  case (1 c fmt fl width prec ap)
  from 1(2) show ?case
    by (subst (asm) parse_dir.simps)
       (auto split: Option.bind_splits dir_step.splits list.splits dest!: 1(1))
qed

function vfprintf_loop :: "'s put \<Rightarrow> string \<Rightarrow> varg list \<Rightarrow> 's \<Rightarrow> int \<Rightarrow> (bool \<times> 's \<times> int) option" where
  "vfprintf_loop put fmt ap s stream_len =
     (case fmt of
        [] \<Rightarrow> Some (True, s, stream_len)
      | c # fmt \<Rightarrow>
          if c \<noteq> CHR ''%'' \<or> deref fmt = CHR ''%'' then do {
            let fmt = (if c = CHR ''%'' then tl fmt else fmt);
            (ok, s, stream_len) \<leftarrow> put_all put [c] s stream_len;
            if ok then vfprintf_loop put fmt ap s stream_len else Some (False, s, stream_len)
          } else case fmt of
            [] \<Rightarrow> None
          | c # fmt \<Rightarrow>
            (case parse_dir c fmt no_pflags 0 0 ap of
               None \<Rightarrow> None
             | Some None \<Rightarrow> Some (True, s, stream_len)
             | Some (Some (c, fmt, fl, width, prec, ap)) \<Rightarrow>
                 if c = CHR 0x00 then None
                 else do {
                   (out, ap) \<leftarrow> directive c fl width prec ap;
                   (ok, s, stream_len) \<leftarrow> put_all put out s stream_len;
                   if ok then vfprintf_loop put fmt ap s stream_len else Some (False, s, stream_len) }))"
  by pat_completeness auto
termination
  by (relation "measure (\<lambda>(_, fmt, _). length fmt)") (auto dest: parse_dir_shorter)

declare vfprintf_loop.simps [simp del]

text \<open>The result: the stream, whether \<open>__SERR\<close> was set, and the return value.\<close>

definition vfprintf :: "'s put \<Rightarrow> bool \<Rightarrow> string \<Rightarrow> varg list \<Rightarrow> 's \<Rightarrow> ('s \<times> bool \<times> int) option" where
  "vfprintf put swr fmt ap s =
     (if \<not> swr then Some (s, False, - 1)
      else do {
        (ok, s, stream_len) \<leftarrow> vfprintf_loop put fmt ap s 0;
        Some (if ok then (s, False, stream_len) else (s, True, - 1)) })"

section \<open>String streams\<close>

record wfile =
  wpos :: nat
  wend :: nat
  wmem :: mem

definition file_str_put :: "wfile put" where
  "file_str_put c f =
     (if wpos f \<noteq> wend f then do {
        m \<leftarrow> store8 (wmem f) (wpos f) (of_char c);
        Some (f\<lparr>wpos := wpos f + 1, wmem := m\<rparr>, True)
      } else Some (f, True))"

definition string_write_end :: "addr \<Rightarrow> u64 \<Rightarrow> addr" where
  "string_write_end s n =
     (if sint (ucast n :: u32) < 0 then 0 else if n \<noteq> 0 then s + unat n - 1 else s)"

definition setup_string_write :: "mem \<Rightarrow> addr \<Rightarrow> addr \<Rightarrow> wfile" where
  "setup_string_write m s e = \<lparr>wpos = s, wend = e, wmem = m\<rparr>"

definition vsnprintf :: "mem \<Rightarrow> addr \<Rightarrow> u64 \<Rightarrow> string \<Rightarrow> varg list \<Rightarrow> (mem \<times> int) option" where
  "vsnprintf m s n fmt ap = do {
     (f, _, i) \<leftarrow> vfprintf file_str_put True fmt ap (setup_string_write m s (string_write_end s n));
     m \<leftarrow> (if n \<noteq> 0 then store8 (wmem f) (wpos f) 0 else Some (wmem f));
     Some (m, i) }"

definition snprintf :: "mem \<Rightarrow> addr \<Rightarrow> u64 \<Rightarrow> string \<Rightarrow> varg list \<Rightarrow> (mem \<times> int) option" where
  "snprintf m s n fmt ap = do {
     (f, _, i) \<leftarrow> vfprintf file_str_put True fmt ap (setup_string_write m s (string_write_end s n));
     m \<leftarrow> (if n \<noteq> 0 then store8 (wmem f) (wpos f) 0 else Some (wmem f));
     Some (m, i) }"

definition vsprintf :: "mem \<Rightarrow> addr \<Rightarrow> string \<Rightarrow> varg list \<Rightarrow> (mem \<times> int) option" where
  "vsprintf m s fmt ap = do {
     (f, _, i) \<leftarrow> vfprintf file_str_put True fmt ap (setup_string_write m s 0);
     m \<leftarrow> (if i \<ge> 0 then store8 (wmem f) (s + nat i) 0 else Some (wmem f));
     Some (m, i) }"

definition sprintf :: "mem \<Rightarrow> addr \<Rightarrow> string \<Rightarrow> varg list \<Rightarrow> (mem \<times> int) option" where
  "sprintf m s fmt ap = do {
     (f, _, i) \<leftarrow> vfprintf file_str_put True fmt ap (setup_string_write m s 0);
     m \<leftarrow> (if i \<ge> 0 then store8 (wmem f) (s + nat i) 0 else Some (wmem f));
     Some (m, i) }"

section \<open>Plain output\<close>

definition putc :: "'s put \<Rightarrow> bool \<Rightarrow> char \<Rightarrow> 's \<Rightarrow> ('s \<times> bool \<times> int) option" where
  "putc put swr c s =
     (if \<not> swr then Some (s, False, - 1)
      else do {
        (s, ok) \<leftarrow> put c s;
        Some (if ok then (s, False, of_char c) else (s, True, - 1)) })"

fun fputs_loop :: "'s put \<Rightarrow> string \<Rightarrow> 's \<Rightarrow> ('s \<times> bool) option" where
  "fputs_loop put [] s = Some (s, True)"
| "fputs_loop put (c # str) s = do {
     (s, ok) \<leftarrow> put c s;
     if ok then fputs_loop put str s else Some (s, False) }"

definition fputs :: "'s put \<Rightarrow> bool \<Rightarrow> string \<Rightarrow> 's \<Rightarrow> ('s \<times> bool \<times> int) option" where
  "fputs put swr str s =
     (if \<not> swr then Some (s, False, - 1)
      else do {
        (s, ok) \<leftarrow> fputs_loop put str s;
        Some (if ok then (s, False, 0) else (s, True, - 1)) })"

end
