(* ===== verification/PrintfText.thy ===== *)
theory PrintfText
  imports Printf Scanf
begin

text \<open>
  The text a conversion of \<open>printf\<close> stands for.  \<open>numeral_str\<close> is the written
  form of a number in a base; \<open>pad_text\<close> and \<open>number_text\<close> lay out a field;
  \<open>int_text\<close> and \<open>uint_text\<close> are the integer conversions.  The lemmas show that the
  digit loop and the padding loops of the code produce them, for every flag,
  width and precision.
\<close>

section \<open>Digits and counted loops\<close>

lemma fill_eq: "fill c i n = (replicate (nat (n - i)) c, max i n)"
proof (induction c i n rule: fill.induct)
  case (1 c i n)
  show ?case
  proof (cases "i < n")
    case True
    then have "nat (n - i) = Suc (nat (n - (i + 1)))" by simp
    then show ?thesis using 1 [OF True] True by (simp add: fill.simps [of c i n])
  qed (simp add: fill.simps)
qed

lemma drain_eq: "drain c i n = (replicate (nat (i - n)) c, min i n)"
proof (induction c i n rule: drain.induct)
  case (1 c i n)
  show ?case
  proof (cases "i > n")
    case True
    then have "nat (i - n) = Suc (nat (i - 1 - n))" by simp
    then show ?thesis using 1 True by (simp add: drain.simps [of c i n])
  qed (simp add: drain.simps)
qed

definition digit_char :: "bool \<Rightarrow> nat \<Rightarrow> char" where
  "digit_char up d = char_of (if d < 10 then d + 48 else if up then d + 55 else d + 87)"

fun numeral_str :: "bool \<Rightarrow> nat \<Rightarrow> nat \<Rightarrow> string" where
  "numeral_str up b n =
     (if n < b \<or> b < 2 then [digit_char up n] else numeral_str up b (n div b) @ [digit_char up (n mod b)])"

declare numeral_str.simps [simp del]

lemma numeral_str_length: "n < b ^ Suc k \<Longrightarrow> 2 \<le> b \<Longrightarrow> length (numeral_str up b n) \<le> Suc k"
proof (induction k arbitrary: n)
  case (Suc k)
  then have "n div b < b ^ Suc k" by (simp add: less_mult_imp_div_less mult.commute)
  from Suc.IH [OF this] Suc.prems show ?case by (subst numeral_str.simps) simp
qed (simp add: numeral_str.simps)

lemma ultoa_digit:
  fixes hex :: u8
  assumes "n < 16" "hex = (if up then 7 else 39) \<or> n < 10"
  shows "char_of (unat ((if (of_nat n :: u8) > 9 then of_nat n + hex else of_nat n) + 48)) = digit_char up n"
proof -
  have gt: "(of_nat n :: u8) > 9 \<longleftrightarrow> 9 < n" using assms(1) by (simp add: word_less_nat_alt unat_of_nat)
  have plus: "unat (of_nat n + of_nat k :: u8) = n + k" if "k \<le> 100" for k
    using assms(1) that by (simp only: of_nat_add [symmetric] unat_of_nat) simp
  show ?thesis
  proof (cases "n < 10")
    case True
    then show ?thesis using gt plus [of 48] by (simp add: digit_char_def)
  next
    case False
    then have "hex = of_nat (if up then 7 else 39)" using assms(2) by simp
    then have "of_nat n + hex + 48 = (of_nat n + of_nat (if up then 55 else 87) :: u8)" by simp
    then have "unat (of_nat n + hex + 48) = n + (if up then 55 else 87)"
      using plus [of "if up then 55 else 87"] by (cases up) (simp_all add: add.commute del: of_nat_add)
    then show ?thesis using False gt by (simp add: digit_char_def)
  qed
qed

lemma ultoa_loop_ok:
  assumes "2 \<le> b" "b \<le> 16" "base = of_nat b" "hex = (if up then 7 else 39) \<or> b \<le> 10"
    and "unat val < b ^ (PRINTF_BUF_SIZE - i)" "i < PRINTF_BUF_SIZE"
  shows "ultoa_loop val base hex i = Some (rev (numeral_str up b (unat val)))"
  using assms(5,6)
proof (induction "PRINTF_BUF_SIZE - i" arbitrary: val i)
  case 0
  then show ?case by simp
next
  case (Suc k)
  let ?d = "unat val mod b"
  have i: "\<not> i \<ge> PRINTF_BUF_SIZE" using Suc.hyps(2) by simp
  have base: "unat base = b" using assms(2,3) by (simp add: unat_of_nat)
  have q: "unat (val div base) = unat val div b" by (simp add: unat_div base)
  have d: "ucast (val mod base) = (of_nat ?d :: u8)"
    using of_nat_unat [of "val mod base", where ?'a = "u8"] by (simp add: unat_mod base)
  have dig: "char_of (unat ((if (of_nat ?d :: u8) > 9 then of_nat ?d + hex else of_nat ?d) + 48)) = digit_char up ?d"
  proof (rule ultoa_digit)
    have "?d < b" using assms(1) by simp
    then show "?d < 16" "hex = (if up then 7 else 39) \<or> ?d < 10" using assms(2,4) by linarith+
  qed
  note loop = ultoa_loop.simps [of val base hex i, unfolded Let_def d dig]
  show ?case
  proof (cases "unat val < b")
    case True
    then have "val div base = 0" using q by (simp add: unat_eq_0 [symmetric])
    then show ?thesis using i True unfolding loop by (simp add: numeral_str.simps [of up b "unat val"])
  next
    case False
    then have "val div base \<noteq> 0" using q assms(1) by (simp add: unat_eq_0 [symmetric] div_eq_0_iff del: unat_eq_0)
    moreover have "ultoa_loop (val div base) base hex (i + 1) = Some (rev (numeral_str up b (unat val div b)))"
      unfolding q [symmetric]
    proof (rule Suc.hyps(1))
      show "k = PRINTF_BUF_SIZE - (i + 1)" using Suc.hyps(2) by simp
      have "k \<noteq> 0"
      proof
        assume "k = 0"
        then show False using Suc.prems(1) Suc.hyps(2) [symmetric] False by simp
      qed
      then show "i + 1 < PRINTF_BUF_SIZE" using Suc.hyps(2) by simp
      have "unat val < b * b ^ k" using Suc.prems(1) Suc.hyps(2) [symmetric] by simp
      then have "unat val div b < b ^ k" by (simp add: less_mult_imp_div_less mult.commute)
      then show "unat (val div base) < b ^ (PRINTF_BUF_SIZE - (i + 1))" using Suc.hyps(2)
        by (simp add: q del: diff_Suc_Suc) (metis Suc_diff_Suc add_diff_cancel_left' plus_1_eq_Suc zero_less_Suc zero_less_diff)
    qed
    ultimately show ?thesis using i False assms(1)
      unfolding loop by (simp add: numeral_str.simps [of up b "unat val"])
  qed
qed


lemma ultoa_invert_ok:
  assumes "base \<in> {8, 10, 16, 48}"
  shows "ultoa_invert x base = Some (rev (numeral_str (base = 48) (nat (base mod 32)) (unat x)))"
proof -
  have x: "unat x < 2 ^ 64" using unsigned_less [of x, where ?'a = nat] by simp
  have b: "unat x < nat (base mod 32) ^ PRINTF_BUF_SIZE"
  proof -
    have "(2::nat) ^ 64 \<le> 8 ^ PRINTF_BUF_SIZE" by (simp add: PRINTF_BUF_SIZE_def)
    also have "8 ^ PRINTF_BUF_SIZE \<le> nat (base mod 32) ^ PRINTF_BUF_SIZE" using assms by (intro power_mono) auto
    finally show ?thesis using x by simp
  qed
  have "base AND 31 = base mod 32"
    using take_bit_eq_mask [of 5 base] take_bit_eq_mod [of 5 base] by (simp add: mask_eq_exp_minus_1)
  then show ?thesis
    using assms b unfolding ultoa_invert_def Let_def
    by (subst ultoa_loop_ok [where b = "nat (base mod 32)" and up = "base = 48"]) (auto simp: PRINTF_BUF_SIZE_def)
qed

lemma dval_digit: "d < 36 \<Longrightarrow> dval (digit_char up d) = d" "d < 36 \<Longrightarrow> isalnum (digit_char up d)"
proof -
  have "d < 36 \<Longrightarrow> dval (digit_char up d) = d \<and> isalnum (digit_char up d)"
    by (auto simp: dval_def isalnum_def digit_char_def less_eq_char_def)
  then show "d < 36 \<Longrightarrow> dval (digit_char up d) = d" "d < 36 \<Longrightarrow> isalnum (digit_char up d)" by simp_all
qed

lemma num_val_snoc: "num_val b (ds @ [c]) = num_val b ds * b + dval c"
  by (simp add: num_val_def)

lemma num_val_numeral: "2 \<le> b \<Longrightarrow> b \<le> 36 \<Longrightarrow> num_val b (numeral_str up b n) = n"
proof (induction up b n rule: numeral_str.induct)
  case (1 up b n)
  have "dval (digit_char up (n mod b)) = n mod b"
    using 1 mod_less_divisor [of b n] by (intro dval_digit) linarith
  then show ?case using 1
    by (subst numeral_str.simps) (auto simp: num_val_snoc dval_digit num_val_def [of _ "[_]"])
qed

lemma numeral_digits: "2 \<le> b \<Longrightarrow> b \<le> 36 \<Longrightarrow> c \<in> set (numeral_str up b n) \<Longrightarrow> isalnum c \<and> dval c < b"
proof (induction up b n rule: numeral_str.induct)
  case (1 up b n)
  show ?case
  proof (cases "n < b")
    case True
    then show ?thesis using "1.prems" by (subst (asm) numeral_str.simps) (simp add: dval_digit)
  next
    case False
    have "n mod b < b" using "1.prems" by simp
    then have "n mod b < 36" using "1.prems" by linarith
    then show ?thesis using False "1.prems" "1.IH" dval_digit [of "n mod b" up] \<open>n mod b < b\<close>
      by (subst (asm) numeral_str.simps) (auto split: if_splits)
  qed
qed

lemma numeral_ne [simp]: "numeral_str up b n \<noteq> []"
  by (subst numeral_str.simps) simp

lemma numeral_no_zero: "2 \<le> b \<Longrightarrow> 0 < n \<Longrightarrow> b \<le> 36 \<Longrightarrow> hd (numeral_str up b n) \<noteq> CHR ''0''"
proof (induction up b n rule: numeral_str.induct)
  case (1 up b n)
  have "digit_char up n \<noteq> CHR ''0''" if "n < b"
    using dval_digit(1) [of n up] 1 that by (auto simp: dval_def)
  then show ?case using 1 by (subst numeral_str.simps) (auto simp: hd_append div_greater_zero_iff)
qed

section \<open>Fields\<close>

text \<open>The text of an integer conversion.\<close>

definition pad_text :: "int \<Rightarrow> bool \<Rightarrow> string \<Rightarrow> string" where
  "pad_text width lp s =
     (let gap = replicate (nat (width - int (length s))) CHR '' '' in if lp then s @ gap else gap @ s)"

definition number_text :: "pflags \<Rightarrow> int \<Rightarrow> int \<Rightarrow> string \<Rightarrow> string \<Rightarrow> string" where
  "number_text fl width prec lead digits =
     (let zeros = (if pf_prec fl then nat (prec - int (length digits))
                   else if pf_zfill fl \<and> \<not> pf_lpad fl
                   then nat (width - int (length lead + length digits)) else 0)
      in pad_text width (pf_lpad fl) (lead @ replicate zeros CHR ''0'' @ digits))"

definition sign_text :: "pflags \<Rightarrow> string" where
  "sign_text fl = (if pf_negative fl then ''-'' else if pf_plus fl then ''+'' else if pf_space fl then '' '' else [])"

text \<open>The characters before the digits: \<open>0\<close> or \<open>0x\<close> in the alternate form, else the sign.\<close>

definition lead_text :: "char \<Rightarrow> pflags \<Rightarrow> int \<Rightarrow> string \<Rightarrow> string" where
  "lead_text c fl prec digits =
     (if pf_alt fl \<and> \<not> (c = CHR 0x00 \<and> pf_prec fl \<and> int (length digits) < prec)
      then CHR ''0'' # (if c = CHR 0x00 then [] else [c])
      else sign_text fl)"

definition emit_fl :: "char \<Rightarrow> pflags \<Rightarrow> int \<Rightarrow> int \<Rightarrow> pflags" where
  "emit_fl c fl prec buf_len =
     fl\<lparr>pf_zfill := pf_zfill fl \<and> \<not> pf_prec fl,
        pf_alt := pf_alt fl \<and> \<not> (c = CHR 0x00 \<and> pf_prec fl \<and> buf_len < prec)\<rparr>"

lemma int_emit_ok:
  assumes "int (length buf) + 2 \<le> INT_MAX" "prec + 2 \<le> INT_MAX" "0 \<le> prec" "pf_prec fl \<or> prec = 0"
  shows "\<exists>out w. int_emit c fl buf width prec = Some (out, w) \<and>
    out @ fst (drain CHR '' '' w 0) = number_text fl width prec (lead_text c fl prec buf) (rev buf)"
proof -
  let ?n = "int (length buf)"
  define fl' where "fl' = emit_fl c fl prec ?n"
  define lead where "lead = lead_text c fl prec buf"
  define len0 where "len0 = (if pf_prec fl then max ?n prec else ?n)"
  have s1: "(if pf_prec fl
        then let fl = fl\<lparr>pf_zfill := False\<rparr>
             in if ?n < prec then (if c = CHR 0x00 then fl\<lparr>pf_alt := False\<rparr> else fl, prec)
                else (fl, ?n)
        else (fl, ?n)) = (fl', len0)"
    by (cases fl) (auto simp: fl'_def emit_fl_def len0_def Let_def)
  have lead: "lead = (if pf_alt fl' then CHR ''0'' # (if c \<noteq> CHR 0x00 then [c] else [])
                 else if pf_negative fl' \<or> pf_plus fl' \<or> pf_space fl'
                 then [if pf_negative fl' then CHR ''-'' else if pf_plus fl' then CHR ''+'' else CHR '' '']
                 else [])"
    by (simp add: lead_def lead_text_def fl'_def emit_fl_def sign_text_def)
  define len where "len = len0 + int (length lead)"
  have len0: "0 \<le> len0" "len0 + 2 \<le> INT_MAX" using assms by (auto simp: len0_def)
  have s2: "(if pf_alt fl' then do {
               len \<leftarrow> ck32 (len0 + 1);
               if c \<noteq> CHR 0x00 then ck32 (len + 1) else Some len
             } else if pf_negative fl' \<or> pf_plus fl' \<or> pf_space fl' then ck32 (len0 + 1)
             else Some len0) = Some len"
    using len0 by (simp add: lead len_def ck32_def range_defs)
  define prec' where "prec' = (if pf_zfill fl' \<and> \<not> pf_lpad fl' then ?n + max 0 (width - len) else prec)"
  define pad where "pad = (if pf_lpad fl' \<or> pf_zfill fl' then [] else replicate (nat (width - len)) CHR '' '')"
  define len' where "len' = (if pf_lpad fl' then len else max len width)"
  have s3: "(if \<not> pf_lpad fl'
        then let (prec, len) =
               (if pf_zfill fl'
                then (if len < width then (?n + (width - len), width) else (?n, len))
                else (prec, len));
                 (pad, len) = fill CHR '' '' len width
             in (prec, pad, len)
        else (prec, [], len)) = (prec', pad, len')"
    by (auto simp: prec'_def pad_def len'_def fill_eq)
  have run: "int_emit c fl buf width prec = Some (pad @ lead @ replicate (nat (prec' - ?n)) CHR ''0'' @ rev buf, width - len')"
    unfolding int_emit_def Let_def [of ?n] s1 using s2 s3 lead
    by (simp add: drain_eq Let_def)
  have f: "pf_lpad fl' = pf_lpad fl" "pf_zfill fl' = (pf_zfill fl \<and> \<not> pf_prec fl)"
    by (simp_all add: fl'_def emit_fl_def)
  have "pad @ lead @ replicate (nat (prec' - ?n)) CHR ''0'' @ rev buf @ replicate (nat (width - len')) CHR '' ''
    = number_text fl width prec lead (rev buf)"
  proof (cases "pf_lpad fl")
    case True
    then show ?thesis using assms(4)
      by (auto simp: number_text_def pad_text_def pad_def prec'_def len'_def len_def len0_def f Let_def algebra_simps max_def)
  next
    case lp: False
    show ?thesis
    proof (cases "pf_zfill fl \<and> \<not> pf_prec fl")
      case True
      then show ?thesis using lp
        by (auto simp: number_text_def pad_text_def pad_def prec'_def len'_def len_def len0_def f Let_def algebra_simps max_def)
    next
      case False
      then show ?thesis using lp assms(4)
        by (auto simp: number_text_def pad_text_def pad_def prec'_def len'_def len_def len0_def f Let_def algebra_simps max_def)
    qed
  qed
  then show ?thesis using run by (simp add: drain_eq lead_def)
qed

section \<open>Conversions\<close>

definition digits_text :: "pflags \<Rightarrow> int \<Rightarrow> bool \<Rightarrow> nat \<Rightarrow> nat \<Rightarrow> string" where
  "digits_text fl prec up b n = (if n = 0 \<and> pf_prec fl \<and> prec = 0 then [] else numeral_str up b n)"

text \<open>\<open>%d\<close> and \<open>%i\<close> of the value \<open>v\<close>.\<close>

definition int_text :: "pflags \<Rightarrow> int \<Rightarrow> int \<Rightarrow> int \<Rightarrow> string" where
  "int_text fl width prec v =
     number_text fl width prec
       (if v < 0 then ''-'' else if pf_plus fl then ''+'' else if pf_space fl then '' '' else [])
       (digits_text fl prec False 10 (nat \<bar>v\<bar>))"

text \<open>\<open>%u\<close>, \<open>%o\<close>, \<open>%x\<close> and \<open>%X\<close> of the value \<open>n\<close>; the \<open>#\<close> flag does nothing for zero.\<close>

definition uint_text :: "char \<Rightarrow> pflags \<Rightarrow> int \<Rightarrow> int \<Rightarrow> nat \<Rightarrow> string" where
  "uint_text c fl width prec n =
     (let b = (if c = CHR ''u'' then 10 else if c = CHR ''o'' then 8 else 16);
          ds = digits_text fl prec (c = CHR ''X'') b n;
          lead = (if pf_alt fl \<and> n \<noteq> 0 \<and> c \<noteq> CHR ''u''
                  then (if c = CHR ''o''
                        then (if pf_prec fl \<and> int (length ds) < prec then [] else ''0'')
                        else [CHR ''0'', c])
                  else [])
      in number_text fl width prec lead ds)"

lemma number_text_cong:
  "pf_prec fl = pf_prec gl \<Longrightarrow> pf_zfill fl = pf_zfill gl \<Longrightarrow> pf_lpad fl = pf_lpad gl \<Longrightarrow>
   number_text fl width prec lead ds = number_text gl width prec lead ds"
  by (simp add: number_text_def)

lemma int_digits_ok:
  assumes "base \<in> {8, 10, 16, 48}"
  shows "int_digits fl prec x base = Some (rev (digits_text fl prec (base = 48) (nat (base mod 32)) (unat x)))"
  using ultoa_invert_ok [OF assms, of x] by (auto simp: int_digits_def digits_text_def unat_eq_0)

lemma digits_text_length:
  assumes "b \<in> {8, 10, 16}" "n < 2 ^ 64" shows "length (digits_text fl prec up b n) \<le> 22"
proof -
  have "(2::nat) ^ 64 \<le> 8 ^ Suc 21" by simp
  also have "8 ^ Suc 21 \<le> b ^ Suc 21" using assms(1) by (intro power_mono) auto
  finally have "n < b ^ Suc 21" using assms(2) by linarith
  then have "length (numeral_str up b n) \<le> Suc 21" using assms(1) by (intro numeral_str_length) auto
  then show ?thesis by (simp add: digits_text_def)
qed

lemma unat_abs64: "unat (if sint x < 0 then - x else x) = nat \<bar>sint x\<bar>" for x :: u64
proof -
  have r: "- (2 ^ 63) \<le> sint x" "sint x < 2 ^ 63"
    using sint_greater_eq [of x] sint_lt [of x] by simp_all
  have x: "x = word_of_int (sint x)" by simp
  have "uint (word_of_int \<bar>sint x\<bar> :: u64) = \<bar>sint x\<bar>"
    using r by (simp add: uint_word_of_int)
  moreover have "(if sint x < 0 then - x else x) = word_of_int \<bar>sint x\<bar>"
    by (cases "sint x < 0") (simp_all add: wi_hom_neg [symmetric])
  ultimately show ?thesis by (simp add: unat_eq_nat_uint)
qed
lemma nat_sint_bound: "nat \<bar>sint x\<bar> < 2 ^ 64" for x :: u64
  using unat_abs64 [of x] unsigned_less [of "if sint x < 0 then - x else x", where ?'a = nat] by simp

lemma directive_signed:
  assumes "c \<in> {CHR ''d'', CHR ''i''}" "arg_to_signed fl ap = Some (x, ap')" "\<not> pf_negative fl"
    and "0 \<le> width" "0 \<le> prec" "prec + 2 \<le> INT_MAX" "pf_prec fl \<or> prec = 0"
  shows "directive c fl width prec ap = Some (int_text fl width prec (sint x), ap')"
proof -
  let ?y = "if sint x < 0 then - x else x"
  have y: "unat ?y = nat \<bar>sint x\<bar>" by (rule unat_abs64)
  define g where "g = fl\<lparr>pf_negative := sint x < 0, pf_alt := False\<rparr>"
  define ds where "ds = digits_text fl prec False 10 (nat \<bar>sint x\<bar>)"
  have lc: "TOLOWER (of_char c) = (if c = CHR ''d'' then 100 else 105)" using assms(1) by (auto simp: TOLOWER_def)
  have "int_digits g prec ?y 10 = Some (rev ds)"
    using int_digits_ok [of 10 g prec ?y] by (simp add: y ds_def g_def digits_text_def)
  then have v: "int_value c fl prec ap = Some (Some (c, g, rev ds, ap'))"
    using assms(1,2,3) by (cases "sint x < 0"; cases fl) (auto simp: int_value_def g_def)
  have "length ds \<le> 22" unfolding ds_def by (intro digits_text_length nat_sint_bound) simp
  then obtain out w where "int_emit c g (rev ds) width prec = Some (out, w)"
    "out @ fst (drain CHR '' '' w 0) = number_text g width prec (lead_text c g prec (rev ds)) (rev (rev ds))"
    using int_emit_ok [of "rev ds" prec g c width] assms(5-7) by (auto simp: range_defs g_def)
  moreover have "number_text g width prec (lead_text c g prec (rev ds)) (rev (rev ds)) = int_text fl width prec (sint x)"
  proof -
    have "lead_text c g prec (rev ds)
      = (if sint x < 0 then ''-'' else if pf_plus fl then ''+'' else if pf_space fl then '' '' else [])"
      by (simp add: lead_text_def sign_text_def g_def)
    then show ?thesis unfolding int_text_def ds_def [symmetric] rev_rev_ident
      by (simp only:) (rule number_text_cong; simp add: g_def)
  qed
  ultimately show ?thesis
    using assms(1,4,5) v lc unfolding directive_def by (auto simp: word_le_nat_alt)
qed

lemma arg_cong_flags:
  "pf_long fl = pf_long gl \<Longrightarrow> pf_short fl = pf_short gl \<Longrightarrow> pf_repd fl = pf_repd gl \<Longrightarrow>
   arg_to_unsigned fl ap = arg_to_unsigned gl ap"
  by (simp only: arg_to_unsigned_def)

lemma ucast_of_int32: "ucast (word_of_int a :: u64) = (word_of_int a :: u32)"
  by (rule bit_word_eqI) (simp add: bit_unsigned_iff bit_word_of_int_iff)

lemma directive_unsigned:
  assumes c: "c \<in> {CHR ''u'', CHR ''o'', CHR ''x'', CHR ''X''}"
    and a: "arg_to_unsigned fl ap = Some (x, ap')" "\<not> pf_negative fl"
    and w: "0 \<le> width" "0 \<le> prec" "prec + 2 \<le> INT_MAX" "pf_prec fl \<or> prec = 0"
  shows "directive c fl width prec ap = Some (uint_text c fl width prec (unat x), ap')"
proof -
  define c' where "c' = (if c = CHR ''o'' then CHR 0x00 else c)"
  define base where "base = (if c = CHR ''u'' then 10 else if c = CHR ''o'' then 8 else if c = CHR ''x'' then 16 else 48 :: int)"
  define g where "g = fl\<lparr>pf_plus := False, pf_space := False, pf_alt := pf_alt fl \<and> c \<noteq> CHR ''u'' \<and> x \<noteq> 0\<rparr>"
  define ds where "ds = digits_text fl prec (base = 48) (nat (base mod 32)) (unat x)"
  have base: "base \<in> {8, 10, 16, 48}" by (simp add: base_def)
  have low: "\<not> (101 \<le> TOLOWER (of_char c) \<and> TOLOWER (of_char c) \<le> 103 \<or> TOLOWER (of_char c) = 97)"
    using c by (auto simp: TOLOWER_def)
  have bx: "(120 - of_char CHR ''x'') OR 16 = (16::int)" "(120 - of_char CHR ''X'') OR 16 = (48::int)" by simp_all
  have digs: "int_digits g prec x base = Some (rev ds)"
    using int_digits_ok [OF base, of g prec x] by (simp add: ds_def g_def digits_text_def)
  have ax: "arg_to_unsigned (fl\<lparr>pf_alt := a, pf_plus := b, pf_space := d\<rparr>) ap = Some (x, ap')"
    "arg_to_unsigned (fl\<lparr>pf_plus := b, pf_space := d\<rparr>) ap = Some (x, ap')" for a b d
    unfolding a(1) [symmetric] by (rule arg_cong_flags; simp)+
  have spec: "(if c = CHR ''u'' then Some (c, fl\<lparr>pf_alt := False\<rparr>, 10)
                     else if c = CHR ''o'' then Some (CHR 0x00, fl, 8)
                     else if c = CHR ''p'' then Some (CHR ''x'', fl\<lparr>pf_alt := True, pf_long := True\<rparr>, 16)
                     else if TOLOWER (of_char c) = 120 then Some (c, fl, (120 - of_char c) OR 16)
                     else None) = Some (c', if c = CHR ''u'' then fl\<lparr>pf_alt := False\<rparr> else fl, base)"
    using c by (auto simp: c'_def base_def TOLOWER_def)
  have v: "int_value c fl prec ap = Some (Some (c', g, rev ds, ap'))"
    using c digs ax unfolding int_value_def spec
    by (cases "x = 0"; cases fl) (auto simp: g_def)
  have "length ds \<le> 22"
    unfolding ds_def using base unsigned_less [of x, where ?'a = nat] by (intro digits_text_length) auto
  then obtain out v where "int_emit c' g (rev ds) width prec = Some (out, v)"
    "out @ fst (drain CHR '' '' v 0) = number_text g width prec (lead_text c' g prec (rev ds)) (rev (rev ds))"
    using int_emit_ok [of "rev ds" prec g c' width] w by (auto simp: range_defs g_def)
  moreover have "number_text g width prec (lead_text c' g prec (rev ds)) (rev (rev ds)) = uint_text c fl width prec (unat x)"
  proof -
    have ds: "ds = digits_text fl prec (c = CHR ''X'') (if c = CHR ''u'' then 10 else if c = CHR ''o'' then 8 else 16) (unat x)"
      using c by (auto simp: ds_def base_def)
    have lead: "lead_text c' g prec (rev ds) = (if pf_alt fl \<and> unat x \<noteq> 0 \<and> c \<noteq> CHR ''u''
                  then (if c = CHR ''o''
                        then (if pf_prec fl \<and> int (length ds) < prec then [] else ''0'')
                        else [CHR ''0'', c])
                  else [])"
      using c a(2) by (auto simp: lead_text_def c'_def g_def sign_text_def unat_eq_0)
    show ?thesis unfolding uint_text_def Let_def ds [symmetric] rev_rev_ident lead
      by (rule number_text_cong) (simp_all add: g_def)
  qed
  ultimately show ?thesis
    using c w v low unfolding directive_def by auto
qed

lemma str_lpad_ok:
  assumes "0 \<le> width" "width \<le> INT_MAX" "int (length s) \<le> INT_MAX" "str_lpad fl width s = (out, w)"
  shows "out @ fst (drain CHR '' '' w 0) = pad_text width (pf_lpad fl) s"
proof -
  have "sint (ucast (word_of_int v - of_nat (length s) :: u64) :: u32) = v - int (length s)"
    if "0 \<le> v" "v \<le> INT_MAX" for v
  proof -
    have diff: "word_of_int v - of_nat (length s) = (word_of_int (v - int (length s)) :: u64)" by simp
    have "ucast (word_of_int v - of_nat (length s) :: u64) = (word_of_int (v - int (length s)) :: u32)"
      unfolding diff by (rule ucast_of_int32)
    then show ?thesis using that assms(3) sint32_eq_iff [of "v - int (length s)"] by (simp add: range_defs)
  qed
  from this [of width] this [of "min width (int (length s))"] assms show ?thesis
    by (auto simp: str_lpad_def drain_eq Let_def pad_text_def split: if_splits)
qed

lemma directive_string:
  assumes "0 \<le> width" "width \<le> INT_MAX" "0 \<le> prec"
  shows "length s \<le> nat INT_MAX \<Longrightarrow> pf_prec fl \<or> prec = 0 \<Longrightarrow>
      directive CHR ''s'' fl width prec (VString (Some s) # ap) =
      Some (pad_text width (pf_lpad fl) (if pf_prec fl then take (nat prec) s else s), ap)"
    and "directive CHR ''c'' fl width prec (VInt x # ap) =
      Some (pad_text width (pf_lpad fl) [char_of (unat (ucast x :: u8))], ap)"
proof -
  have low: "TOLOWER (of_char CHR ''s'') = 115" "TOLOWER (of_char CHR ''c'') = 99" by (simp_all add: TOLOWER_def)
  show "directive CHR ''s'' fl width prec (VString (Some s) # ap) =
      Some (pad_text width (pf_lpad fl) (if pf_prec fl then take (nat prec) s else s), ap)"
    if l: "length s \<le> nat INT_MAX" "pf_prec fl \<or> prec = 0"
  proof -
    let ?s = "if pf_prec fl then take (nat prec) s else s"
    obtain out w where o: "str_lpad fl width ?s = (out, w)" by fastforce
    have "int (length ?s) \<le> INT_MAX" using l(1) by (auto simp: range_defs min_def)
    from str_lpad_ok [OF assms(1,2) this o] show ?thesis
      using assms o low by (cases "pf_prec fl") (simp_all add: directive_def conv_str_def Let_def)
  qed
  show "directive CHR ''c'' fl width prec (VInt x # ap) =
      Some (pad_text width (pf_lpad fl) [char_of (unat (ucast x :: u8))], ap)"
  proof -
    let ?s = "[char_of (unat (ucast x :: u8))]"
    obtain out w where o: "str_lpad (fl\<lparr>pf_prec := False\<rparr>) width ?s = (out, w)" by fastforce
    have "int (length ?s) \<le> INT_MAX" by (simp add: range_defs)
    from str_lpad_ok [OF assms(1,2) this o] show ?thesis
      using assms o low by (simp add: directive_def conv_char_def Let_def)
  qed
qed

end
