(* ===== verification/PrintfSpec.thy ===== *)
theory PrintfSpec
  imports PrintfText
begin

text \<open>
  \<open>vfprintf\<close> and the string functions on top of it.  \<open>format_text\<close> is the text of a
  format and its arguments.  The locale \<open>writer\<close> states what \<open>vfprintf\<close> and \<open>fputs\<close> rely on in
  the \<open>put\<close> function of a stream, and its lemmas show that the text arrives there or
  that the error is reported; \<open>sink\<close> is a stream without errors.
  The interpretations are the two ways \<open>__file_str_put\<close> is used: bounded
  (\<open>snprintf\<close>) and unbounded (\<open>sprintf\<close>).  The properties follow, with the round
  trips through the parsing functions.
\<close>

section \<open>Streams\<close>

text \<open>The text a format and its arguments stand for, whatever the stream.\<close>

function format_text :: "string \<Rightarrow> varg list \<Rightarrow> string option" where
  "format_text fmt ap =
     (case fmt of
        [] \<Rightarrow> Some []
      | c # fmt \<Rightarrow>
          if c \<noteq> CHR ''%'' \<or> deref fmt = CHR ''%''
          then map_option ((#) c) (format_text (if c = CHR ''%'' then tl fmt else fmt) ap)
          else case fmt of
            [] \<Rightarrow> None
          | c # fmt \<Rightarrow>
            (case parse_dir c fmt no_pflags 0 0 ap of
               None \<Rightarrow> None
             | Some None \<Rightarrow> Some []
             | Some (Some (c, fmt, fl, width, prec, ap)) \<Rightarrow>
                 if c = CHR 0x00 then None
                 else (case directive c fl width prec ap of
                         None \<Rightarrow> None
                       | Some (out, ap) \<Rightarrow> map_option ((@) out) (format_text fmt ap))))"
  by pat_completeness auto
termination by (relation "measure (\<lambda>(fmt, _). length fmt)") (auto dest: parse_dir_shorter)

declare format_text.simps [simp del]

text \<open>
  What \<open>vfprintf\<close> relies on in the \<open>put\<close> function of a stream: \<open>rep cs s\<close> says that
  the stream \<open>s\<close> has been given the characters \<open>cs\<close>; while these are fewer than
  \<open>limit\<close>, it takes another one without a fault, or reports an error and stays as
  it is.  \<open>stopped\<close> says that an error was reported at some character of \<open>out\<close>.
\<close>

definition stopped :: "'s put \<Rightarrow> (string \<Rightarrow> 's \<Rightarrow> bool) \<Rightarrow> nat \<Rightarrow> string \<Rightarrow> string \<Rightarrow> 's \<Rightarrow> bool" where
  "stopped put rep limit cs out s' \<longleftrightarrow> (\<exists>o1 c o2 s. out = o1 @ c # o2 \<and> length (cs @ o1) < limit
     \<and> rep (cs @ o1) s \<and> put c s = Some (s', False) \<and> rep (cs @ o1) s')"

lemma stopped_append:
  assumes "stopped put rep limit cs o1 s'"
  shows "stopped put rep limit cs (o1 @ o2) s'"
proof -
  obtain a c b s where "o1 = a @ c # b" "length (cs @ a) < limit" "rep (cs @ a) s" "put c s = Some (s', False)" "rep (cs @ a) s'"
    using assms by (auto simp: stopped_def)
  then show ?thesis
    unfolding stopped_def by (intro exI [of _ a] exI [of _ c] exI [of _ "b @ o2"] exI [of _ s]) simp
qed

lemma stopped_later:
  assumes "stopped put rep limit (cs @ o1) o2 s'"
  shows "stopped put rep limit cs (o1 @ o2) s'"
proof -
  obtain a c b s where "o2 = a @ c # b" "length (cs @ o1 @ a) < limit" "rep (cs @ o1 @ a) s" "put c s = Some (s', False)" "rep (cs @ o1 @ a) s'"
    using assms by (auto simp: stopped_def)
  then show ?thesis
    unfolding stopped_def by (intro exI [of _ "o1 @ a"] exI [of _ c] exI [of _ b] exI [of _ s]) simp
qed

text \<open>The outcome of a run that delivers \<open>out\<close> after \<open>cs\<close>: all of it, or an error on the way.\<close>

definition delivers :: "'s put \<Rightarrow> (string \<Rightarrow> 's \<Rightarrow> bool) \<Rightarrow> nat \<Rightarrow> string \<Rightarrow> string \<Rightarrow> int \<Rightarrow> (bool \<times> 's \<times> int) option \<Rightarrow> bool" where
  "delivers put rep limit cs out n r \<longleftrightarrow> (\<exists>s'. r = Some (True, s', n + int (length out)) \<and> rep (cs @ out) s')
     \<or> (\<exists>s' k. r = Some (False, s', k) \<and> stopped put rep limit cs out s')"

locale writer =
  fixes put :: "'s put" and rep :: "string \<Rightarrow> 's \<Rightarrow> bool" and limit :: nat
  assumes put_ok: "rep cs s \<Longrightarrow> length cs < limit \<Longrightarrow>
    (\<exists>s'. put c s = Some (s', True) \<and> rep (cs @ [c]) s') \<or> (\<exists>s'. put c s = Some (s', False) \<and> rep cs s')"
begin

lemma put_all_rep:
  assumes "rep cs s" "length cs + length ds \<le> limit" "n + int (length ds) \<le> INT_MAX" "0 \<le> n"
  shows "delivers put rep limit cs ds n (put_all put ds s n)"
  using assms
proof (induction ds arbitrary: cs s n)
  case (Cons d ds)
  have ck: "ck32 (n + 1) = Some (n + 1)" using Cons.prems(3,4) by (simp add: ck32_def range_defs)
  have lt: "length cs < limit" using Cons.prems(2) by simp
  from put_ok [OF Cons.prems(1) lt, of d] show ?case
  proof (elim disjE exE conjE)
    fix s1 assume s1: "put d s = Some (s1, True)" "rep (cs @ [d]) s1"
    then show ?thesis
      using Cons.IH [of "cs @ [d]" s1 "n + 1"] Cons.prems stopped_later [of put rep limit cs "[d]" ds]
      by (auto simp: ck add.assoc delivers_def)
  next
    fix s1 assume s1: "put d s = Some (s1, False)" "rep cs s1"
    then have "stopped put rep limit cs (d # ds) s1"
      using Cons.prems(1) lt by (auto simp: stopped_def intro!: exI [of _ "[]"])
    then show ?thesis using s1 by (auto simp: ck delivers_def)
  qed
qed (simp add: delivers_def)

lemma put_all_then:
  assumes "rep cs s" "length cs + length (o1 @ o2) \<le> limit" "n + int (length (o1 @ o2)) \<le> INT_MAX" "0 \<le> n"
    and "\<And>s1. rep (cs @ o1) s1 \<Longrightarrow> delivers put rep limit (cs @ o1) o2 (n + int (length o1)) (rest s1 (n + int (length o1)))"
  shows "delivers put rep limit cs (o1 @ o2) n (case put_all put o1 s n of None \<Rightarrow> None
    | Some (ok, s, k) \<Rightarrow> if ok then rest s k else Some (False, s, k))"
proof -
  have "delivers put rep limit cs o1 n (put_all put o1 s n)" using assms(1-4) by (intro put_all_rep) auto
  then show ?thesis unfolding delivers_def [of _ _ _ _ o1]
  proof (elim disjE exE conjE)
    fix s1 assume s1: "put_all put o1 s n = Some (True, s1, n + int (length o1))" "rep (cs @ o1) s1"
    show ?thesis using assms(5) [OF s1(2)] s1(1) stopped_later [of put rep limit cs o1 o2]
      by (auto simp: delivers_def add.assoc)
  next
    fix s1 k assume "put_all put o1 s n = Some (False, s1, k)" "stopped put rep limit cs o1 s1"
    then show ?thesis using stopped_append [of put rep limit cs o1 s1 o2] by (auto simp: delivers_def)
  qed
qed

lemma vfprintf_loop_rep:
  assumes "format_text fmt ap = Some out" "rep cs s" "length cs + length out \<le> limit"
    "n + int (length out) \<le> INT_MAX" "0 \<le> n"
  shows "delivers put rep limit cs out n (vfprintf_loop put fmt ap s n)"
  using assms
proof (induction fmt ap arbitrary: out cs s n rule: format_text.induct)
  case (1 fmt ap)
  note ft = "1.prems"(1) [unfolded format_text.simps [of fmt ap]]
  show ?case
  proof (cases fmt)
    case Nil
    then show ?thesis using "1.prems" ft by (auto simp: vfprintf_loop.simps [of put "[]"] delivers_def)
  next
    case (Cons c rest)
    show ?thesis
    proof (cases "c \<noteq> CHR ''%'' \<or> deref rest = CHR ''%''")
      case True
      let ?rest = "if c = CHR ''%'' then tl rest else rest"
      obtain out' where o: "format_text ?rest ap = Some out'" "out = [c] @ out'" using ft Cons True by auto
      have run: "vfprintf_loop put fmt ap s n = (case put_all put [c] s n of None \<Rightarrow> None
          | Some (ok, s, n) \<Rightarrow> if ok then vfprintf_loop put ?rest ap s n else Some (False, s, n))"
        unfolding Cons using True
        by (subst vfprintf_loop.simps) (simp add: Let_def Option.bind_def del: put_all.simps split: option.split)
      show ?thesis
        unfolding run o(2) using "1.prems"(2-5) o(2) "1.IH"(1) [OF Cons True o(1)]
        by (intro put_all_then) simp_all
    next
      case dir: False
      obtain d rest2 where r: "rest = d # rest2" using ft Cons dir by (cases rest) auto
      have fmt: "fmt = CHR ''%'' # d # rest2" "deref (d # rest2) \<noteq> CHR ''%''" using Cons dir r by auto
      obtain q where p: "parse_dir d rest2 no_pflags 0 0 ap = Some q" using ft Cons dir r by fastforce
      show ?thesis
      proof (cases q)
        case None
        then have "out = []" using ft Cons dir r p by auto
        then show ?thesis using "1.prems"(2) p None fmt(2) unfolding fmt(1)
          by (subst vfprintf_loop.simps) (auto simp: delivers_def)
      next
        case (Some a)
        obtain e fmt' fl width prec ap' where a: "a = (e, fmt', fl, width, prec, ap')" by (cases a) auto
        have e: "e \<noteq> CHR 0x00" using ft Cons dir r p Some a by (auto split: if_splits)
        obtain o1 ap2 o2 where o: "directive e fl width prec ap' = Some (o1, ap2)"
          "format_text fmt' ap2 = Some o2" "out = o1 @ o2"
          using ft Cons dir r p Some a e by (auto split: option.splits)
        have run: "vfprintf_loop put fmt ap s n = (case put_all put o1 s n of None \<Rightarrow> None
            | Some (ok, s, n) \<Rightarrow> if ok then vfprintf_loop put fmt' ap2 s n else Some (False, s, n))"
          unfolding fmt(1) using fmt(2) p Some a e o(1)
          by (subst vfprintf_loop.simps) (simp add: Option.bind_def split: option.split)
        show ?thesis
          unfolding run o(3) using "1.prems"(2-5) o(3)
            "1.IH"(2) [OF Cons dir r p Some a [symmetric] refl refl refl refl e o(1) refl o(2)]
          by (intro put_all_then) simp_all
      qed
    qed
  qed
qed

lemma vfprintf_rep:
  assumes "format_text fmt ap = Some out" "rep [] s" "length out \<le> limit" "int (length out) \<le> INT_MAX"
  shows "(\<exists>s'. vfprintf put True fmt ap s = Some (s', False, int (length out)) \<and> rep out s')
    \<or> (\<exists>s'. vfprintf put True fmt ap s = Some (s', True, - 1) \<and> stopped put rep limit [] out s')"
  using vfprintf_loop_rep [OF assms(1,2), of 0] assms(3,4) by (auto simp: vfprintf_def delivers_def)

lemma fputs_rep:
  assumes "rep cs s" "length cs + length str \<le> limit"
  shows "(\<exists>s'. fputs put True str s = Some (s', False, 0) \<and> rep (cs @ str) s')
    \<or> (\<exists>s'. fputs put True str s = Some (s', True, - 1) \<and> stopped put rep limit cs str s')"
proof -
  have "(\<exists>s'. fputs_loop put str s = Some (s', True) \<and> rep (cs @ str) s')
    \<or> (\<exists>s'. fputs_loop put str s = Some (s', False) \<and> stopped put rep limit cs str s')" using assms
  proof (induction str arbitrary: cs s)
    case (Cons c str)
    from put_ok [OF Cons.prems(1), of c] Cons.prems(2)
    consider s1 where "put c s = Some (s1, True)" "rep (cs @ [c]) s1" | s1 where "put c s = Some (s1, False)" "rep cs s1"
      by fastforce
    then show ?case
    proof cases
      case 1
      then show ?thesis using Cons.IH [of "cs @ [c]" s1] Cons.prems stopped_later [of put rep limit cs "[c]" str] by auto
    next
      case 2
      then show ?thesis using Cons.prems by (auto simp: stopped_def intro!: exI [of _ "[]"])
    qed
  qed simp
  then show ?thesis by (auto simp: fputs_def)
qed

end

text \<open>A stream that never reports an error.\<close>

locale sink = writer put rep limit for put :: "'s put" and rep limit +
  assumes no_error: "rep cs s \<Longrightarrow> length cs < limit \<Longrightarrow> put c s \<noteq> Some (s', False)"
begin

lemma not_stopped: "\<not> stopped put rep limit cs out s'"
  using no_error unfolding stopped_def by blast

lemma vfprintf_all:
  assumes "format_text fmt ap = Some out" "rep [] s" "length out \<le> limit" "int (length out) \<le> INT_MAX"
  shows "\<exists>s'. vfprintf put True fmt ap s = Some (s', False, int (length out)) \<and> rep out s'"
  using vfprintf_rep [OF assms] not_stopped by blast

end

section \<open>String streams\<close>

definition text_bytes :: "string \<Rightarrow> u8 list" where
  "text_bytes s = map of_char s"

lemma text_bytes_simps [simp]:
  "length (text_bytes s) = length s" "text_bytes (s @ t) = text_bytes s @ text_bytes t" "text_bytes [] = []"
  "text_bytes [c] = [of_char c]"
  by (simp_all add: text_bytes_def)

lemma store8_after:
  assumes "mapped m p n" "length xs < n"
  shows "store8 (put_bytes m p xs) (p + length xs) b = Some (put_bytes m p (xs @ [b]))"
proof -
  have "put_bytes m p xs (p + length xs) \<noteq> None"
    using assms by (auto simp: put_bytes_apply mapped_def)
  then show ?thesis
    unfolding put_bytes_append [symmetric] by (simp add: store8_mapped put_bytes_single)
qed

text \<open>A buffer with room for \<open>k\<close> characters: what does not fit is dropped.\<close>

definition buf_rep :: "mem \<Rightarrow> addr \<Rightarrow> nat \<Rightarrow> string \<Rightarrow> wfile \<Rightarrow> bool" where
  "buf_rep m s k cs f \<longleftrightarrow> mapped m s k \<and>
     f = \<lparr>wpos = s + min (length cs) k, wend = s + k, wmem = put_bytes m s (text_bytes (take k cs))\<rparr>"

text \<open>An unbounded string stream on \<open>n\<close> bytes of memory.\<close>

definition str_rep :: "mem \<Rightarrow> addr \<Rightarrow> nat \<Rightarrow> string \<Rightarrow> wfile \<Rightarrow> bool" where
  "str_rep m s n cs f \<longleftrightarrow> mapped m s n \<and> 0 < s \<and>
     f = \<lparr>wpos = s + length cs, wend = 0, wmem = put_bytes m s (text_bytes cs)\<rparr>"

lemma buf_put:
  assumes "buf_rep m s k cs f"
  shows "\<exists>f'. file_str_put c f = Some (f', True) \<and> buf_rep m s k (cs @ [c]) f'"
proof (cases "length cs < k")
  case True
  then have "store8 (put_bytes m s (text_bytes cs)) (s + length cs) (of_char c) = Some (put_bytes m s (text_bytes (cs @ [c])))"
    using assms store8_after [of m s k "text_bytes cs" "of_char c"] by (simp add: buf_rep_def)
  then show ?thesis using assms True by (simp add: file_str_put_def buf_rep_def)
next
  case False
  then show ?thesis using assms by (simp add: file_str_put_def buf_rep_def)
qed

lemma str_put:
  assumes "str_rep m s n cs f" "length cs < n"
  shows "\<exists>f'. file_str_put c f = Some (f', True) \<and> str_rep m s n (cs @ [c]) f'"
proof -
  have "store8 (put_bytes m s (text_bytes cs)) (s + length cs) (of_char c) = Some (put_bytes m s (text_bytes (cs @ [c])))"
    using assms store8_after [of m s n "text_bytes cs" "of_char c"] by (simp add: str_rep_def)
  then show ?thesis using assms by (simp add: file_str_put_def str_rep_def)
qed

lemma file_str_put_no_error: "file_str_put c f \<noteq> Some (f', False)"
  by (auto simp: file_str_put_def split: Option.bind_splits)

interpretation buffer: sink file_str_put "buf_rep m s k" limit for m s k limit
  by unfold_locales (use buf_put file_str_put_no_error in blast)+

interpretation memory: sink file_str_put "str_rep m s n" n for m s n
  by unfold_locales (use str_put file_str_put_no_error in blast)+

lemma vsnprintf_ok:
  assumes "format_text fmt ap = Some out" "int (length out) \<le> INT_MAX" "mapped m s (unat n)" "unat n < 2 ^ 31"
  shows "vsnprintf m s n fmt ap = Some (if n = 0 then m
      else put_bytes m s (text_bytes (take (unat n - 1) out) @ [0]), int (length out))"
proof -
  let ?k = "unat n - 1"
  have k: "n \<noteq> 0 \<Longrightarrow> unat n = Suc ?k" by (simp add: unat_eq_0 [symmetric] del: unat_eq_0)
  have "\<not> sint (ucast n :: u32) < 0"
  proof -
    have "(ucast n :: u32) = word_of_int (int (unat n))" by simp
    moreover have "sint (word_of_int (int (unat n)) :: u32) = int (unat n)"
    proof -
      have "int (unat n) < int (2 ^ 31)" "0 \<le> uint n" using assms(4) by (simp_all only: of_nat_less_iff uint_ge_0)
      then show ?thesis by (subst sint32_eq_iff) (simp add: range_defs order_trans [OF _ uint_ge_0])
    qed
    ultimately show ?thesis by simp
  qed
  then have e: "string_write_end s n = s + ?k" using k by (auto simp: string_write_end_def)
  have m: "mapped m s ?k" using assms(3) by (auto intro: mapped_sub)
  then have "buf_rep m s ?k [] (setup_string_write m s (string_write_end s n))"
    by (simp add: buf_rep_def setup_string_write_def e)
  from buffer.vfprintf_all [OF assms(1) this _ assms(2), of "length out"]
  obtain f where f: "vfprintf file_str_put True fmt ap (setup_string_write m s (string_write_end s n)) = Some (f, False, int (length out))"
    "buf_rep m s ?k out f" by auto
  show ?thesis
  proof (cases "n = 0")
    case True
    then show ?thesis using f by (simp add: vsnprintf_def buf_rep_def)
  next
    case False
    have "store8 (wmem f) (wpos f) 0 = Some (put_bytes m s (text_bytes (take ?k out) @ [0]))"
      using f(2) store8_after [OF assms(3), of "text_bytes (take ?k out)" 0] k [OF False]
      by (simp add: buf_rep_def min.commute)
    then show ?thesis using False f(1) by (simp add: vsnprintf_def)
  qed
qed

lemma sprintf_ok:
  assumes "format_text fmt ap = Some out" "int (length out) \<le> INT_MAX" "mapped m s (length out + 1)" "0 < s"
  shows "sprintf m s fmt ap = Some (put_bytes m s (text_bytes out @ [0]), int (length out))"
proof -
  have "str_rep m s (length out + 1) [] (setup_string_write m s 0)"
    using assms(3,4) by (simp add: str_rep_def setup_string_write_def)
  from memory.vfprintf_all [OF assms(1) this _ assms(2)]
  obtain f where f: "vfprintf file_str_put True fmt ap (setup_string_write m s 0) = Some (f, False, int (length out))"
    "str_rep m s (length out + 1) out f" by auto
  have "store8 (wmem f) (s + length out) 0 = Some (put_bytes m s (text_bytes out @ [0]))"
    using f(2) store8_after [OF assms(3), of "text_bytes out" 0] by (simp add: str_rep_def)
  then show ?thesis using f(1) by (simp add: sprintf_def)
qed

section \<open>Round trips\<close>

lemma numeral_number:
  assumes "2 \<le> b" "b \<le> 16" "n < 2 ^ 64" "sign \<in> {[], ''-'', ''+''}"
  shows "number (of_nat b) sign (numeral_str up b n) []"
proof -
  have "n < b ^ Suc 63" using power_mono [OF assms(1), of 64] assms(3) by simp
  then have "length (numeral_str up b n) \<le> Suc 63" using assms(1) by (rule numeral_str_length)
  moreover have "is_digit (of_nat b) c" if "c \<in> set (numeral_str up b n)" for c
  proof -
    have "unat (of_nat b :: u32) = b" "(of_nat b :: u32) \<le> 36"
      using assms(2) by (simp_all add: unat_of_nat word_le_nat_alt)
    then show ?thesis using numeral_digits [OF assms(1) _ that] assms(2) is_digit_iff [of "of_nat b" c] by simp
  qed
  ultimately show ?thesis using assms(4) by (auto simp: number_def)
qed

text \<open>The text of a directive with no flags, width or precision.\<close>

definition conv_letter :: "char \<Rightarrow> bool" where
  "conv_letter c \<longleftrightarrow> c \<notin> set ''0+- #*.lhLjzt%'' \<and> c \<noteq> CHR 0x27 \<and> c \<noteq> CHR 0x00 \<and>
     \<not> (CHR ''0'' \<le> c \<and> c \<le> CHR ''9'')"

lemma parse_plain:
  assumes "conv_letter c"
  shows "parse_dir c fmt fl width prec ap = Some (Some (c, fmt, fl, width, prec, ap))"
proof -
  have "flag_char c fl = None" "check_int_sizes c fl = None"
    using assms by (simp_all add: conv_letter_def flag_char_def check_int_sizes_def)
  moreover have "c \<noteq> CHR ''*''" "c \<noteq> CHR ''.''" "\<not> (CHR ''0'' \<le> c \<and> c \<le> CHR ''9'')"
    using assms by (simp_all add: conv_letter_def)
  ultimately have "dir_step c fl width prec ap = Some Done"
    unfolding dir_step_def by (simp only: if_False simp_thms option.case if_cancel)
  then show ?thesis by (subst parse_dir.simps) simp
qed

lemma parse_long:
  assumes "conv_letter c"
  shows "parse_dir CHR ''l'' (c # fmt) no_pflags 0 0 ap
    = Some (Some (c, fmt, no_pflags\<lparr>pf_long := True\<rparr>, 0, 0, ap))"
  using parse_plain [OF assms]
  by (subst parse_dir.simps)
     (simp add: dir_step_def flag_char_def check_int_sizes_def no_pflags_def less_eq_char_def below_width_def below_long_def)

lemma format_long:
  assumes "directive c (no_pflags\<lparr>pf_long := True\<rparr>) 0 0 ap = Some (out, [])" "conv_letter c"
  shows "format_text (''%l'' @ [c]) ap = Some out"
  using parse_long [OF assms(2), of "[]" ap] assms
  by (simp add: format_text.simps [of "CHR ''%'' # _"] format_text.simps [of "[]"] deref_def conv_letter_def)

lemma number_plain: "number_text (no_pflags\<lparr>pf_long := b\<rparr>) 0 0 lead ds = lead @ ds"
  by (simp add: number_text_def pad_text_def no_pflags_def)

lemma format_ld: "format_text ''%ld'' [VLong x]
    = Some ((if sint x < 0 then ''-'' else []) @ numeral_str False 10 (nat \<bar>sint x\<bar>))"
proof -
  have "directive CHR ''d'' (no_pflags\<lparr>pf_long := True\<rparr>) 0 0 [VLong x]
    = Some (int_text (no_pflags\<lparr>pf_long := True\<rparr>) 0 0 (sint x), [])"
    by (intro directive_signed) (simp_all add: arg_to_signed_def no_pflags_def range_defs)
  moreover have "conv_letter CHR ''d''" by (simp add: conv_letter_def less_eq_char_def)
  ultimately have "format_text (''%l'' @ [CHR ''d'']) [VLong x] = Some (int_text (no_pflags\<lparr>pf_long := True\<rparr>) 0 0 (sint x))"
    by (rule format_long)
  then show ?thesis
    by (simp add: int_text_def number_plain digits_text_def) (simp add: no_pflags_def)
qed

lemma format_lx:
  assumes "c \<in> {CHR ''u'', CHR ''o'', CHR ''x'', CHR ''X''}"
  shows "format_text (''%l'' @ [c]) [VLong x]
    = Some (numeral_str (c = CHR ''X'') (if c = CHR ''u'' then 10 else if c = CHR ''o'' then 8 else 16) (unat x))"
proof -
  have "directive c (no_pflags\<lparr>pf_long := True\<rparr>) 0 0 [VLong x]
    = Some (uint_text c (no_pflags\<lparr>pf_long := True\<rparr>) 0 0 (unat x), [])"
    using assms by (intro directive_unsigned) (simp_all add: arg_to_unsigned_def no_pflags_def range_defs)
  moreover have "conv_letter c" using assms by (auto simp: conv_letter_def less_eq_char_def)
  ultimately have "format_text (''%l'' @ [c]) [VLong x] = Some (uint_text c (no_pflags\<lparr>pf_long := True\<rparr>) 0 0 (unat x))"
    by (rule format_long)
  then show ?thesis using assms
    by (simp add: uint_text_def number_plain digits_text_def Let_def) (auto simp: no_pflags_def)
qed

lemma strtol_ld:
  "strtol ((if sint x < 0 then ''-'' else []) @ numeral_str False 10 (nat \<bar>sint x\<bar>)) 10 = (sint x, [], None)" for x :: u64
proof -
  let ?sign = "if sint x < 0 then ''-'' else []"
  have "number (word_of_int (int 10)) ?sign (numeral_str False 10 (nat \<bar>sint x\<bar>)) []"
    using numeral_number [of 10 "nat \<bar>sint x\<bar>" ?sign False] nat_sint_bound [of x] by simp
  from strtol_main [of "[]" 10, OF _ _ _ this] show ?thesis
    using num_val_numeral [of 10 False "nat \<bar>sint x\<bar>"] sint_greater_eq [of x] sint_lt [of x]
    by (auto simp: clamp_long_def)
qed

lemma scan_numeral:
  assumes "b = 10 \<and> c \<in> set ''du'' \<or> b = 8 \<and> c = CHR ''o'' \<or> b = 16 \<and> c \<in> set ''xX''" "n < 2 ^ 64"
  shows "scan_number c [] (numeral_str up b n) b" "length (numeral_str up b n) \<le> 64"
proof -
  have b: "2 \<le> b" "b \<le> 16" using assms(1) by auto
  have "n < b ^ Suc 63" using power_mono [OF b(1), of 64] assms(2) by simp
  then show "length (numeral_str up b n) \<le> 64" using numeral_str_length [OF _ b(1), of n 63 up] by simp
  show "scan_number c [] (numeral_str up b n) b"
    using assms(1) numeral_digits [OF b(1)] b by (auto simp: scan_number_def base_digit_def list_all_iff)
qed

lemma sscanf_numeral:
  assumes "b = 10 \<and> c \<in> set ''du'' \<or> b = 8 \<and> c = CHR ''o'' \<or> b = 16 \<and> c \<in> set ''xX''" "n < 2 ^ 64" "sign \<in> {[], ''-''}"
  shows "sscanf (sign @ numeral_str up b n) (''%l'' @ [c]) = (1, [PutLong (word_of_int ((if sign = ''-'' then - 1 else 1) * int n))])"
proof -
  let ?ds = "numeral_str up b n"
  let ?s = "\<lparr>stream = setup_string_read (sign @ ?ds), slen = 0\<rparr>"
  note num = scan_numeral [OF assms(1,2), of up]
  have "field_ends c b sign ([] @ ?ds) [] (field_width [])"
    using num(2) assms(3) by (auto simp: field_ends_def field_width_def)
  from vfscanf_field [of ?s "[]" sign "[]" ?ds "[]" c b "[]" "''l''" "[]" "[]" 0 "[]", OF _ _ _ num(1) _ _ _ this] assms(3)
  show ?thesis using num_val_numeral [of b up n] assms(1) by (auto simp: sscanf_def size_modifiers_def field_width_def stored_def)
qed

lemma sscanf_ld:
  "sscanf ((if sint x < 0 then ''-'' else []) @ numeral_str False 10 (nat \<bar>sint x\<bar>)) ''%ld'' = (1, [PutLong x])" for x :: u64
  using sscanf_numeral [of 10 "CHR ''d''" "nat \<bar>sint x\<bar>" "if sint x < 0 then ''-'' else []" False] nat_sint_bound [of x]
  by (cases "sint x < 0") simp_all

lemma strtoul_lx:
  fixes x :: u64
  assumes "b \<in> {8, 10, 16}"
  shows "strtoul (numeral_str up b (unat x)) (int b) = (x, [], None)"
proof -
  have "number (word_of_int (int b)) [] (numeral_str up b (unat x)) []"
    using numeral_number [of b "unat x" "[]" up] assms unsigned_less [of x, where ?'a = nat] by auto
  from strtoul_main [of "[]" b, OF _ _ _ this] show ?thesis
    using assms num_val_numeral [of b up "unat x"] unsigned_less [of x, where ?'a = nat]
    by auto
qed

section \<open>Directives with flags, width and precision\<close>

text \<open>The written form of a directive: flags, width, precision, length modifier, letter.\<close>

definition parse_from :: "string \<Rightarrow> pflags \<Rightarrow> int \<Rightarrow> int \<Rightarrow> varg list
    \<Rightarrow> (char \<times> string \<times> pflags \<times> int \<times> int \<times> varg list) option option" where
  "parse_from s fl width prec ap =
     (case s of [] \<Rightarrow> Some (Some (CHR 0x00, [], fl, width, prec, ap)) | c # s \<Rightarrow> parse_dir c s fl width prec ap)"

lemma parse_step:
  "dir_step c fl width prec ap = Some (More fl' width' prec' ap') \<Longrightarrow>
   parse_from (c # s) fl width prec ap = parse_from s fl' width' prec' ap'"
  by (simp add: parse_from_def parse_dir.simps [of c])

definition is_flag :: "char \<Rightarrow> bool" where
  "is_flag c \<longleftrightarrow> c \<in> set ''0+- #'' \<or> c = CHR 0x27"

definition add_flags :: "string \<Rightarrow> pflags \<Rightarrow> pflags" where
  "add_flags fs fl = foldl (\<lambda>fl c. case flag_char c fl of None \<Rightarrow> fl | Some fl \<Rightarrow> fl) fl fs"

lemma parse_flags:
  assumes "\<forall>c \<in> set fs. is_flag c" "below_width fl"
  shows "parse_from (fs @ s) fl w p ap = parse_from s (add_flags fs fl) w p ap \<and> below_width (add_flags fs fl)"
  using assms
proof (induction fs arbitrary: fl)
  case (Cons c fs)
  have keep: "below_width (fl\<lparr>pf_zfill := a\<rparr>)" "below_width (fl\<lparr>pf_plus := a, pf_space := b\<rparr>)"
    "below_width (fl\<lparr>pf_space := a\<rparr>)" "below_width (fl\<lparr>pf_lpad := a\<rparr>)" "below_width (fl\<lparr>pf_alt := a\<rparr>)" for a b
    using Cons.prems(2) by (simp_all add: below_width_def below_long_def)
  have "c \<in> set ''0+- #'' \<or> c = CHR 0x27" using Cons.prems(1) by (simp add: is_flag_def)
  then obtain gl where gl: "flag_char c fl = Some gl" "below_width gl"
    using keep Cons.prems(2) by (auto simp: flag_char_def)
  then have "dir_step c fl w p ap = Some (More gl w p ap)" using Cons.prems(2) by (simp add: dir_step_def)
  from parse_step [OF this, of "fs @ s"] Cons.IH [OF _ gl(2)] Cons.prems(1) gl(1) show ?case
    by (simp add: add_flags_def)
qed (simp add: add_flags_def)

definition dec_digit :: "char \<Rightarrow> bool" where
  "dec_digit c \<longleftrightarrow> CHR ''0'' \<le> c \<and> c \<le> CHR ''9''"

lemma add_digit_ok:
  assumes "dec_digit c" "0 \<le> v" "v * 10 + int (dval c) \<le> INT_MAX"
  shows "add_digit v c = Some (v * 10 + int (dval c))"
proof -
  define n :: nat where "n = of_char c"
  have n: "48 \<le> n" "n \<le> 57" using assms(1) by (auto simp: n_def dec_digit_def less_eq_char_def)
  have d: "dval c = n - 48" using assms(1) by (simp add: dval_def dec_digit_def n_def)
  have "(of_char c :: u32) = of_nat n" unfolding n_def by (rule of_nat_of_char [symmetric])
  then have "word_of_int (10 * v) + (of_char c - 48) = (word_of_int (v * 10 + int (dval c)) :: u32)"
    using n by (simp add: d of_nat_diff mult.commute)
  moreover have "sint (word_of_int (v * 10 + int (dval c)) :: u32) = v * 10 + int (dval c)"
    using assms(2,3) by (subst sint32_eq_iff) (simp add: range_defs)
  ultimately show ?thesis using assms(2,3) by (simp add: add_digit_def ck32_def range_defs mult.commute)
qed

lemma flag_not_digit: "dec_digit c \<Longrightarrow> c \<noteq> CHR ''0'' \<Longrightarrow> flag_char c fl = None"
  by (auto simp: dec_digit_def flag_char_def less_eq_char_def)

lemma foldl_dec: "v \<le> foldl (\<lambda>v c. v * 10 + dval c) v ds"
proof (induction ds arbitrary: v)
  case (Cons c ds)
  show ?case using Cons.IH [of "v * 10 + dval c"] by simp
qed simp

lemma parse_width:
  assumes "\<forall>c \<in> set ds. dec_digit c" "below_long fl" "\<not> pf_prec fl" "ds \<noteq> []"
    "below_width fl \<Longrightarrow> hd ds \<noteq> CHR ''0''" "int (foldl (\<lambda>v c. v * 10 + dval c) v ds) \<le> INT_MAX"
  shows "parse_from (ds @ s) fl (int v) p ap
    = parse_from s (fl\<lparr>pf_width := True\<rparr>) (int (foldl (\<lambda>v c. v * 10 + dval c) v ds)) p ap"
  using assms
proof (induction ds arbitrary: v fl)
  case (Cons c ds)
  have f: "(if below_width fl then flag_char c fl else None) = None"
    using Cons.prems(1,5) flag_not_digit [of c fl] by auto
  have le: "int (v * 10 + dval c) \<le> INT_MAX"
    using foldl_dec [of "v * 10 + dval c" ds] Cons.prems(6) by simp
  have "dir_step c fl (int v) p ap = Some (More (fl\<lparr>pf_width := True\<rparr>) (int (v * 10 + dval c)) p ap)"
    unfolding dir_step_def f using Cons.prems(1-3) add_digit_ok [of c "int v"] le by (simp add: dec_digit_def)
  from parse_step [OF this, of "ds @ s"] show ?case
    using Cons.IH [of "fl\<lparr>pf_width := True\<rparr>" "v * 10 + dval c"] Cons.prems
    by (cases "ds = []") (auto simp: below_long_def below_width_def)
qed simp

lemma parse_prec:
  assumes "\<forall>c \<in> set ds. dec_digit c" "below_long fl" "pf_prec fl" "int (foldl (\<lambda>v c. v * 10 + dval c) v ds) \<le> INT_MAX"
  shows "parse_from (ds @ s) fl w (int v) ap = parse_from s fl w (int (foldl (\<lambda>v c. v * 10 + dval c) v ds)) ap"
  using assms
proof (induction ds arbitrary: v)
  case (Cons c ds)
  have le: "int (v * 10 + dval c) \<le> INT_MAX"
    using foldl_dec [of "v * 10 + dval c" ds] Cons.prems(4) by simp
  have "dir_step c fl w (int v) ap = Some (More fl w (int (v * 10 + dval c)) ap)"
    using Cons.prems(1-3) add_digit_ok [of c "int v"] le by (simp add: dir_step_def dec_digit_def below_width_def)
  from parse_step [OF this, of "ds @ s"] show ?case using Cons.IH [of "v * 10 + dval c"] Cons.prems by simp
qed simp


definition width_text :: "nat option \<Rightarrow> string" where
  "width_text w = (case w of None \<Rightarrow> [] | Some n \<Rightarrow> numeral_str False 10 n)"

definition prec_text :: "nat option \<Rightarrow> string" where
  "prec_text p = (case p of None \<Rightarrow> [] | Some n \<Rightarrow> CHR ''.'' # numeral_str False 10 n)"

definition spec_text :: "string \<Rightarrow> nat option \<Rightarrow> nat option \<Rightarrow> string \<Rightarrow> char \<Rightarrow> string" where
  "spec_text fs w p sz c = CHR ''%'' # fs @ width_text w @ prec_text p @ sz @ [c]"

text \<open>What the directive says, flag by flag; \<open>+\<close> overrides the space flag.\<close>

definition spec_flags :: "string \<Rightarrow> nat option \<Rightarrow> nat option \<Rightarrow> string \<Rightarrow> pflags" where
  "spec_flags fs w p sz = \<lparr>pf_zfill = CHR ''0'' \<in> set fs, pf_plus = CHR ''+'' \<in> set fs,
     pf_space = (CHR '' '' \<in> set fs \<or> CHR ''+'' \<in> set fs), pf_lpad = CHR ''-'' \<in> set fs, pf_alt = CHR ''#'' \<in> set fs,
     pf_width = (w \<noteq> None), pf_prec = (p \<noteq> None), pf_long = sz \<in> {''l'', ''ll'', ''L'', ''j'', ''z'', ''t''},
     pf_short = sz \<in> {''h'', ''hh''}, pf_repd = sz \<in> {''hh'', ''ll'', ''L''}, pf_negative = False\<rparr>"

definition opt_int :: "nat option \<Rightarrow> int" where
  "opt_int v = (case v of None \<Rightarrow> 0 | Some n \<Rightarrow> int n)"

lemma numeral_dec: "c \<in> set (numeral_str False 10 n) \<Longrightarrow> dec_digit c"
proof -
  assume "c \<in> set (numeral_str False 10 n)"
  then have "isalnum c \<and> dval c < 10" by (rule numeral_digits [rotated 2]) simp_all
  then show ?thesis by (auto simp: isalnum_def dval_def dec_digit_def less_eq_char_def split: if_splits)
qed

lemma add_flags_fields:
  "pf_zfill (add_flags fs fl) = (pf_zfill fl \<or> CHR ''0'' \<in> set fs)" "pf_plus (add_flags fs fl) = (pf_plus fl \<or> CHR ''+'' \<in> set fs)"
  "pf_space (add_flags fs fl) = (pf_space fl \<or> CHR '' '' \<in> set fs \<or> CHR ''+'' \<in> set fs)"
  "pf_lpad (add_flags fs fl) = (pf_lpad fl \<or> CHR ''-'' \<in> set fs)" "pf_alt (add_flags fs fl) = (pf_alt fl \<or> CHR ''#'' \<in> set fs)"
  "pf_width (add_flags fs fl) = pf_width fl" "pf_prec (add_flags fs fl) = pf_prec fl"
  "pf_long (add_flags fs fl) = pf_long fl" "pf_short (add_flags fs fl) = pf_short fl"
  "pf_repd (add_flags fs fl) = pf_repd fl" "pf_negative (add_flags fs fl) = pf_negative fl"
  by (induction fs arbitrary: fl) (auto simp: add_flags_def flag_char_def)

lemma add_flags_spec: "(add_flags fs no_pflags)\<lparr>pf_width := w \<noteq> None, pf_prec := p \<noteq> None\<rparr> = spec_flags fs w p []"
  by (rule pflags.equality) (simp_all add: add_flags_fields spec_flags_def no_pflags_def)

lemma parse_spec_text:
  assumes "\<forall>c \<in> set fs. is_flag c" "w \<noteq> Some 0" "opt_int w \<le> INT_MAX" "opt_int p \<le> INT_MAX"
    "sz \<in> set size_modifiers" "conv_letter c"
  shows "parse_from (tl (spec_text fs w p sz c) @ rest) no_pflags 0 0 ap
    = Some (Some (c, rest, spec_flags fs w p sz, opt_int w, opt_int p, ap))"
proof -
  define f1 where "f1 = add_flags fs no_pflags"
  have bw: "below_width no_pflags" by (simp add: no_pflags_def below_width_def below_long_def)
  have one: "parse_from (tl (spec_text fs w p sz c) @ rest) no_pflags 0 0 ap
      = parse_from (width_text w @ prec_text p @ sz @ c # rest) f1 0 0 ap" and f1: "below_width f1"
    using parse_flags [OF assms(1) bw] by (simp_all add: spec_text_def f1_def)
  define f2 where "f2 = f1\<lparr>pf_width := w \<noteq> None\<rparr>"
  have val: "foldl (\<lambda>v c. v * 10 + dval c) 0 (numeral_str False 10 n) = n" for n
    using num_val_numeral [of 10 False n] by (simp add: num_val_def)
  have two: "parse_from (width_text w @ s) f1 0 0 ap = parse_from s f2 (opt_int w) 0 ap" for s
  proof (cases w)
    case None
    then show ?thesis using f1 by (cases f1) (simp add: width_text_def opt_int_def f2_def below_width_def)
  next
    case (Some n)
    then have "hd (numeral_str False 10 n) \<noteq> CHR ''0''" using assms(2) by (intro numeral_no_zero) auto
    then show ?thesis
      using parse_width [of "numeral_str False 10 n" f1 0 s 0 ap] f1 Some assms(3) numeral_dec
      by (simp add: width_text_def opt_int_def f2_def val below_width_def)
  qed
  define f3 where "f3 = f2\<lparr>pf_prec := p \<noteq> None\<rparr>"
  have f2: "below_long f2" "\<not> pf_prec f2" using f1 by (simp_all add: f2_def below_width_def below_long_def)
  have three: "parse_from (prec_text p @ s) f2 v 0 ap = parse_from s f3 v (opt_int p) ap" for s v
  proof (cases p)
    case None
    then show ?thesis using f2 by (cases f2) (simp add: prec_text_def opt_int_def f3_def)
  next
    case (Some n)
    have dot: "dir_step CHR ''.'' f2 v 0 ap = Some (More f3 v 0 ap)"
      using f2 Some by (simp add: dir_step_def flag_char_def less_eq_char_def f3_def)
    show ?thesis
      using parse_step [OF dot, of "numeral_str False 10 n @ s"] f2 Some assms(4) numeral_dec
        parse_prec [of "numeral_str False 10 n" f3 0 s v ap]
      by (simp add: prec_text_def opt_int_def val f3_def below_long_def)
  qed
  have f3: "below_long f3" using f2 by (simp add: f3_def below_long_def)
  have size_step: "parse_from (z # s) fl v x ap = parse_from s fl' v x ap"
    if "check_int_sizes z fl = Some fl'" "z \<in> set ''lhLjzt''" for z s fl fl' v x
  proof (rule parse_step)
    have "flag_char z fl = None" "\<not> (CHR ''0'' \<le> z \<and> z \<le> CHR ''9'')" "z \<noteq> CHR ''*''" "z \<noteq> CHR ''.''"
      using that(2) by (auto simp: flag_char_def less_eq_char_def)
    then show "dir_step z fl v x ap = Some (More fl' v x ap)" using that(1) by (auto simp: dir_step_def)
  qed
  have f3': "f3 = spec_flags fs w p []" using add_flags_spec by (simp add: f3_def f2_def f1_def)
  have four: "parse_from (sz @ s) f3 v x ap = parse_from s (spec_flags fs w p sz) v x ap" for s v x
  proof -
    have "sz = [] \<or> sz = ''hh'' \<or> sz = ''h'' \<or> sz = ''l'' \<or> sz = ''ll'' \<or> sz = ''L'' \<or> sz = ''j'' \<or> sz = ''z'' \<or> sz = ''t''"
      using assms(5) by (simp add: size_modifiers_def)
    then show ?thesis unfolding f3'
      by (elim disjE) (simp_all add: size_step check_int_sizes_def spec_flags_def)
  qed
  have "parse_from (c # rest) fl v x ap = Some (Some (c, rest, fl, v, x, ap))" for fl v x
    using parse_plain [OF assms(6)] by (simp add: parse_from_def)
  then show ?thesis by (simp add: one two three four)
qed

lemma format_spec_rest:
  assumes "\<forall>c \<in> set fs. is_flag c" "w \<noteq> Some 0" "opt_int w \<le> INT_MAX" "opt_int p \<le> INT_MAX"
    "sz \<in> set size_modifiers" "conv_letter c"
    and "directive c (spec_flags fs w p sz) (opt_int w) (opt_int p) ap = Some (out, ap')"
  shows "format_text (spec_text fs w p sz c @ fmt) ap = map_option ((@) out) (format_text fmt ap')"
proof -
  obtain d rest where s: "tl (spec_text fs w p sz c) = d # rest"
    by (cases "tl (spec_text fs w p sz c)") (auto simp: spec_text_def)
  have "d \<noteq> CHR ''%''"
  proof -
    have "d \<in> set fs \<or> d \<in> set (width_text w) \<or> d \<in> set (prec_text p) \<or> d \<in> set sz \<or> d = c"
      using list.set_intros(1) [of d rest] unfolding s [symmetric] by (auto simp: spec_text_def)
    moreover have "\<not> dec_digit CHR ''%''" by (simp add: dec_digit_def less_eq_char_def)
    then have "CHR ''%'' \<notin> set (numeral_str False 10 n)" for n using numeral_dec by blast
    then have "CHR ''%'' \<notin> set (width_text w)" "CHR ''%'' \<notin> set (prec_text p)"
      by (simp_all add: width_text_def prec_text_def split: option.splits)
    moreover have "\<not> is_flag CHR ''%''" "CHR ''%'' \<notin> set sz" "c \<noteq> CHR ''%''"
      using assms(5,6) by (auto simp: is_flag_def conv_letter_def size_modifiers_def)
    ultimately show ?thesis using assms(1) by blast
  qed
  moreover have "parse_dir d (rest @ fmt) no_pflags 0 0 ap = Some (Some (c, fmt, spec_flags fs w p sz, opt_int w, opt_int p, ap))"
    using parse_spec_text [OF assms(1-6), of fmt ap] s by (simp add: parse_from_def)
  moreover have "spec_text fs w p sz c @ fmt = CHR ''%'' # d # rest @ fmt"
    using s arg_cong [OF s, of "\<lambda>l. CHR ''%'' # l @ fmt"] by (simp add: spec_text_def)
  ultimately show ?thesis using assms(6,7)
    by (simp add: format_text.simps [of "CHR ''%'' # _"] deref_def conv_letter_def)
qed

lemma format_nil [simp]: "format_text [] ap = Some []"
  by (simp add: format_text.simps)

lemma format_char: "c \<noteq> CHR ''%'' \<Longrightarrow> format_text (c # fmt) ap = map_option ((#) c) (format_text fmt ap)"
  by (simp add: format_text.simps [of "c # fmt"])

lemma format_spec:
  assumes "\<forall>c \<in> set fs. is_flag c" "w \<noteq> Some 0" "opt_int w \<le> INT_MAX" "opt_int p \<le> INT_MAX"
    "sz \<in> set size_modifiers" "conv_letter c"
    and "directive c (spec_flags fs w p sz) (opt_int w) (opt_int p) ap = Some (out, [])"
  shows "format_text (spec_text fs w p sz c) ap = Some out"
  using format_spec_rest [OF assms, of "[]"] by simp

section \<open>Properties\<close>

lemma snprintf_eq: "snprintf = vsnprintf"
  by (intro ext) (simp add: snprintf_def vsnprintf_def)

lemma sprintf_eq: "vsprintf = sprintf"
  by (intro ext) (simp add: sprintf_def vsprintf_def)

definition page :: mem where
  "page a = (if 16 \<le> a \<and> a < 80 then Some 7 else None)"

lemma page_mapped: "n \<le> 64 \<Longrightarrow> mapped page 16 n"
  by (auto simp: mapped_def page_def)

text \<open>
  C28: on a buffer of \<open>n\<close> bytes \<open>snprintf\<close> and \<open>vsnprintf\<close> store
  at most \<open>n - 1\<close> characters of the text the format stands for and the
  terminator, change nothing else, and return the length of the whole text;
  with \<open>n = 0\<close> nothing is stored.
\<close>

theorem snprintf_correct:
  assumes "format_text fmt ap = Some out" "int (length out) \<le> INT_MAX"
    and "mapped m s (unat n)" "unat n < 2 ^ 31"
  shows "snprintf m s n fmt ap = Some (if n = 0 then m
      else put_bytes m s (text_bytes (take (unat n - 1) out) @ [0]), int (length out))
    \<and> vsnprintf m s n fmt ap = snprintf m s n fmt ap"
  using vsnprintf_ok [OF assms] by (simp add: snprintf_eq)

theorem snprintf_correct_witness:
  "snprintf page 16 4 ''a%%bcd'' [] = Some (put_bytes page 16 [97, 37, 98, 0], 5)"
proof -
  have f: "format_text ''a%%bcd'' [] = Some ''a%bcd''" by (simp add: format_text.simps deref_def)
  have m: "mapped page 16 (unat (4::u64))" by (rule page_mapped) simp
  have b: "text_bytes ''a%b'' = [97, 37, 98]" by (simp add: text_bytes_def)
  show ?thesis using snprintf_correct [OF f _ m] b by (simp add: range_defs)
qed

lemma spec_flags_neg: "\<not> pf_negative (spec_flags fs w p sz)"
  by (simp add: spec_flags_def)

lemma spec_flags_prec: "pf_prec (spec_flags fs w p sz) \<or> opt_int p = 0" "0 \<le> opt_int p"
  by (cases p; simp add: spec_flags_def opt_int_def)+

lemma conv_letters:
  "c \<in> {CHR ''d'', CHR ''i'', CHR ''u'', CHR ''o'', CHR ''x'', CHR ''X''} \<Longrightarrow> conv_letter c"
  by (auto simp: conv_letter_def less_eq_char_def)

lemma format_signed:
  assumes "\<forall>c \<in> set fs. is_flag c" "w \<noteq> Some 0" "opt_int w \<le> INT_MAX" "opt_int p + 2 \<le> INT_MAX"
    "sz \<in> set size_modifiers" "c \<in> {CHR ''d'', CHR ''i''}"
    and "arg_to_signed (spec_flags fs w p sz) [a] = Some (x, [])"
  shows "format_text (spec_text fs w p sz c) [a] = Some (int_text (spec_flags fs w p sz) (opt_int w) (opt_int p) (sint x))"
proof (rule format_spec)
  show "directive c (spec_flags fs w p sz) (opt_int w) (opt_int p) [a]
      = Some (int_text (spec_flags fs w p sz) (opt_int w) (opt_int p) (sint x), [])"
    using assms spec_flags_neg spec_flags_prec spec_flags_prec(2) [of w]
    by (intro directive_signed) auto
qed (use assms in \<open>auto intro: conv_letters\<close>)

lemma format_unsigned:
  assumes "\<forall>c \<in> set fs. is_flag c" "w \<noteq> Some 0" "opt_int w \<le> INT_MAX" "opt_int p + 2 \<le> INT_MAX"
    "sz \<in> set size_modifiers" "c \<in> {CHR ''u'', CHR ''o'', CHR ''x'', CHR ''X''}"
    and "arg_to_unsigned (spec_flags fs w p sz) [a] = Some (x, [])"
  shows "format_text (spec_text fs w p sz c) [a] = Some (uint_text c (spec_flags fs w p sz) (opt_int w) (opt_int p) (unat x))"
proof (rule format_spec)
  show "directive c (spec_flags fs w p sz) (opt_int w) (opt_int p) [a]
      = Some (uint_text c (spec_flags fs w p sz) (opt_int w) (opt_int p) (unat x), [])"
    using assms spec_flags_neg spec_flags_prec spec_flags_prec(2) [of w]
    by (intro directive_unsigned) auto
qed (use assms in \<open>auto intro: conv_letters\<close>)

text \<open>
  The field of an integer conversion, from the flags, the width and the precision of the directive as they are written: the sign or prefix, the zeros
  the precision or the \<open>0\<close> flag asks for, and the digits, padded to the width on the side \<open>-\<close> says.
\<close>

definition number_field :: "string \<Rightarrow> nat option \<Rightarrow> nat option \<Rightarrow> string \<Rightarrow> string \<Rightarrow> string" where
  "number_field fs w p lead digits =
     (let width = (case w of None \<Rightarrow> 0 | Some n \<Rightarrow> n);
          zeros = (case p of
             Some n \<Rightarrow> n - length digits
           | None \<Rightarrow> if CHR ''0'' \<in> set fs \<and> CHR ''-'' \<notin> set fs then width - length (lead @ digits) else 0);
          text = lead @ replicate zeros CHR ''0'' @ digits;
          gap = replicate (width - length text) CHR '' ''
      in if CHR ''-'' \<in> set fs then text @ gap else gap @ text)"

text \<open>A zero with precision zero has no digits.\<close>

definition field_digits :: "nat option \<Rightarrow> bool \<Rightarrow> nat \<Rightarrow> nat \<Rightarrow> string" where
  "field_digits p up b n = (if n = 0 \<and> p = Some 0 then [] else numeral_str up b n)"

definition signed_field :: "string \<Rightarrow> nat option \<Rightarrow> nat option \<Rightarrow> int \<Rightarrow> string" where
  "signed_field fs w p v =
     number_field fs w p
       (if v < 0 then ''-'' else if CHR ''+'' \<in> set fs then ''+'' else if CHR '' '' \<in> set fs then '' '' else [])
       (field_digits p False 10 (nat \<bar>v\<bar>))"

definition unsigned_field :: "char \<Rightarrow> string \<Rightarrow> nat option \<Rightarrow> nat option \<Rightarrow> nat \<Rightarrow> string" where
  "unsigned_field c fs w p n =
     (if c = CHR ''u'' then number_field fs w p [] (field_digits p False 10 n)
      else if c = CHR ''o'' then
        (let ds = field_digits p False 8 n
         in number_field fs w p
              (if CHR ''#'' \<in> set fs \<and> n \<noteq> 0 \<and> (case p of None \<Rightarrow> True | Some k \<Rightarrow> k \<le> length ds) then ''0'' else []) ds)
      else number_field fs w p (if CHR ''#'' \<in> set fs \<and> n \<noteq> 0 then [CHR ''0'', c] else []) (field_digits p (c = CHR ''X'') 16 n))"

text \<open>The value a length modifier takes from an argument.\<close>

definition long_modifier :: "string \<Rightarrow> bool" where
  "long_modifier sz \<longleftrightarrow> sz \<in> {''l'', ''ll'', ''L'', ''j'', ''z'', ''t''}"

definition signed_arg :: "string \<Rightarrow> varg \<Rightarrow> int option" where
  "signed_arg sz a =
     (case a of
        VInt x \<Rightarrow> if sz = [] then Some (sint x) else if sz = ''h'' then Some (sint (ucast x :: u16))
                  else if sz = ''hh'' then Some (sint (ucast x :: u8)) else None
      | VLong x \<Rightarrow> if long_modifier sz then Some (sint x) else None
      | _ \<Rightarrow> None)"

definition unsigned_arg :: "string \<Rightarrow> varg \<Rightarrow> nat option" where
  "unsigned_arg sz a =
     (case a of
        VInt x \<Rightarrow> if sz = [] then Some (unat x) else if sz = ''h'' then Some (unat x mod 2 ^ 16)
                  else if sz = ''hh'' then Some (unat x mod 2 ^ 8) else None
      | VLong x \<Rightarrow> if long_modifier sz then Some (unat x) else None
      | _ \<Rightarrow> None)"

lemma sint_scast_64: "sint (scast (x :: 'a::len word) :: u64) = sint x" if "LENGTH('a) \<le> 64"
  using that by (simp add: sint_up_scast is_up)

lemma signed_arg_value:
  assumes "signed_arg sz a = Some v" "sz \<in> set size_modifiers"
  shows "\<exists>x. arg_to_signed (spec_flags fs w p sz) [a] = Some (x, []) \<and> sint x = v"
  using assms
  by (cases a) (auto simp: signed_arg_def arg_to_signed_def spec_flags_def long_modifier_def sint_scast_64 split: if_splits)

lemma unat_ucast_small:
  "unat (ucast (x :: u32) :: u64) = unat x" "unat (ucast (ucast x :: u16) :: u64) = unat x mod 65536" "unat (ucast (ucast x :: u8) :: u64) = unat x mod 256"
proof -
  have up: "unat (ucast a :: u64) = unat a" "unat (ucast b :: u64) = unat b" for a :: u16 and b :: u8
    using unsigned_less [of a, where ?'a = nat] unsigned_less [of b, where ?'a = nat]
    by (simp_all add: unsigned_ucast_eq take_bit_nat_eq_self)
  have down: "unat (ucast x :: u16) = unat x mod 65536" "unat (ucast x :: u8) = unat x mod 256"
    by (simp_all add: unsigned_ucast_eq unsigned_take_bit_eq) (simp_all add: take_bit_eq_mod)
  show "unat (ucast (x :: u32) :: u64) = unat x"
    using unsigned_less [of x, where ?'a = nat] by (simp add: unsigned_ucast_eq take_bit_nat_eq_self)
  show "unat (ucast (ucast x :: u16) :: u64) = unat x mod 65536" by (rule trans [OF up(1) down(1)])
  show "unat (ucast (ucast x :: u8) :: u64) = unat x mod 256" by (rule trans [OF up(2) down(2)])
qed

lemma unsigned_arg_value:
  assumes "unsigned_arg sz a = Some k" "sz \<in> set size_modifiers"
  shows "\<exists>x. arg_to_unsigned (spec_flags fs w p sz) [a] = Some (x, []) \<and> unat x = k"
  using assms
  by (cases a) (auto simp: unsigned_arg_def arg_to_unsigned_def spec_flags_def long_modifier_def unat_ucast_small split: if_splits)

lemma number_text_field:
  "number_text (spec_flags fs w p sz) (opt_int w) (opt_int p) lead ds = number_field fs w p lead ds"
  by (cases w; cases p) (auto simp: number_text_def number_field_def pad_text_def spec_flags_def opt_int_def Let_def nat_diff_distrib nat_int_add)

lemma int_text_field: "int_text (spec_flags fs w p sz) (opt_int w) (opt_int p) v = signed_field fs w p v"
  unfolding int_text_def number_text_field signed_field_def
  by (cases p) (auto simp: spec_flags_def digits_text_def field_digits_def opt_int_def)

lemma uint_text_field:
  "c \<in> {CHR ''u'', CHR ''o'', CHR ''x'', CHR ''X''} \<Longrightarrow>
   uint_text c (spec_flags fs w p sz) (opt_int w) (opt_int p) n = unsigned_field c fs w p n"
  unfolding uint_text_def Let_def number_text_field unsigned_field_def
  by (cases p) (auto simp: spec_flags_def digits_text_def field_digits_def opt_int_def)

text \<open>
  C27: \<open>%d\<close>, \<open>%i\<close>, \<open>%u\<close>, \<open>%o\<close>, \<open>%x\<close> and \<open>%X\<close> with any flags, width,
  precision and length modifier (none, \<open>hh\<close>, \<open>h\<close>, \<open>l\<close>, \<open>ll\<close>, \<open>L\<close>, \<open>j\<close>, \<open>z\<close>, \<open>t\<close>): \<open>snprintf\<close> stores, cut to the buffer, the field that
  \<open>signed_field\<close> and \<open>unsigned_field\<close> lay out of the argument converted to the type the modifier names.
\<close>

theorem printf_integer:
  assumes "\<forall>c \<in> set fs. is_flag c" "w \<noteq> Some 0" "opt_int w \<le> INT_MAX" "opt_int p + 2 \<le> INT_MAX"
    and "sz \<in> set size_modifiers"
    and "c \<in> {CHR ''d'', CHR ''i''} \<and> (\<exists>v. signed_arg sz a = Some v \<and> out = signed_field fs w p v)
      \<or> c \<in> {CHR ''u'', CHR ''o'', CHR ''x'', CHR ''X''} \<and> (\<exists>k. unsigned_arg sz a = Some k \<and> out = unsigned_field c fs w p k)"
    and "int (length out) \<le> INT_MAX" "mapped m s (unat n)" "unat n < 2 ^ 31"
  shows "snprintf m s n (spec_text fs w p sz c) [a] = Some (if n = 0 then m
      else put_bytes m s (text_bytes (take (unat n - 1) out) @ [0]), int (length out))"
proof -
  have "format_text (spec_text fs w p sz c) [a] = Some out"
    using assms(6)
  proof (elim disjE conjE exE)
    fix v assume c: "c \<in> {CHR ''d'', CHR ''i''}" and v: "signed_arg sz a = Some v" "out = signed_field fs w p v"
    obtain x where "arg_to_signed (spec_flags fs w p sz) [a] = Some (x, [])" "sint x = v"
      using signed_arg_value [OF v(1) assms(5)] by blast
    then show ?thesis using format_signed [OF assms(1-5) c] v(2) by (simp add: int_text_field)
  next
    fix k assume c: "c \<in> {CHR ''u'', CHR ''o'', CHR ''x'', CHR ''X''}" and k: "unsigned_arg sz a = Some k" "out = unsigned_field c fs w p k"
    obtain x where "arg_to_unsigned (spec_flags fs w p sz) [a] = Some (x, [])" "unat x = k"
      using unsigned_arg_value [OF k(1) assms(5)] by blast
    then show ?thesis using format_unsigned [OF assms(1-5) c] k(2) by (simp add: uint_text_field [OF c])
  qed
  from vsnprintf_ok [OF this assms(7-9)] show ?thesis by (simp add: snprintf_eq)
qed

theorem printf_integer_witness:
  "snprintf page 16 8 ''%+06hd'' [VInt 0xFFD6] = Some (put_bytes page 16 [45, 48, 48, 48, 52, 50, 0], 6)"
proof -
  have t: "spec_text ''+0'' (Some 6) None ''h'' CHR ''d'' = ''%+06hd''" by code_simp
  have o: "signed_field ''+0'' (Some 6) None (- 42) = ''-00042''" by code_simp
  have a: "signed_arg ''h'' (VInt 0xFFD6) = Some (- 42)" by code_simp
  have f: "\<forall>c \<in> set ''+0''. is_flag c" by (simp add: is_flag_def)
  have b: "text_bytes ''-00042'' = [45, 48, 48, 48, 52, 50]" by (simp add: text_bytes_def)
  have m: "mapped page 16 (unat (8::u64))" by (rule page_mapped) simp
  show ?thesis
    using printf_integer [OF f, of "Some 6" None "''h''" "CHR ''d''" "VInt 0xFFD6" "''-00042''" page 16 8]
      t o a m b
    by (simp add: opt_int_def range_defs size_modifiers_def)
qed

text \<open>
  C29: what \<open>sprintf\<close> writes, \<open>strtol\<close>, \<open>strtoul\<close> and \<open>sscanf\<close> read
  back: every \<open>long\<close> through \<open>%ld\<close>, every \<open>unsigned long\<close> through \<open>%lu\<close>, \<open>%lo\<close>, \<open>%lx\<close> and
  \<open>%lX\<close>, by \<open>strtoul\<close> in the base of the letter and by \<open>sscanf\<close> with the same directive.
\<close>

theorem printf_scanf_roundtrip:
  assumes "mapped m s 32" "0 < s"
    and "(c, b) \<in> {(CHR ''u'', 10), (CHR ''o'', 8), (CHR ''x'', 16), (CHR ''X'', 16)}"
  shows "(\<exists>out. sprintf m s ''%ld'' [VLong x] = Some (put_bytes m s (text_bytes out @ [0]), int (length out))
      \<and> strtol out 10 = (sint x, [], None) \<and> sscanf out ''%ld'' = (1, [PutLong x]))
    \<and> (\<exists>out. sprintf m s (''%l'' @ [c]) [VLong x] = Some (put_bytes m s (text_bytes out @ [0]), int (length out))
      \<and> strtoul out b = (x, [], None) \<and> sscanf out (''%l'' @ [c]) = (1, [PutLong x]))"
proof -
  have run: "sprintf m s fmt [VLong x] = Some (put_bytes m s (text_bytes out @ [0]), int (length out))"
    if "format_text fmt [VLong x] = Some out" "length out \<le> 23" for fmt out
    using that assms by (intro sprintf_ok) (auto simp: range_defs intro: mapped_sub)
  have len: "length (numeral_str up b n) \<le> 22" if "b \<in> {8, 10, 16}" "n < 2 ^ 64" for up b n
    using digits_text_length [OF that, of no_pflags 0 up] by (simp add: digits_text_def no_pflags_def)
  let ?dec = "(if sint x < 0 then ''-'' else []) @ numeral_str False 10 (nat \<bar>sint x\<bar>)"
  have "length (numeral_str False 10 (nat \<bar>sint x\<bar>)) \<le> 22" by (rule len [OF _ nat_sint_bound]) simp
  then have "length ?dec \<le> 23" by (cases "sint x < 0") simp_all
  note dec = run [OF format_ld this]
  let ?out = "numeral_str (c = CHR ''X'') (nat b) (unat x)"
  have f: "format_text (''%l'' @ [c]) [VLong x] = Some ?out"
    using format_lx [of c x] assms(3) by auto
  have b: "nat b \<in> {8, 10, 16}" "int (nat b) = b" using assms(3) by auto
  have "length ?out \<le> 22" using b(1) unsigned_less [of x, where ?'a = nat] by (intro len) simp_all
  then have "sprintf m s (''%l'' @ [c]) [VLong x] = Some (put_bytes m s (text_bytes ?out @ [0]), int (length ?out))"
    by (intro run [OF f]) simp
  moreover have "strtoul ?out b = (x, [], None)" using strtoul_lx [OF b(1), of "c = CHR ''X''" x] b(2) by simp
  moreover have "sscanf ?out (''%l'' @ [c]) = (1, [PutLong x])"
    using sscanf_numeral [of "nat b" c "unat x" "[]" "c = CHR ''X''"] assms(3) unsigned_less [of x, where ?'a = nat] by auto
  ultimately show ?thesis using dec strtol_ld [of x] sscanf_ld [of x] by blast
qed

theorem printf_scanf_roundtrip_witness:
  "\<exists>out. sprintf page 16 ''%ld'' [VLong (- 5)] = Some (put_bytes page 16 (text_bytes out @ [0]), int (length out))
    \<and> strtol out 10 = (- 5, [], None) \<and> sscanf out ''%ld'' = (1, [PutLong (- 5)])"
  using printf_scanf_roundtrip [OF page_mapped [of 32], of "CHR ''x''" 16 "- 5"] by simp

text \<open>
  \<open>%#.0o\<close> of zero writes no character at all, although the
  \<open>#\<close> flag promises an octal number that starts with \<open>0\<close>: the flag is dropped for
  a zero argument before the empty digit string of precision zero is chosen. Any
  other argument gets its zero.
\<close>

theorem printf_alt_octal_zero:
  "format_text ''%#.0o'' [VInt x] = Some (if x = 0 then [] else CHR ''0'' # numeral_str False 8 (unat x))"
proof -
  have t: "spec_text ''#'' None (Some 0) [] CHR ''o'' = ''%#.0o''" by code_simp
  have fl: "spec_flags ''#'' None (Some 0) [] = no_pflags\<lparr>pf_alt := True, pf_prec := True\<rparr>" by code_simp
  have u: "unat (ucast x :: u64) = unat x" 
    using unsigned_less [of x, where ?'a = nat]
    by (simp add: unsigned_ucast_eq take_bit_nat_eq_self less_trans [of _ "2 ^ 32"])
  have a: "arg_to_unsigned (spec_flags ''#'' None (Some 0) []) [VInt x] = Some (ucast x, [])"
    by (simp add: fl arg_to_unsigned_def no_pflags_def)
  have "\<forall>c \<in> set ''#''. is_flag c" by (simp add: is_flag_def)
  from format_unsigned [OF this, of None "Some 0" "[]" "CHR ''o''", OF _ _ _ _ _ a]
  have "format_text ''%#.0o'' [VInt x] = Some (uint_text CHR ''o'' (no_pflags\<lparr>pf_alt := True, pf_prec := True\<rparr>) 0 0 (unat x))"
    by (simp add: t fl u opt_int_def range_defs size_modifiers_def)
  then show ?thesis
    by (simp add: uint_text_def digits_text_def number_text_def pad_text_def no_pflags_def unat_eq_0)
qed

section \<open>Division by shifts\<close>

text \<open>Division by ten: each shift step multiplies by \<open>1 + 2 ^ - k\<close> and loses less than one.\<close>

lemma shift_bounds:
  fixes n a b c d e f g :: int
  assumes n: "0 \<le> n" "n < 18446744073709551616"
    and "2 * a \<le> n" "n \<le> 2 * a + 1" "4 * b \<le> n" "n \<le> 4 * b + 3"
    and "16 * c \<le> a + b" "a + b \<le> 16 * c + 15"
    and "256 * d \<le> a + b + c" "a + b + c \<le> 256 * d + 255"
    and "65536 * e \<le> a + b + c + d" "a + b + c + d \<le> 65536 * e + 65535"
    and "4294967296 * f \<le> a + b + c + d + e" "a + b + c + d + e \<le> 4294967296 * f + 4294967295"
    and "8 * g \<le> a + b + c + d + e + f" "a + b + c + d + e + f \<le> 8 * g + 7"
  shows "10 * g \<le> n \<and> n < 10 * g + 20"
proof
  show "10 * g \<le> n" using assms by linarith
  show "n < 10 * g + 20" using assms by linarith
qed

lemma div_bounds: "0 < k \<Longrightarrow> k * (x div k) \<le> x \<and> x \<le> k * (x div k) + (k - 1)" for x k :: int
  using pos_mod_bound [of k x] pos_mod_sign [of k x] mult_div_mod_eq [of k x] by linarith

lemma drop_uint: "uint (drop_bit k x) = uint x div 2 ^ k" for x :: u64
  unfolding drop_bit_eq_div [symmetric] using uint_lt2p [of x]
  by (simp add: unsigned_drop_bit_eq take_bit_int_eq_self)

lemma add_uint: "uint x + uint y < 2 ^ 64 \<Longrightarrow> uint (x + y) = uint x + uint y" for x y :: u64
  by (simp add: uint_plus_if_size word_size)

lemma udivmod10_q:
  obtains q :: u64 where "udivmod10 n = (let r = ucast (n - 10 * q) :: u8 in if r > 9 then (q + 1, r - 10) else (q, r))"
    "10 * uint q \<le> uint n" "uint n < 10 * uint q + 20"
proof -
  define q1 where "q1 = drop_bit 1 n + drop_bit 2 n"
  define q2 where "q2 = q1 + drop_bit 4 q1"
  define q3 where "q3 = q2 + drop_bit 8 q2"
  define q4 where "q4 = q3 + drop_bit 16 q3"
  define q5 where "q5 = q4 + drop_bit 32 q4"
  define q where "q = drop_bit 3 q5"
  have n: "0 \<le> uint n" "uint n < 2 ^ 64" using uint_lt2p [of n] by simp_all
  have d: "2 * (uint n div 2) \<le> uint n \<and> uint n \<le> 2 * (uint n div 2) + 1"
    "4 * (uint n div 4) \<le> uint n \<and> uint n \<le> 4 * (uint n div 4) + 3"
    using div_bounds [of 2 "uint n"] div_bounds [of 4 "uint n"] by simp_all
  have u1: "uint q1 = uint n div 2 + uint n div 4"
    unfolding q1_def using d n by (subst add_uint) (simp_all add: drop_uint)
  have d1: "16 * (uint q1 div 16) \<le> uint q1 \<and> uint q1 \<le> 16 * (uint q1 div 16) + 15"
    using div_bounds [of 16 "uint q1"] by simp
  have b1: "4 * uint q1 \<le> 3 * uint n" using d u1 by linarith
  have u2: "uint q2 = uint q1 + uint q1 div 16"
    unfolding q2_def using d1 b1 n by (subst add_uint) (simp_all add: drop_uint)
  have d2: "256 * (uint q2 div 256) \<le> uint q2 \<and> uint q2 \<le> 256 * (uint q2 div 256) + 255"
    using div_bounds [of 256 "uint q2"] by simp
  have b2: "64 * uint q2 \<le> 51 * uint n" using d1 b1 u2 by linarith
  have u3: "uint q3 = uint q2 + uint q2 div 256"
    unfolding q3_def using d2 b2 n by (subst add_uint) (simp_all add: drop_uint)
  have d3: "65536 * (uint q3 div 65536) \<le> uint q3 \<and> uint q3 \<le> 65536 * (uint q3 div 65536) + 65535"
    using div_bounds [of 65536 "uint q3"] by simp
  have b3: "10 * uint q3 \<le> 9 * uint n" using d2 b2 u3 n by linarith
  have u4: "uint q4 = uint q3 + uint q3 div 65536"
    unfolding q4_def using d3 b3 n by (subst add_uint) (simp_all add: drop_uint)
  have d4: "4294967296 * (uint q4 div 4294967296) \<le> uint q4 \<and> uint q4 \<le> 4294967296 * (uint q4 div 4294967296) + 4294967295"
    using div_bounds [of 4294967296 "uint q4"] by simp
  have b4: "20 * uint q4 \<le> 19 * uint n" using d3 b3 u4 n by linarith
  have u5: "uint q5 = uint q4 + uint q4 div 4294967296"
    unfolding q5_def using d4 b4 n by (subst add_uint) (simp_all add: drop_uint)
  have d5: "8 * uint q \<le> uint q5 \<and> uint q5 \<le> 8 * uint q + 7"
    using div_bounds [of 8 "uint q5"] by (simp add: q_def drop_uint)
  have "10 * uint q \<le> uint n \<and> uint n < 10 * uint q + 20"
    by (rule shift_bounds [of "uint n" "uint n div 2" "uint n div 4" "uint q1 div 16" "uint q2 div 256"
          "uint q3 div 65536" "uint q4 div 4294967296" "uint q"])
       (simp_all only: u1 [symmetric] u2 [symmetric] u3 [symmetric] u4 [symmetric] u5 [symmetric],
        use d d1 d2 d3 d4 d5 n in auto)
  moreover have "push_bit 1 (push_bit 2 q + q) = 10 * q" by (simp add: push_bit_eq_mult algebra_simps)
  then have "udivmod10 n = (let r = ucast (n - 10 * q) :: u8 in if r > 9 then (q + 1, r - 10) else (q, r))"
    by (simp only: udivmod10_def Let_def q1_def q2_def q3_def q4_def q5_def q_def)
  ultimately show thesis using that by blast
qed

lemma udivmod10_ok: "udivmod10 n = (n div 10, ucast (n mod 10))"
proof -
  obtain q where q: "udivmod10 n = (let r = ucast (n - 10 * q) :: u8 in if r > 9 then (q + 1, r - 10) else (q, r))"
    "10 * uint q \<le> uint n" "uint n < 10 * uint q + 20" by (rule udivmod10_q)
  define r where "r = uint n - 10 * uint q"
  have r: "0 \<le> r" "r < 20" "uint n = 10 * uint q + r" using q(2,3) by (simp_all add: r_def)
  have n: "n = 10 * q + word_of_int r"
    using arg_cong [OF r(3), of "word_of_int :: int \<Rightarrow> u64"] by simp
  have c: "(ucast (n - 10 * q) :: u8) = word_of_int r" 
  proof -
    have "n - 10 * q = word_of_int r" by (simp add: n)
    moreover have "(ucast (word_of_int r :: u64) :: u8) = word_of_int r"
      by (rule bit_word_eqI) (simp add: bit_unsigned_iff bit_word_of_int_iff)
    ultimately show ?thesis by simp
  qed
  have u: "uint (word_of_int r :: u8) = r" using r by (simp add: uint_word_of_int)
  have nd: "n div 10 = word_of_int (uint n div 10)" "n mod 10 = word_of_int (uint n mod 10)"
    by (simp_all add: word_div_def word_mod_def)
  have cm: "(ucast (word_of_int k :: u64) :: u8) = word_of_int k" for k
    by (rule bit_word_eqI) (simp add: bit_unsigned_iff bit_word_of_int_iff)
  show ?thesis
  proof (cases "r > 9")
    case True
    then have "uint n div 10 = uint q + 1" "uint n mod 10 = r - 10" using r by presburger+
    then show ?thesis using True u q(1) cm [of "r - 10"] by (simp add: nd c word_less_def)
  next
    case False
    then have "uint n div 10 = uint q" "uint n mod 10 = r" using r by auto
    then show ?thesis using False u q(1) by (simp add: nd cm c word_less_def)
  qed
qed

text \<open>
  C31: the division by shifts that replaces the hardware one on targets whose
  \<open>long\<close> is narrower than the value gives the quotient and the remainder of every 64-bit value,
  in each base the conversions use.
\<close>

theorem udivmod_correct:
  assumes "base \<in> {8, 10, 16}"
  shows "udivmod val base = (val div word_of_int base, ucast (val mod word_of_int base))"
proof -
  have "val AND 7 = val mod 8" "val AND 15 = val mod 16"
    using take_bit_eq_mask [of 3 val] take_bit_eq_mask [of 4 val]
    by (simp_all add: take_bit_eq_mod mask_eq_exp_minus_1)
  then show ?thesis using assms udivmod10_ok [of val]
    by (auto simp: udivmod_def drop_bit_eq_div)
qed

theorem udivmod_correct_witness: "udivmod 18446744073709551615 10 = (1844674407370955161, 5)"
  using udivmod_correct [of 10 18446744073709551615] by simp

end
