(* ===== verification/Asprintf.thy ===== *)
theory Asprintf
  imports PrintfSpec MallocSpec
begin

text \<open>
  Formatted output into memory of its own: \<open>__file_str_put_alloc\<close>, which grows its buffer with
  \<open>malloc\<close> and \<open>realloc\<close>, and \<open>asprintf\<close>, \<open>vasprintf\<close>, \<open>asnprintf\<close> and \<open>vasnprintf\<close> on top
  of it.  Here the formatter of \<open>Printf\<close> runs against the allocator of \<open>Malloc\<close>: the
  stream is shown to be a \<open>writer\<close>, whose error is a failed allocation, and the
  heap invariant is carried through every character.
\<close>

section \<open>Streams that allocate\<close>

record afile =
  apos :: addr
  aend :: addr
  asize :: u64
  aalloc :: bool
  aheap :: heap

text \<open>A larger buffer with the old contents, by \<open>realloc\<close> or, the first time, by \<open>malloc\<close>.\<close>

definition str_grow :: "afile \<Rightarrow> (heap \<times> addr) option" where
  "str_grow f = (
     let old_size = asize f; old = aend f - unat old_size; new_size = old_size + 32
     in if aalloc f then realloc (aheap f) old new_size
        else do {
          (h, new) \<leftarrow> malloc (aheap f) new_size;
          if new \<noteq> NULL \<and> old_size \<noteq> 0 then do {
            (m, _) \<leftarrow> memcpy (hmem h) new old (unat old_size);
            Some (h\<lparr>hmem := m\<rparr>, new) }
          else Some (h, new) })"

definition file_str_put_alloc :: "afile put" where
  "file_str_put_alloc c f = do {
     (f, ok) \<leftarrow> (if apos f = aend f then do {
        let old_size = asize f;
        let new_size = old_size + 32;
        (h, new) \<leftarrow> str_grow f;
        if new = NULL then Some (f\<lparr>aheap := h\<rparr>, False)
        else Some (f\<lparr>asize := new_size, apos := new + unat old_size, aend := new + unat new_size,
                     aalloc := True, aheap := h\<rparr>, True)
      } else Some (f, True));
     if ok then do {
       m \<leftarrow> store8 (hmem (aheap f)) (apos f) (of_char c);
       Some (f\<lparr>apos := apos f + 1, aheap := (aheap f)\<lparr>hmem := m\<rparr>\<rparr>, True) }
     else Some (f, False) }"

definition setup_string_alloc :: "heap \<Rightarrow> afile" where
  "setup_string_alloc h = \<lparr>apos = NULL, aend = NULL, asize = 0, aalloc = False, aheap = h\<rparr>"

definition setup_string_alloc_buf :: "heap \<Rightarrow> addr \<Rightarrow> u64 \<Rightarrow> afile" where
  "setup_string_alloc_buf h buf n = \<lparr>apos = buf, aend = buf + unat n, asize = n, aalloc = False, aheap = h\<rparr>"

text \<open>The pointer stored through \<open>strp\<close>, if any, and the return value.\<close>

definition vasprintf :: "heap \<Rightarrow> string \<Rightarrow> varg list \<Rightarrow> (heap \<times> addr option \<times> int) option" where
  "vasprintf h fmt ap = do {
     (f, _, i) \<leftarrow> vfprintf file_str_put_alloc True fmt ap (setup_string_alloc h);
     let buf = aend f - unat (asize f);
     let h = aheap f;
     (h, strp, i) \<leftarrow> (if i \<ge> 0 then do {
        n \<leftarrow> ck32 (i + 1);
        (h, s) \<leftarrow> realloc h buf (word_of_int n);
        if s \<noteq> NULL then do {
          m \<leftarrow> store8 (hmem h) (s + nat i) 0;
          Some (h\<lparr>hmem := m\<rparr>, Some s, i) }
        else Some (h, None, - 1)
      } else Some (h, None, i));
     h \<leftarrow> (if i < 0 then malloc_free h buf else Some h);
     Some (h, strp, i) }"

definition asprintf :: "heap \<Rightarrow> string \<Rightarrow> varg list \<Rightarrow> (heap \<times> addr option \<times> int) option" where
  "asprintf h fmt ap = do {
     (f, _, i) \<leftarrow> vfprintf file_str_put_alloc True fmt ap (setup_string_alloc h);
     let buf = aend f - unat (asize f);
     let h = aheap f;
     (h, strp, i) \<leftarrow> (if i \<ge> 0 then do {
        n \<leftarrow> ck32 (i + 1);
        (h, s) \<leftarrow> realloc h buf (word_of_int n);
        if s \<noteq> NULL then do {
          m \<leftarrow> store8 (hmem h) (s + nat i) 0;
          Some (h\<lparr>hmem := m\<rparr>, Some s, i) }
        else Some (h, None, - 1)
      } else Some (h, None, i));
     h \<leftarrow> (if i < 0 then malloc_free h buf else Some h);
     Some (h, strp, i) }"

text \<open>The result and the value stored through \<open>lenp\<close>.\<close>

definition vasnprintf :: "heap \<Rightarrow> addr \<Rightarrow> u64 \<Rightarrow> string \<Rightarrow> varg list \<Rightarrow> (heap \<times> addr \<times> u64) option" where
  "vasnprintf h str len fmt ap = do {
     (f, _, i) \<leftarrow> vfprintf file_str_put_alloc True fmt ap (setup_string_alloc_buf h str len);
     (f, i) \<leftarrow> (if i \<ge> 0 then do {
        (f, _, r) \<leftarrow> putc file_str_put_alloc True CHR 0x00 f;
        Some (f, if r < 0 then - 1 else i) }
      else Some (f, i));
     let ret = aend f - unat (asize f);
     if i \<ge> 0 then
       (if aalloc f then do {
          n \<leftarrow> ck32 (i + 1);
          (h, s) \<leftarrow> realloc (aheap f) ret (word_of_int n);
          Some (h, if s \<noteq> NULL then s else ret, word_of_int i) }
        else Some (aheap f, ret, word_of_int i))
     else do {
       h \<leftarrow> (if aalloc f then malloc_free (aheap f) ret else Some (aheap f));
       Some (h, NULL, len) } }"

definition asnprintf :: "heap \<Rightarrow> addr \<Rightarrow> u64 \<Rightarrow> string \<Rightarrow> varg list \<Rightarrow> (heap \<times> addr \<times> u64) option" where
  "asnprintf h str len fmt ap = vasnprintf h str len fmt ap"

section \<open>Invariant\<close>

text \<open>
  The stream holds \<open>cs\<close>: in the buffer \<open>buf\<close> of \<open>n\<close> bytes it started with, or in a block of its own.
  The heap is well-formed, and the blocks in use are as they were, but for those in \<open>X\<close>,
  which contain the buffer. Of the memory managed when the output began, in the heap \<open>h0\<close>, nothing is lost.
\<close>

definition own_block :: "heap \<Rightarrow> heap \<Rightarrow> chunk set \<Rightarrow> addr \<Rightarrow> u64 \<Rightarrow> bool" where
  "own_block h0 h L c n \<longleftrightarrow> c \<noteq> NULL \<and> (\<exists>fs. heap_inv h fs (insert (c, unat (chunk_size n)) L))
     \<and> (c, unat (chunk_size n)) \<notin> L \<and> no_loss h0 L h (insert (c, unat (chunk_size n)) L)"

definition no_block :: "heap \<Rightarrow> heap \<Rightarrow> chunk set \<Rightarrow> bool" where
  "no_block h0 h L \<longleftrightarrow> (\<exists>fs. heap_inv h fs L) \<and> no_loss h0 L h L"

definition alloc_rep :: "heap \<Rightarrow> chunk set \<Rightarrow> chunk set \<Rightarrow> addr \<Rightarrow> nat \<Rightarrow> string \<Rightarrow> afile \<Rightarrow> bool" where
  "alloc_rep h0 L X buf n cs f \<longleftrightarrow> keeps h0 (aheap f) (L - X) \<and>
     (if aalloc f
      then \<exists>c. n < length cs \<and> own_block h0 (aheap f) L c (asize f) \<and> length cs \<le> unat (asize f) \<and> unat (asize f) \<le> n + length cs + 32
        \<and> apos f = c + length cs \<and> aend f = c + unat (asize f) \<and> bytes_at (hmem (aheap f)) c (text_bytes cs)
      else no_block h0 (aheap f) L \<and> length cs \<le> n \<and> asize f = of_nat n
        \<and> apos f = buf + length cs \<and> aend f = buf + n \<and> bytes_at (hmem (aheap f)) buf (text_bytes cs))"

lemma heap_store:
  assumes inv: "heap_inv h fs L" and x: "(c, k) \<in> L" and a: "c \<le> a" "a < c - 8 + k"
  shows "store8 (hmem h) a b = Some ((hmem h)(a \<mapsto> b))" "heap_inv (h\<lparr>hmem := (hmem h)(a \<mapsto> b)\<rparr>) fs L"
    "keeps h (h\<lparr>hmem := (hmem h)(a \<mapsto> b)\<rparr>) (L - {(c, k)})" "no_loss h L (h\<lparr>hmem := (hmem h)(a \<mapsto> b)\<rparr>) L"
proof -
  have c: "8 < c" "16 \<le> k" using inv_chunk [OF inv, of "(c, k)"] x by auto
  have "mapped (hmem h) a 1"
    using a by (intro mapped_chunk [OF heap_invD(1) [OF inv] inv_chunk(1) [OF inv, of "(c, k)"]]) (use x in auto)
  then show s: "store8 (hmem h) a b = Some ((hmem h)(a \<mapsto> b))" by (simp add: mapped_def store8_def)
  have t: "touches h (h\<lparr>hmem := (hmem h)(a \<mapsto> b)\<rparr>) {c ..< c - 8 + k}" using a by (simp add: touches_def)
  show inv': "heap_inv (h\<lparr>hmem := (hmem h)(a \<mapsto> b)\<rparr>) fs L" by (rule heap_inv_data [OF inv x t]) simp
  show "no_loss h L (h\<lparr>hmem := (hmem h)(a \<mapsto> b)\<rparr>) L" by (rule no_loss_data [OF inv inv' t])
  have "extent y \<inter> {c ..< c - 8 + k} = {}" if "y \<in> L - {(c, k)}" for y
    using live_extents(2) [OF inv x, of y] that by (auto simp: extent_def)
  then show "keeps h (h\<lparr>hmem := (hmem h)(a \<mapsto> b)\<rparr>) (L - {(c, k)})" by (intro keeps_touches [OF t]) blast
qed

lemma bytes_at_next: "bytes_at m p xs \<Longrightarrow> bytes_at (m(p + length xs \<mapsto> b)) p (xs @ [b])"
  by (auto simp: bytes_at_iff nth_append less_Suc_eq)

lemma own_blockD:
  assumes "own_block h0 h L c n"
  obtains fs where "heap_inv h fs (insert (c, unat (chunk_size n)) L)" "(c, unat (chunk_size n)) \<notin> L" "c \<noteq> NULL"
    "no_loss h0 L h (insert (c, unat (chunk_size n)) L)"
  using assms unfolding own_block_def by blast

lemma own_store:
  assumes own: "own_block h0 h L c n" and n: "n \<le> MALLOC_ALLOC_MAX" and a: "c \<le> a" "a < c + unat n"
  shows "store8 (hmem h) a b = Some ((hmem h)(a \<mapsto> b))" "own_block h0 (h\<lparr>hmem := (hmem h)(a \<mapsto> b)\<rparr>) L c n"
    "keeps h (h\<lparr>hmem := (hmem h)(a \<mapsto> b)\<rparr>) L"
proof -
  let ?k = "unat (chunk_size n)"
  obtain fs where inv: "heap_inv h fs (insert (c, ?k) L)" and nin: "(c, ?k) \<notin> L" and nz: "c \<noteq> NULL"
    and loss: "no_loss h0 L h (insert (c, ?k) L)" by (rule own_blockD [OF own])
  have c: "8 < c" using inv_chunk(2) [OF inv, of "(c, ?k)"] by simp
  have "a < c - 8 + ?k" using a(2) chunk_size_ok(2) [OF n] c by simp
  note s = heap_store [OF inv insertI1 a(1) this]
  show "store8 (hmem h) a b = Some ((hmem h)(a \<mapsto> b))" by (rule s(1))
  show "own_block h0 (h\<lparr>hmem := (hmem h)(a \<mapsto> b)\<rparr>) L c n" using s(2) nin nz no_loss_trans [OF loss s(4)] by (auto simp: own_block_def)
  show "keeps h (h\<lparr>hmem := (hmem h)(a \<mapsto> b)\<rparr>) L" using s(3) nin by (simp add: keeps_def)
qed

lemma own_bytes:
  assumes "own_block h0 h L c n" "n \<le> MALLOC_ALLOC_MAX" "bytes_at (hmem h) c xs" "length xs \<le> unat n"
  obtains ys where "bytes_at (hmem h) c (xs @ ys)" "length (xs @ ys) = unat (chunk_size n) - 8"
proof -
  let ?k = "unat (chunk_size n)"
  obtain fs where inv: "heap_inv h fs (insert (c, ?k) L)" by (rule own_blockD [OF assms(1)])
  obtain zs where z: "bytes_at (hmem h) c zs" "length zs = ?k - 8" by (rule live_bytes [OF inv insertI1])
  have le: "length xs \<le> length zs" using z(2) chunk_size_ok(2) [OF assms(2)] assms(4) by simp
  have "take (length xs) zs = xs"
    using z(1) assms(3) le by (intro nth_equalityI) (auto simp: bytes_at_iff)
  then have "zs = xs @ drop (length xs) zs" by (metis append_take_drop_id)
  then show thesis using that [of "drop (length xs) zs"] z by simp
qed

lemma own_realloc:
  assumes own: "own_block h0 h L c n" "n \<le> MALLOC_ALLOC_MAX" and xs: "bytes_at (hmem h) c xs" "length xs \<le> unat n"
    and n': "n' \<le> MALLOC_ALLOC_MAX" "n' \<noteq> 0" "length xs \<le> unat n'"
  shows "\<exists>h' p. realloc h c n' = Some (h', p) \<and> keeps h h' L \<and>
    (if p = NULL then own_block h0 h' L c n \<and> bytes_at (hmem h') c xs else own_block h0 h' L p n' \<and> bytes_at (hmem h') p xs)"
proof -
  let ?k = "unat (chunk_size n)" and ?k' = "unat (chunk_size n')"
  obtain fs where inv: "heap_inv h fs (insert (c, ?k) L)" and nin: "(c, ?k) \<notin> L" and nz: "c \<noteq> NULL"
    and loss: "no_loss h0 L h (insert (c, ?k) L)" by (rule own_blockD [OF own(1)])
  obtain ys where ys: "bytes_at (hmem h) c (xs @ ys)" "length (xs @ ys) = ?k - 8" by (rule own_bytes [OF own xs])
  obtain h' p fs' where r: "realloc h c n' = Some (h', p)" "realloc_result h (insert (c, ?k) L) (c, ?k) (xs @ ys) ?k' h' p fs'"
    using realloc_total [OF inv insertI1 ys n'(2)] by blast
  have L: "insert (c, ?k) L - {(c, ?k)} = L" using nin by simp
  have c: "8 < c" using inv_chunk(2) [OF inv, of "(c, ?k)"] by simp
  show ?thesis
  proof (cases "p = NULL")
    case True
    then have k: "heap_inv h' fs' (insert (c, ?k) L)" "keeps h h' (insert (c, ?k) L)" "no_loss h (insert (c, ?k) L) h' (insert (c, ?k) L)" using r(2) by (simp_all add: realloc_result_def)
    have "bytes_at (hmem h') c xs"
      using xs(1) c chunk_size_ok(2) [OF own(2)] xs(2) by (intro bytes_at_keeps [OF k(2) insertI1]) auto
    then show ?thesis using r(1) True k nin nz keeps_subset [OF k(2), of L] no_loss_trans [OF loss k(3)] by (auto simp: own_block_def)
  next
    case False
    then have "heap_inv h' fs' (insert (p, ?k') L)" "keeps h h' L" "(p, ?k') \<notin> L" "bytes_at (hmem h') p (resized (?k' - 8) (xs @ ys))"
      "no_loss h (insert (c, ?k) L) h' (insert (p, ?k') L)"
      using r(2) L by (simp_all add: realloc_result_def)
    moreover have "length xs \<le> ?k' - 8" using chunk_size_ok(2) [OF n'(1)] n'(3) by simp
    then obtain zs where "resized (?k' - 8) (xs @ ys) = xs @ zs" by (simp add: resized_def)
    ultimately show ?thesis using r(1) False no_loss_trans [OF loss] by (auto simp: own_block_def bytes_at_append)
  qed
qed

lemma own_malloc:
  assumes "no_block h0 h L"
  shows "\<exists>h' p. malloc h n = Some (h', p) \<and> keeps h h' L \<and> (if p = NULL then no_block h0 h' L else own_block h0 h' L p n)"
proof -
  obtain fs where inv: "heap_inv h fs L" and loss: "no_loss h0 L h L" using assms by (auto simp: no_block_def)
  obtain h' p fs' where m: "malloc h n = Some (h', p)" "keeps h h' L" "p = NULL \<longrightarrow> heap_inv h' fs' L \<and> no_loss h L h' L"
    using plain.alloc_ok [OF inv, of n] by (auto split: if_splits)
  show ?thesis
  proof (cases "p = NULL")
    case True
    then show ?thesis using m no_loss_trans [OF loss, of h' L] by (auto simp: no_block_def)
  next
    case False
    obtain fs'' where "heap_inv h' fs'' (insert (p, unat (chunk_size n)) L)" "(p, unat (chunk_size n)) \<notin> L"
      "no_loss h L h' (insert (p, unat (chunk_size n)) L)" by (rule plain.new_block [OF inv m(1) False])
    then show ?thesis using m False no_loss_trans [OF loss] by (auto simp: own_block_def)
  qed
qed

lemma own_free:
  assumes "own_block h0 h L c n"
  shows "\<exists>h'. malloc_free h c = Some h' \<and> no_block h0 h' L \<and> keeps h h' L"
proof -
  let ?x = "(c, unat (chunk_size n))"
  obtain fs where inv: "heap_inv h fs (insert ?x L)" and nin: "?x \<notin> L" and loss: "no_loss h0 L h (insert ?x L)"
    by (rule own_blockD [OF assms])
  obtain h' where f: "malloc_free h c = Some h'" "heap_inv h' (insert_free ?x fs) (insert ?x L - {?x})"
    "touches h h' (extent ?x \<union> free_extent fs)" by (rule malloc_free_live [OF inv insertI1])
  have "extent y \<inter> (extent ?x \<union> free_extent fs) = {}" if "y \<in> L" for y
    using live_extents(1) [OF inv, of y] live_extents(2) [OF inv, of ?x y] that nin by blast
  then have "keeps h h' L" by (intro keeps_touches [OF f(3)]) blast
  moreover have L: "insert ?x L - {?x} = L" using nin by simp
  moreover have "no_loss h0 L h' L"
    using no_loss_trans [OF loss no_loss_free [OF inv insertI1 f(2) touches_brk [OF f(3)]]] unfolding L .
  ultimately show ?thesis using f(1,2) by (auto simp: no_block_def)
qed

text \<open>Where the buffer lies: inside a block in use, the one of \<open>X\<close>, or it is empty.\<close>

definition buffer_in :: "chunk set \<Rightarrow> chunk set \<Rightarrow> addr \<Rightarrow> nat \<Rightarrow> bool" where
  "buffer_in X L buf n \<longleftrightarrow> n = 0 \<and> X = {} \<or> (\<exists>b k. X = {(b, k)} \<and> (b, k) \<in> L \<and> b \<le> buf \<and> buf + n \<le> b - 8 + k)"

lemma size_max: "unat n \<le> 2 ^ 63 \<Longrightarrow> n \<le> MALLOC_ALLOC_MAX"
  by (simp add: word_le_nat_alt alloc_max)

lemma put_own:
  assumes own: "own_block h0 h L c n" "n \<le> MALLOC_ALLOC_MAX" "bytes_at (hmem h) c (text_bytes cs)" "length cs < unat n"
    and k: "keeps h0 h (L - X)" "unat n \<le> N + length cs + 32" "N \<le> length cs"
    and f: "f = \<lparr>apos = c + length cs, aend = c + unat n, asize = n, aalloc = True, aheap = h\<rparr>"
  shows "\<exists>f'. file_str_put_alloc d f = Some (f', True) \<and> alloc_rep h0 L X buf N (cs @ [d]) f'"
proof -
  let ?m = "(hmem h)(c + length cs \<mapsto> of_char d)"
  note s = own_store [OF own(1,2), of "c + length cs" "of_char d"]
  have "bytes_at ?m c (text_bytes (cs @ [d]))" using bytes_at_next [OF own(3), of "of_char d"] by simp
  moreover have "keeps h0 (h\<lparr>hmem := ?m\<rparr>) (L - X)"
    by (rule keeps_trans [OF k(1) keeps_subset [OF s(3)]]) (use own(4) in auto)
  ultimately have "alloc_rep h0 L X buf N (cs @ [d]) (f\<lparr>apos := c + length cs + 1, aheap := h\<lparr>hmem := ?m\<rparr>\<rparr>)"
    using own s(2) k(2,3) by (auto simp: alloc_rep_def f)
  moreover have "file_str_put_alloc d f = Some (f\<lparr>apos := c + length cs + 1, aheap := h\<lparr>hmem := ?m\<rparr>\<rparr>, True)"
    using own(4) s(1) by (simp add: file_str_put_alloc_def f)
  ultimately show ?thesis by blast
qed

lemma put_buffer:
  assumes X: "buffer_in X L buf n" and lt: "length cs < n" and rep: "alloc_rep h0 L X buf n cs f" "\<not> aalloc f"
  shows "\<exists>f'. file_str_put_alloc d f = Some (f', True) \<and> alloc_rep h0 L X buf n (cs @ [d]) f'"
proof -
  let ?h = "aheap f" and ?m = "(hmem (aheap f))(buf + length cs \<mapsto> of_char d)"
  obtain b k where b: "X = {(b, k)}" "(b, k) \<in> L" "b \<le> buf" "buf + n \<le> b - 8 + k" using X lt by (auto simp: buffer_in_def)
  have f: "apos f = buf + length cs" "aend f = buf + n" "bytes_at (hmem ?h) buf (text_bytes cs)" "keeps h0 ?h (L - X)" "asize f = of_nat n"
    "no_block h0 ?h L" using rep by (auto simp: alloc_rep_def)
  then obtain fs where inv: "heap_inv ?h fs L" and loss: "no_loss h0 L ?h L" by (auto simp: no_block_def)
  note s = heap_store [OF inv b(2), of "buf + length cs" "of_char d"]
  have "bytes_at ?m buf (text_bytes (cs @ [d]))" using bytes_at_next [OF f(3), of "of_char d"] by simp
  moreover have "keeps h0 (?h\<lparr>hmem := ?m\<rparr>) (L - X)"
    by (rule keeps_trans [OF f(4)]) (use s(3) b lt in auto)
  ultimately have "alloc_rep h0 L X buf n (cs @ [d]) (f\<lparr>apos := buf + length cs + 1, aheap := ?h\<lparr>hmem := ?m\<rparr>\<rparr>)"
    using f s(2) b lt rep(2) no_loss_trans [OF loss s(4)] by (auto simp: alloc_rep_def no_block_def)
  moreover have "file_str_put_alloc d f = Some (f\<lparr>apos := buf + length cs + 1, aheap := ?h\<lparr>hmem := ?m\<rparr>\<rparr>, True)"
    using lt s(1) b by (simp add: file_str_put_alloc_def f)
  ultimately show ?thesis by blast
qed

section \<open>The stream as a writer\<close>

lemma put_full:
  assumes "apos f = aend f" "unat (asize f) < 2 ^ 63" "str_grow f = Some (h, new)"
  shows "file_str_put_alloc d f = (if new = NULL then Some (f\<lparr>aheap := h\<rparr>, False)
    else file_str_put_alloc d \<lparr>apos = new + unat (asize f), aend = new + unat (asize f + 32), asize = asize f + 32,
      aalloc = True, aheap = h\<rparr>)"
proof -
  have "unat (asize f + 32) = unat (asize f) + 32" using assms(2) by (subst unat_add_lem [THEN iffD1]) simp_all
  then show ?thesis using assms(1,3) by (simp add: file_str_put_alloc_def Let_def) (cases f, simp)
qed

lemma grown_own:
  assumes rep: "alloc_rep h0 L X buf n cs f" "aalloc f" "apos f = aend f" and b: "n < 2 ^ 32" "length cs < 2 ^ 32"
  shows "\<exists>h p. str_grow f = Some (h, p) \<and> keeps h0 h (L - X) \<and>
    (if p = NULL then alloc_rep h0 L X buf n cs (f\<lparr>aheap := h\<rparr>)
     else own_block h0 h L p (asize f + 32) \<and> bytes_at (hmem h) p (text_bytes cs))"
proof -
  obtain c where c: "own_block h0 (aheap f) L c (asize f)" "unat (asize f) = length cs" "apos f = c + length cs"
    "aend f = c + unat (asize f)" "bytes_at (hmem (aheap f)) c (text_bytes cs)" and k: "keeps h0 (aheap f) (L - X)"
    using rep by (auto simp: alloc_rep_def)
  have u: "unat (asize f + 32) = length cs + 32" using c(2) b by (subst unat_add_lem [THEN iffD1]) simp_all
  obtain h p where r: "realloc (aheap f) c (asize f + 32) = Some (h, p)" "keeps (aheap f) h L"
    "if p = NULL then own_block h0 h L c (asize f) \<and> bytes_at (hmem h) c (text_bytes cs)
     else own_block h0 h L p (asize f + 32) \<and> bytes_at (hmem h) p (text_bytes cs)"
    using own_realloc [OF c(1) size_max c(5), of "asize f + 32"] size_max [of "asize f + 32"] u c(2) b
    by (fastforce simp: unat_eq_0 [symmetric] simp del: unat_eq_0)
  have "keeps h0 h (L - X)" by (rule keeps_trans [OF k keeps_subset [OF r(2)]]) auto
  moreover have "str_grow f = Some (h, p)" using r(1) c(4) rep(2) by (simp add: str_grow_def)
  ultimately show ?thesis using r(3) c rep by (auto simp: alloc_rep_def)
qed

lemma grown_buffer:
  assumes rep: "alloc_rep h0 L X buf n cs f" "\<not> aalloc f" "apos f = aend f" and b: "n < 2 ^ 32" and X: "buffer_in X L buf n"
  shows "\<exists>h p. str_grow f = Some (h, p) \<and> keeps h0 h (L - X) \<and>
    (if p = NULL then alloc_rep h0 L X buf n cs (f\<lparr>aheap := h\<rparr>)
     else own_block h0 h L p (asize f + 32) \<and> bytes_at (hmem h) p (text_bytes cs))"
proof -
  have inv: "no_block h0 (aheap f) L" and n: "length cs = n" "asize f = of_nat n" "aend f = buf + n"
    and xs: "bytes_at (hmem (aheap f)) buf (text_bytes cs)" and k: "keeps h0 (aheap f) (L - X)"
    using rep by (auto simp: alloc_rep_def)
  have u: "unat (asize f) = n" using n(2) b by (simp add: unat_of_nat64)
  have u2: "unat (asize f + 32) = n + 32" using u b by (subst unat_add_lem [THEN iffD1]) simp_all
  obtain h p where m: "malloc (aheap f) (asize f + 32) = Some (h, p)" "keeps (aheap f) h L"
    "if p = NULL then no_block h0 h L else own_block h0 h L p (asize f + 32)"
    using own_malloc [OF inv, of "asize f + 32"] by blast
  have k2: "keeps h0 h (L - X)" by (rule keeps_trans [OF k keeps_subset [OF m(2)]]) auto
  have xs2: "bytes_at (hmem h) buf (text_bytes cs)"
  proof (cases "n = 0")
    case True
    then show ?thesis using n(1) by (simp add: bytes_at_iff)
  next
    case False
    then obtain a k where a: "(a, k) \<in> L" "a \<le> buf" "buf + n \<le> a - 8 + k" using X by (auto simp: buffer_in_def)
    show ?thesis
      using m(2) a n(1) by (intro bytes_at_agree [OF xs]) (force simp: keeps_def extent_def)
  qed
  show ?thesis
  proof (cases "p = NULL \<or> n = 0")
    case True
    then have g: "str_grow f = Some (h, p)" using m(1) rep(2) n(2) by (auto simp: str_grow_def Let_def)
    show ?thesis
    proof (cases "p = NULL")
      case True
      then have "alloc_rep h0 L X buf n cs (f\<lparr>aheap := h\<rparr>)"
        using m(3) k2 xs2 n rep(2,3) by (simp add: alloc_rep_def)
      then show ?thesis using g k2 True by (intro exI [of _ h] exI [of _ p]) simp
    next
      case False
      then show ?thesis using g k2 True m(3) n(1) by (intro exI [of _ h] exI [of _ p]) (simp add: bytes_at_iff)
    qed
  next
    case False
    then have own: "own_block h0 h L p (asize f + 32)" and p: "p \<noteq> NULL" and n0: "n \<noteq> 0" using m(3) by auto
    let ?k = "unat (chunk_size (asize f + 32))" and ?m = "put_bytes (hmem h) p (text_bytes cs)"
    have sz: "n + 40 \<le> ?k" using chunk_size_ok(2) [OF size_max, of "asize f + 32"] u2 b by simp
    obtain fs2 where inv2: "heap_inv h fs2 (insert (p, ?k) L)" and nin: "(p, ?k) \<notin> L"
      and loss: "no_loss h0 L h (insert (p, ?k) L)" by (rule own_blockD [OF own])
    obtain a k where a: "(a, k) \<in> L" "a \<le> buf" "buf + n \<le> a - 8 + k" using X n0 by (auto simp: buffer_in_def)
    have p8: "8 < p" using inv_chunk(2) [OF inv2, of "(p, ?k)"] by simp
    have a8: "8 < a" using inv_chunk(2) [OF inv2, of "(a, k)"] a by simp
    have ap: "apart (a, k) (p, ?k)" using nin a(1) by (intro heap_invD(5) [OF inv2]) auto
    have mp: "mapped (hmem h) p n"
      using sz p8 by (intro mapped_chunk [OF heap_invD(1) [OF inv2] inv_chunk(1) [OF inv2, of "(p, ?k)"]]) auto
    have "p + n \<le> buf \<or> buf + n \<le> p" using ap a sz p8 a8 by (auto simp: apart_def)
    then have cp: "memcpy (hmem h) p buf n = Some (?m, p)"
      using memcpy_blit [OF mp] bytes_at_mapped [OF xs2] put_bytes_blit [OF xs2] n(1) by simp
    have t: "touches h (h\<lparr>hmem := ?m\<rparr>) {p ..< p - 8 + ?k}"
      using mp n(1) sz p8 by (auto simp: touches_def put_bytes_apply mapped_def)
    have inv3: "heap_inv (h\<lparr>hmem := ?m\<rparr>) fs2 (insert (p, ?k) L)" by (rule heap_inv_data [OF inv2 insertI1 t]) simp
    then have "own_block h0 (h\<lparr>hmem := ?m\<rparr>) L p (asize f + 32)"
      using nin p no_loss_trans [OF loss no_loss_data [OF inv2 inv3 t]] by (auto simp: own_block_def)
    moreover have "extent y \<inter> {p ..< p - 8 + ?k} = {}" if "y \<in> L" for y
      using live_extents(2) [OF inv2, of "(p, ?k)" y] that nin p8 by (fastforce simp: extent_def)
    then have "keeps h (h\<lparr>hmem := ?m\<rparr>) L" by (intro keeps_touches [OF t]) blast
    then have "keeps h0 (h\<lparr>hmem := ?m\<rparr>) (L - X)" by (intro keeps_trans [OF k2 keeps_subset]) auto
    moreover have "bytes_at ?m p (text_bytes cs)" using bytes_at_put_same [of "hmem h" p "text_bytes cs"] by simp
    moreover have "str_grow f = Some (h\<lparr>hmem := ?m\<rparr>, p)"
      using m(1) p n0 cp n(3) u rep(2) n(2) by (auto simp: str_grow_def unat_eq_0 [symmetric] simp del: unat_eq_0)
    ultimately show ?thesis using p by auto
  qed
qed

lemma alloc_put:
  assumes rep: "alloc_rep h0 L X buf n cs f" and X: "buffer_in X L buf n" and b: "n < 2 ^ 32" "length cs < 2 ^ 32"
  shows "(\<exists>f'. file_str_put_alloc d f = Some (f', True) \<and> alloc_rep h0 L X buf n (cs @ [d]) f')
    \<or> (\<exists>f'. file_str_put_alloc d f = Some (f', False) \<and> alloc_rep h0 L X buf n cs f')"
proof (cases "apos f = aend f")
  case True
  have s: "unat (asize f) = length cs" "n \<le> length cs"
    using rep True b by (auto simp: alloc_rep_def unat_of_nat64 split: if_splits)
  obtain h p where g: "str_grow f = Some (h, p)" "keeps h0 h (L - X)"
    "if p = NULL then alloc_rep h0 L X buf n cs (f\<lparr>aheap := h\<rparr>)
     else own_block h0 h L p (asize f + 32) \<and> bytes_at (hmem h) p (text_bytes cs)"
    using grown_own [OF rep _ True b] grown_buffer [OF rep _ True b(1) X] by (cases "aalloc f") blast+
  have pf: "file_str_put_alloc d f = (if p = NULL then Some (f\<lparr>aheap := h\<rparr>, False)
    else file_str_put_alloc d \<lparr>apos = p + unat (asize f), aend = p + unat (asize f + 32), asize = asize f + 32,
      aalloc = True, aheap = h\<rparr>)"
    using s(1) b by (intro put_full [OF True _ g(1)]) simp
  show ?thesis
  proof (cases "p = NULL")
    case True
    then show ?thesis using pf g(3) by auto
  next
    case False
    have u: "unat (asize f + 32) = length cs + 32" using s(1) b by (subst unat_add_lem [THEN iffD1]) simp_all
    have "asize f + 32 \<le> MALLOC_ALLOC_MAX" using u b by (intro size_max) simp
    from put_own [OF _ this _ _ g(2), of p cs n _ d buf] show ?thesis
      using g(3) False u s(2) by (auto simp: pf s(1))
  qed
next
  case ne: False
  show ?thesis
  proof (cases "aalloc f")
    case True
    then obtain c where c: "own_block h0 (aheap f) L c (asize f)" "length cs \<le> unat (asize f)" "unat (asize f) \<le> n + length cs + 32" "n \<le> length cs"
      "apos f = c + length cs" "aend f = c + unat (asize f)" "bytes_at (hmem (aheap f)) c (text_bytes cs)" "keeps h0 (aheap f) (L - X)"
      using rep by (auto simp: alloc_rep_def)
    have "asize f \<le> MALLOC_ALLOC_MAX" using c(3) b by (intro size_max) simp
    from put_own [OF c(1) this c(7) _ c(8,3,4), of f d buf] show ?thesis using c ne True by auto
  next
    case False
    then have "length cs < n" using rep ne by (auto simp: alloc_rep_def)
    from put_buffer [OF X this rep False, of d] show ?thesis by blast
  qed
qed

interpretation growing: writer file_str_put_alloc "\<lambda>cs f. buffer_in X L buf n \<and> n < 2 ^ 32 \<and> alloc_rep h0 L X buf n cs f" "2 ^ 32"
  for h0 L X buf n
  by unfold_locales (use alloc_put in blast)

section \<open>The functions\<close>

lemma stopped_rep: "stopped put rep limit cs out s' \<Longrightarrow> \<exists>ds. length ds < limit \<and> rep ds s'"
  unfolding stopped_def by blast

lemma free_null [simp]: "malloc_free h NULL = Some h"
  by (simp add: malloc_free_def)

lemma unat_next: "k < 2 ^ 31 \<Longrightarrow> unat (of_nat k + 1 :: u64) = k + 1"
  using unat_of_nat64 [of "k + 1"] by (simp add: add.commute)

text \<open>What the stream holds when the output ends, whether or not it was all put.\<close>

lemma alloc_repD:
  assumes "alloc_rep h0 L X buf n cs f" "n < 2 ^ 32" "length cs < 2 ^ 32"
  obtains (own) c where "aalloc f" "own_block h0 (aheap f) L c (asize f)" "asize f \<le> MALLOC_ALLOC_MAX" "aend f - unat (asize f) = c"
      "length cs \<le> unat (asize f)" "bytes_at (hmem (aheap f)) c (text_bytes cs)" "keeps h0 (aheap f) (L - X)" "n < length cs"
  | (buffer) "\<not> aalloc f" "no_block h0 (aheap f) L" "aend f - unat (asize f) = buf" "length cs \<le> n"
      "bytes_at (hmem (aheap f)) buf (text_bytes cs)" "keeps h0 (aheap f) (L - X)"
proof (cases "aalloc f")
  case True
  then obtain c where c: "own_block h0 (aheap f) L c (asize f)" "length cs \<le> unat (asize f)" "unat (asize f) \<le> n + length cs + 32"
    "aend f = c + unat (asize f)" "bytes_at (hmem (aheap f)) c (text_bytes cs)" "keeps h0 (aheap f) (L - X)" "n < length cs"
    using assms(1) by (auto simp: alloc_rep_def)
  have "asize f \<le> MALLOC_ALLOC_MAX" using c(3) assms(2,3) by (intro size_max) simp
  then show thesis using own c True by simp
next
  case False
  then show thesis using buffer assms by (auto simp: alloc_rep_def unat_of_nat64)
qed

definition asprintf_result :: "heap \<Rightarrow> chunk set \<Rightarrow> string \<Rightarrow> heap \<Rightarrow> addr option \<Rightarrow> int \<Rightarrow> bool" where
  "asprintf_result h L out h' strp i \<longleftrightarrow> keeps h h' L \<and>
     (case strp of
        Some p \<Rightarrow> i = int (length out) \<and> own_block h h' L p (of_nat (length out) + 1)
          \<and> bytes_at (hmem h') p (text_bytes out @ [0])
      | None \<Rightarrow> i = - 1 \<and> no_block h h' L)"

lemma vasprintf_end:
  assumes own: "own_block h0 h L p (of_nat (length out) + 1)" "bytes_at (hmem h) p (text_bytes out)" "keeps h0 h L" and len: "length out < 2 ^ 31"
  shows "\<exists>m. store8 (hmem h) (p + length out) 0 = Some m \<and> asprintf_result h0 L out (h\<lparr>hmem := m\<rparr>) (Some p) (int (length out))"
proof -
  have u: "unat (of_nat (length out) + 1 :: u64) = length out + 1" using len by (rule unat_next)
  have mx: "of_nat (length out) + 1 \<le> MALLOC_ALLOC_MAX" using u len by (intro size_max) simp
  note s = own_store [OF own(1) mx, of "p + length out" 0]
  have "bytes_at ((hmem h)(p + length out \<mapsto> 0)) p (text_bytes out @ [0])" using bytes_at_next [OF own(2), of 0] by simp
  then show ?thesis using s u keeps_trans [OF own(3) s(3)] by (simp add: asprintf_result_def)
qed

lemma vasprintf_main:
  assumes inv: "heap_inv h fs L" and f: "format_text fmt ap = Some out" and len: "int (length out) < INT_MAX"
  shows "\<exists>h' strp i. vasprintf h fmt ap = Some (h', strp, i) \<and> asprintf_result h L out h' strp i"
proof -
  let ?rep = "\<lambda>cs f. buffer_in {} L NULL 0 \<and> (0::nat) < 2 ^ 32 \<and> alloc_rep h L {} NULL 0 cs f"
  let ?n = "of_nat (length out) + 1 :: u64"
  have z: "(0::nat) < 2 ^ 32" by simp
  have lb: "length out < 2 ^ 31" using len by (simp add: range_defs)
  have u: "unat ?n = length out + 1" using lb by (rule unat_next)
  have mx: "?n \<le> MALLOC_ALLOC_MAX" using u lb by (intro size_max) simp
  have nz: "?n \<noteq> 0" using u by (metis Suc_eq_plus1 nat.distinct(1) unat_0)
  have ck: "ck32 (int (length out) + 1) = Some (int (length out) + 1)" using len by (simp add: ck32_def range_defs)
  have w: "word_of_int (int (length out) + 1) = ?n" by simp
  have start: "?rep [] (setup_string_alloc h)"
    using inv by (auto simp: alloc_rep_def no_block_def setup_string_alloc_def buffer_in_def bytes_at_iff)
  have "(\<exists>f'. vfprintf file_str_put_alloc True fmt ap (setup_string_alloc h) = Some (f', False, int (length out)) \<and> ?rep out f')
    \<or> (\<exists>f'. vfprintf file_str_put_alloc True fmt ap (setup_string_alloc h) = Some (f', True, - 1)
      \<and> stopped file_str_put_alloc ?rep (2 ^ 32) [] out f')"
    using lb len by (intro growing.vfprintf_rep [OF f start]) simp_all
  then show ?thesis
  proof (elim disjE exE conjE)
    fix f' assume run: "vfprintf file_str_put_alloc True fmt ap (setup_string_alloc h) = Some (f', False, int (length out))"
      and rep: "alloc_rep h L {} NULL 0 out f'"
    note go = vasprintf_def run ck Let_def
    have ob: "length out < 2 ^ 32" using lb by simp
    show ?thesis
    proof (cases rule: alloc_repD [OF rep z ob, case_names own buffer])
      case (own c)
      obtain h1 p where r: "realloc (aheap f') c ?n = Some (h1, p)" "keeps (aheap f') h1 L"
        "if p = NULL then own_block h h1 L c (asize f') else own_block h h1 L p ?n \<and> bytes_at (hmem h1) p (text_bytes out)"
        using own_realloc [OF own(2,3,6) _ mx nz] own(5) u by (fastforce split: if_splits)
      have k: "keeps h h1 L" by (rule keeps_trans [OF _ r(2)]) (use own(7) in auto)
      show ?thesis
      proof (cases "p = NULL")
        case True
        obtain h2 where "malloc_free h1 c = Some h2" "no_block h h2 L" "keeps h1 h2 L"
          using own_free [of h h1 L c "asize f'"] r(3) True by auto
        then show ?thesis using True r(1) own(4) keeps_trans [OF k] by (auto simp: go w asprintf_result_def)
      next
        case False
        then show ?thesis using vasprintf_end [OF _ _ k lb, of p] r(1,3) own(4) by (auto simp: go w)
      qed
    next
      case buffer
      obtain h1 p where m: "malloc (aheap f') ?n = Some (h1, p)" "keeps (aheap f') h1 L"
        "if p = NULL then no_block h h1 L else own_block h h1 L p ?n" using own_malloc [OF buffer(2)] by blast
      have k: "keeps h h1 L" by (rule keeps_trans [OF _ m(2)]) (use buffer(6) in auto)
      have r: "realloc (aheap f') NULL ?n = Some (h1, p)" using m(1) by (simp add: realloc_def)
      show ?thesis
      proof (cases "p = NULL")
        case True
        then show ?thesis using r buffer(3) k m(3) by (auto simp: go w asprintf_result_def)
      next
        case False
        have "bytes_at (hmem h1) p (text_bytes out)" using buffer(4) by (simp add: bytes_at_iff)
        then show ?thesis using False vasprintf_end [OF _ _ k lb, of p] r m(3) buffer(3) by (auto simp: go w)
      qed
    qed
  next
    fix f' assume run: "vfprintf file_str_put_alloc True fmt ap (setup_string_alloc h) = Some (f', True, - 1)"
      and st: "stopped file_str_put_alloc ?rep (2 ^ 32) [] out f'"
    obtain cs where cs: "length cs < 2 ^ 32" "alloc_rep h L {} NULL 0 cs f'" using stopped_rep [OF st] by blast
    show ?thesis
    proof (cases rule: alloc_repD [OF cs(2) z cs(1), case_names own buffer])
      case (own c)
      then obtain h2 where "malloc_free (aheap f') c = Some h2" "no_block h h2 L" "keeps (aheap f') h2 L"
        using own_free by blast
      then show ?thesis using run own keeps_trans [of h "aheap f'" L h2 L] by (auto simp: vasprintf_def asprintf_result_def)
    next
      case buffer
      then show ?thesis using run by (auto simp: vasprintf_def asprintf_result_def)
    qed
  qed
qed

text \<open>
  What \<open>vasnprintf\<close> returns: the caller's buffer when the text and its terminator fit,
  else a block of its own; or NULL and no block.
\<close>

definition asnprintf_result :: "heap \<Rightarrow> chunk set \<Rightarrow> chunk set \<Rightarrow> addr \<Rightarrow> u64 \<Rightarrow> string \<Rightarrow> heap \<Rightarrow> addr \<Rightarrow> u64 \<Rightarrow> bool" where
  "asnprintf_result h L X str n out h' ret len \<longleftrightarrow> keeps h h' (L - X) \<and>
     (if ret = NULL then len = n \<and> no_block h h' L
      else len = of_nat (length out) \<and> bytes_at (hmem h') ret (text_bytes out @ [0]) \<and>
        (if length out < unat n then ret = str \<and> no_block h h' L
         else \<exists>k. length out < unat k \<and> own_block h h' L ret k))"

lemma vasnprintf_main:
  assumes inv: "heap_inv h fs L" and X: "buffer_in X L str (unat n)" and str: "str \<noteq> NULL" "unat n < 2 ^ 32"
    and f: "format_text fmt ap = Some out" and len: "int (length out) < INT_MAX"
  shows "\<exists>h' ret len. vasnprintf h str n fmt ap = Some (h', ret, len) \<and> asnprintf_result h L X str n out h' ret len"
proof -
  let ?rep = "\<lambda>cs f. buffer_in X L str (unat n) \<and> unat n < 2 ^ 32 \<and> alloc_rep h L X str (unat n) cs f"
  have lb: "length out < 2 ^ 31" using len by (simp add: range_defs)
  have ck: "ck32 (int (length out) + 1) = Some (int (length out) + 1)" using len by (simp add: ck32_def range_defs)
  have start: "?rep [] (setup_string_alloc_buf h str n)"
    using inv X str(2) by (auto simp: alloc_rep_def no_block_def setup_string_alloc_buf_def bytes_at_iff)
  have failed: "\<exists>h' ret len. do { h \<leftarrow> (if aalloc f' then malloc_free (aheap f') (aend f' - unat (asize f')) else Some (aheap f'));
       Some (h, NULL, n) } = Some (h', ret, len) \<and> asnprintf_result h L X str n out h' ret len"
    if "alloc_rep h L X str (unat n) cs f'" "length cs < 2 ^ 32" for cs f'
  proof (cases rule: alloc_repD [OF that(1) str(2) that(2), case_names own buffer])
    case (own c)
    then obtain h2 where "malloc_free (aheap f') c = Some h2" "no_block h h2 L" "keeps (aheap f') h2 L"
      using own_free by blast
    then show ?thesis using own keeps_trans [OF own(7) keeps_subset, of h2 L "L - X"] by (auto simp: asnprintf_result_def)
  next
    case buffer
    then show ?thesis by (auto simp: asnprintf_result_def)
  qed
  have "(\<exists>f'. vfprintf file_str_put_alloc True fmt ap (setup_string_alloc_buf h str n) = Some (f', False, int (length out)) \<and> ?rep out f')
    \<or> (\<exists>f'. vfprintf file_str_put_alloc True fmt ap (setup_string_alloc_buf h str n) = Some (f', True, - 1)
      \<and> stopped file_str_put_alloc ?rep (2 ^ 32) [] out f')"
    using lb len by (intro growing.vfprintf_rep [OF f start]) simp_all
  then show ?thesis
  proof (elim disjE exE conjE)
    fix f' assume run: "vfprintf file_str_put_alloc True fmt ap (setup_string_alloc_buf h str n) = Some (f', True, - 1)"
      and st: "stopped file_str_put_alloc ?rep (2 ^ 32) [] out f'"
    obtain cs where cs: "length cs < 2 ^ 32" "alloc_rep h L X str (unat n) cs f'" using stopped_rep [OF st] by blast
    then show ?thesis using failed [OF cs(2,1)] by (simp add: vasnprintf_def run Let_def)
  next
    fix f1 assume run: "vfprintf file_str_put_alloc True fmt ap (setup_string_alloc_buf h str n) = Some (f1, False, int (length out))"
      and rep: "alloc_rep h L X str (unat n) out f1"
    from alloc_put [OF rep X str(2), of "CHR 0x00"] lb
    have "(\<exists>f'. file_str_put_alloc CHR 0x00 f1 = Some (f', True) \<and> alloc_rep h L X str (unat n) (out @ [CHR 0x00]) f')
      \<or> (\<exists>f'. file_str_put_alloc CHR 0x00 f1 = Some (f', False) \<and> alloc_rep h L X str (unat n) out f')" by simp
    then show ?thesis
    proof (elim disjE exE conjE)
      fix f' assume p: "file_str_put_alloc CHR 0x00 f1 = Some (f', False)" and rep: "alloc_rep h L X str (unat n) out f'"
      then show ?thesis using failed [OF rep] lb by (simp add: vasnprintf_def run putc_def Let_def)
    next
      fix f' assume p: "file_str_put_alloc CHR 0x00 f1 = Some (f', True)" and rep: "alloc_rep h L X str (unat n) (out @ [CHR 0x00]) f'"
      have tb: "text_bytes (out @ [CHR 0x00]) = text_bytes out @ [0]" by simp
      have ob: "length (out @ [CHR 0x00]) < 2 ^ 32" using lb by simp
      let ?n = "of_nat (length out) + 1 :: u64"
      have u: "unat ?n = length out + 1" by (rule unat_next [OF lb])
      have nz: "?n \<noteq> 0" using u by (metis Suc_eq_plus1 nat.distinct(1) unat_0)
      have mx: "?n \<le> MALLOC_ALLOC_MAX" using u lb by (intro size_max) simp
      note go = vasnprintf_def run putc_def Let_def p ck
      show ?thesis
      proof (cases rule: alloc_repD [OF rep str(2) ob, case_names own buffer])
        case buffer
        then show ?thesis using str(1) by (auto simp: go asnprintf_result_def tb)
      next
        case (own c)
        have c0: "c \<noteq> NULL" using own(2) by (simp add: own_block_def)
        obtain h1 p where r: "realloc (aheap f') c ?n = Some (h1, p)" "keeps (aheap f') h1 L"
          "if p = NULL then own_block h h1 L c (asize f') \<and> bytes_at (hmem h1) c (text_bytes (out @ [CHR 0x00]))
           else own_block h h1 L p ?n \<and> bytes_at (hmem h1) p (text_bytes (out @ [CHR 0x00]))"
          using own_realloc [OF own(2,3,6) _ mx nz] own(5) u by auto
        have k: "keeps h h1 (L - X)" by (rule keeps_trans [OF own(7) keeps_subset [OF r(2)]]) auto
        let ?ret = "if p = NULL then c else p" and ?k = "if p = NULL then asize f' else ?n"
        have "own_block h h1 L ?ret ?k" "bytes_at (hmem h1) ?ret (text_bytes out @ [0])" "length out < unat ?k" "?ret \<noteq> NULL"
          using r(3) u own(5) c0 by (auto simp: tb split: if_splits)
        moreover have "vasnprintf h str n fmt ap = Some (h1, ?ret, of_nat (length out))"
          using own(1,4) r(1) by (simp add: go)
        moreover have "\<not> length out < unat n" using own(8) by simp
        ultimately show ?thesis using k by (auto simp: asnprintf_result_def)
      qed
    qed
  qed
qed

section \<open>Properties\<close>

text \<open>
  C30: \<open>asprintf\<close> and \<open>vasprintf\<close> on a well-formed heap, for any format: either it stores a pointer to
  a block of its own that holds the whole text and its terminator and returns the length,
  or it returns -1. In both cases the heap is well-formed, every other block in use has its contents
  and no memory is lost: all that was free or in use before, and all that was taken from an aligned break, is free, or in one of
  the blocks in use, or in the block returned; on failure there is no such block, so what had been allocated
  is free again.
\<close>

theorem asprintf_correct:
  assumes "heap_inv h fs L" and "format_text fmt ap = Some out" and "int (length out) < INT_MAX"
  shows "\<exists>h' strp i. vasprintf h fmt ap = Some (h', strp, i) \<and> keeps h h' L \<and>
    (case strp of
       Some p \<Rightarrow> i = int (length out) \<and> bytes_at (hmem h') p (text_bytes out @ [0])
         \<and> (\<exists>fs' k. heap_inv h' fs' (insert (p, k) L) \<and> (p, k) \<notin> L \<and> length out + 9 \<le> k
              \<and> no_loss h L h' (insert (p, k) L))
     | None \<Rightarrow> i = - 1 \<and> (\<exists>fs'. heap_inv h' fs' L) \<and> no_loss h L h' L)
    \<and> asprintf h fmt ap = Some (h', strp, i)"
proof -
  obtain h' strp i where r: "vasprintf h fmt ap = Some (h', strp, i)" "asprintf_result h L out h' strp i"
    using vasprintf_main [OF assms] by blast
  have lb: "length out < 2 ^ 31" using assms(3) by (simp add: range_defs)
  have u: "unat (of_nat (length out) + 1 :: u64) = length out + 1" by (rule unat_next [OF lb])
  have "length out + 9 \<le> unat (chunk_size (of_nat (length out) + 1))"
    using chunk_size_ok(2) [OF size_max, of "of_nat (length out) + 1"] u lb by simp
  moreover have "asprintf h fmt ap = vasprintf h fmt ap" by (simp add: asprintf_def vasprintf_def)
  ultimately show ?thesis using r
    by (intro exI [of _ h'] exI [of _ strp] exI [of _ i])
       (cases strp; simp add: asprintf_result_def own_block_def no_block_def; blast)
qed

theorem asprintf_correct_witness:
  "\<exists>h' strp i. vasprintf sample_heap ''a%%b'' [] = Some (h', strp, i) \<and> keeps sample_heap h' {(32, 32)}
    \<and> (i = 3 \<or> i = - 1)"
proof -
  have f: "format_text ''a%%b'' [] = Some ''a%b''" by (simp add: format_text.simps deref_def)
  show ?thesis using asprintf_correct [OF sample_inv f] by (auto simp: range_defs split: option.splits)
qed

text \<open>
  \<open>vasnprintf\<close> with a buffer inside a block in use: the text and its terminator end up in
  the buffer when they fit, else in a block of its own, and the length is stored; or it
  returns NULL, nothing leaks and the stored length stays. All other blocks keep their contents.
\<close>

theorem asnprintf_correct:
  assumes "heap_inv h fs L" and "(b, k) \<in> L" and "b \<le> str" and "str + unat n \<le> b - 8 + k" and "unat n < 2 ^ 32"
    and "format_text fmt ap = Some out" and "int (length out) < INT_MAX"
  shows "\<exists>h' ret len. vasnprintf h str n fmt ap = Some (h', ret, len) \<and> keeps h h' (L - {(b, k)}) \<and>
    (if ret = NULL then len = n \<and> (\<exists>fs'. heap_inv h' fs' L) \<and> no_loss h L h' L
     else len = of_nat (length out) \<and> bytes_at (hmem h') ret (text_bytes out @ [0]) \<and>
       (if length out < unat n then ret = str \<and> (\<exists>fs'. heap_inv h' fs' L) \<and> no_loss h L h' L
        else \<exists>fs' k. heap_inv h' fs' (insert (ret, k) L) \<and> (ret, k) \<notin> L \<and> no_loss h L h' (insert (ret, k) L)))"
proof -
  have X: "buffer_in {(b, k)} L str (unat n)" using assms(2-4) by (auto simp: buffer_in_def)
  have "8 < b" using inv_chunk(2) [OF assms(1), of "(b, k)"] assms(2) by simp
  then have "str \<noteq> NULL" using assms(3) by simp
  from vasnprintf_main [OF assms(1) X this assms(5-7)] obtain h' ret len where
    r: "vasnprintf h str n fmt ap = Some (h', ret, len)" "asnprintf_result h L {(b, k)} str n out h' ret len" by blast
  have "\<exists>fs' k. heap_inv h' fs' (insert (ret, k) L) \<and> (ret, k) \<notin> L \<and> no_loss h L h' (insert (ret, k) L)" if "own_block h h' L ret j" for j
    using that by (auto simp: own_block_def)
  then show ?thesis using r
    by (intro exI [of _ h'] exI [of _ ret] exI [of _ len]) (auto simp: asnprintf_result_def no_block_def split: if_splits)
qed

theorem asnprintf_correct_witness:
  "\<exists>h' ret len. vasnprintf sample_heap 32 24 ''a%%b'' [] = Some (h', ret, len) \<and> (ret = NULL \<or> ret = 32 \<and> len = 3)"
proof -
  have f: "format_text ''a%%b'' [] = Some ''a%b''" by (simp add: format_text.simps deref_def)
  show ?thesis using asnprintf_correct [OF sample_inv, of 32 32 32 24, OF _ _ _ _ f] by (force simp: range_defs)
qed

end
