(* ===== verification/Asctime.thy ===== *)
theory Asctime
  imports PrintfSpec LocalTime
begin

text \<open>
  The text of a time: \<open>asctime_r\<close>, which formats a broken-down time with the \<open>snprintf\<close> of
  \<open>Printf\<close>, and \<open>ctime_r\<close>, which applies it to the local time of \<open>TimeZone\<close>.
\<close>

section \<open>\<open>asctime_r\<close> and \<open>ctime_r\<close>\<close>

definition ASCTIME_SIZE :: u64 where "ASCTIME_SIZE = 26"

definition day_name :: "string list" where
  "day_name = [''Sun'', ''Mon'', ''Tue'', ''Wed'', ''Thu'', ''Fri'', ''Sat'']"

definition mon_name :: "string list" where
  "mon_name = [''Jan'', ''Feb'', ''Mar'', ''Apr'', ''May'', ''Jun'', ''Jul'', ''Aug'', ''Sep'', ''Oct'', ''Nov'', ''Dec'']"

text \<open>\<open>oob\<close> compares as \<open>unsigned\<close>, so a negative index is out of bounds, too.\<close>

definition valid :: "int \<Rightarrow> string list \<Rightarrow> string" where
  "valid x a = (if unat (word_of_int x :: u32) \<ge> length a then ''???'' else a ! unat (word_of_int x :: u32))"

definition asctime_fmt :: string where
  "asctime_fmt = ''%.3s %.3s%3d %.2d:%.2d:%.2d %d'' @ [CHR 0x0A]"

text \<open>The memory, the pointer returned and \<open>errno\<close>.\<close>

definition asctime_r :: "mem \<Rightarrow> tm \<Rightarrow> addr \<Rightarrow> (mem \<times> addr \<times> errno option) option" where
  "asctime_r m tim_p result = do {
     year \<leftarrow> ck32 (1900 + tm_year tim_p);
     (m, n) \<leftarrow> snprintf m result ASCTIME_SIZE asctime_fmt
       [VString (Some (valid (tm_wday tim_p) day_name)), VString (Some (valid (tm_mon tim_p) mon_name)),
        VInt (word_of_int (tm_mday tim_p)), VInt (word_of_int (tm_hour tim_p)), VInt (word_of_int (tm_min tim_p)),
        VInt (word_of_int (tm_sec tim_p)), VInt (word_of_int year)];
     Some (if n < 0 then (m, NULL, None)
           else if n \<ge> 26 then (m, NULL, Some EOVERFLOW)
           else (m, result, None)) }"

text \<open>
  The static buffer of \<open>asctime\<close> is a parameter.  \<open>ctime_r\<close> hands the result of \<open>localtime_r\<close> on
  without a test: a null pointer is dereferenced.
\<close>

definition asctime :: "addr \<Rightarrow> mem \<Rightarrow> tm \<Rightarrow> (mem \<times> addr \<times> errno option) option" where
  "asctime asctime_buf m tim_p = asctime_r m tim_p asctime_buf"

definition ctime_r :: "string option \<Rightarrow> mem \<Rightarrow> int \<Rightarrow> addr \<Rightarrow> tm \<Rightarrow> tzstate
    \<Rightarrow> ((mem \<times> addr \<times> errno option) \<times> tzstate) option" where
  "ctime_r env m tim result tm tz = do {
     (t, tz) \<leftarrow> localtime_r env tim tm tz;
     case t of
       None \<Rightarrow> None
     | Some t \<Rightarrow> do { r \<leftarrow> asctime_r m t result; Some (r, tz) } }"

section \<open>The text of a time\<close>

definition dec_text :: "int \<Rightarrow> string" where
  "dec_text v = (if v < 0 then ''-'' else []) @ numeral_str False 10 (nat \<bar>v\<bar>)"

definition two_digits :: "int \<Rightarrow> string" where
  "two_digits v = (let ds = numeral_str False 10 (nat \<bar>v\<bar>)
     in (if v < 0 then ''-'' else []) @ replicate (2 - length ds) CHR ''0'' @ ds)"

text \<open>The abbreviated names of the C standard; anything else prints as question marks.\<close>

definition weekday_text :: "int \<Rightarrow> string" where
  "weekday_text d = (
     if d = 0 then ''Sun'' else if d = 1 then ''Mon'' else if d = 2 then ''Tue'' else if d = 3 then ''Wed''
     else if d = 4 then ''Thu'' else if d = 5 then ''Fri'' else if d = 6 then ''Sat'' else ''???'')"

definition month_text :: "int \<Rightarrow> string" where
  "month_text k = (
     if k = 0 then ''Jan'' else if k = 1 then ''Feb'' else if k = 2 then ''Mar'' else if k = 3 then ''Apr''
     else if k = 4 then ''May'' else if k = 5 then ''Jun'' else if k = 6 then ''Jul'' else if k = 7 then ''Aug''
     else if k = 8 then ''Sep'' else if k = 9 then ''Oct'' else if k = 10 then ''Nov'' else if k = 11 then ''Dec''
     else ''???'')"

definition asctime_text :: "tm \<Rightarrow> string" where
  "asctime_text t = weekday_text (tm_wday t) @ '' '' @ month_text (tm_mon t) @ pad_text 3 False (dec_text (tm_mday t)) @ '' ''
     @ two_digits (tm_hour t) @ '':'' @ two_digits (tm_min t) @ '':'' @ two_digits (tm_sec t) @ '' ''
     @ dec_text (1900 + tm_year t) @ [CHR 0x0A]"

definition int_range :: "int \<Rightarrow> bool" where
  "int_range v \<longleftrightarrow> INT_MIN \<le> v \<and> v \<le> INT_MAX"

lemma u32_index:
  assumes "int_range x"
  shows "unat (word_of_int x :: u32) = (if 0 \<le> x then nat x else nat (x + 2 ^ 32))"
proof -
  have "x mod 2 ^ 32 = (if 0 \<le> x then x else x + 2 ^ 32)"
  proof (cases "0 \<le> x")
    case True
    then show ?thesis using assms by (simp add: int_range_def range_defs mod_pos_pos_trivial)
  next
    case False
    then have "(x + 2 ^ 32) mod 2 ^ 32 = x + 2 ^ 32"
      using assms by (intro mod_pos_pos_trivial) (simp_all add: int_range_def range_defs)
    then show ?thesis using False by simp
  qed
  then show ?thesis by (simp add: unat_eq_nat_uint uint_word_of_int)
qed

lemma valid_eq:
  assumes "int_range x" "length a < 2 ^ 31"
  shows "valid x a = (if 0 \<le> x \<and> x < int (length a) then a ! nat x else ''???'')"
  using assms u32_index [OF assms(1)] by (auto simp: valid_def int_range_def range_defs nat_less_iff)

lemma valid_names:
  assumes "int_range x"
  shows "valid x day_name = weekday_text x" "valid x mon_name = month_text x"
proof -
  have "x = 0 \<or> x = 1 \<or> x = 2 \<or> x = 3 \<or> x = 4 \<or> x = 5 \<or> x = 6" if "0 \<le> x" "x < 7" using that by presburger
  then show "valid x day_name = weekday_text x" using assms
    by (auto simp: valid_eq day_name_def weekday_text_def)
  have "x = 0 \<or> x = 1 \<or> x = 2 \<or> x = 3 \<or> x = 4 \<or> x = 5 \<or> x = 6 \<or> x = 7 \<or> x = 8 \<or> x = 9 \<or> x = 10 \<or> x = 11"
    if "0 \<le> x" "x < 12" using that by presburger
  then show "valid x mon_name = month_text x" using assms
    by (auto simp: valid_eq mon_name_def month_text_def)
qed

lemma name_length: "length (weekday_text x) = 3" "length (month_text x) = 3"
  by (simp_all add: weekday_text_def month_text_def)

lemma spec_eq:
  "spec_text [] None (Some 3) [] CHR ''s'' = ''%.3s''" "spec_text [] (Some 3) None [] CHR ''d'' = ''%3d''"
  "spec_text [] None (Some 2) [] CHR ''d'' = ''%.2d''" "spec_text [] None None [] CHR ''d'' = ''%d''"
  by code_simp+

lemma spec_fl:
  "spec_flags [] w p [] = no_pflags\<lparr>pf_width := w \<noteq> None, pf_prec := p \<noteq> None\<rparr>"
  by (simp add: spec_flags_def no_pflags_def)

lemma format_name:
  assumes "length s = 3"
  shows "format_text (''%.3s'' @ fmt) (VString (Some s) # ap) = map_option ((@) s) (format_text fmt ap)"
proof -
  have "directive CHR ''s'' (spec_flags [] None (Some 3) []) (opt_int None) (opt_int (Some 3)) (VString (Some s) # ap) = Some (s, ap)"
    using assms directive_string(1) [of 0 3 s "spec_flags [] None (Some 3) []" ap]
    by (simp add: spec_fl opt_int_def no_pflags_def pad_text_def range_defs)
  from format_spec_rest [of "[]" None "Some 3" "[]" "CHR ''s''", OF _ _ _ _ _ _ this, of fmt] show ?thesis
    unfolding spec_eq by (simp add: opt_int_def range_defs conv_letter_def less_eq_char_def size_modifiers_def)
qed

lemma format_int:
  assumes "w \<noteq> Some 0" "opt_int w \<le> 1000" "opt_int p \<le> 1000" "int_range v"
  shows "format_text (spec_text [] w p [] CHR ''d'' @ fmt) (VInt (word_of_int v) # ap)
    = map_option ((@) (int_text (spec_flags [] w p []) (opt_int w) (opt_int p) v)) (format_text fmt ap)"
proof (rule format_spec_rest)
  have "sint (word_of_int v :: u32) = v" using assms(4) by (subst sint32_eq_iff) (simp add: int_range_def range_defs)
  then have "scast (word_of_int v :: u32) = (word_of_int v :: u64)" by (metis of_int_sint)
  moreover have "sint (word_of_int v :: u64) = v"
    using assms(4) by (simp add: signed_of_int signed_take_bit_int_eq_self int_range_def range_defs)
  ultimately have "sint (scast (word_of_int v :: u32) :: u64) = v" by simp
  moreover have "arg_to_signed (spec_flags [] w p []) (VInt (word_of_int v) # ap) = Some (scast (word_of_int v :: u32), ap)"
    by (simp add: arg_to_signed_def spec_fl no_pflags_def)
  ultimately show "directive CHR ''d'' (spec_flags [] w p []) (opt_int w) (opt_int p) (VInt (word_of_int v) # ap)
      = Some (int_text (spec_flags [] w p []) (opt_int w) (opt_int p) v, ap)"
    using directive_signed [of "CHR ''d''" "spec_flags [] w p []" "VInt (word_of_int v) # ap" _ ap "opt_int w" "opt_int p"]
      spec_flags_neg spec_flags_prec spec_flags_prec(2) [of w] assms(3) by (fastforce simp: range_defs)
qed (use assms in \<open>auto simp: range_defs conv_letter_def less_eq_char_def size_modifiers_def\<close>)

lemma two: "nat (2 - int n) = 2 - n" by arith

lemma int_texts:
  "int_text (spec_flags [] None None []) (opt_int None) (opt_int None) v = dec_text v"
  "int_text (spec_flags [] (Some 3) None []) (opt_int (Some 3)) (opt_int None) v = pad_text 3 False (dec_text v)"
  "int_text (spec_flags [] None (Some 2) []) (opt_int None) (opt_int (Some 2)) v = two_digits v"
  using two [of "length (numeral_str False 10 (nat \<bar>v\<bar>))"]
  by (simp_all add: int_text_def spec_fl no_pflags_def opt_int_def number_text_def digits_text_def dec_text_def two_digits_def
      pad_text_def Let_def two)

lemma format_ints:
  assumes "int_range v"
  shows "format_text (''%d'' @ fmt) (VInt (word_of_int v) # ap) = map_option ((@) (dec_text v)) (format_text fmt ap)"
    "format_text (''%3d'' @ fmt) (VInt (word_of_int v) # ap) = map_option ((@) (pad_text 3 False (dec_text v))) (format_text fmt ap)"
    "format_text (''%.2d'' @ fmt) (VInt (word_of_int v) # ap) = map_option ((@) (two_digits v)) (format_text fmt ap)"
  using format_int [of None None v fmt ap] format_int [of "Some 3" None v fmt ap] format_int [of None "Some 2" v fmt ap] assms
  unfolding spec_eq int_texts by (simp_all add: opt_int_def)

lemma format_literals:
  "format_text (CHR '' '' # fmt) ap = map_option ((#) CHR '' '') (format_text fmt ap)"
  "format_text (CHR '':'' # fmt) ap = map_option ((#) CHR '':'') (format_text fmt ap)"
  "format_text [CHR 0x0A] ap = Some [CHR 0x0A]"
  by (simp_all add: format_char)

definition tm_ints :: "tm \<Rightarrow> bool" where
  "tm_ints t \<longleftrightarrow> int_range (tm_wday t) \<and> int_range (tm_mon t) \<and> int_range (tm_mday t) \<and> int_range (tm_hour t) \<and> int_range (tm_min t) \<and> int_range (tm_sec t)
     \<and> int_range (1900 + tm_year t)"

lemma asctime_fmt_split:
  "asctime_fmt = ''%.3s'' @ CHR '' '' # ''%.3s'' @ ''%3d'' @ CHR '' '' # ''%.2d'' @ CHR '':'' # ''%.2d'' @ CHR '':'' # ''%.2d'' @ CHR '' '' # ''%d'' @ [CHR 0x0A]"
  by (simp add: asctime_fmt_def)

lemma format_asctime:
  assumes "tm_ints t"
  shows "format_text asctime_fmt
       [VString (Some (valid (tm_wday t) day_name)), VString (Some (valid (tm_mon t) mon_name)),
        VInt (word_of_int (tm_mday t)), VInt (word_of_int (tm_hour t)), VInt (word_of_int (tm_min t)),
        VInt (word_of_int (tm_sec t)), VInt (word_of_int (1900 + tm_year t))] = Some (asctime_text t)"
proof -
  have w: "int_range (tm_wday t)" "int_range (tm_mon t)" using assms by (simp_all add: tm_ints_def)
  have i: "int_range (tm_mday t)" "int_range (tm_hour t)" "int_range (tm_min t)" "int_range (tm_sec t)" "int_range (1900 + tm_year t)"
    using assms by (simp_all add: tm_ints_def)
  show ?thesis
    unfolding asctime_fmt_split asctime_text_def valid_names(1) [OF w(1)] valid_names(2) [OF w(2)]
    by (simp only: format_name name_length format_literals format_ints(2) [OF i(1)] format_ints(3) [OF i(2)]
        format_ints(3) [OF i(3)] format_ints(3) [OF i(4)] format_ints(1) [OF i(5)] option.map)
       simp
qed

lemma asctime_r_main:
  assumes t: "tm_ints t" and m: "mapped m s 26" and len: "int (length (asctime_text t)) \<le> INT_MAX"
  shows "asctime_r m t s = Some (put_bytes m s (text_bytes (take 25 (asctime_text t)) @ [0]),
    if length (asctime_text t) \<le> 25 then (s, None) else (NULL, Some EOVERFLOW))"
proof -
  have "ck32 (1900 + tm_year t) = Some (1900 + tm_year t)" using t by (simp add: tm_ints_def int_range_def ck32_def)
  moreover have "vsnprintf m s ASCTIME_SIZE asctime_fmt
       [VString (Some (valid (tm_wday t) day_name)), VString (Some (valid (tm_mon t) mon_name)),
        VInt (word_of_int (tm_mday t)), VInt (word_of_int (tm_hour t)), VInt (word_of_int (tm_min t)),
        VInt (word_of_int (tm_sec t)), VInt (word_of_int (1900 + tm_year t))]
     = Some (put_bytes m s (text_bytes (take 25 (asctime_text t)) @ [0]), int (length (asctime_text t)))"
    using vsnprintf_ok [OF format_asctime [OF t] len, of m s ASCTIME_SIZE] m by (simp add: ASCTIME_SIZE_def)
  ultimately show ?thesis by (simp add: asctime_r_def snprintf_eq)
qed

lemma numeral_str_min: "b ^ k \<le> n \<Longrightarrow> 2 \<le> b \<Longrightarrow> k < length (numeral_str up b n)"
proof (induction k arbitrary: n)
  case 0
  then show ?case by (subst numeral_str.simps) simp
next
  case (Suc k)
  have "b ^ k \<le> n div b" using Suc.prems by (simp add: less_eq_div_iff_mult_less_eq mult.commute)
  moreover have "b \<le> b * b ^ k" using Suc.prems(2) by simp
  then have "b \<le> n" using Suc.prems(1) by (metis order_trans power_Suc)
  ultimately show ?case using Suc.IH [of "n div b"] Suc.prems(2) by (subst numeral_str.simps) simp
qed

lemma numeral_length:
  "n < 10 \<Longrightarrow> length (numeral_str up 10 n) = 1" "10 \<le> n \<Longrightarrow> n < 100 \<Longrightarrow> length (numeral_str up 10 n) = 2"
  "1000 \<le> n \<Longrightarrow> n < 10000 \<Longrightarrow> length (numeral_str up 10 n) = 4" "10000 \<le> n \<Longrightarrow> 4 < length (numeral_str up 10 n)"
proof -
  show "n < 10 \<Longrightarrow> length (numeral_str up 10 n) = 1" by (simp add: numeral_str.simps)
  show "length (numeral_str up 10 n) = 2" if "10 \<le> n" "n < 100"
    using that numeral_str_length [of n 10 1 up] numeral_str_min [of 10 1 n up] by simp
  show "length (numeral_str up 10 n) = 4" if "1000 \<le> n" "n < 10000"
    using that numeral_str_length [of n 10 3 up] numeral_str_min [of 10 3 n up] by simp
  show "10000 \<le> n \<Longrightarrow> 4 < length (numeral_str up 10 n)" using numeral_str_min [of 10 4 n up] by simp
qed

lemma dec_text_length:
  "0 \<le> v \<Longrightarrow> v < 10 \<Longrightarrow> length (dec_text v) = 1" "10 \<le> v \<Longrightarrow> v < 100 \<Longrightarrow> length (dec_text v) = 2"
  "1000 \<le> v \<Longrightarrow> v < 10000 \<Longrightarrow> length (dec_text v) = 4" "10000 \<le> v \<Longrightarrow> 4 < length (dec_text v)"
  using numeral_length [of "nat v" False] by (simp_all add: dec_text_def le_nat_iff nat_less_iff)

lemma two_digits_length: "0 \<le> v \<Longrightarrow> v < 100 \<Longrightarrow> length (two_digits v) = 2"
  using numeral_length(1,2) [of "nat v" False]
  by (cases "v < 10") (simp_all add: two_digits_def Let_def le_nat_iff nat_less_iff)

lemma asctime_text_length:
  assumes "tm_normal t"
  shows "length (asctime_text t) = 21 + length (dec_text (1900 + tm_year t))"
proof -
  have d: "1 \<le> tm_mday t" "tm_mday t \<le> 31"
    using assms by (auto simp: tm_normal_def month_lengths_def nth_Cons' split: if_splits)
  then have "length (pad_text 3 False (dec_text (tm_mday t))) = 3"
    using dec_text_length(1,2) [of "tm_mday t"] by (cases "tm_mday t < 10") (auto simp: pad_text_def)
  then show ?thesis using assms two_digits_length
    by (simp add: asctime_text_def name_length tm_normal_def)
qed


text \<open>
  C38: \<open>asctime_r\<close> writes the 25 characters of a time (\<open>Wed Jun 15 11:38:07 1988\<close> and a newline) and the
  terminator; when the text is longer, as it is from the year 10000 on, it is cut to the buffer and NULL is
  returned with \<open>EOVERFLOW\<close>. A weekday other than 0 to 6 (Sun to Sat) or a month
  other than 0 to 11 (Jan to Dec) prints as question marks.
\<close>

theorem asctime_r_correct:
  assumes "tm_ints t" and "mapped m s 26" and "int (length (asctime_text t)) \<le> INT_MAX"
  shows "asctime_r m t s = Some (put_bytes m s (text_bytes (take 25 (asctime_text t)) @ [0]),
      if length (asctime_text t) \<le> 25 then (s, None) else (NULL, Some EOVERFLOW))
    \<and> (tm_normal t \<and> 1000 \<le> 1900 + tm_year t \<longrightarrow> (length (asctime_text t) \<le> 25 \<longleftrightarrow> 1900 + tm_year t < 10000))"
proof -
  have "length (asctime_text t) \<le> 25 \<longleftrightarrow> 1900 + tm_year t < 10000" if "tm_normal t" "1000 \<le> 1900 + tm_year t"
    using asctime_text_length [OF that(1)] that(2) dec_text_length(3,4) [of "1900 + tm_year t"]
    by (cases "1900 + tm_year t < 10000") auto
  then show ?thesis using asctime_r_main [OF assms] by blast
qed

theorem asctime_r_correct_witness:
  "asctime_r page (fst (gmtime_r 582377887 tm0)) 16
    = Some (put_bytes page 16 (text_bytes (''Wed Jun 15 11:38:07 1988'' @ [CHR 0x0A]) @ [0]), 16, None)"
proof -
  let ?t = "fst (gmtime_r 582377887 tm0)"
  have t: "asctime_text ?t = ''Wed Jun 15 11:38:07 1988'' @ [CHR 0x0A]" "tm_ints ?t" by code_simp+
  have "mapped page 16 26" by (rule page_mapped) simp
  from asctime_r_correct [OF t(2) this] t(1) show ?thesis by (simp add: range_defs)
qed

lemma local_year:
  assumes "tm_normal r" "\<bar>tm_time r - t\<bar> \<le> 86400" "in_year t Y"
  shows "Y - 1 \<le> tm_year r + 1900 \<and> tm_year r + 1900 \<le> Y + 1"
proof -
  let ?y = "tm_year r + 1900"
  have "jan1 ?y \<le> tm_days r \<and> tm_days r < jan1 (?y + 1)"
    using assms(1) unfolding tm_days_def tm_normal_def by (intro civil_year_bounds) auto
  then have y: "jan1 ?y \<le> tm_days r" "tm_days r < jan1 (?y + 1)" by simp_all
  have s: "tm_days r * 86400 \<le> tm_time r" "tm_time r < tm_days r * 86400 + 86400"
    using assms(1) by (auto simp: tm_time_def tm_normal_def)
  have "tm_days r * 86400 < t + 86401" "t - 86400 < tm_days r * 86400 + 86400" using s assms(2) by linarith+
  moreover have "t div 86400 * 86400 \<le> t" "t < t div 86400 * 86400 + 86400"
    by (simp_all add: minus_mod_eq_div_mult [symmetric])
  ultimately have d: "tm_days r \<le> t div 86400 + 1" "t div 86400 - 1 \<le> tm_days r" by linarith+
  have a: "jan1 Y \<le> t div 86400" "t div 86400 < jan1 (Y + 1)" using assms(3) by (simp_all add: in_year_def)
  have "jan1 (Y - 1) + 365 \<le> jan1 Y" "jan1 (Y + 1) + 365 \<le> jan1 (Y + 2)" by (rule jan1_mono; simp)+
  then have "jan1 (Y - 1) < jan1 (?y + 1)" "jan1 ?y < jan1 (Y + 2)" using a d y by linarith+
  then show ?thesis by (simp add: jan1_less_iff)
qed

text \<open>
  C39: \<open>ctime_r\<close> of a time in the years 1001 to 9998, in any zone whose offsets are at most a day,
  returns the buffer, which holds the 25 characters of the local time and the terminator:
  the normalised fields that denote the time minus the offset in force.
\<close>

theorem ctime_r_correct:
  assumes "zone env = Some (std, dst, r0, r1)" "offsets_ok r0 r1" "cache_ok tz"
    and "in_year t Y" "1001 \<le> Y" "Y \<le> 9998" "mapped m s 26"
  shows "\<exists>r tz'. ctime_r env m t s res tz = Some ((put_bytes m s (text_bytes (asctime_text r) @ [0]), s, None), tz')
    \<and> length (asctime_text r) = 25 \<and> cache_ok tz' \<and> tm_normal r \<and> tm_derived r
    \<and> tm_isdst r = isdst_at r0 r1 Y t \<and> tm_time r = t - offset_of r0 r1 (tm_isdst r)"
proof -
  obtain r tz' where r: "localtime_r env t res tz = Some (Some r, tz')" "cache_ok tz'" "tm_normal r" "tm_derived r"
    "tm_isdst r = isdst_at r0 r1 Y t" "tm_time r = t - offset_of r0 r1 (tm_isdst r)"
    using localtime_r_main [OF assms(1-4), of res] assms(5,6) by auto
  have "\<bar>tm_time r - t\<bar> \<le> 86400" using r(6) assms(2) by (auto simp: offset_of_def offsets_ok_def)
  from local_year [OF r(3) this assms(4)] have y: "1000 \<le> 1900 + tm_year r" "1900 + tm_year r < 10000" using assms(5,6) by auto
  have len: "length (asctime_text r) = 25" using asctime_text_length [OF r(3)] dec_text_length(3) [OF y] by simp
  have "tm_mday r \<le> 31" using r(3) by (auto simp: tm_normal_def month_lengths_def nth_Cons' split: if_splits)
  moreover have "0 \<le> tm_wday r" "tm_wday r < 7" using r(4) by (simp_all add: tm_derived_def)
  ultimately have "tm_ints r" using r(3) y by (auto simp: tm_ints_def int_range_def tm_normal_def range_defs)
  from asctime_r_main [OF this assms(7)] len have "asctime_r m r s = Some (put_bytes m s (text_bytes (asctime_text r) @ [0]), s, None)"
    by (simp add: range_defs)
  then show ?thesis using r len by (auto simp: ctime_r_def)
qed

theorem ctime_r_correct_witness:
  "\<exists>r tz'. ctime_r (Some ''EST5EDT,M3.2.0,M11.1.0'') page 1710054000 16 tm0 tz_init
      = Some ((put_bytes page 16 (text_bytes (asctime_text r) @ [0]), 16, None), tz')
    \<and> length (asctime_text r) = 25 \<and> tm_time r = 1710054000 - 14400"
proof -
  let ?r0 = "\<lparr>r_ch = CHR ''M'', r_m = 3, r_n = 2, r_d = 0, r_s = 7200, r_change = 0, r_offset = 18000\<rparr>"
  let ?r1 = "\<lparr>r_ch = CHR ''M'', r_m = 11, r_n = 1, r_d = 0, r_s = 7200, r_change = 0, r_offset = 14400\<rparr>"
  have h: "offsets_ok ?r0 ?r1" "cache_ok tz_init" "in_year 1710054000 2024"
    "isdst_at ?r0 ?r1 2024 1710054000 = 1" by code_simp+
  have "mapped page 16 26" by (rule page_mapped) simp
  from ctime_r_correct [OF zone_new_york h(1,2,3) _ _ this, of tm0] h(4) show ?thesis
    by (auto simp: offset_of_def)
qed

text \<open>
  C40: for a time whose year does not fit \<open>int\<close>, \<open>localtime_r\<close> returns NULL and \<open>ctime_r\<close> passes it on to
  \<open>asctime_r\<close>, which reads through it.
\<close>

theorem ctime_r_null:
  assumes "\<not> day_fits (t div 86400)"
  shows "localtime_r env t res tz = Some (None, tz) \<and> ctime_r env m t s res tz = None"
proof -
  obtain r where "gmtime_r t res = (r, day_fits (t div 86400))" by (rule gmtime_r_cases [of t res])
  then have "gmtime_r t res = (r, False)" using assms by simp
  then show ?thesis by (simp add: localtime_r_def ctime_r_def)
qed

theorem ctime_r_null_witness: "ctime_r None page (2 ^ 62) 16 tm0 tz_init = None"
proof -
  have "\<not> day_fits (2 ^ 62 div 86400)" by code_simp
  from ctime_r_null [OF this] show ?thesis by blast
qed

end
