(* ===== verification/Qsort.thy ===== *)
theory Qsort
  imports MemScan "HOL-Library.Multiset"
begin

text \<open>
  Sorting and searching of \<open>libc/search\<close>: \<open>qsort\<close> (\<open>qsort.c\<close>, Bentley and McIlroy's
  quicksort with a stack of parameters) and \<open>bsearch\<close> (\<open>bsearch.c\<close>).  The array is a range of
  memory; the comparison function of the caller is an argument, which may read the
  memory and may fault.  Pointers are addresses, as in the code, and the elements are exchanged by words
  or bytes as the alignment of the array and the size of an element allow.
\<close>

section \<open>Exchanging elements\<close>

type_synonym compar = "mem \<Rightarrow> addr \<Rightarrow> addr \<Rightarrow> int option"

text \<open>
  The macro \<open>swapcode\<close> for a type of \<open>w\<close> bytes with its load and store.  The loop tests \<open>--i > 0\<close>
  at its end: from zero the counter would wrap and the loop run through all of memory.
\<close>

fun swapcode ::
  "(mem \<Rightarrow> addr \<Rightarrow> 'w option) \<Rightarrow> (mem \<Rightarrow> addr \<Rightarrow> 'w \<Rightarrow> mem option) \<Rightarrow> nat \<Rightarrow> mem \<Rightarrow> addr \<Rightarrow> addr \<Rightarrow> nat \<Rightarrow> mem option" where
  "swapcode ld st w m pi pj 0 = None"
| "swapcode ld st w m pi pj (Suc i) = do {
     t \<leftarrow> ld m pi;
     u \<leftarrow> ld m pj;
     m \<leftarrow> st m pi u;
     m \<leftarrow> st m pj t;
     if i > 0 then swapcode ld st w m (pi + w) (pj + w) i else Some m }"

definition swapinit :: "nat \<Rightarrow> addr \<Rightarrow> nat \<Rightarrow> nat" where
  "swapinit w a es = (if a mod w \<noteq> 0 \<or> es mod w \<noteq> 0 then 2 else if es = w then 0 else 1)"

definition swapfunc :: "mem \<Rightarrow> addr \<Rightarrow> addr \<Rightarrow> nat \<Rightarrow> nat \<Rightarrow> nat \<Rightarrow> mem option" where
  "swapfunc m a b n swaptype_ulong swaptype_uint =
     (if swaptype_ulong \<le> 1 then swapcode load64 store64 8 m a b (n div 8)
      else if swaptype_uint \<le> 1 then swapcode load32 store32 4 m a b (n div 4)
      else swapcode load8 store8 1 m a b n)"

definition swap :: "nat \<Rightarrow> nat \<Rightarrow> nat \<Rightarrow> mem \<Rightarrow> addr \<Rightarrow> addr \<Rightarrow> mem option" where
  "swap es ul ui m a b =
     (if ul = 0 then do {
        t \<leftarrow> load64 m a; u \<leftarrow> load64 m b; m \<leftarrow> store64 m a u; store64 m b t
      } else if ui = 0 then do {
        t \<leftarrow> load32 m a; u \<leftarrow> load32 m b; m \<leftarrow> store32 m a u; store32 m b t
      } else swapfunc m a b es ul ui)"

definition vecswap :: "nat \<Rightarrow> nat \<Rightarrow> mem \<Rightarrow> addr \<Rightarrow> addr \<Rightarrow> nat \<Rightarrow> mem option" where
  "vecswap ul ui m a b n = (if n > 0 then swapfunc m a b n ul ui else Some m)"

definition med3 :: "compar \<Rightarrow> mem \<Rightarrow> addr \<Rightarrow> addr \<Rightarrow> addr \<Rightarrow> addr option" where
  "med3 cmp m a b c = do {
     x \<leftarrow> cmp m a b;
     if x < 0 then do {
       y \<leftarrow> cmp m b c;
       if y < 0 then Some b else do { z \<leftarrow> cmp m a c; Some (if z < 0 then c else a) }
     } else do {
       y \<leftarrow> cmp m b c;
       if y > 0 then Some b else do { z \<leftarrow> cmp m a c; Some (if z < 0 then a else c) } } }"

section \<open>Insertion sort\<close>

partial_function (option) insert_down :: "compar \<Rightarrow> nat \<Rightarrow> nat \<Rightarrow> nat \<Rightarrow> mem \<Rightarrow> addr \<Rightarrow> addr \<Rightarrow> mem option" where
  "insert_down cmp es ul ui m a pl =
     (if pl > a then do {
        c \<leftarrow> cmp m (pl - es) pl;
        if c > 0 then do {
          m \<leftarrow> swap es ul ui m pl (pl - es);
          insert_down cmp es ul ui m a (pl - es) }
        else Some m }
      else Some m)"

partial_function (option) insertion_sort ::
  "compar \<Rightarrow> nat \<Rightarrow> nat \<Rightarrow> nat \<Rightarrow> mem \<Rightarrow> addr \<Rightarrow> nat \<Rightarrow> addr \<Rightarrow> mem option" where
  "insertion_sort cmp es ul ui m a n pm =
     (if pm < a + n * es then do {
        m \<leftarrow> insert_down cmp es ul ui m a pm;
        insertion_sort cmp es ul ui m a n (pm + es) }
      else Some m)"

section \<open>Partitioning\<close>

text \<open>The pivot stands at \<open>a\<close>.  The results are the memory, the moved pointers and \<open>swap_cnt\<close>.\<close>

partial_function (option) scan_left ::
  "compar \<Rightarrow> nat \<Rightarrow> nat \<Rightarrow> nat \<Rightarrow> mem \<Rightarrow> addr \<Rightarrow> addr \<Rightarrow> addr \<Rightarrow> addr \<Rightarrow> bool \<Rightarrow> (mem \<times> addr \<times> addr \<times> bool) option" where
  "scan_left cmp es ul ui m a pa pb pc swap_cnt =
     (if pb \<le> pc then do {
        cmp_result \<leftarrow> cmp m pb a;
        if cmp_result \<le> 0 then
          (if cmp_result = 0 then do {
             m \<leftarrow> swap es ul ui m pa pb;
             scan_left cmp es ul ui m a (pa + es) (pb + es) pc True }
           else scan_left cmp es ul ui m a pa (pb + es) pc swap_cnt)
        else Some (m, pa, pb, swap_cnt) }
      else Some (m, pa, pb, swap_cnt))"

partial_function (option) scan_right ::
  "compar \<Rightarrow> nat \<Rightarrow> nat \<Rightarrow> nat \<Rightarrow> mem \<Rightarrow> addr \<Rightarrow> addr \<Rightarrow> addr \<Rightarrow> addr \<Rightarrow> bool \<Rightarrow> (mem \<times> addr \<times> addr \<times> bool) option" where
  "scan_right cmp es ul ui m a pb pc pd swap_cnt =
     (if pb \<le> pc then do {
        cmp_result \<leftarrow> cmp m pc a;
        if cmp_result \<ge> 0 then
          (if cmp_result = 0 then do {
             m \<leftarrow> swap es ul ui m pc pd;
             scan_right cmp es ul ui m a pb (pc - es) (pd - es) True }
           else scan_right cmp es ul ui m a pb (pc - es) pd swap_cnt)
        else Some (m, pc, pd, swap_cnt) }
      else Some (m, pc, pd, swap_cnt))"

partial_function (option) partition_loop ::
  "compar \<Rightarrow> nat \<Rightarrow> nat \<Rightarrow> nat \<Rightarrow> mem \<Rightarrow> addr \<Rightarrow> addr \<Rightarrow> addr \<Rightarrow> addr \<Rightarrow> addr \<Rightarrow> bool
    \<Rightarrow> (mem \<times> addr \<times> addr \<times> addr \<times> addr \<times> bool) option" where
  "partition_loop cmp es ul ui m a pa pb pc pd swap_cnt = do {
     (m, pa, pb, swap_cnt) \<leftarrow> scan_left cmp es ul ui m a pa pb pc swap_cnt;
     (m, pc, pd, swap_cnt) \<leftarrow> scan_right cmp es ul ui m a pb pc pd swap_cnt;
     if pb > pc then Some (m, pa, pb, pc, pd, swap_cnt)
     else do {
       m \<leftarrow> swap es ul ui m pb pc;
       partition_loop cmp es ul ui m a pa (pb + es) (pc - es) pd True } }"

definition choose_pivot :: "compar \<Rightarrow> nat \<Rightarrow> mem \<Rightarrow> addr \<Rightarrow> nat \<Rightarrow> addr option" where
  "choose_pivot cmp es m a n = (
     let pm = a + (n div 2) * es
     in if n > 7 then
          (let pl = a; pn = a + (n - 1) * es
           in if n > 40 then
                (let d = (n div 8) * es
                 in do {
                   pl \<leftarrow> med3 cmp m pl (pl + d) (pl + 2 * d);
                   pm \<leftarrow> med3 cmp m (pm - d) pm (pm + d);
                   pn \<leftarrow> med3 cmp m (pn - 2 * d) (pn - d) pn;
                   med3 cmp m pl pm pn })
              else med3 cmp m pl pm pn)
        else Some pm)"

section \<open>The sort\<close>

definition PARAMETER_STACK_LEVELS :: nat where "PARAMETER_STACK_LEVELS = 8"

text \<open>
  One pass over a part of the array, from the label \<open>loop\<close> to the choice of what is sorted next: the part is sorted
  (\<open>None\<close>), or base and size in bytes of the smaller and of the larger part remain.
\<close>

definition qsort_pass ::
  "compar \<Rightarrow> nat \<Rightarrow> nat \<Rightarrow> nat \<Rightarrow> mem \<Rightarrow> addr \<Rightarrow> nat \<Rightarrow> (mem \<times> (addr \<times> nat \<times> addr \<times> nat) option) option" where
  "qsort_pass cmp es ul ui m a n =
     (if n < 7 then do { m \<leftarrow> insertion_sort cmp es ul ui m a n (a + es); Some (m, None) }
      else do {
        pm \<leftarrow> choose_pivot cmp es m a n;
        m \<leftarrow> swap es ul ui m a pm;
        (m, pa, pb, pc, pd, swap_cnt) \<leftarrow>
          partition_loop cmp es ul ui m a (a + es) (a + es) (a + (n - 1) * es) (a + (n - 1) * es) False;
        if \<not> swap_cnt then do { m \<leftarrow> insertion_sort cmp es ul ui m a n (a + es); Some (m, None) }
        else do {
          let pn = a + n * es;
          let r = min (pa - a) (pb - pa);
          m \<leftarrow> vecswap ul ui m a (pb - r) r;
          let r = min (pd - pc) (pn - pd - es);
          m \<leftarrow> vecswap ul ui m pb (pn - r) r;
          let d = pb - pa;
          let r = pd - pc;
          let pn = pn - r;
          Some (m, Some (if r > d then (a, d, pn, r) else (pn, r, a, d))) } })"

text \<open>
  What is done with the parts: the part handed to a call of \<open>qsort\<close>, if any, and the values of \<open>a\<close>, \<open>n\<close> and the
  parameter stack with which the loop goes on, if it does.  The stack is a list, its head the last entry pushed.
\<close>

definition qsort_pop :: "(addr \<times> nat) list \<Rightarrow> (addr \<times> nat \<times> (addr \<times> nat) list) option" where
  "qsort_pop stack = (case stack of [] \<Rightarrow> None | (a, n) # stack \<Rightarrow> Some (a, n, stack))"

definition qsort_next ::
  "nat \<Rightarrow> (addr \<times> nat \<times> addr \<times> nat) option \<Rightarrow> (addr \<times> nat) list
    \<Rightarrow> (addr \<times> nat) option \<times> (addr \<times> nat \<times> (addr \<times> nat) list) option" where
  "qsort_next es parts stack =
     (case parts of
        None \<Rightarrow> (None, qsort_pop stack)
      | Some (pa, r, a, n) \<Rightarrow>
          if r > es \<and> length stack < PARAMETER_STACK_LEVELS
          then (None, Some (pa, r div es, (a, n div es) # stack))
          else (if r > es then Some (pa, r div es) else None,
                if n > es then Some (a, n div es, stack) else qsort_pop stack))"

text \<open>A call of \<open>qsort\<close> inside is a run with an empty stack and swap types of its own.\<close>

partial_function (option) qsort_loop ::
  "compar \<Rightarrow> nat \<Rightarrow> nat \<Rightarrow> nat \<Rightarrow> mem \<Rightarrow> addr \<Rightarrow> nat \<Rightarrow> (addr \<times> nat) list \<Rightarrow> mem option" where
  "qsort_loop cmp es ul ui m a n stack = do {
     (m, parts) \<leftarrow> qsort_pass cmp es ul ui m a n;
     m \<leftarrow> (case fst (qsort_next es parts stack) of
            None \<Rightarrow> Some m
          | Some (pa, k) \<Rightarrow> qsort_loop cmp es (swapinit 8 pa es) (swapinit 4 pa es) m pa k []);
     case snd (qsort_next es parts stack) of
       None \<Rightarrow> Some m
     | Some (a, n, stack) \<Rightarrow> qsort_loop cmp es ul ui m a n stack }"

definition qsort :: "mem \<Rightarrow> addr \<Rightarrow> nat \<Rightarrow> nat \<Rightarrow> compar \<Rightarrow> mem option" where
  "qsort m a n es cmp = qsort_loop cmp es (swapinit 8 a es) (swapinit 4 a es) m a n []"

section \<open>Binary search\<close>

partial_function (option) bsearch_loop ::
  "compar \<Rightarrow> mem \<Rightarrow> addr \<Rightarrow> addr \<Rightarrow> u64 \<Rightarrow> u64 \<Rightarrow> u64 \<Rightarrow> addr option" where
  "bsearch_loop compar m key base sz lower upper =
     (if lower < upper then do {
        let index = (lower + upper) div 2;
        let current = base + unat (index * sz);
        result \<leftarrow> compar m key current;
        if result < 0 then bsearch_loop compar m key base sz lower index
        else if result > 0 then bsearch_loop compar m key base sz (index + 1) upper
        else Some current }
      else Some NULL)"

definition bsearch :: "mem \<Rightarrow> addr \<Rightarrow> addr \<Rightarrow> u64 \<Rightarrow> u64 \<Rightarrow> compar \<Rightarrow> addr option" where
  "bsearch m key base nmemb sz compar =
     (if nmemb = 0 \<or> sz = 0 then Some NULL else bsearch_loop compar m key base sz 0 nmemb)"

section \<open>Exchanging ranges\<close>

text \<open>The memory with two ranges of \<open>n\<close> bytes exchanged.\<close>

definition exch :: "mem \<Rightarrow> addr \<Rightarrow> addr \<Rightarrow> nat \<Rightarrow> mem" where
  "exch m p q n = (\<lambda>a. if p \<le> a \<and> a < p + n then m (q + (a - p)) else if q \<le> a \<and> a < q + n then m (p + (a - q)) else m a)"

definition clear_of :: "addr \<Rightarrow> addr \<Rightarrow> nat \<Rightarrow> bool" where
  "clear_of p q n \<longleftrightarrow> p = q \<or> p + n \<le> q \<or> q + n \<le> p"

lemma exch_sym: "clear_of p q n \<Longrightarrow> exch m p q n = exch m q p n"
  by (auto simp: exch_def clear_of_def fun_eq_iff)

lemma exch_self [simp]: "exch m p p n = m"
  by (simp add: exch_def fun_eq_iff)

lemma exch_at:
  assumes "p + n \<le> q \<or> q + n \<le> p"
  shows "p \<le> x \<Longrightarrow> x < p + n \<Longrightarrow> exch m p q n x = m (q + (x - p))" "q \<le> x \<Longrightarrow> x < q + n \<Longrightarrow> exch m p q n x = m (p + (x - q))"
    "x < p \<or> p + n \<le> x \<Longrightarrow> x < q \<or> q + n \<le> x \<Longrightarrow> exch m p q n x = m x"
  using assms by (auto simp: exch_def)

lemma exch_add:
  assumes "clear_of p q (a + b)"
  shows "exch (exch m p q a) (p + a) (q + a) b = exch m p q (a + b)"
proof (cases "p = q")
  case False
  then have d: "p + (a + b) \<le> q \<or> q + (a + b) \<le> p" using assms by (simp add: clear_of_def)
  then have d1: "p + a \<le> q \<or> q + a \<le> p" and d2: "(p + a) + b \<le> q + a \<or> (q + a) + b \<le> p + a" by auto
  show ?thesis
  proof
    fix x
    consider "p \<le> x" "x < p + a" | "p + a \<le> x" "x < p + a + b" | "q \<le> x" "x < q + a" | "q + a \<le> x" "x < q + a + b"
      | "x < p \<or> p + (a + b) \<le> x" "x < q \<or> q + (a + b) \<le> x" by linarith
    then show "exch (exch m p q a) (p + a) (q + a) b x = exch m p q (a + b) x"
    proof cases
      case 1
      then have "exch (exch m p q a) (p + a) (q + a) b x = exch m p q a x" using d by (intro exch_at(3) [OF d2]) auto
      then show ?thesis using 1 exch_at(1) [OF d1, of x m] exch_at(1) [OF d, of x m] by simp
    next
      case 2
      then have e: "exch (exch m p q a) (p + a) (q + a) b x = exch m p q a (q + (x - p))" using exch_at(1) [OF d2, of x] by simp
      have "exch m p q a (q + (x - p)) = m (q + (x - p))" using 2 d by (intro exch_at(3) [OF d1]) auto
      then show ?thesis using e 2 exch_at(1) [OF d, of x m] by simp
    next
      case 3
      then have "exch (exch m p q a) (p + a) (q + a) b x = exch m p q a x" using d by (intro exch_at(3) [OF d2]) auto
      then show ?thesis using 3 exch_at(2) [OF d1, of x m] exch_at(2) [OF d, of x m] by simp
    next
      case 4
      then have e: "exch (exch m p q a) (p + a) (q + a) b x = exch m p q a (p + (x - q))" using exch_at(2) [OF d2, of x] by simp
      have "exch m p q a (p + (x - q)) = m (p + (x - q))" using 4 d by (intro exch_at(3) [OF d1]) auto
      then show ?thesis using e 4 exch_at(2) [OF d, of x m] by simp
    next
      case 5
      have "exch (exch m p q a) (p + a) (q + a) b x = exch m p q a x" using 5 by (intro exch_at(3) [OF d2]) auto
      moreover have "exch m p q a x = m x" using 5 by (intro exch_at(3) [OF d1]) auto
      ultimately show ?thesis using exch_at(3) [OF d 5, of m] by simp
    qed
  qed
qed simp

lemma mapped_exch: "mapped m x k \<Longrightarrow> mapped m p n \<Longrightarrow> mapped m q n \<Longrightarrow> mapped (exch m p q n) x k"
  by (auto simp: mapped_def exch_def)

lemma exch_put:
  assumes "bytes_at m p xs" "bytes_at m q ys" "length xs = n" "length ys = n" "clear_of p q n"
  shows "put_bytes (put_bytes m p ys) q xs = exch m p q n"
proof
  fix a
  have x: "m (p + i) = Some (xs ! i)" "m (q + i) = Some (ys ! i)" if "i < n" for i
    using assms(1-4) that by (simp_all add: bytes_at_iff)
  consider "p = q" | "p + n \<le> q \<or> q + n \<le> p" using assms(5) by (auto simp: clear_of_def)
  then show "put_bytes (put_bytes m p ys) q xs a = exch m p q n a"
  proof cases
    case 1
    then show ?thesis using x(1) [of "a - p"] assms(3,4) by (auto simp: put_bytes_apply)
  next
    case 2
    then show ?thesis
      using exch_at [OF 2, of a m] x(1) [of "a - q"] x(2) [of "a - p"] assms(3,4)
      by (auto simp: put_bytes_apply not_le not_less)
  qed
qed

text \<open>A type whose values are \<open>w\<close> aligned bytes: two loads and two stores exchange two of them.\<close>

locale word_access =
  fixes ld :: "mem \<Rightarrow> addr \<Rightarrow> 'w option" and st :: "mem \<Rightarrow> addr \<Rightarrow> 'w \<Rightarrow> mem option" and w :: nat
  assumes exch_one: "mapped m p w \<Longrightarrow> mapped m q w \<Longrightarrow> p mod w = 0 \<Longrightarrow> q mod w = 0 \<Longrightarrow> clear_of p q w \<Longrightarrow>
    do { t \<leftarrow> ld m p; u \<leftarrow> ld m q; m \<leftarrow> st m p u; st m q t } = Some (exch m p q w)"
begin

lemma swapcode_exch:
  assumes "mapped m p (Suc i * w)" "mapped m q (Suc i * w)" "p mod w = 0" "q mod w = 0" "clear_of p q (Suc i * w)"
  shows "swapcode ld st w m p q (Suc i) = Some (exch m p q (Suc i * w))"
  using assms
proof (induction i arbitrary: m p q)
  case 0
  then show ?case using exch_one [of m p q] by simp
next
  case (Suc i)
  have c: "clear_of p q w" "clear_of (p + w) (q + w) (Suc i * w)" using Suc.prems(5) by (auto simp: clear_of_def)
  have mp: "mapped m p w" "mapped m q w" by (rule mapped_sub [OF Suc.prems(1)] mapped_sub [OF Suc.prems(2)]; simp)+
  note one = exch_one [OF mp Suc.prems(3,4) c(1)]
  have "mapped m (p + w) (Suc i * w)" "mapped m (q + w) (Suc i * w)"
    by (rule mapped_sub [OF Suc.prems(1)] mapped_sub [OF Suc.prems(2)]; simp)+
  then have "swapcode ld st w (exch m p q w) (p + w) (q + w) (Suc i) = Some (exch (exch m p q w) (p + w) (q + w) (Suc i * w))"
    using Suc.prems(3,4) c(2) mp by (intro Suc.IH mapped_exch) simp_all
  moreover have "exch (exch m p q w) (p + w) (q + w) (Suc i * w) = exch m p q (Suc (Suc i) * w)"
    using exch_add [of p q w "Suc i * w" m] Suc.prems(5) by simp
  moreover have "swapcode ld st w m p q (Suc (Suc i))
      = do { m \<leftarrow> do { t \<leftarrow> ld m p; u \<leftarrow> ld m q; m \<leftarrow> st m p u; st m q t }; swapcode ld st w m (p + w) (q + w) (Suc i) }"
    by (simp del: swapcode.simps add: swapcode.simps(2) [of ld st w m p q "Suc i"])
  ultimately show ?case by (simp add: one del: swapcode.simps)
qed

end

lemma exch_word:
  assumes "mapped m p w" "mapped m q w" "clear_of p q w"
    and ld: "\<And>xs p. bytes_at m p xs \<Longrightarrow> length xs = w \<Longrightarrow> p \<in> {p0, q0} \<Longrightarrow> ld m p = Some (f xs)"
    and st: "\<And>m xs p. mapped m p w \<Longrightarrow> length xs = w \<Longrightarrow> p \<in> {p0, q0} \<Longrightarrow> st m p (f xs) = Some (put_bytes m p xs)"
    and "p = p0" "q = q0"
  shows "do { t \<leftarrow> ld m p; u \<leftarrow> ld m q; m \<leftarrow> st m p u; st m q t } = Some (exch m p q w)"
proof -
  obtain xs ys where x: "length xs = w" "bytes_at m p xs" "length ys = w" "bytes_at m q ys"
    using mapped_obtain_bytes [OF assms(1)] mapped_obtain_bytes [OF assms(2)] by metis
  then have "ld m p = Some (f xs)" "ld m q = Some (f ys)" using ld assms(6,7) by blast+
  moreover have "st m p (f ys) = Some (put_bytes m p ys)" "st (put_bytes m p ys) q (f xs) = Some (put_bytes (put_bytes m p ys) q xs)"
    using st x assms(1,2,6,7) by (simp_all add: mapped_put_bytes)
  ultimately show ?thesis using exch_put [OF x(2,4,1,3) assms(3)] by simp
qed

interpretation by_ulong: word_access load64 store64 8
  by unfold_locales
     (rule exch_word [where f = word_of_bytes], auto simp: load64_at store64_eq word_to_bytes_of_bytes)

interpretation by_uint: word_access load32 store32 4
  by unfold_locales
     (rule exch_word [where f = word_of_bytes], auto simp: load32_at store32_eq word_to_bytes_of_bytes)

interpretation by_uchar: word_access load8 store8 1
  by unfold_locales
     (rule exch_word [where f = hd], auto simp: load8_def store8_def bytes_at_iff mapped_def hd_conv_nth length_Suc_conv)

text \<open>The swap types the code computes fit the array.\<close>

definition swap_ok :: "nat \<Rightarrow> nat \<Rightarrow> addr \<Rightarrow> nat \<Rightarrow> bool" where
  "swap_ok ul ui a es \<longleftrightarrow> 0 < es \<and> (ul = 0 \<longrightarrow> es = 8) \<and> (ul \<le> 1 \<longrightarrow> a mod 8 = 0 \<and> es mod 8 = 0)
     \<and> (ui = 0 \<longrightarrow> es = 4) \<and> (ui \<le> 1 \<longrightarrow> a mod 4 = 0 \<and> es mod 4 = 0)"

lemma swapinit_ok: "0 < es \<Longrightarrow> swap_ok (swapinit 8 a es) (swapinit 4 a es) a es"
  by (simp add: swap_ok_def swapinit_def)

lemma swap_ok_shift: "swap_ok ul ui a es \<Longrightarrow> swap_ok ul ui (a + k * es) es"
  by (auto simp: swap_ok_def mod_eq_0_iff_dvd)

lemma swapfunc_exch:
  assumes ok: "swap_ok ul ui a es" and m: "mapped m (a + i * es) (k * es)" "mapped m (a + j * es) (k * es)" "0 < k"
    and c: "clear_of (a + i * es) (a + j * es) (k * es)"
  shows "swapfunc m (a + i * es) (a + j * es) (k * es) ul ui = Some (exch m (a + i * es) (a + j * es) (k * es))"
proof -
  let ?p = "a + i * es" and ?q = "a + j * es" and ?n = "k * es"
  have n: "0 < ?n" using ok m(3) by (simp add: swap_ok_def)
  have al: "?p mod w = 0 \<and> ?q mod w = 0 \<and> ?n mod w = 0" if "a mod w = 0" "es mod w = 0" for w
    using that by (auto simp: mod_eq_0_iff_dvd)
  have size: "\<exists>x. ?n div w = Suc x \<and> Suc x * w = ?n" if "?n mod w = 0" for w
    using that n by (metis div_mult_self_is_m div_mult_mod_eq add.right_neutral gr0_conv_Suc mult_0 neq0_conv)
  show ?thesis
  proof (cases "ul \<le> 1")
    case True
    then have a: "?p mod 8 = 0 \<and> ?q mod 8 = 0 \<and> ?n mod 8 = 0" using ok by (intro al) (simp_all add: swap_ok_def)
    have "?n mod 8 = 0" using a by simp
    then obtain x where x: "?n div 8 = Suc x" "Suc x * 8 = ?n" using size by force
    show ?thesis using True by_ulong.swapcode_exch [of m ?p x ?q] a m c x by (simp add: swapfunc_def del: swapcode.simps mult_Suc)
  next
    case nl: False
    show ?thesis
    proof (cases "ui \<le> 1")
      case True
      then have a: "?p mod 4 = 0 \<and> ?q mod 4 = 0 \<and> ?n mod 4 = 0" using ok by (intro al) (simp_all add: swap_ok_def)
      have "?n mod 4 = 0" using a by simp
      then obtain x where x: "?n div 4 = Suc x" "Suc x * 4 = ?n" using size by force
      show ?thesis using nl True by_uint.swapcode_exch [of m ?p x ?q] a m c x by (simp add: swapfunc_def del: swapcode.simps mult_Suc)
    next
      case False
      obtain x where x: "?n = Suc x" using n gr0_conv_Suc by blast
      show ?thesis using nl False by_uchar.swapcode_exch [of m ?p x ?q] m c x by (simp add: swapfunc_def del: swapcode.simps mult_Suc)
    qed
  qed
qed

lemma swap_exch:
  assumes ok: "swap_ok ul ui a es" and m: "mapped m (a + i * es) es" "mapped m (a + j * es) es"
  shows "swap es ul ui m (a + i * es) (a + j * es) = Some (exch m (a + i * es) (a + j * es) es)"
proof -
  let ?p = "a + i * es" and ?q = "a + j * es"
  have c: "clear_of ?p ?q es"
    using mult_le_mono1 [of "Suc i" j es] mult_le_mono1 [of "Suc j" i es]
    by (cases i j rule: linorder_cases) (auto simp: clear_of_def)
  show ?thesis
  proof (cases "ul = 0 \<or> ui = 0")
    case True
    then show ?thesis
      using by_ulong.exch_one [of m ?p ?q] by_uint.exch_one [of m ?p ?q] ok m c by (auto simp: swap_def swap_ok_def mod_eq_0_iff_dvd)
  next
    case False
    then show ?thesis using swapfunc_exch [OF ok, of m i 1 j] m c by (simp add: swap_def)
  qed
qed

section \<open>Arrays of elements\<close>

text \<open>An array is a list of elements of \<open>es\<close> bytes each, laid out one after the other.\<close>

definition rows :: "nat \<Rightarrow> u8 list list \<Rightarrow> bool" where
  "rows es xs \<longleftrightarrow> (\<forall>x \<in> set xs. length x = es)"

lemma rows_simps [simp]:
  "rows es []" "rows es (x # xs) \<longleftrightarrow> length x = es \<and> rows es xs" "rows es (xs @ ys) \<longleftrightarrow> rows es xs \<and> rows es ys"
  by (auto simp: rows_def)

lemma rows_mset: "mset xs = mset ys \<Longrightarrow> rows es xs \<Longrightarrow> rows es ys"
  unfolding rows_def by (metis set_mset_mset)

lemma length_concat_rows: "rows es xs \<Longrightarrow> length (concat xs) = length xs * es"
  by (induction xs) auto

definition arr :: "mem \<Rightarrow> addr \<Rightarrow> u8 list list \<Rightarrow> mem" where
  "arr m a xs = put_bytes m a (concat xs)"

lemma put_inside: "length y = length x \<Longrightarrow> put_bytes (put_bytes m a (l @ x @ r)) (a + length l) y = put_bytes m a (l @ y @ r)"
  by (auto simp: fun_eq_iff put_bytes_apply nth_append)

lemma arr_inside:
  assumes "rows es (l @ x @ r)" "rows es y" "length y = length x" "n = length l"
  shows "arr (arr m a (l @ x @ r)) (a + n * es) y = arr m a (l @ y @ r)"
proof -
  have "length (concat y) = length (concat x)" "n * es = length (concat l)"
    using assms by (simp_all add: length_concat_rows [of es])
  then show ?thesis using put_inside [of "concat y" "concat x" m a "concat l" "concat r"] by (simp add: arr_def)
qed

lemma arr_bytes:
  assumes "rows es xs" "i < length xs"
  shows "bytes_at (arr m a xs) (a + i * es) (xs ! i)"
proof -
  have e: "xs = take i xs @ [xs ! i] @ drop (Suc i) xs" using assms(2) id_take_nth_drop by fastforce
  have r: "rows es (take i xs)" using assms(1) by (auto simp: rows_def dest: in_set_takeD)
  have c: "concat xs = concat (take i xs) @ xs ! i @ concat (drop (Suc i) xs)" by (subst e) simp
  have l: "length (concat (take i xs)) = i * es" using length_concat_rows [OF r] assms(2) by simp
  have "bytes_at (arr m a xs) a (concat xs)" unfolding arr_def by (rule bytes_at_put_same)
  then show ?thesis using l unfolding c by (simp add: bytes_at_append)
qed

lemma arr_mapped: "rows es xs \<Longrightarrow> i + k \<le> length xs \<Longrightarrow> mapped (arr m a xs) (a + i * es) (k * es)"
  unfolding arr_def
  by (rule mapped_put_inside) (simp_all add: length_concat_rows [of es] add_mult_distrib [symmetric])

lemma exch_blocks:
  assumes "rows es (as @ xs @ bs @ ys @ cs)" "length ys = length xs" "i = length as" "j = length as + length xs + length bs"
  shows "exch (arr m a (as @ xs @ bs @ ys @ cs)) (a + i * es) (a + j * es) (length xs * es) = arr m a (as @ ys @ bs @ xs @ cs)"
proof -
  let ?M = "arr m a (as @ xs @ bs @ ys @ cs)"
  have l: "length (concat xs) = length xs * es" "length (concat ys) = length xs * es" using assms by (simp_all add: length_concat_rows [of es])
  have at: "bytes_at ?M (a + length (concat u)) (concat v)" if "as @ xs @ bs @ ys @ cs = u @ v @ w" for u v w
    using bytes_at_put_same [of m a "concat (u @ v @ w)"] unfolding arr_def that by (simp add: bytes_at_append)
  have i: "i * es = length (concat as)" "j * es = length (concat (as @ xs @ bs))"
    using assms by (simp_all add: length_concat_rows [of es] add_mult_distrib)
  have "bytes_at ?M (a + i * es) (concat xs)" "bytes_at ?M (a + j * es) (concat ys)"
    unfolding i by (rule at [of as xs], simp) (rule at [of "as @ xs @ bs" ys], simp)
  moreover have "clear_of (a + i * es) (a + j * es) (length xs * es)"
    using assms(3,4) by (simp add: clear_of_def add_mult_distrib)
  ultimately have "exch ?M (a + i * es) (a + j * es) (length xs * es) = put_bytes (put_bytes ?M (a + i * es) (concat ys)) (a + j * es) (concat xs)"
    using exch_put l by simp
  also have "\<dots> = arr (arr ?M (a + i * es) ys) (a + j * es) xs" by (simp add: arr_def)
  also have "arr ?M (a + i * es) ys = arr m a (as @ ys @ bs @ ys @ cs)"
    using arr_inside [of es as xs "bs @ ys @ cs" ys i m a] assms by simp
  also have "arr \<dots> (a + j * es) xs = arr m a (as @ ys @ bs @ xs @ cs)"
    using arr_inside [of es "as @ ys @ bs" ys cs xs j m a] assms by simp
  finally show ?thesis .
qed

text \<open>\<open>swap\<close> and \<open>vecswap\<close> on blocks of elements.\<close>

lemma swap_arr:
  assumes ok: "swap_ok ul ui a es" and r: "rows es (as @ [x] @ bs @ [y] @ cs)"
    and i: "i = length as" "j = length as + 1 + length bs"
  shows "swap es ul ui (arr m a (as @ [x] @ bs @ [y] @ cs)) (a + i * es) (a + j * es) = Some (arr m a (as @ [y] @ bs @ [x] @ cs))"
    "swap es ul ui (arr m a (as @ [x] @ bs @ [y] @ cs)) (a + j * es) (a + i * es) = Some (arr m a (as @ [y] @ bs @ [x] @ cs))"
proof -
  let ?M = "arr m a (as @ [x] @ bs @ [y] @ cs)"
  have mp: "mapped ?M (a + i * es) es" "mapped ?M (a + j * es) es"
    using arr_mapped [OF r, of i 1 m a] arr_mapped [OF r, of j 1 m a] i by simp_all
  have e: "exch ?M (a + i * es) (a + j * es) es = arr m a (as @ [y] @ bs @ [x] @ cs)"
    using exch_blocks [OF r, of i j m a] i by simp
  have c: "clear_of (a + i * es) (a + j * es) es" using i by (simp add: clear_of_def add_mult_distrib)
  show "swap es ul ui ?M (a + i * es) (a + j * es) = Some (arr m a (as @ [y] @ bs @ [x] @ cs))"
    using swap_exch [OF ok mp] e by simp
  show "swap es ul ui ?M (a + j * es) (a + i * es) = Some (arr m a (as @ [y] @ bs @ [x] @ cs))"
    using swap_exch [OF ok mp(2,1)] e exch_sym [OF c] by simp
qed

lemma swap_self:
  assumes "swap_ok ul ui a es" "rows es xs" "i < length xs"
  shows "swap es ul ui (arr m a xs) (a + i * es) (a + i * es) = Some (arr m a xs)"
  using swap_exch [OF assms(1), of "arr m a xs" i i] arr_mapped [OF assms(2), of i 1 m a] assms(3) by simp

lemma vecswap_arr:
  assumes ok: "swap_ok ul ui a es" and r: "rows es (as @ xs @ bs @ ys @ cs)" "length ys = length xs"
    and i: "i = length as" "j = length as + length xs + length bs" "k = length xs"
  shows "vecswap ul ui (arr m a (as @ xs @ bs @ ys @ cs)) (a + i * es) (a + j * es) (k * es) = Some (arr m a (as @ ys @ bs @ xs @ cs))"
proof (cases "k = 0")
  case False
  let ?M = "arr m a (as @ xs @ bs @ ys @ cs)"
  have mp: "mapped ?M (a + i * es) (k * es)" "mapped ?M (a + j * es) (k * es)"
    using arr_mapped [OF r(1), of i k m a] arr_mapped [OF r(1), of j k m a] i r(2) by simp_all
  have c: "clear_of (a + i * es) (a + j * es) (k * es)" using i by (simp add: clear_of_def add_mult_distrib)
  have "0 < k * es" using False ok by (simp add: swap_ok_def)
  then show ?thesis
    using swapfunc_exch [OF ok mp _ c] exch_blocks [OF r(1,2) i(1,2), of m a] False i(3) by (simp add: vecswap_def)
qed (use r i in \<open>auto simp: vecswap_def\<close>)

text \<open>Exchanging the shorter of two adjacent blocks with the far end of the longer one exchanges the blocks, up to their order.\<close>

lemma vecswap_blocks:
  assumes ok: "swap_ok ul ui a es" and r: "rows es (as @ xs @ ys @ cs)" and i: "i = length as" "j = length as + length xs + length ys"
    and k: "k = min (length xs) (length ys)"
  shows "\<exists>xs' ys'. mset xs' = mset xs \<and> mset ys' = mset ys \<and>
    vecswap ul ui (arr m a (as @ xs @ ys @ cs)) (a + i * es) (a + j * es - k * es) (k * es) = Some (arr m a (as @ ys' @ xs' @ cs))"
proof -
  have "k \<le> j" using i k by simp
  then have jk: "a + j * es - k * es = a + (j - k) * es" using mult_le_mono1 [of k j es] by (simp add: diff_mult_distrib)
  show ?thesis
  proof (cases "length xs \<le> length ys")
    case True
    define y1 y2 where "y1 = take (length ys - length xs) ys" and "y2 = drop (length ys - length xs) ys"
    have y: "ys = y1 @ y2" "length y2 = length xs" using True by (simp_all add: y1_def y2_def)
    then have "vecswap ul ui (arr m a (as @ xs @ y1 @ y2 @ cs)) (a + i * es) (a + (j - k) * es) (k * es) = Some (arr m a (as @ y2 @ y1 @ xs @ cs))"
      using r i k True by (intro vecswap_arr [OF ok]) auto
    then show ?thesis using y jk by (intro exI [of _ xs] exI [of _ "y2 @ y1"]) simp
  next
    case False
    define x1 x2 where "x1 = take (length ys) xs" and "x2 = drop (length ys) xs"
    have x: "xs = x1 @ x2" "length x1 = length ys" using False by (simp_all add: x1_def x2_def)
    then have "vecswap ul ui (arr m a (as @ x1 @ x2 @ ys @ cs)) (a + i * es) (a + (j - k) * es) (k * es) = Some (arr m a (as @ ys @ x2 @ x1 @ cs))"
      using r i k False by (intro vecswap_arr [OF ok]) auto
    then show ?thesis using x jk by (intro exI [of _ "x2 @ x1"] exI [of _ ys]) simp
  qed
qed

lemma swap_to_front:
  assumes ok: "swap_ok ul ui a es" and r: "rows es (ps @ l @ [x] @ qs)" and ij: "i = length ps" "j = i + length l"
  shows "\<exists>l'. mset l' = mset l \<and> swap es ul ui (arr m a (ps @ l @ [x] @ qs)) (a + i * es) (a + j * es) = Some (arr m a (ps @ [x] @ l' @ qs))"
proof (cases l)
  case Nil
  then show ?thesis using swap_self [OF ok r, of i m] ij by simp
next
  case (Cons y ys)
  then have "swap es ul ui (arr m a (ps @ [y] @ ys @ [x] @ qs)) (a + i * es) (a + j * es) = Some (arr m a (ps @ [x] @ ys @ [y] @ qs))"
    using r ij by (intro swap_arr(1) [OF ok]) auto
  then show ?thesis using Cons by (intro exI [of _ "ys @ [y]"]) simp
qed

lemma swap_to_end:
  assumes ok: "swap_ok ul ui a es" and r: "rows es (ps @ [x] @ g @ qs)" and ij: "i = length ps" "j = i + length g"
  shows "\<exists>g'. mset g' = mset g \<and> swap es ul ui (arr m a (ps @ [x] @ g @ qs)) (a + i * es) (a + j * es) = Some (arr m a (ps @ g' @ [x] @ qs))"
proof (cases g rule: rev_cases)
  case Nil
  then show ?thesis using swap_self [OF ok r, of i m] ij by simp
next
  case (snoc ys y)
  then have "swap es ul ui (arr m a (ps @ [x] @ ys @ [y] @ qs)) (a + i * es) (a + j * es) = Some (arr m a (ps @ [y] @ ys @ [x] @ qs))"
    using r ij by (intro swap_arr(1) [OF ok]) auto
  then show ?thesis using snoc by (intro exI [of _ "y # ys"]) simp
qed

end
