(* ===== verification/QsortSpec.thy ===== *)
theory QsortSpec
  imports Qsort
begin

text \<open>
  Correctness of \<open>qsort\<close> and \<open>bsearch\<close> for every comparison function that keeps its contract, the locale
  \<open>comparator\<close>.  The loops of the sort are reduced to lists of elements: insertion, the two scans with the swaps
  they make, the partition, the exchange of the equal elements with the middle, and the order in which the
  parts are taken up, by the parameter stack or by a call.  The contract is shown to hold for \<open>memcmp\<close>.
\<close>

lemma unat_mid: "unat (lo :: u64) + unat hi < 2 ^ 64 \<Longrightarrow> unat ((lo + hi) div 2) = (unat lo + unat hi) div 2"
  by (simp add: unat_div unat_word_ariths)

section \<open>The comparison function\<close>

text \<open>
  What \<open>qsort\<close> and \<open>bsearch\<close> rely on in the caller's function: it does not fault on two elements, and its sign
  is that of a total preorder of their bytes.
\<close>

locale comparator =
  fixes cmp :: compar and es :: nat and le :: "u8 list \<Rightarrow> u8 list \<Rightarrow> bool"
  assumes cmp_ok: "bytes_at m p x \<Longrightarrow> bytes_at m q y \<Longrightarrow> length x = es \<Longrightarrow> length y = es \<Longrightarrow>
      \<exists>c. cmp m p q = Some c \<and> (c \<le> 0 \<longleftrightarrow> le x y) \<and> (0 \<le> c \<longleftrightarrow> le y x)"
    and le_trans: "length x = es \<Longrightarrow> length y = es \<Longrightarrow> length z = es \<Longrightarrow> le x y \<Longrightarrow> le y z \<Longrightarrow> le x z"
begin

lemma le_total: "length x = es \<Longrightarrow> length y = es \<Longrightarrow> le x y \<or> le y x"
proof -
  assume l: "length x = es" "length y = es"
  let ?m = "put_bytes (\<lambda>_. None) 0 (x @ y)"
  have "bytes_at ?m 0 x" "bytes_at ?m (length x) y"
    using bytes_at_put_same [of "\<lambda>_. None" 0 "x @ y"] by (simp_all add: bytes_at_append)
  from cmp_ok [OF this l] show ?thesis by linarith
qed

lemma cmp_arr:
  assumes "rows es xs" "i < length xs" "j < length xs"
  obtains c where "cmp (arr m a xs) (a + i * es) (a + j * es) = Some c" "c \<le> 0 \<longleftrightarrow> le (xs ! i) (xs ! j)" "0 \<le> c \<longleftrightarrow> le (xs ! j) (xs ! i)"
proof -
  have "length (xs ! i) = es" "length (xs ! j) = es" using assms by (auto simp: rows_def)
  from cmp_ok [OF arr_bytes [OF assms(1,2)] arr_bytes [OF assms(1,3)] this] that show thesis by blast
qed

section \<open>Insertion sort\<close>

lemma insert_down_ok:
  assumes ok: "swap_ok ul ui a es" and r: "rows es (ls @ [v] @ rs @ ts)" and s: "sorted_wrt le (ls @ rs)" "\<forall>x \<in> set rs. le v x"
  shows "\<exists>ys. mset ys = mset (ls @ [v] @ rs) \<and> sorted_wrt le ys \<and>
    insert_down cmp es ul ui (arr m a (ls @ [v] @ rs @ ts)) a (a + length ls * es) = Some (arr m a (ys @ ts))"
  using r s
proof (induction ls arbitrary: rs rule: rev_induct)
  case Nil
  then show ?case by (intro exI [of _ "v # rs"]) (simp add: insert_down.simps [of _ _ _ _ _ a a])
next
  case (snoc u ls)
  have es: "0 < es" using ok by (simp add: swap_ok_def)
  let ?xs = "(ls @ [u]) @ [v] @ rs @ ts" and ?k = "length ls"
  define p q where "p = a + ?k * es" and "q = a + Suc ?k * es"
  have pq: "a + length (ls @ [u]) * es = q" "q - es = p" "a < q" using es by (simp_all add: p_def q_def)
  have lu: "length u = es" "length v = es" using snoc.prems(1) by simp_all
  obtain c where c: "cmp (arr m a ?xs) p q = Some c" "c \<le> 0 \<longleftrightarrow> le (?xs ! ?k) (?xs ! Suc ?k)"
    unfolding p_def q_def by (rule cmp_arr [of ?xs ?k "Suc ?k" m a]) (use snoc.prems(1) in auto)
  have xs: "?xs ! ?k = u" "?xs ! Suc ?k = v" by (simp_all add: nth_append)
  note run = insert_down.simps [of cmp es ul ui "arr m a ?xs" a q]
  show ?case
  proof (cases "le u v")
    case True
    then have "\<not> 0 < c" using c(2) xs by simp
    then have run': "insert_down cmp es ul ui (arr m a ?xs) a q = Some (arr m a ?xs)"
      using c(1) pq run by simp
    have "le x v" if "x \<in> set ls" for x
    proof -
      have "le x u" "length x = es" using snoc.prems(1,2) that by (simp_all add: sorted_wrt_append rows_def)
      then show ?thesis using True lu le_trans by blast
    qed
    then have "sorted_wrt le ((ls @ [u]) @ [v] @ rs)"
      using snoc.prems(2,3) True by (auto simp: sorted_wrt_append)
    then show ?thesis using run' unfolding pq(1) by (intro exI [of _ "(ls @ [u]) @ [v] @ rs"]) simp
  next
    case False
    then have "0 < c" "le v u" using c(2) xs le_total [OF lu] by auto
    moreover have "swap es ul ui (arr m a ?xs) q p = Some (arr m a (ls @ [v] @ [u] @ rs @ ts))"
      using swap_arr(2) [OF ok, of ls u "[]" v "rs @ ts" ?k "Suc ?k" m] snoc.prems(1) by (simp add: p_def q_def)
    ultimately have run': "insert_down cmp es ul ui (arr m a ?xs) a q
        = insert_down cmp es ul ui (arr m a (ls @ [v] @ (u # rs) @ ts)) a p"
      using c(1) pq run by simp
    have "\<exists>ys. mset ys = mset (ls @ [v] @ (u # rs)) \<and> sorted_wrt le ys \<and>
      insert_down cmp es ul ui (arr m a (ls @ [v] @ (u # rs) @ ts)) a p = Some (arr m a (ys @ ts))"
      unfolding p_def by (rule snoc.IH) (use snoc.prems \<open>le v u\<close> in auto)
    then show ?thesis unfolding pq(1) run' by (simp add: add_mset_commute)
  qed
qed

lemma insertion_sort_from:
  assumes ok: "swap_ok ul ui a es" and r: "rows es (ps @ qs)" and s: "sorted_wrt le ps"
  shows "\<exists>ys. mset ys = mset (ps @ qs) \<and> sorted_wrt le ys \<and>
    insertion_sort cmp es ul ui (arr m a (ps @ qs)) a (length (ps @ qs)) (a + length ps * es) = Some (arr m a ys)"
  using r s
proof (induction qs arbitrary: ps)
  case Nil
  then show ?case by (intro exI [of _ ps]) (simp add: insertion_sort.simps)
next
  case (Cons v qs)
  have es: "0 < es" using ok by (simp add: swap_ok_def)
  obtain ys where y: "mset ys = mset (ps @ [v])" "sorted_wrt le ys"
    "insert_down cmp es ul ui (arr m a (ps @ [v] @ [] @ qs)) a (a + length ps * es) = Some (arr m a (ys @ qs))"
    using insert_down_ok [OF ok, of ps v "[]" qs m] Cons.prems by auto
  have l: "length ys = Suc (length ps)" using mset_eq_length [OF y(1)] by simp
  have "rows es (ps @ [v])" using Cons.prems(1) by simp
  then have "rows es (ys @ qs)" using rows_mset [OF y(1) [symmetric]] Cons.prems(1) by simp
  from Cons.IH [OF this y(2)] obtain zs where z: "mset zs = mset (ys @ qs)" "sorted_wrt le zs"
    "insertion_sort cmp es ul ui (arr m a (ys @ qs)) a (length (ys @ qs)) (a + length ys * es) = Some (arr m a zs)" by blast
  have "insertion_sort cmp es ul ui (arr m a (ps @ v # qs)) a (length (ps @ v # qs)) (a + length ps * es)
      = insertion_sort cmp es ul ui (arr m a (ys @ qs)) a (length (ys @ qs)) (a + length ys * es)"
    by (subst insertion_sort.simps) (use y(3) l es in \<open>simp add: add_mult_distrib add_ac\<close>)
  then show ?case using z y(1) by (intro exI [of _ zs]) simp
qed

lemma insertion_sort_ok:
  assumes ok: "swap_ok ul ui a es" and r: "rows es xs"
  shows "\<exists>ys. mset ys = mset xs \<and> sorted_wrt le ys \<and> insertion_sort cmp es ul ui (arr m a xs) a (length xs) (a + es) = Some (arr m a ys)"
proof (cases xs)
  case Nil
  then show ?thesis by (intro exI [of _ "[]"]) (simp add: insertion_sort.simps)
next
  case (Cons x ys)
  then show ?thesis using insertion_sort_from [OF ok, of "[x]" ys m] r by simp
qed

section \<open>Partitioning\<close>

text \<open>
  The array during the partition: the pivot \<open>p\<close>, elements equal to it, smaller ones, those not yet looked at,
  larger ones, equal ones.
\<close>

definition pstate :: "u8 list \<Rightarrow> u8 list list \<Rightarrow> u8 list list \<Rightarrow> u8 list list \<Rightarrow> u8 list list \<Rightarrow> u8 list list \<Rightarrow> bool" where
  "pstate p e1 l u g e2 \<longleftrightarrow> rows es (p # e1 @ l @ u @ g @ e2) \<and> (\<forall>x \<in> set e1 \<union> set e2. le x p \<and> le p x)
     \<and> (\<forall>x \<in> set l. le x p \<and> \<not> le p x) \<and> (\<forall>x \<in> set g. le p x \<and> \<not> le x p)"

lemma pstate_mset: "mset l' = mset l \<Longrightarrow> mset g' = mset g \<Longrightarrow> pstate p e1 l u g e2 \<Longrightarrow> pstate p e1 l' u g' e2"
  using rows_mset [of l l' es] rows_mset [of g g' es] by (auto simp: pstate_def dest!: mset_eq_setD)

lemma cmp_pivot:
  assumes "rows es (p # ps @ [x] @ qs)" "i = Suc (length ps)"
  obtains c where "cmp (arr m a (p # ps @ [x] @ qs)) (a + i * es) a = Some c" "c \<le> 0 \<longleftrightarrow> le x p" "0 \<le> c \<longleftrightarrow> le p x"
  using cmp_arr [OF assms(1), of i 0 m a] assms(2) by (auto simp: nth_append)

text \<open>One round of the scan from the left, for each outcome of the comparison.\<close>

lemma scan_left_step:
  assumes ok: "swap_ok ul ui a es" and r: "rows es (p # e1 @ l @ [x] @ qs)"
    and pos: "A = Suc (length e1)" "B = A + length l" and pc: "a + B * es \<le> pc"
  shows "\<not> le x p \<Longrightarrow> scan_left cmp es ul ui (arr m a (p # e1 @ l @ [x] @ qs)) a (a + A * es) (a + B * es) pc cnt
      = Some (arr m a (p # e1 @ l @ [x] @ qs), a + A * es, a + B * es, cnt)"
    and "le x p \<Longrightarrow> \<not> le p x \<Longrightarrow> scan_left cmp es ul ui (arr m a (p # e1 @ l @ [x] @ qs)) a (a + A * es) (a + B * es) pc cnt
      = scan_left cmp es ul ui (arr m a (p # e1 @ l @ [x] @ qs)) a (a + A * es) (a + Suc B * es) pc cnt"
    and "le x p \<Longrightarrow> le p x \<Longrightarrow> \<exists>l'. mset l' = mset l \<and>
      scan_left cmp es ul ui (arr m a (p # e1 @ l @ [x] @ qs)) a (a + A * es) (a + B * es) pc cnt
      = scan_left cmp es ul ui (arr m a (p # e1 @ [x] @ l' @ qs)) a (a + Suc A * es) (a + Suc B * es) pc True"
proof -
  define pa pb where "pa = a + A * es" and "pb = a + B * es"
  have nx: "a + Suc A * es = pa + es" "a + Suc B * es = pb + es" by (simp_all add: pa_def pb_def)
  obtain c where c: "cmp (arr m a (p # e1 @ l @ [x] @ qs)) pb a = Some c" "c \<le> 0 \<longleftrightarrow> le x p" "0 \<le> c \<longleftrightarrow> le p x"
    unfolding pb_def using cmp_pivot [of p "e1 @ l" x qs B m a] r pos by auto
  note run = scan_left.simps [of cmp es ul ui "arr m a (p # e1 @ l @ [x] @ qs)" a pa pb pc cnt]
  show "\<not> le x p \<Longrightarrow> scan_left cmp es ul ui (arr m a (p # e1 @ l @ [x] @ qs)) a (a + A * es) (a + B * es) pc cnt
      = Some (arr m a (p # e1 @ l @ [x] @ qs), a + A * es, a + B * es, cnt)"
    and "le x p \<Longrightarrow> \<not> le p x \<Longrightarrow> scan_left cmp es ul ui (arr m a (p # e1 @ l @ [x] @ qs)) a (a + A * es) (a + B * es) pc cnt
      = scan_left cmp es ul ui (arr m a (p # e1 @ l @ [x] @ qs)) a (a + A * es) (a + Suc B * es) pc cnt"
    unfolding nx using c pc run by (simp_all flip: pa_def pb_def)
  assume eq: "le x p" "le p x"
  obtain l' where l': "mset l' = mset l" "swap es ul ui (arr m a (p # e1 @ l @ [x] @ qs)) pa pb = Some (arr m a (p # e1 @ [x] @ l' @ qs))"
    using swap_to_front [OF ok, of "p # e1" l x qs A B m] r pos unfolding pa_def pb_def by auto
  show "\<exists>l'. mset l' = mset l \<and>
      scan_left cmp es ul ui (arr m a (p # e1 @ l @ [x] @ qs)) a (a + A * es) (a + B * es) pc cnt
      = scan_left cmp es ul ui (arr m a (p # e1 @ [x] @ l' @ qs)) a (a + Suc A * es) (a + Suc B * es) pc True"
    unfolding nx using c pc run eq l' by (intro exI [of _ l']) (simp flip: pa_def pb_def)
qed

lemma scan_left_ok:
  assumes ok: "swap_ok ul ui a es" and ps: "pstate p e1 l u g e2"
    and pos: "A = Suc (length e1)" "B = A + length l" "C = B + length u"
  shows "\<exists>e1' l' u' cnt'. pstate p e1' l' u' g e2 \<and> mset (e1' @ l' @ u') = mset (e1 @ l @ u) \<and> length u' \<le> length u
    \<and> (u' = [] \<or> \<not> le (hd u') p)
    \<and> scan_left cmp es ul ui (arr m a (p # e1 @ l @ u @ g @ e2)) a (a + A * es) (a + B * es) (a + C * es - es) cnt
      = Some (arr m a (p # e1' @ l' @ u' @ g @ e2), a + Suc (length e1') * es, a + (Suc (length e1') + length l') * es, cnt')"
  using ps pos
proof (induction u arbitrary: e1 l A B cnt)
  case Nil
  have es: "0 < es" using ok by (simp add: swap_ok_def)
  have "\<not> a + B * es \<le> a + C * es - es" using Nil es by simp
  then have "scan_left cmp es ul ui (arr m a (p # e1 @ l @ [] @ g @ e2)) a (a + A * es) (a + B * es) (a + C * es - es) cnt
    = Some (arr m a (p # e1 @ l @ [] @ g @ e2), a + A * es, a + B * es, cnt)"
    by (subst scan_left.simps) simp
  then show ?case using Nil by (intro exI [of _ e1] exI [of _ l] exI [of _ "[]"] exI [of _ cnt]) simp
next
  case (Cons x u)
  have r: "rows es (p # e1 @ l @ [x] @ (u @ g @ e2))" using Cons.prems(1) by (simp add: pstate_def)
  have "B * es + es \<le> C * es" using mult_le_mono1 [of "Suc B" C es] Cons.prems(4) by simp
  then have "a + B * es \<le> a + C * es - es" by simp
  note step = scan_left_step [OF ok r Cons.prems(2,3) this, where m = m and cnt = cnt]
  have C: "C = Suc B + length u" using Cons.prems(4) by simp
  consider "\<not> le x p" | "le x p" "\<not> le p x" | "le x p" "le p x" by blast
  then show ?case
  proof cases
    case 1
    then show ?thesis using Cons.prems step(1)
      by (intro exI [of _ e1] exI [of _ l] exI [of _ "x # u"] exI [of _ cnt]) simp
  next
    case 2
    have "pstate p e1 (l @ [x]) u g e2" using Cons.prems(1) 2 by (auto simp: pstate_def)
    from Cons.IH [OF this Cons.prems(2) _ C, of cnt] Cons.prems(3)
    show ?thesis using step(2) [OF 2] by simp (blast intro: le_SucI)
  next
    case 3
    obtain l2 where l2: "mset l2 = mset l" and run: "scan_left cmp es ul ui (arr m a (p # e1 @ l @ [x] @ u @ g @ e2)) a (a + A * es) (a + B * es) (a + C * es - es) cnt
        = scan_left cmp es ul ui (arr m a (p # e1 @ [x] @ l2 @ u @ g @ e2)) a (a + Suc A * es) (a + Suc B * es) (a + C * es - es) True"
      using step(3) [OF 3] by blast
    have "pstate p (e1 @ [x]) l u g e2" using Cons.prems(1) 3 by (auto simp: pstate_def)
    then have "pstate p (e1 @ [x]) l2 u g e2" by (rule pstate_mset [OF l2 refl])
    from Cons.IH [OF this _ _ C, of "Suc A" True] Cons.prems(2,3) mset_eq_length [OF l2] l2
    show ?thesis using run by simp (blast intro: le_SucI)
  qed
qed

text \<open>One round of the scan from the right.\<close>

lemma scan_right_step:
  assumes ok: "swap_ok ul ui a es" and r: "rows es (p # ps @ [x] @ g @ e2)"
    and pos: "C = Suc (length ps)" "D = C + length g" and pb: "pb \<le> a + C * es"
  shows "\<not> le p x \<Longrightarrow> scan_right cmp es ul ui (arr m a (p # ps @ [x] @ g @ e2)) a pb (a + C * es) (a + D * es) cnt
      = Some (arr m a (p # ps @ [x] @ g @ e2), a + C * es, a + D * es, cnt)"
    and "le p x \<Longrightarrow> \<not> le x p \<Longrightarrow> scan_right cmp es ul ui (arr m a (p # ps @ [x] @ g @ e2)) a pb (a + C * es) (a + D * es) cnt
      = scan_right cmp es ul ui (arr m a (p # ps @ [x] @ g @ e2)) a pb (a + C * es - es) (a + D * es) cnt"
    and "le p x \<Longrightarrow> le x p \<Longrightarrow> \<exists>g'. mset g' = mset g \<and>
      scan_right cmp es ul ui (arr m a (p # ps @ [x] @ g @ e2)) a pb (a + C * es) (a + D * es) cnt
      = scan_right cmp es ul ui (arr m a (p # ps @ g' @ [x] @ e2)) a pb (a + C * es - es) (a + D * es - es) True"
proof -
  define pc pd where "pc = a + C * es" and "pd = a + D * es"
  obtain c where c: "cmp (arr m a (p # ps @ [x] @ g @ e2)) pc a = Some c" "c \<le> 0 \<longleftrightarrow> le x p" "0 \<le> c \<longleftrightarrow> le p x"
    unfolding pc_def using cmp_pivot [OF r pos(1), of m a] by auto
  note run = scan_right.simps [of cmp es ul ui "arr m a (p # ps @ [x] @ g @ e2)" a pb pc pd cnt]
  show "\<not> le p x \<Longrightarrow> scan_right cmp es ul ui (arr m a (p # ps @ [x] @ g @ e2)) a pb (a + C * es) (a + D * es) cnt
      = Some (arr m a (p # ps @ [x] @ g @ e2), a + C * es, a + D * es, cnt)"
    and "le p x \<Longrightarrow> \<not> le x p \<Longrightarrow> scan_right cmp es ul ui (arr m a (p # ps @ [x] @ g @ e2)) a pb (a + C * es) (a + D * es) cnt
      = scan_right cmp es ul ui (arr m a (p # ps @ [x] @ g @ e2)) a pb (a + C * es - es) (a + D * es) cnt"
    using c pb run by (simp_all flip: pc_def pd_def)
  assume eq: "le p x" "le x p"
  obtain g' where g': "mset g' = mset g" "swap es ul ui (arr m a (p # ps @ [x] @ g @ e2)) pc pd = Some (arr m a (p # ps @ g' @ [x] @ e2))"
    using swap_to_end [OF ok, of "p # ps" x g e2 C D m] r pos unfolding pc_def pd_def by auto
  show "\<exists>g'. mset g' = mset g \<and>
      scan_right cmp es ul ui (arr m a (p # ps @ [x] @ g @ e2)) a pb (a + C * es) (a + D * es) cnt
      = scan_right cmp es ul ui (arr m a (p # ps @ g' @ [x] @ e2)) a pb (a + C * es - es) (a + D * es - es) True"
    using c pb run eq g' by (intro exI [of _ g']) (simp flip: pc_def pd_def)
qed

text \<open>The outcome of the scan over \<open>u\<close>: what is left of it starts as \<open>u\<close> did and ends in an element below the pivot.\<close>

definition right_scanned where
  "right_scanned p e1 l u M B m a res \<longleftrightarrow> (\<exists>u' g' e2' cnt'. pstate p e1 l u' g' e2' \<and> mset (u' @ g' @ e2') = M \<and> length u' \<le> length u
    \<and> (u' = [] \<or> \<not> le p (last u') \<and> hd u' = hd u)
    \<and> res = Some (arr m a (p # e1 @ l @ u' @ g' @ e2'), a + (B + length u') * es - es, a + (B + length u' + length g') * es - es, cnt' :: bool))"

lemma right_scanned_snoc: "right_scanned p e1 l u M B m a res \<Longrightarrow> right_scanned p e1 l (u @ [x]) M B m a res"
proof -
  have hd: "u' = [] \<or> hd u' = hd (u @ [x])" if "length u' \<le> length u" "u' = [] \<or> hd u' = hd u" for u'
    using that by (cases u) auto
  assume "right_scanned p e1 l u M B m a res"
  then show ?thesis unfolding right_scanned_def by (elim exE conjE, intro exI conjI) (use hd in auto)
qed

lemma scan_right_ok:
  assumes ok: "swap_ok ul ui a es" and ps: "pstate p e1 l u g e2"
    and pos: "B = Suc (length e1) + length l" "C = B + length u" "D = C + length g"
  shows "right_scanned p e1 l u (mset (u @ g @ e2)) B m a
    (scan_right cmp es ul ui (arr m a (p # e1 @ l @ u @ g @ e2)) a (a + B * es) (a + C * es - es) (a + D * es - es) cnt)"
  using ps pos
proof (induction u arbitrary: g e2 C D cnt rule: rev_induct)
  case Nil
  have es: "0 < es" using ok by (simp add: swap_ok_def)
  have "\<not> a + B * es \<le> a + C * es - es" using Nil es by simp
  then have "scan_right cmp es ul ui (arr m a (p # e1 @ l @ [] @ g @ e2)) a (a + B * es) (a + C * es - es) (a + D * es - es) cnt
    = Some (arr m a (p # e1 @ l @ [] @ g @ e2), a + C * es - es, a + D * es - es, cnt)"
    by (subst scan_right.simps) simp
  then show ?case using Nil unfolding right_scanned_def by (intro exI [of _ "[]"] exI [of _ g] exI [of _ e2] exI [of _ cnt]) simp
next
  case (snoc x u)
  define K K' where "K = B + length u" and "K' = K + length g"
  have r: "rows es (p # (e1 @ l @ u) @ [x] @ g @ e2)" using snoc.prems(1) by (simp add: pstate_def)
  have CD: "a + C * es - es = a + K * es" "a + D * es - es = a + K' * es" "D = K + length (x # g)"
    using snoc.prems(3,4) by (simp_all add: K_def K'_def)
  have "a + B * es \<le> a + K * es" "K = Suc (length (e1 @ l @ u))" using snoc.prems(2) by (simp_all add: K_def)
  note step = scan_right_step [OF ok r this(2) K'_def this(1), where m = m and cnt = cnt]
  consider "\<not> le p x" | "le p x" "\<not> le x p" | "le p x" "le x p" by blast
  then show ?case
  proof cases
    case 1
    then show ?thesis using snoc.prems step(1) unfolding CD right_scanned_def
      by (intro exI [of _ "u @ [x]"] exI [of _ g] exI [of _ e2] exI [of _ cnt]) (simp add: K_def K'_def)
  next
    case 2
    have "pstate p e1 l u (x # g) e2" using snoc.prems(1) 2 by (auto simp: pstate_def)
    from right_scanned_snoc [OF snoc.IH [OF this snoc.prems(2) K_def CD(3), of cnt, unfolded CD(2)], of x]
    show ?thesis using step(2) [OF 2] unfolding CD(1,2) by simp
  next
    case 3
    obtain g2 where g2: "mset g2 = mset g" and run: "scan_right cmp es ul ui (arr m a (p # (e1 @ l @ u) @ [x] @ g @ e2)) a (a + B * es) (a + K * es) (a + K' * es) cnt
        = scan_right cmp es ul ui (arr m a (p # (e1 @ l @ u) @ g2 @ [x] @ e2)) a (a + B * es) (a + K * es - es) (a + K' * es - es) True"
      using step(3) [OF 3] by blast
    have "pstate p e1 l u g (x # e2)" using snoc.prems(1) 3 by (auto simp: pstate_def)
    then have ps2: "pstate p e1 l u g2 (x # e2)" by (rule pstate_mset [OF refl g2])
    have K2: "K' = K + length g2" using mset_eq_length [OF g2] by (simp add: K'_def)
    from right_scanned_snoc [OF snoc.IH [OF ps2 snoc.prems(2) K_def K2, of True], of x]
    show ?thesis using run g2 unfolding CD(1,2) by simp
  qed
qed

text \<open>Both scans: they meet, or they stop at an element above the pivot and one below it.\<close>

lemma scans_ok:
  assumes ok: "swap_ok ul ui a es" and ps: "pstate p e1 l u g e2"
    and pos: "A = Suc (length e1)" "B = A + length l" "C = B + length u" "D = C + length g"
  shows "\<exists>e1' l' u' g' e2' cnt' B'. pstate p e1' l' u' g' e2' \<and> mset (e1' @ l' @ u' @ g' @ e2') = mset (e1 @ l @ u @ g @ e2)
    \<and> length u' \<le> length u \<and> (u' = [] \<or> \<not> le (hd u') p \<and> \<not> le p (last u')) \<and> B' = Suc (length e1') + length l'
    \<and> do { (m, pa, pb, cnt) \<leftarrow> scan_left cmp es ul ui (arr m a (p # e1 @ l @ u @ g @ e2)) a (a + A * es) (a + B * es) (a + C * es - es) cnt;
           (m, pc, pd, cnt) \<leftarrow> scan_right cmp es ul ui m a pb (a + C * es - es) (a + D * es - es) cnt;
           Some (m, pa, pb, pc, pd, cnt) }
      = Some (arr m a (p # e1' @ l' @ u' @ g' @ e2'), a + Suc (length e1') * es, a + B' * es,
          a + (B' + length u') * es - es, a + (B' + length u' + length g') * es - es, cnt')"
proof -
  obtain e1' l' v c1 where s1: "pstate p e1' l' v g e2" "mset (e1' @ l' @ v) = mset (e1 @ l @ u)" "length v \<le> length u"
      "v = [] \<or> \<not> le (hd v) p"
      "scan_left cmp es ul ui (arr m a (p # e1 @ l @ u @ g @ e2)) a (a + A * es) (a + B * es) (a + C * es - es) cnt
        = Some (arr m a (p # e1' @ l' @ v @ g @ e2), a + Suc (length e1') * es, a + (Suc (length e1') + length l') * es, c1)"
    using scan_left_ok [OF ok ps pos(1-3), of m cnt] by blast
  define B' where "B' = Suc (length e1') + length l'"
  have C: "C = B' + length v" using mset_eq_length [OF s1(2)] pos by (simp add: B'_def)
  obtain u' g' e2' c2 where s2: "pstate p e1' l' u' g' e2'" "mset (u' @ g' @ e2') = mset (v @ g @ e2)" "length u' \<le> length v"
      "u' = [] \<or> \<not> le p (last u') \<and> hd u' = hd v"
      "scan_right cmp es ul ui (arr m a (p # e1' @ l' @ v @ g @ e2)) a (a + B' * es) (a + C * es - es) (a + D * es - es) c1
      = Some (arr m a (p # e1' @ l' @ u' @ g' @ e2'), a + (B' + length u') * es - es, a + (B' + length u' + length g') * es - es, c2)"
    using scan_right_ok [OF ok s1(1) B'_def C pos(4), of m c1] unfolding right_scanned_def by blast
  have "mset (e1' @ l' @ u' @ g' @ e2') = mset (e1' @ l') + mset (v @ g @ e2)" using s2(2) by simp
  also have "\<dots> = mset (e1 @ l @ u) + mset (g @ e2)" using s1(2) by (simp only: mset_append add.assoc [symmetric])
  finally have ms: "mset (e1' @ l' @ u' @ g' @ e2') = mset (e1 @ l @ u @ g @ e2)" by simp
  have ends: "u' = [] \<or> \<not> le (hd u') p \<and> \<not> le p (last u')" using s1(4) s2(3,4) by auto
  show ?thesis
    by (intro exI [of _ e1'] exI [of _ l'] exI [of _ u'] exI [of _ g'] exI [of _ e2'] exI [of _ c2] exI [of _ B'] conjI s2(1) ms ends B'_def)
      (use s1(3) s2(3) in simp, simp only: s1(5) s2(5) [unfolded B'_def] B'_def bind.bind_lunit prod.case)
qed

lemma partition_step:
  assumes ok: "swap_ok ul ui a es" and ps: "pstate p e1 l (x # w @ [y]) g e2" and x: "\<not> le x p" and y: "\<not> le p y"
    and pos: "B = Suc (length e1) + length l" "C = Suc B + length w"
  shows "pstate p e1 (l @ [y]) w (x # g) e2"
    and "swap es ul ui (arr m a (p # e1 @ l @ (x # w @ [y]) @ g @ e2)) (a + B * es) (a + C * es)
      = Some (arr m a (p # e1 @ (l @ [y]) @ w @ (x # g) @ e2))"
proof -
  have r: "rows es (p # e1 @ l @ (x # w @ [y]) @ g @ e2)" using ps by (simp add: pstate_def)
  have "le p x" "le y p" using x y le_total [of p x] le_total [of p y] r by auto
  then show "pstate p e1 (l @ [y]) w (x # g) e2" using ps x y by (auto simp: pstate_def)
  have "swap es ul ui (arr m a ((p # e1 @ l) @ [x] @ w @ [y] @ g @ e2)) (a + B * es) (a + C * es)
      = Some (arr m a ((p # e1 @ l) @ [y] @ w @ [x] @ g @ e2))"
    using pos r by (intro swap_arr(1) [OF ok]) auto
  then show "swap es ul ui (arr m a (p # e1 @ l @ (x # w @ [y]) @ g @ e2)) (a + B * es) (a + C * es)
      = Some (arr m a (p # e1 @ (l @ [y]) @ w @ (x # g) @ e2))" by simp
qed

lemma partition_loop_scans:
  "partition_loop cmp es ul ui m a pa pb pc pd cnt = do {
     (m, pa, pb, pc, pd, cnt) \<leftarrow> do {
       (m, pa, pb, cnt) \<leftarrow> scan_left cmp es ul ui m a pa pb pc cnt;
       (m, pc, pd, cnt) \<leftarrow> scan_right cmp es ul ui m a pb pc pd cnt;
       Some (m, pa, pb, pc, pd, cnt) };
     if pb > pc then Some (m, pa, pb, pc, pd, cnt)
     else do { m \<leftarrow> swap es ul ui m pb pc; partition_loop cmp es ul ui m a pa (pb + es) (pc - es) pd True } }"
  by (subst partition_loop.simps) (simp add: split_def bind_assoc cong: if_cong)

lemma partition_loop_ok:
  assumes ok: "swap_ok ul ui a es" and ps: "pstate p e1 l u g e2"
    and pos: "A = Suc (length e1)" "B = A + length l" "C = B + length u" "D = C + length g"
  shows "\<exists>e1' l' g' e2' cnt'. pstate p e1' l' [] g' e2' \<and> mset (e1' @ l' @ g' @ e2') = mset (e1 @ l @ u @ g @ e2)
    \<and> partition_loop cmp es ul ui (arr m a (p # e1 @ l @ u @ g @ e2)) a (a + A * es) (a + B * es) (a + C * es - es) (a + D * es - es) cnt
      = Some (arr m a (p # e1' @ l' @ g' @ e2'), a + Suc (length e1') * es, a + (Suc (length e1') + length l') * es,
          a + (Suc (length e1') + length l') * es - es, a + (Suc (length e1') + length l' + length g') * es - es, cnt')"
  using ps pos
proof (induction "length u" arbitrary: e1 l u g e2 A B C D cnt rule: less_induct)
  case less
  have es: "0 < es" using ok by (simp add: swap_ok_def)
  let ?run = "partition_loop cmp es ul ui (arr m a (p # e1 @ l @ u @ g @ e2)) a (a + A * es) (a + B * es) (a + C * es - es) (a + D * es - es) cnt"
  obtain f k v h f2 c K where s: "pstate p f k v h f2" "mset (f @ k @ v @ h @ f2) = mset (e1 @ l @ u @ g @ e2)"
      "length v \<le> length u" "v = [] \<or> \<not> le (hd v) p \<and> \<not> le p (last v)" "K = Suc (length f) + length k"
      "do { (m, pa, pb, cnt) \<leftarrow> scan_left cmp es ul ui (arr m a (p # e1 @ l @ u @ g @ e2)) a (a + A * es) (a + B * es) (a + C * es - es) cnt;
           (m, pc, pd, cnt) \<leftarrow> scan_right cmp es ul ui m a pb (a + C * es - es) (a + D * es - es) cnt;
           Some (m, pa, pb, pc, pd, cnt) }
      = Some (arr m a (p # f @ k @ v @ h @ f2), a + Suc (length f) * es, a + K * es,
          a + (K + length v) * es - es, a + (K + length v + length h) * es - es, c)"
    using scans_ok [OF ok less.prems, of m cnt] by (elim exE conjE) (rule that)
  note run = partition_loop_scans [of ul ui "arr m a (p # e1 @ l @ u @ g @ e2)" a "a + A * es" "a + B * es" "a + C * es - es" "a + D * es - es" cnt,
      unfolded s(6) bind.bind_lunit prod.case]
  show ?case
  proof (cases "v = []")
    case True
    then have "a + K * es > a + (K + length v) * es - es" using es s(5) by simp
    with run have "?run = Some (arr m a (p # f @ k @ v @ h @ f2), a + Suc (length f) * es, a + K * es,
        a + (K + length v) * es - es, a + (K + length v + length h) * es - es, c)" by (simp only: if_True)
    then show ?thesis using s(1,2) True
      by (intro exI [of _ f] exI [of _ k] exI [of _ h] exI [of _ f2] exI [of _ c]) (simp add: s(5))
  next
    case False
    define x y where "x = hd v" and "y = last v"
    have xy: "\<not> le x p" "\<not> le p y" using s(4) False by (auto simp: x_def y_def)
    have "x \<in> set v" using False by (simp add: x_def)
    then have "x \<noteq> y" using le_total [of x p] xy s(1) by (auto simp: pstate_def rows_def)
    then obtain w where w: "v = x # w @ [y]"
      using False by (cases v; cases "tl v" rule: rev_cases) (auto simp: x_def y_def)
    note step = partition_step(1) [OF ok s(1) [unfolded w] xy s(5) refl]
      and swapped = partition_step(2) [OF ok s(1) [unfolded w] xy s(5) refl, of m]
    have ptr: "a + (K + length v) * es - es = a + (Suc K + length w) * es" "a + K * es + es = a + Suc K * es"
        "K + length v + length h = Suc K + length w + length (x # h)" by (simp_all add: w)
    have "\<not> a + K * es > a + (Suc K + length w) * es" by (simp add: add_mult_distrib)
    then have run2: "?run = partition_loop cmp es ul ui (arr m a (p # f @ (k @ [y]) @ w @ (x # h) @ f2)) a (a + Suc (length f) * es) (a + Suc K * es)
          (a + (Suc K + length w) * es - es) (a + (Suc K + length w + length (x # h)) * es - es) True"
      using run [unfolded ptr] by (simp only: w swapped if_False bind.bind_lunit)
    have "length w < length u" "Suc K = Suc (length f) + length (k @ [y])" using s(3,5) w by simp_all
    note ih = less.hyps [OF this(1) step refl this(2) refl refl, of True]
    have "mset (f @ (k @ [y]) @ w @ (x # h) @ f2) = mset (e1 @ l @ u @ g @ e2)" using s(2) w by (simp add: add_mset_commute [of y x])
    with ih show ?thesis unfolding run2 by (simp only:)
  qed
qed

lemma med3_ok:
  assumes r: "rows es xs" and i: "i < length xs" "j < length xs" "k < length xs"
  obtains r where "r < length xs" "med3 cmp (arr m a xs) (a + i * es) (a + j * es) (a + k * es) = Some (a + r * es)"
proof -
  obtain c1 where c1: "cmp (arr m a xs) (a + i * es) (a + j * es) = Some c1" using cmp_arr [OF r i(1,2)] by metis
  obtain c2 where c2: "cmp (arr m a xs) (a + j * es) (a + k * es) = Some c2" using cmp_arr [OF r i(2,3)] by metis
  obtain c3 where c3: "cmp (arr m a xs) (a + i * es) (a + k * es) = Some c3" using cmp_arr [OF r i(1,3)] by metis
  have "med3 cmp (arr m a xs) (a + i * es) (a + j * es) (a + k * es) \<in> {Some (a + i * es), Some (a + j * es), Some (a + k * es)}"
    by (simp add: med3_def c1 c2 c3)
  then show thesis using that [of i] that [of j] that [of k] i by auto
qed

lemma choose_pivot_ok:
  assumes r: "rows es xs" and n: "0 < length xs"
  obtains i where "i < length xs" "choose_pivot cmp es (arr m a xs) a (length xs) = Some (a + i * es)"
proof -
  let ?n = "length xs" and ?m = "arr m a xs"
  let ?e = "length xs div 8" and ?h = "length xs div 2"
  consider "?n \<le> 7" | "7 < ?n" "?n \<le> 40" | "40 < ?n" by linarith
  then show thesis
  proof cases
    case 1
    then show thesis using that [of ?h] n by (simp add: choose_pivot_def)
  next
    case 2
    obtain i where "i < ?n" "med3 cmp ?m (a + 0 * es) (a + ?h * es) (a + (?n - 1) * es) = Some (a + i * es)"
      by (rule med3_ok [OF r, of 0 ?h "?n - 1" m a]) (use n in auto)
    then show thesis using that [of i] 2 by (simp add: choose_pivot_def)
  next
    case 3
    then have bd: "2 * ?e < ?n" "?h + ?e < ?n" "?h < ?n" "?e < ?n" "2 * ?e \<le> ?n - 1" "?e \<le> ?n - 1" "?e \<le> ?h" by linarith+
    obtain i where i: "i < ?n" "med3 cmp ?m (a + 0 * es) (a + ?e * es) (a + (2 * ?e) * es) = Some (a + i * es)"
      by (rule med3_ok [OF r, of 0 ?e "2 * ?e" m a]) (use n bd in auto)
    obtain j where j: "j < ?n" "med3 cmp ?m (a + (?h - ?e) * es) (a + ?h * es) (a + (?h + ?e) * es) = Some (a + j * es)"
      by (rule med3_ok [OF r, of "?h - ?e" ?h "?h + ?e" m a]) (use n bd in auto)
    obtain k where k: "k < ?n" "med3 cmp ?m (a + (?n - 1 - 2 * ?e) * es) (a + (?n - 1 - ?e) * es) (a + (?n - 1) * es) = Some (a + k * es)"
      by (rule med3_ok [OF r, of "?n - 1 - 2 * ?e" "?n - 1 - ?e" "?n - 1" m a]) (use n bd in auto)
    obtain l where l: "l < ?n" "med3 cmp ?m (a + i * es) (a + j * es) (a + k * es) = Some (a + l * es)"
      by (rule med3_ok [OF r i(1) j(1) k(1)])
    have sub: "a + y * es - x * es = a + (y - x) * es" if "x \<le> y" for x y
      using mult_le_mono1 [OF that, of es] by (simp add: diff_mult_distrib)
    have p: "a + ?e * es = a + 0 * es + ?e * es" "a + (2 * ?e) * es = a + 0 * es + 2 * (?e * es)" "a + (?h - ?e) * es = a + ?h * es - ?e * es"
       "a + (?h + ?e) * es = a + ?h * es + ?e * es" "a + (?n - 1 - 2 * ?e) * es = a + (?n - 1) * es - 2 * (?e * es)"
       "a + (?n - 1 - ?e) * es = a + (?n - 1) * es - ?e * es"
      using sub [OF bd(5)] sub [OF bd(6)] sub [OF bd(7)] by (simp_all add: add_mult_distrib mult.assoc)
    show thesis using that [of l] l i(2) [unfolded p(1,2)] j(2) [unfolded p] k(2) [unfolded p] 3
      by (simp add: choose_pivot_def Let_def)
  qed
qed

lemma swap_front:
  assumes ok: "swap_ok ul ui a es" and r: "rows es xs" and i: "i < length xs"
  obtains p ys where "mset (p # ys) = mset xs" "swap es ul ui (arr m a xs) a (a + i * es) = Some (arr m a (p # ys))"
proof -
  have xs: "xs = [] @ take i xs @ [xs ! i] @ drop (Suc i) xs" using i by (simp add: id_take_nth_drop)
  have "rows es ([] @ take i xs @ [xs ! i] @ drop (Suc i) xs)" using r xs by metis
  from swap_to_front [OF ok this, of 0 i m] i
  obtain l where l: "mset l = mset (take i xs)"
    "swap es ul ui (arr m a xs) a (a + i * es) = Some (arr m a (xs ! i # l @ drop (Suc i) xs))"
    by (auto simp: id_take_nth_drop [symmetric])
  show thesis by (rule that [OF _ l(2)]) (use l(1) arg_cong [OF xs, of mset] in simp)
qed

definition split3 :: "u8 list list \<Rightarrow> u8 list list \<Rightarrow> u8 list list \<Rightarrow> bool" where
  "split3 L E G \<longleftrightarrow> (\<exists>p. length p = es \<and> (\<forall>x \<in> set L. le x p) \<and> (\<forall>x \<in> set E. le x p \<and> le p x) \<and> (\<forall>x \<in> set G. le p x)) \<and> E \<noteq> []"

lemma split3_mset: "mset L' = mset L \<Longrightarrow> mset E' = mset E \<Longrightarrow> mset G' = mset G \<Longrightarrow> split3 L E G \<Longrightarrow> split3 L' E' G'"
  unfolding split3_def by (metis mset_eq_setD mset_zero_iff)

lemma split3_nonempty: "split3 L E G \<Longrightarrow> 0 < length E"
  by (simp add: split3_def)

lemma split3_sorted:
  assumes "split3 L E G" "rows es (L @ E @ G)" "sorted_wrt le L" "sorted_wrt le G"
  shows "sorted_wrt le (L @ E @ G)"
proof -
  obtain p where p: "length p = es" "\<forall>x \<in> set L. le x p" "\<forall>x \<in> set E. le x p \<and> le p x" "\<forall>x \<in> set G. le p x"
    using assms(1) by (auto simp: split3_def)
  have len: "\<forall>x \<in> set L \<union> set E \<union> set G. length x = es" using assms(2) by (auto simp: rows_def)
  have via: "le x y" if "x \<in> set L \<union> set E" "y \<in> set E \<union> set G" for x y
    using le_trans [of x p y] p that len by auto
  have "sorted_wrt le E"
    unfolding sorted_wrt_iff_nth_less using via by (meson UnI1 UnI2 nth_mem order_less_trans)
  then show ?thesis using assms(3,4) via by (auto simp: sorted_wrt_append)
qed

text \<open>The two exchanges after the partition bring the equal elements to the middle.\<close>

lemma gather_ok:
  assumes ok: "swap_ok ul ui a es" and ps: "pstate p e1 l [] g e2" and n: "n = Suc (length e1 + length l + length g + length e2)"
    and ptrs: "pa = a + Suc (length e1) * es" "pb = a + (Suc (length e1) + length l) * es" "pc = pb - es"
      "pd = a + (Suc (length e1) + length l + length g) * es - es" "pn = a + n * es"
  obtains L E G m1 where "mset (L @ E @ G) = mset (p # e1 @ l @ g @ e2)" "split3 L E G" "length L = length l" "length G = length g"
    "vecswap ul ui (arr m a (p # e1 @ l @ g @ e2)) a (pb - min (pa - a) (pb - pa)) (min (pa - a) (pb - pa)) = Some m1"
    "vecswap ul ui m1 pb (pn - min (pd - pc) (pn - pd - es)) (min (pd - pc) (pn - pd - es)) = Some (arr m a (L @ E @ G))"
proof -
  have es: "0 < es" using ok by (simp add: swap_ok_def)
  have r: "rows es (p # e1 @ l @ g @ e2)" using ps by (simp add: pstate_def)
  define k1 k2 where "k1 = min (length (p # e1)) (length l)" and "k2 = min (length g) (length e2)"
  have sz: "pa - a = length (p # e1) * es" "pb - pa = length l * es" "pd - pc = length g * es" "pn - pd - es = length e2 * es"
    using es by (simp_all add: ptrs n add_mult_distrib)
  have mn: "min (pa - a) (pb - pa) = k1 * es" "min (pd - pc) (pn - pd - es) = k2 * es"
    unfolding sz k1_def k2_def by (rule nat_mult_min_left [symmetric])+
  have "rows es ([] @ (p # e1) @ l @ (g @ e2))" using r by simp
  from vecswap_blocks [OF ok this _ refl k1_def, of 0 m]
  obtain e3 l3 where v1: "mset e3 = mset (p # e1)" "mset l3 = mset l"
    "vecswap ul ui (arr m a (p # e1 @ l @ g @ e2)) a (pb - k1 * es) (k1 * es) = Some (arr m a (l3 @ e3 @ g @ e2))"
    by (auto simp: ptrs)
  have len: "length e3 = Suc (length e1)" "length l3 = length l" using v1(1,2) by (metis mset_eq_length length_Cons)+
  have "rows es ((l3 @ e3) @ g @ e2 @ [])" using rows_mset [OF v1(1) [symmetric]] rows_mset [OF v1(2) [symmetric]] r by simp
  from vecswap_blocks [OF ok this refl refl k2_def, of m]
  obtain g4 e4 where v2: "mset g4 = mset g" "mset e4 = mset e2"
    "vecswap ul ui (arr m a (l3 @ e3 @ g @ e2)) pb (pn - k2 * es) (k2 * es) = Some (arr m a (l3 @ e3 @ e4 @ g4))"
    by (auto simp: ptrs n len add_ac)
  have "split3 l (p # e1 @ e2) g" using ps le_total [of p p] r unfolding split3_def pstate_def by (auto intro!: exI [of _ p])
  then have "split3 l3 (e3 @ e4) g4" by (rule split3_mset [rotated 3]) (use v1 v2 in simp_all)
  then show thesis
    using that [of l3 "e3 @ e4" g4, unfolded mn] v1 v2 mset_eq_length [OF v2(1)] len by simp
qed

definition remaining :: "addr \<Rightarrow> u8 list list \<Rightarrow> u8 list list \<Rightarrow> u8 list list \<Rightarrow> addr \<times> nat \<times> addr \<times> nat" where
  "remaining a L E G = (if length G > length L
     then (a, length L * es, a + (length L + length E) * es, length G * es)
     else (a + (length L + length E) * es, length G * es, a, length L * es))"

text \<open>The pivot is chosen and moved to the front, and the rest is partitioned.\<close>

lemma pivot_partition_ok:
  assumes ok: "swap_ok ul ui a es" and r: "rows es xs" and n: "0 < length xs"
  obtains i p ys e1 l g e2 cnt where "choose_pivot cmp es (arr m a xs) a (length xs) = Some (a + i * es)"
    "swap es ul ui (arr m a xs) a (a + i * es) = Some (arr m a (p # ys))"
    "partition_loop cmp es ul ui (arr m a (p # ys)) a (a + es) (a + es) (a + (length xs - 1) * es) (a + (length xs - 1) * es) False
      = Some (arr m a (p # e1 @ l @ g @ e2), a + Suc (length e1) * es, a + (Suc (length e1) + length l) * es,
          a + (Suc (length e1) + length l) * es - es, a + (Suc (length e1) + length l + length g) * es - es, cnt)"
    "pstate p e1 l [] g e2" "mset (p # e1 @ l @ g @ e2) = mset xs"
proof -
  obtain i where i: "i < length xs" "choose_pivot cmp es (arr m a xs) a (length xs) = Some (a + i * es)"
    by (rule choose_pivot_ok [OF r n])
  obtain p ys where p: "mset (p # ys) = mset xs" "swap es ul ui (arr m a xs) a (a + i * es) = Some (arr m a (p # ys))"
    by (rule swap_front [OF ok r i(1)])
  have len: "length xs = Suc (length ys)" using mset_eq_length [OF p(1)] by simp
  have "pstate p [] [] ys [] []" using rows_mset [OF p(1) [symmetric] r] by (simp add: pstate_def)
  from partition_loop_ok [OF ok this refl refl refl refl, of m False]
  obtain e1 l g e2 cnt where ps: "pstate p e1 l [] g e2" "mset (e1 @ l @ g @ e2) = mset ys"
    and pl: "partition_loop cmp es ul ui (arr m a (p # ys)) a (a + es) (a + es) (a + (length xs - 1) * es) (a + (length xs - 1) * es) False
      = Some (arr m a (p # e1 @ l @ g @ e2), a + Suc (length e1) * es, a + (Suc (length e1) + length l) * es,
          a + (Suc (length e1) + length l) * es - es, a + (Suc (length e1) + length l + length g) * es - es, cnt)"
    by (auto simp: len)
  show thesis by (rule that [OF i(2) p(2) pl ps(1)]) (use ps(2) p(1) in simp)
qed

lemma qsort_pass_ok:
  assumes ok: "swap_ok ul ui a es" and r: "rows es xs"
  shows "(\<exists>ys. mset ys = mset xs \<and> sorted_wrt le ys \<and> qsort_pass cmp es ul ui (arr m a xs) a (length xs) = Some (arr m a ys, None))
    \<or> (\<exists>L E G. mset (L @ E @ G) = mset xs \<and> split3 L E G
         \<and> qsort_pass cmp es ul ui (arr m a xs) a (length xs) = Some (arr m a (L @ E @ G), Some (remaining a L E G)))"
proof (cases "length xs < 7")
  case True
  then show ?thesis using insertion_sort_ok [OF ok r, of m] by (auto simp: qsort_pass_def)
next
  case False
  then have n: "0 < length xs" by linarith
  have es: "0 < es" using ok by (simp add: swap_ok_def)
  obtain i p ys e1 l g e2 cnt where i: "choose_pivot cmp es (arr m a xs) a (length xs) = Some (a + i * es)"
    and p: "swap es ul ui (arr m a xs) a (a + i * es) = Some (arr m a (p # ys))"
    and pl: "partition_loop cmp es ul ui (arr m a (p # ys)) a (a + es) (a + es) (a + (length xs - 1) * es) (a + (length xs - 1) * es) False
      = Some (arr m a (p # e1 @ l @ g @ e2), a + Suc (length e1) * es, a + (Suc (length e1) + length l) * es,
          a + (Suc (length e1) + length l) * es - es, a + (Suc (length e1) + length l + length g) * es - es, cnt)"
    and ps: "pstate p e1 l [] g e2" and ms: "mset (p # e1 @ l @ g @ e2) = mset xs"
    by (rule pivot_partition_ok [OF ok r n])
  from ms have rq: "rows es (p # e1 @ l @ g @ e2)" using rows_mset [OF _ r] by metis
  have lq: "length xs = Suc (length e1 + length l + length g + length e2)" using mset_eq_length [OF ms] by simp
  note run = qsort_pass_def [of cmp es ul ui "arr m a xs" a "length xs"]
  show ?thesis
  proof (cases cnt)
    case c: False
    obtain zs where z: "mset zs = mset xs" "sorted_wrt le zs"
        "insertion_sort cmp es ul ui (arr m a (p # e1 @ l @ g @ e2)) a (length xs) (a + es) = Some (arr m a zs)"
      using insertion_sort_ok [OF ok rq, of m] ms mset_eq_length [OF ms] by metis
    have "qsort_pass cmp es ul ui (arr m a xs) a (length xs) = Some (arr m a zs, None)"
      by (simp only: run False c i p pl z(3) bind.bind_lunit prod.case if_False if_True not_False_eq_True)
    then show ?thesis using z by metis
  next
    case True
    define pa pb pc pd pn where "pa = a + Suc (length e1) * es" and "pb = a + (Suc (length e1) + length l) * es" and "pc = pb - es"
      and "pd = a + (Suc (length e1) + length l + length g) * es - es" and "pn = a + length xs * es"
    note ptrs = this
    obtain L E G m1 where h: "mset (L @ E @ G) = mset (p # e1 @ l @ g @ e2)" "split3 L E G" "length L = length l" "length G = length g"
      and v: "vecswap ul ui (arr m a (p # e1 @ l @ g @ e2)) a (pb - min (pa - a) (pb - pa)) (min (pa - a) (pb - pa)) = Some m1"
      "vecswap ul ui m1 pb (pn - min (pd - pc) (pn - pd - es)) (min (pd - pc) (pn - pd - es)) = Some (arr m a (L @ E @ G))"
      by (rule gather_ok [OF ok ps lq ptrs])
    have lE: "length xs = length L + length E + length G" using mset_eq_length [OF h(1)] lq by simp
    have sz: "pb - pa = length L * es" "pd - pc = length G * es" "pn - length G * es = a + (length L + length E) * es"
      using es by (simp_all add: ptrs h lE add_mult_distrib)
    have "qsort_pass cmp es ul ui (arr m a xs) a (length xs) = Some (arr m a (L @ E @ G), Some (remaining a L E G))"
      unfolding remaining_def run Let_def
      by (simp only: False True i p pl [folded ptrs] pn_def [symmetric] v [unfolded sz] sz bind.bind_lunit prod.case if_False if_True not_True_eq_False mult_less_cancel2 es simp_thms)
    then show ?thesis using h(1,2) ms by metis
  qed
qed

section \<open>The sort\<close>

text \<open>What follows when a part is sorted: the loop goes on with the last part put on the stack, or is done.\<close>

definition finish :: "nat \<Rightarrow> nat \<Rightarrow> mem \<Rightarrow> (addr \<times> nat) list \<Rightarrow> mem option" where
  "finish ul ui m stack = (case qsort_pop stack of None \<Rightarrow> Some m | Some (a, n, st) \<Rightarrow> qsort_loop cmp es ul ui m a n st)"

lemma finish_simps [simp]:
  "finish ul ui m [] = Some m" "finish ul ui m ((a, n) # st) = qsort_loop cmp es ul ui m a n st"
  by (simp_all add: finish_def qsort_pop_def)

definition after :: "nat \<Rightarrow> nat \<Rightarrow> mem \<Rightarrow> (addr \<times> nat \<times> addr \<times> nat) option \<Rightarrow> (addr \<times> nat) list \<Rightarrow> mem option" where
  "after ul ui m parts stack = do {
     m \<leftarrow> (case fst (qsort_next es parts stack) of
            None \<Rightarrow> Some m
          | Some (pa, k) \<Rightarrow> qsort_loop cmp es (swapinit 8 pa es) (swapinit 4 pa es) m pa k []);
     case snd (qsort_next es parts stack) of
       None \<Rightarrow> Some m
     | Some (a, n, stack) \<Rightarrow> qsort_loop cmp es ul ui m a n stack }"

lemma qsort_loop_after:
  "qsort_loop cmp es ul ui m a n stack = do { (m, parts) \<leftarrow> qsort_pass cmp es ul ui m a n; after ul ui m parts stack }"
  unfolding after_def by (rule qsort_loop.simps)

lemma after_None: "after ul ui m None stack = finish ul ui m stack"
  by (simp add: after_def qsort_next_def finish_def)

lemma after_Some:
  assumes "0 < es"
  shows "after ul ui m (Some (s, r * es, t, n * es)) stack =
    (if 1 < r \<and> length stack < PARAMETER_STACK_LEVELS then qsort_loop cmp es ul ui m s r ((t, n) # stack)
     else do { m \<leftarrow> (if 1 < r then qsort_loop cmp es (swapinit 8 s es) (swapinit 4 s es) m s r [] else Some m);
               if 1 < n then qsort_loop cmp es ul ui m t n stack else finish ul ui m stack })"
  using assms by (simp add: after_def qsort_next_def finish_def mult_less_cancel2 [of 1 es, simplified])

text \<open>A list of elements is sorted in place at \<open>b\<close>, whatever the memory around it and the stack.\<close>

definition sorts_at :: "addr \<Rightarrow> u8 list list \<Rightarrow> bool" where
  "sorts_at b xs \<longleftrightarrow> (\<forall>ul ui m stack. swap_ok ul ui b es \<longrightarrow>
     (\<exists>ys. mset ys = mset xs \<and> sorted_wrt le ys
       \<and> qsort_loop cmp es ul ui (arr m b xs) b (length xs) stack = finish ul ui (arr m b ys) stack))"

lemma sorts_inside:
  assumes s: "sorts_at (a + n * es) xs" and ok: "swap_ok ul ui (a + n * es) es" and r: "rows es (ps @ xs @ qs)" and n: "n = length ps"
  shows "\<exists>ys. mset ys = mset xs \<and> sorted_wrt le ys \<and>
    qsort_loop cmp es ul ui (arr m a (ps @ xs @ qs)) (a + n * es) (length xs) stack = finish ul ui (arr m a (ps @ ys @ qs)) stack"
proof -
  let ?m = "arr m a (ps @ xs @ qs)"
  obtain ys where y: "mset ys = mset xs" "sorted_wrt le ys"
    "qsort_loop cmp es ul ui (arr ?m (a + n * es) xs) (a + n * es) (length xs) stack = finish ul ui (arr ?m (a + n * es) ys) stack"
    using s ok unfolding sorts_at_def by blast
  have rx: "rows es xs" using r by simp
  have ry: "rows es ys" by (rule rows_mset [OF y(1) [symmetric] rx])
  show ?thesis
    by (intro exI [of _ ys])
      (use y arr_inside [OF r rx refl n, of m a] arr_inside [OF r ry mset_eq_length [OF y(1)] n, of m a] in simp)
qed

text \<open>
  The parts left by a pass, the smaller \<open>S\<close> at \<open>s\<close> and the larger \<open>T\<close> at \<open>t\<close>; \<open>M\<close> is the memory they
  stand in.  Whether the smaller one is put before the larger one on the stack, sorted by a call, or needs no work, both end up sorted.
\<close>

lemma after_sorts:
  assumes es: "0 < es"
    and S: "\<And>ul ui stack. swap_ok ul ui s es \<Longrightarrow> \<exists>S'. mset S' = mset S \<and> sorted_wrt le S'
      \<and> qsort_loop cmp es ul ui (M S T) s (length S) stack = finish ul ui (M S' T) stack"
    and T: "\<And>S' stack. mset S' = mset S \<Longrightarrow> \<exists>T'. mset T' = mset T \<and> sorted_wrt le T'
      \<and> qsort_loop cmp es ul ui (M S' T) t (length T) stack = finish ul ui (M S' T') stack"
    and ok: "swap_ok ul ui s es"
  shows "\<exists>S' T'. mset S' = mset S \<and> mset T' = mset T \<and> sorted_wrt le S' \<and> sorted_wrt le T'
    \<and> after ul ui (M S T) (Some (s, length S * es, t, length T * es)) stack = finish ul ui (M S' T') stack"
proof (cases "1 < length S \<and> length stack < PARAMETER_STACK_LEVELS")
  case True
  obtain S' where S': "mset S' = mset S" "sorted_wrt le S'"
    "qsort_loop cmp es ul ui (M S T) s (length S) ((t, length T) # stack) = finish ul ui (M S' T) ((t, length T) # stack)"
    using S [OF ok] by blast
  obtain T' where T': "mset T' = mset T" "sorted_wrt le T'" "qsort_loop cmp es ul ui (M S' T) t (length T) stack = finish ul ui (M S' T') stack"
    using T [OF S'(1)] by blast
  show ?thesis using S' T' True by (auto simp: after_Some [OF es])
next
  case False
  have short: "sorted_wrt le X" if "\<not> 1 < length X" for X using that by (cases X) auto
  obtain S' where S': "mset S' = mset S" "sorted_wrt le S'"
    "(if 1 < length S then qsort_loop cmp es (swapinit 8 s es) (swapinit 4 s es) (M S T) s (length S) [] else Some (M S T)) = Some (M S' T)"
    using S [OF swapinit_ok [OF es], of "[]"] short [of S] by (cases "1 < length S") auto
  obtain T' where T': "mset T' = mset T" "sorted_wrt le T'"
    "(if 1 < length T then qsort_loop cmp es ul ui (M S' T) t (length T) stack else finish ul ui (M S' T) stack) = finish ul ui (M S' T') stack"
    using T [OF S'(1), of stack] short [of T] by (cases "1 < length T") auto
  show ?thesis using S' T' False
    by (intro exI [of _ S'] exI [of _ T']) (simp only: after_Some [OF es] bind.bind_lunit if_False simp_thms)
qed

lemma after_remaining:
  assumes es: "0 < es" and ok: "swap_ok ul ui a es" and r: "rows es (L @ E @ G)"
    and L: "sorts_at a L" and G: "sorts_at (a + (length L + length E) * es) G"
  shows "\<exists>L' G'. mset L' = mset L \<and> mset G' = mset G \<and> sorted_wrt le L' \<and> sorted_wrt le G'
    \<and> after ul ui (arr m a (L @ E @ G)) (Some (remaining a L E G)) stack = finish ul ui (arr m a (L' @ E @ G')) stack"
proof -
  define b where "b = a + (length L + length E) * es"
  have lo: "\<exists>L'. mset L' = mset L \<and> sorted_wrt le L'
      \<and> qsort_loop cmp es ul ui (arr m a (L @ E @ G')) a (length L) stack = finish ul ui (arr m a (L' @ E @ G')) stack"
    if "mset G' = mset G" "swap_ok ul ui a es" for ul ui stack G'
  proof -
    have "rows es ([] @ L @ E @ G')" using rows_mset [OF that(1) [symmetric]] r by simp
    then show ?thesis using sorts_inside [of a 0 L ul ui "[]" "E @ G'" m stack] L that(2) by simp
  qed
  have hi: "\<exists>G'. mset G' = mset G \<and> sorted_wrt le G'
      \<and> qsort_loop cmp es ul ui (arr m a (L' @ E @ G)) b (length G) stack = finish ul ui (arr m a (L' @ E @ G')) stack"
    if "mset L' = mset L" "swap_ok ul ui b es" for ul ui stack L'
  proof -
    have "rows es ((L' @ E) @ G @ [])" using rows_mset [OF that(1) [symmetric]] r by simp
    moreover have "length L + length E = length (L' @ E)" using mset_eq_length [OF that(1)] by simp
    ultimately show ?thesis using sorts_inside [OF G that(2) [unfolded b_def], of "L' @ E" "[]" m stack] unfolding b_def by simp
  qed
  have okb: "swap_ok ul ui b es" unfolding b_def by (rule swap_ok_shift [OF ok])
  show ?thesis
  proof (cases "length G > length L")
    case True
    have "\<exists>L' G'. mset L' = mset L \<and> mset G' = mset G \<and> sorted_wrt le L' \<and> sorted_wrt le G'
      \<and> after ul ui (arr m a (L @ E @ G)) (Some (a, length L * es, b, length G * es)) stack = finish ul ui (arr m a (L' @ E @ G')) stack"
      by (rule after_sorts [OF es, where M = "\<lambda>S T. arr m a (S @ E @ T)"]) (use lo hi okb ok in blast)+
    then show ?thesis using True by (simp add: remaining_def b_def)
  next
    case False
    have "\<exists>G' L'. mset G' = mset G \<and> mset L' = mset L \<and> sorted_wrt le G' \<and> sorted_wrt le L'
      \<and> after ul ui (arr m a (L @ E @ G)) (Some (b, length G * es, a, length L * es)) stack = finish ul ui (arr m a (L' @ E @ G')) stack"
      by (rule after_sorts [OF es, where M = "\<lambda>S T. arr m a (T @ E @ S)"]) (use lo hi okb ok in blast)+
    then show ?thesis using False by (simp add: remaining_def b_def) blast
  qed
qed

lemma sorts_at_all: "0 < es \<Longrightarrow> rows es xs \<Longrightarrow> sorts_at a xs"
proof (induction "length xs" arbitrary: a xs rule: less_induct)
  case less
  show ?case unfolding sorts_at_def
  proof (intro allI impI)
    fix ul ui m stack assume ok: "swap_ok ul ui a es"
    note run = qsort_loop_after [of ul ui "arr m a xs" a "length xs" stack]
    from qsort_pass_ok [OF ok less.prems(2), of m]
    consider ys where "mset ys = mset xs" "sorted_wrt le ys" "qsort_pass cmp es ul ui (arr m a xs) a (length xs) = Some (arr m a ys, None)"
      | L E G where "mset (L @ E @ G) = mset xs" "split3 L E G"
        "qsort_pass cmp es ul ui (arr m a xs) a (length xs) = Some (arr m a (L @ E @ G), Some (remaining a L E G))" by blast
    then show "\<exists>ys. mset ys = mset xs \<and> sorted_wrt le ys
        \<and> qsort_loop cmp es ul ui (arr m a xs) a (length xs) stack = finish ul ui (arr m a ys) stack"
    proof cases
      case 1
      then show ?thesis by (intro exI [of _ ys]) (simp add: run after_None)
    next
      case 2
      have r: "rows es (L @ E @ G)" by (rule rows_mset [OF 2(1) [symmetric] less.prems(2)])
      have "length L < length xs" "length G < length xs" using mset_eq_length [OF 2(1), unfolded length_append] split3_nonempty [OF 2(2)] by linarith+
      then have "sorts_at a L" "sorts_at (a + (length L + length E) * es) G" using less.hyps less.prems(1) r by simp_all
      from after_remaining [OF less.prems(1) ok r this, of m stack]
      obtain L' G' where h: "mset L' = mset L" "mset G' = mset G" "sorted_wrt le L'" "sorted_wrt le G'"
        "after ul ui (arr m a (L @ E @ G)) (Some (remaining a L E G)) stack = finish ul ui (arr m a (L' @ E @ G')) stack" by blast
      have ms: "mset (L' @ E @ G') = mset xs" using h(1,2) 2(1) by simp
      have "sorted_wrt le (L' @ E @ G')"
        by (rule split3_sorted [OF split3_mset [OF h(1) refl h(2) 2(2)] _ h(3,4)])
          (use rows_mset [OF ms [symmetric] less.prems(2)] in simp)
      then show ?thesis using ms 2(3) h(5) by (intro exI [of _ "L' @ E @ G'"]) (simp add: run)
    qed
  qed
qed

lemma qsort_sorts:
  assumes "0 < es" "rows es xs"
  shows "\<exists>ys. mset ys = mset xs \<and> sorted_wrt le ys \<and> qsort (arr m a xs) a (length xs) es cmp = Some (arr m a ys)"
  using sorts_at_all [OF assms, of a] swapinit_ok [OF assms(1), of a]
  unfolding sorts_at_def qsort_def by (metis finish_simps(1))

section \<open>Binary search\<close>

definition equal_key :: "u8 list \<Rightarrow> u8 list \<Rightarrow> bool" where
  "equal_key x y \<longleftrightarrow> le x y \<and> le y x"

lemma bsearch_loop_ok:
  assumes r: "rows es xs" and s: "sorted_wrt le xs" and k: "bytes_at m key k" "length k = es"
    and at: "\<And>i. i < length xs \<Longrightarrow> bytes_at m (base + i * es) (xs ! i)"
    and es: "unat sz = es" and n: "length xs < 2 ^ 63" "length xs * es < 2 ^ 64"
    and b: "lo \<le> hi" "unat hi \<le> length xs" "\<forall>i < unat lo. \<not> le k (xs ! i)" "\<forall>i < length xs. unat hi \<le> i \<longrightarrow> \<not> le (xs ! i) k"
  shows "(\<exists>i < length xs. equal_key k (xs ! i) \<and> bsearch_loop cmp m key base sz lo hi = Some (base + i * es))
    \<or> (\<forall>i < length xs. \<not> equal_key k (xs ! i)) \<and> bsearch_loop cmp m key base sz lo hi = Some NULL"
  using b
proof (induction "unat hi - unat lo" arbitrary: lo hi rule: less_induct)
  case less
  show ?case
  proof (cases "lo < hi")
    case False
    then have "lo = hi" using less.prems(1) by simp
    then have "\<forall>i < length xs. \<not> equal_key k (xs ! i)" using less.prems(3,4) by (metis equal_key_def not_le)
    then show ?thesis using False by (simp add: bsearch_loop.simps)
  next
    case True
    define idx where "idx = (lo + hi) div 2"
    let ?i = "unat idx"
    have lh: "unat lo < unat hi" using True by (simp add: word_less_nat_alt)
    have i: "?i = (unat lo + unat hi) div 2" unfolding idx_def using less.prems(2) n(1) lh by (intro unat_mid) simp
    then have ib: "unat lo \<le> ?i" "?i < unat hi" "?i < length xs" using lh less.prems(2) by simp_all
    have "?i * es < 2 ^ 64" by (rule le_less_trans [OF mult_le_mono1 n(2)]) (use ib(3) in simp)
    then have off: "unat (idx * sz) = ?i * es" by (simp add: unat_word_ariths es)
    have i1: "unat (idx + 1) = Suc ?i" using ib(3) n(1) by (simp add: unat_word_ariths)
    have len: "length (xs ! j) = es" if "j < length xs" for j using r that by (simp add: rows_def)
    obtain c where c: "cmp m key (base + ?i * es) = Some c" "c \<le> 0 \<longleftrightarrow> le k (xs ! ?i)" "0 \<le> c \<longleftrightarrow> le (xs ! ?i) k"
      using cmp_ok [OF k(1) at [OF ib(3)] k(2) len [OF ib(3)]] by blast
    have run: "bsearch_loop cmp m key base sz lo hi = (if c < 0 then bsearch_loop cmp m key base sz lo idx
        else if 0 < c then bsearch_loop cmp m key base sz (idx + 1) hi else Some (base + ?i * es))"
      by (subst bsearch_loop.simps) (use True c(1) off in \<open>simp add: Let_def idx_def [symmetric]\<close>)
    have below: "le (xs ! j) (xs ! ?i)" if "j \<le> ?i" for j
      using sorted_wrt_nth_less [OF s, of j ?i] that ib(3) le_total [of "xs ! ?i" "xs ! ?i"] len [OF ib(3)] by (cases "j = ?i") auto
    have above: "le (xs ! ?i) (xs ! j)" if "?i \<le> j" "j < length xs" for j
      using sorted_wrt_nth_less [OF s, of ?i j] that le_total [of "xs ! ?i" "xs ! ?i"] len [OF ib(3)] by (cases "j = ?i") auto
    consider "c < 0" | "0 < c" | "c = 0" by linarith
    then show ?thesis
    proof cases
      case 1
      have hi: "\<forall>j < length xs. ?i \<le> j \<longrightarrow> \<not> le (xs ! j) k"
        using above le_trans [OF len [OF ib(3)] len k(2)] c(3) 1 by (meson linorder_not_le)
      have w: "?i - unat lo < unat hi - unat lo" "lo \<le> idx" "?i \<le> length xs" using ib by (simp_all add: word_le_nat_alt)
      show ?thesis using less.hyps [OF w less.prems(3) hi] 1 by (simp only: run if_True)
    next
      case 2
      have lo: "\<forall>j < unat (idx + 1). \<not> le k (xs ! j)"
      proof (intro allI impI notI)
        fix j assume j: "j < unat (idx + 1)" "le k (xs ! j)"
        then have ji: "j \<le> ?i" "j < length xs" using i1 ib(3) by simp_all
        from le_trans [OF k(2) len [OF ji(2)] len [OF ib(3)] j(2) below [OF ji(1)]] show False using c(2) 2 by simp
      qed
      have w: "unat hi - unat (idx + 1) < unat hi - unat lo" "idx + 1 \<le> hi" using ib i1 by (simp_all add: word_le_nat_alt)
      have "\<not> c < 0" using 2 by simp
      then show ?thesis using less.hyps [OF w less.prems(2) lo less.prems(4)] 2 by (simp only: run if_True if_False)
    next
      case 3
      then show ?thesis using c ib(3) by (auto simp: run equal_key_def)
    qed
  qed
qed

lemma bsearch_finds:
  assumes r: "rows es xs" and s: "sorted_wrt le xs" and k: "bytes_at m key k" "length k = es"
    and at: "\<And>i. i < length xs \<Longrightarrow> bytes_at m (base + i * es) (xs ! i)"
    and es: "unat sz = es" "0 < es" and n: "length xs < 2 ^ 63" "length xs * es < 2 ^ 64" "unat nmemb = length xs"
  shows "(\<exists>i < length xs. equal_key k (xs ! i) \<and> bsearch m key base nmemb sz cmp = Some (base + i * es))
    \<or> (\<forall>i < length xs. \<not> equal_key k (xs ! i)) \<and> bsearch m key base nmemb sz cmp = Some NULL"
proof (cases "nmemb = 0")
  case True
  then show ?thesis using n(3) by (simp add: bsearch_def)
next
  case False
  moreover have "sz \<noteq> 0" using es by auto
  ultimately show ?thesis
    using bsearch_loop_ok [OF r s k at es(1) n(1,2), of 0 nmemb] n(3) by (simp add: bsearch_def)
qed

end

section \<open>Elements compared by \<open>memcmp\<close>\<close>

lemma cmp_list_swap: "length xs = length ys \<Longrightarrow> cmp_list ys xs = - cmp_list xs ys"
  by (induction xs ys rule: list_induct2) auto

lemma cmp_list_le_Cons: "cmp_list (a # xs) (b # ys) \<le> 0 \<longleftrightarrow> a < b \<or> a = b \<and> cmp_list xs ys \<le> 0"
  by (auto simp: word_less_alt word_uint_eq_iff)

lemma cmp_list_trans:
  "length xs = length ys \<Longrightarrow> length ys = length zs \<Longrightarrow> cmp_list xs ys \<le> 0 \<Longrightarrow> cmp_list ys zs \<le> 0 \<Longrightarrow> cmp_list xs zs \<le> 0"
proof (induction xs ys zs rule: list_induct3)
  case (Cons x xs y ys z zs)
  then show ?case unfolding cmp_list_le_Cons by auto
qed simp

definition memcmp_elements :: "nat \<Rightarrow> compar" where
  "memcmp_elements es = (\<lambda>m p q. memcmp m p q es)"

definition bytes_le :: "u8 list \<Rightarrow> u8 list \<Rightarrow> bool" where
  "bytes_le xs ys \<longleftrightarrow> cmp_list xs ys \<le> 0"

interpretation memcmp_order: comparator "memcmp_elements es" es bytes_le for es
proof
  fix m p q and x y :: "u8 list"
  assume "bytes_at m p x" "bytes_at m q y" "length x = es" "length y = es"
  then show "\<exists>c. memcmp_elements es m p q = Some c \<and> (c \<le> 0 \<longleftrightarrow> bytes_le x y) \<and> (0 \<le> c \<longleftrightarrow> bytes_le y x)"
    using memcmp_eq [of m p x q y] cmp_list_swap [of x y] by (auto simp: memcmp_elements_def bytes_le_def)
next
  fix x y z :: "u8 list"
  assume "length x = es" "length y = es" "length z = es" "bytes_le x y" "bytes_le y z"
  then show "bytes_le x z" using cmp_list_trans [of x y z] by (simp add: bytes_le_def)
qed

lemma put_bytes_same: "bytes_at m a xs \<Longrightarrow> put_bytes m a xs = m"
  by (rule ext) (auto simp: put_bytes_apply bytes_at_iff le_iff_add)

lemma arr_same: "bytes_at m a (concat xs) \<Longrightarrow> arr m a xs = m"
  unfolding arr_def by (rule put_bytes_same)

section \<open>Properties\<close>

text \<open>Arrays for the examples.\<close>

definition digits :: "u8 list list" where
  "digits = [[3, 1], [4, 1], [5, 9], [2, 6], [5, 3], [5, 8], [9, 7], [9, 3]]"

definition table :: "u8 list list" where
  "table = [[1], [3], [4], [5], [9]]"

text \<open>
  C8: for any array, any size of elements and any alignment, and a comparison function whose sign is a total preorder
  of the bytes of two elements, \<open>qsort\<close> returns; the array then holds the same elements, each as often as before,
  in ascending order, and no other byte of memory has changed.
\<close>

theorem qsort_correct:
  assumes cmp: "comparator cmp es le" and es: "0 < es"
    and xs: "\<forall>x \<in> set xs. length x = es" "bytes_at m a (concat xs)"
  shows "\<exists>ys. mset ys = mset xs \<and> sorted_wrt le ys \<and> qsort m a (length xs) es cmp = Some (put_bytes m a (concat ys))"
  using comparator.qsort_sorts [OF cmp es, of xs m a] xs by (simp add: rows_def arr_same) (simp add: arr_def)

theorem qsort_correct_witness:
  "\<exists>ys. mset ys = mset digits \<and> sorted_wrt bytes_le ys \<and>
     qsort (put_bytes (\<lambda>_. None) 64 (concat digits)) 64 8 2 (memcmp_elements 2)
       = Some (put_bytes (put_bytes (\<lambda>_. None) 64 (concat digits)) 64 (concat ys))"
proof -
  have "length digits = 8" "\<forall>x \<in> set digits. length x = 2" by (simp_all add: digits_def)
  then show ?thesis
    using qsort_correct [OF memcmp_order.comparator_axioms, of 2 digits "put_bytes (\<lambda>_. None) 64 (concat digits)" 64]
    by (simp add: bytes_at_put_same)
qed

text \<open>
  C15: in an array sorted by the comparison function, \<open>bsearch\<close> returns a pointer to an element equal to the key if
  there is one, and NULL otherwise, for up to \<open>2 ^ 63 - 1\<close> elements; beyond, the sum of the two bounds would wrap.
\<close>

theorem bsearch_correct:
  assumes cmp: "comparator cmp es le" and es: "0 < es" "unat sz = es"
    and xs: "\<forall>x \<in> set xs. length x = es" "bytes_at m base (concat xs)" "sorted_wrt le xs"
    and n: "unat nmemb = length xs" "length xs < 2 ^ 63" "length xs * es < 2 ^ 64"
    and k: "bytes_at m key k" "length k = es"
  shows "if \<exists>x \<in> set xs. le k x \<and> le x k
    then \<exists>i < length xs. le k (xs ! i) \<and> le (xs ! i) k \<and> bsearch m key base nmemb sz cmp = Some (base + i * es)
    else bsearch m key base nmemb sz cmp = Some NULL"
proof -
  have r: "rows es xs" using xs(1) by (simp add: rows_def)
  have "bytes_at m (base + i * es) (xs ! i)" if "i < length xs" for i
    using arr_bytes [OF r that, of m base] xs(2) by (simp add: arr_same)
  note found = comparator.bsearch_finds [OF cmp r xs(3) k this es(2,1) n(2,3,1), unfolded comparator.equal_key_def [OF cmp]]
  have "(\<exists>x \<in> set xs. le k x \<and> le x k) \<longleftrightarrow> (\<exists>i < length xs. le k (xs ! i) \<and> le (xs ! i) k)"
    by (metis in_set_conv_nth)
  with found show ?thesis by (cases "\<exists>i < length xs. le k (xs ! i) \<and> le (xs ! i) k") (simp_all only: if_True if_False, blast+)
qed

theorem bsearch_correct_witness:
  "bsearch (put_bytes (put_bytes (\<lambda>_. None) 64 (concat table)) 128 [4]) 128 64 5 1 (memcmp_elements 1) = Some 66"
proof -
  let ?m = "put_bytes (put_bytes (\<lambda>_. None) 64 (concat table)) 128 [4]"
  have t: "\<forall>x \<in> set table. length x = 1" "length table = 5" "sorted_wrt bytes_le table" "\<exists>x \<in> set table. bytes_le [4] x \<and> bytes_le x [4]"
    by (simp_all add: table_def bytes_le_def)
  have "bytes_at ?m 64 (concat table)" "bytes_at ?m 128 [4]" by (simp_all add: table_def put_bytes_apply)
  from bsearch_correct [OF memcmp_order.comparator_axioms _ _ t(1) this(1) t(3) _ _ _ this(2), of 1 5] t(2,4)
  obtain i where i: "i < 5" "bytes_le [4] (table ! i)" "bytes_le (table ! i) [4]" "bsearch ?m 128 64 5 1 (memcmp_elements 1) = Some (64 + i)"
    by auto
  have "i = 0 \<or> i = 1 \<or> i = 2 \<or> i = 3 \<or> i = 4" using i(1) by linarith
  then have "i = 2" using i(2,3) by (auto simp: table_def bytes_le_def)
  then show ?thesis using i(4) by simp
qed

end
