(* ===== verification/Spec2Isabelle.thy ===== *)
theory Spec2Isabelle
  imports MemCopy MemFill MemScan StrScan StrCopy Xdr Calendar Strtol MallocSpec LocalTime PrintfSpec Asprintf Asctime QsortSpec
begin

text \<open>
  A verification library for picolibc, a C library for embedded systems.

  \<^bold>\<open>Parts and how they interact.\<close>  \<open>libc/string\<close> moves, fills, searches and compares memory
  and strings, by words where it can and by bytes where it must.  The allocator of
  \<open>libc/stdlib\<close> manages a heap obtained from \<open>sbrk\<close>, clears and moves blocks with \<open>memset\<close> and
  \<open>memcpy\<close>, and keeps its free list inside the memory it hands out.  \<open>libc/stdio\<close> formats and
  scans over streams; the streams of \<open>sprintf\<close>, \<open>sscanf\<close> and \<open>asprintf\<close> are strings in
  memory, the last of them growing through \<open>malloc\<close> and \<open>realloc\<close>.  \<open>libc/time\<close> converts between
  seconds and calendar dates; \<open>tzset\<close> parses the zone with \<open>sscanf\<close> and \<open>strtoul\<close>, \<open>asctime_r\<close>
  prints with \<open>snprintf\<close>.  \<open>libc/xdr\<close> encodes values for the network over a stream interface
  that is a table of function pointers.  \<open>libc/search\<close> sorts and searches arrays in memory through a comparison
  function of the caller, \<open>memcmp\<close> for instance.

  \<^bold>\<open>Target.\<close>  LP64, little-endian, strict alignment; word-at-a-time routines and the
  allocator without small buckets, as in the default build.  Of \<open>vfprintf\<close> and \<open>vfscanf\<close> it is the integer variants
  (\<open>format-default=integer\<close>); the default of the build is the variant that adds the
  floating conversions.  Definitions with suffix \<open>_small\<close> are the size-optimised branches of the same files.

  \<^bold>\<open>Modelling.\<close>  A call that touches memory returns an \<open>option\<close>: \<open>None\<close> is an access the machine
  refuses, behaviour the C standard leaves undefined (signed overflow, a read past a terminator) or a
  loop that does not end.  So \<open>f x = Some y\<close> says that the call returns, returns \<open>y\<close>, and
  made no such step, and every functional property below is also one of safety and termination.  Loops
  that stop at a byte or at the end of a linked list are \<open>partial_function (option)\<close>, so
  that not ending is \<open>None\<close>; counted loops are functions with a measure.  There is no fuel anywhere.
  Errors the code reports (\<open>NULL\<close>, \<open>EOF\<close>, \<open>errno\<close>) are values.

  \<^bold>\<open>Theories.\<close>
  \<^item> \<open>Prelude\<close>, \<open>CMem\<close>: words, the fault monad, byte-addressed memory, C strings in memory.
  \<^item> \<open>WordDetect\<close> (\<open>string/local.h\<close>): the tests for a zero byte and for a given byte in a word.
  \<^item> \<open>MemCopy\<close>, \<open>MemFill\<close>, \<open>MemScan\<close>, \<open>StrScan\<close>, \<open>StrCopy\<close> (\<open>libc/string\<close>): one function per
    loop of the C code, composed as the code composes them.  The locale \<open>bulk_copier\<close> is what \<open>memcpy\<close> needs
    of its loops, interpreted on the word loop, the unrolled loop and both in sequence; \<open>word_test\<close> is what a
    scan by words needs of its test, interpreted on the three tests the sources use.  The lemmas reduce
    every routine to \<open>blit\<close>, \<open>put_bytes\<close> or a function on the list of bytes, whatever the
    alignment and the overlap, and both builds of a routine to each other.
  \<^item> \<open>XdrMem\<close>, \<open>Xdr\<close> (\<open>libc/xdr\<close>): the memory streams and the filters.  The locale \<open>xdr_stream\<close> is the contract of
    the table of operations, interpreted on the aligned and the unaligned table; the wire format, the
    round trips and \<open>xdr_sizeof\<close> rest on it.
  \<^item> \<open>Malloc\<close> (\<open>local-malloc.h\<close>, \<open>malloc.c\<close>, \<open>free.c\<close>, \<open>realloc.c\<close>, \<open>calloc.c\<close>, \<open>memalign.c\<close> and their wrappers,
    \<open>libos/fallback/sbrk.c\<close>): the operations.  \<open>MallocHeap\<close>: the invariant \<open>heap_inv\<close>, which
    relates the heap to the list of its free chunks and the set of chunks in use.  \<open>MallocFree\<close>,
    \<open>MallocAlloc\<close>, \<open>MallocResize\<close>: each operation keeps it and, in terms of \<open>no_loss\<close>, loses no memory.  \<open>MallocSpec\<close>: the abstract
    allocator (first fit, ordered insertion with merging) they refine, the locale \<open>allocator\<close> with its
    interpretations on \<open>malloc\<close> and \<open>memalign\<close>, the step relation of programs that use the heap with its
    reachable states, and the properties.
  \<^item> \<open>StrFile\<close>, \<open>Scanf\<close> (\<open>vfscanf.c\<close>, \<open>sscanf.c\<close>), \<open>Strtol\<close> (\<open>strtoi.h\<close>): string streams for reading,
    formatted input, integer parsing.  The locale \<open>digit_step\<close> is what the digit loop needs of the overflow test,
    interpreted on the three tests the template is compiled with.
  \<^item> \<open>Printf\<close> (\<open>vfprintf.c\<close>, \<open>vfprintf_int.c\<close>, \<open>vfprintf_str.c\<close>, \<open>vfprintf_char.c\<close>, \<open>ultoa_invert.c\<close>,
    \<open>filestrput.c\<close>, \<open>fputs.c\<close>, \<open>fputc.c\<close>, \<open>sprintf.c\<close>, \<open>snprintf.c\<close> and their \<open>va_list\<close> forms): formatted output.
    \<open>PrintfText\<close>: the text each conversion stands for, and that the digit and padding loops produce it.
    \<open>PrintfSpec\<close>: the text of a whole format (\<open>format_text\<close>); the locale \<open>writer\<close> is what \<open>vfprintf\<close> and \<open>fputs\<close> need of a
    stream, with \<open>sink\<close> for streams without errors; interpretations on the bounded and the unbounded string
    stream; the round trips through \<open>Strtol\<close> and \<open>Scanf\<close>.
  \<^item> \<open>Asprintf\<close> (\<open>filestrputalloc.c\<close>, \<open>asprintf.c\<close>, \<open>vasprintf.c\<close>, \<open>vasnprintf.c\<close>, \<open>asnprintf.c\<close>): the formatter over
    the allocator.  The growing stream is a \<open>writer\<close> whose state carries the heap invariant.
  \<^item> \<open>Calendar\<close> (\<open>gmtime_r.c\<close>, \<open>mktime.c\<close>): seconds and dates, compared with the proleptic Gregorian
    calendar.  \<open>TimeZone\<close> (\<open>tzset.c\<close>, \<open>tzcalc_limits.c\<close>, \<open>lcltime_r.c\<close>, \<open>mktime.c\<close>) and \<open>LocalTime\<close>: the zones and
    their correctness.  \<open>Asctime\<close> (\<open>asctime_r.c\<close>, \<open>ctime_r.c\<close>): the text of a time.
  \<^item> \<open>Qsort\<close> (\<open>search/qsort.c\<close>, \<open>bsearch.c\<close>): quicksort with its parameter stack, and binary search, over addresses; the locale
    \<open>word_access\<close> is what exchanging a range by units needs of a load and a store, interpreted on the three units
    the code uses.  \<open>QsortSpec\<close>: the locale \<open>comparator\<close>, the contract of the caller's function, interpreted on \<open>memcmp\<close>, and under it
    that the sort returns a sorted permutation and the search finds what is there.

  \<^bold>\<open>Bounds.\<close>  The digit buffer of \<open>vfprintf\<close> has the 22 bytes of the source, which hold any 64-bit
  value in base eight.  Zone rules are shown correct for the years 1970 to 5800000, beyond which \<open>__tzcalc_limits\<close>
  overflows \<open>int\<close>; \<open>localtime_r\<close> and \<open>mktime\<close> for offsets of at most a day.  \<open>snprintf\<close> is treated for sizes below
  \<open>2 ^ 31\<close>: from there on \<open>FDEV_STRING_WRITE_END\<close> drops the bound.  The format, the string arguments of \<open>vfprintf\<close> and the input
  of \<open>sscanf\<close> are lists of characters; the character count of \<open>vfscanf\<close>, an \<open>int\<close> in the source, is unbounded
  here, a difference only beyond \<open>2 ^ 31\<close> characters.  Addresses and the sizes of arrays in \<open>Qsort\<close> are natural
  numbers: the arrays lie in memory.

  \<^bold>\<open>Not modelled.\<close>  Floating point (\<open>libm\<close>, the float variants of \<open>printf\<close> and \<open>scanf\<close>); positional arguments
  and wide characters of \<open>printf\<close>; buffered streams over file descriptors; locales, multibyte encodings and
  character class tables; \<open>strftime\<close> and \<open>strptime\<close>; regular expressions; search trees and hash tables; XDR streams over records and
  files; the assembly under \<open>machine\<close>; startup code and the host interfaces; locks and signals.  These rest on tables,
  on floating point, on callbacks into the host or on assembly.
\<close>

end
